(* ===== verification/Prelude.thy ===== *)
theory Prelude
  imports Main "HOL-Library.Char_ord" "HOL-Library.List_Lexorder"
begin

text \<open>
  The prelude of the library: what every component of the Officium model shares.

  \<^item> Rust's \<open>Result\<close>: a computation that may fail is a sum. The left summand is an
    \<open>exn\<close>: either an error value the source returns with \<open>Err\<close>, or the panic the
    source would raise at that point (an index out of range, an \<open>unwrap\<close> of nothing,
    an arithmetic overflow, \<open>unreachable!()\<close>). A theorem that a function never
    panics is then a theorem about its result.
  \<^item> \<open>and_then\<close> is the \<open>?\<close> operator: it goes on with the value or returns the error.
  \<^item> \<open>find_index\<close> is \<open>Iterator::find\<close> over an index range.
  \<^item> decimal printing of natural numbers, as \<open>format!("{}", n)\<close> prints them.
\<close>

datatype 'e exn = Raise 'e | Panicked

type_synonym ('e, 'a) result = "'e exn + 'a"

named_theorems step_simps \<open>one-step equations of the evaluators\<close>
named_theorems wf_intros \<open>operations keep their component's invariant\<close>

section \<open>Results\<close>

fun and_then :: "'x + 'a \<Rightarrow> ('a \<Rightarrow> 'x + 'b) \<Rightarrow> 'x + 'b" where
  "and_then (Inl x) f = Inl x"
| "and_then (Inr a) f = f a"

lemma and_then_cong [fundef_cong]:
  "r = r' \<Longrightarrow> (\<And>a. r' = Inr a \<Longrightarrow> f a = g a) \<Longrightarrow> and_then r f = and_then r' g"
  by (cases r') auto

lemma and_then_Inr_iff: "and_then r f = Inr b \<longleftrightarrow> (\<exists>a. r = Inr a \<and> f a = Inr b)"
  by (cases r) auto

lemma and_then_Inl_iff:
  "and_then r f = Inl x \<longleftrightarrow> r = Inl x \<or> (\<exists>a. r = Inr a \<and> f a = Inl x)"
  by (cases r) auto

lemma and_then_assoc: "and_then (and_then r f) g = and_then r (\<lambda>a. and_then (f a) g)"
  by (cases r) auto

text \<open>\<open>opt.ok_or(e)\<close>.\<close>

definition ok_or :: "'a option \<Rightarrow> 'e \<Rightarrow> ('e, 'a) result" where
  "ok_or opt e = (case opt of None \<Rightarrow> Inl (Raise e) | Some a \<Rightarrow> Inr a)"

lemma ok_or_simps [simp]: "ok_or None e = Inl (Raise e)" "ok_or (Some a) e = Inr a"
  by (simp_all add: ok_or_def)

lemma ok_or_not_panicked [simp]: "ok_or r e \<noteq> Inl Panicked"
  by (cases r) auto

text \<open>Slice indexing \<open>xs[i]\<close>: a panic outside the slice.\<close>

definition index :: "'a list \<Rightarrow> nat \<Rightarrow> ('e, 'a) result" where
  "index xs i = (if i < length xs then Inr (xs ! i) else Inl Panicked)"

lemma index_Inr [simp]: "i < length xs \<Longrightarrow> index xs i = Inr (xs ! i)"
  by (simp add: index_def)

lemma index_Inl_iff [simp]: "index xs i = Inl x \<longleftrightarrow> x = Panicked \<and> length xs \<le> i"
  by (auto simp: index_def)

section \<open>Which errors a computation can end with\<close>

text \<open>
  \<open>errs_in P r\<close>: every error of \<open>r\<close> satisfies \<open>P\<close>. The rules follow the shape of a
  computation, so that a fact about the errors of a whole function is one \<open>intro\<close> away from
  facts about its leaves.
\<close>

named_theorems errs_intros \<open>the errors of a computation, by its shape\<close>

definition errs_in :: "('x \<Rightarrow> bool) \<Rightarrow> 'x + 'a \<Rightarrow> bool" where
  "errs_in P r = (case r of Inl e \<Rightarrow> P e | Inr _ \<Rightarrow> True)"

lemma errs_in_Inr [errs_intros, simp]: "errs_in P (Inr a)"
  by (simp add: errs_in_def)

lemma errs_in_Inl [simp]: "errs_in P (Inl e) \<longleftrightarrow> P e"
  by (simp add: errs_in_def)

lemma errs_in_InlI [errs_intros]: "P e \<Longrightarrow> errs_in P (Inl e)"
  by simp

lemma errs_in_and_then [errs_intros]:
  "errs_in P r \<Longrightarrow> (\<And>a. r = Inr a \<Longrightarrow> errs_in P (f a)) \<Longrightarrow> errs_in P (and_then r f)"
  by (cases r) auto

lemma errs_in_if [errs_intros]:
  "(b \<Longrightarrow> errs_in P r) \<Longrightarrow> (\<not> b \<Longrightarrow> errs_in P r') \<Longrightarrow> errs_in P (if b then r else r')"
  by simp

lemma errs_in_index [errs_intros]:
  "(length xs \<le> i \<Longrightarrow> P Panicked) \<Longrightarrow> errs_in P (index xs i)"
  by (simp add: index_def)

lemma errs_in_ok_or [errs_intros]:
  "(opt = None \<Longrightarrow> P (Raise e)) \<Longrightarrow> errs_in P (ok_or opt e)"
  by (cases opt) auto

lemma errs_inD: "errs_in P r \<Longrightarrow> r = Inl e \<Longrightarrow> P e"
  by simp

lemma errs_in_mono: "errs_in P r \<Longrightarrow> (\<And>e. P e \<Longrightarrow> Q e) \<Longrightarrow> errs_in Q r"
  by (cases r) auto

section \<open>Searching\<close>

text \<open>\<open>iter.find(p)\<close> over an association list, as the tables of the program are.\<close>

fun find_index :: "(nat \<Rightarrow> bool) \<Rightarrow> nat \<Rightarrow> nat \<Rightarrow> nat option" where
  "find_index P i 0 = None"
| "find_index P i (Suc n) = (if P i then Some i else find_index P (Suc i) n)"

lemma find_index_Some:
  "find_index P i n = Some j \<Longrightarrow> i \<le> j \<and> j < i + n \<and> P j \<and> (\<forall>k. i \<le> k \<and> k < j \<longrightarrow> \<not> P k)"
proof (induction n arbitrary: i)
  case (Suc n)
  show ?case
  proof (cases "P i")
    case False
    with Suc.prems Suc.IH [of "Suc i"] show ?thesis
      by (auto simp: le_less_Suc_eq Suc_le_eq) (metis le_neq_implies_less)
  qed (use Suc.prems in auto)
qed simp

lemma find_index_None: "find_index P i n = None \<longleftrightarrow> (\<forall>k. i \<le> k \<and> k < i + n \<longrightarrow> \<not> P k)"
proof (induction n arbitrary: i)
  case (Suc n)
  show ?case
    using Suc.IH [of "Suc i"]
    by (auto simp: Suc_le_eq) (metis le_neq_implies_less)+
qed auto

lemma find_Some_mem: "find P xs = Some x \<Longrightarrow> x \<in> set xs \<and> P x"
  by (induction xs) (auto split: if_splits)

section \<open>Lists\<close>

lemma list_update_same_map: "f x = f (xs ! i) \<Longrightarrow> map f (xs[i := x]) = map f xs"
  by (cases "i < length xs") (auto simp: map_update list_update_same_conv list_update_beyond)

section \<open>Decimal printing\<close>

definition digit_char :: "nat \<Rightarrow> char" where
  "digit_char d = char_of (48 + d)"

fun show_nat :: "nat \<Rightarrow> string" where
  "show_nat n = (if n < 10 then [digit_char n] else show_nat (n div 10) @ [digit_char (n mod 10)])"

declare show_nat.simps [simp del]

lemma show_nat_nonempty [simp]: "show_nat n \<noteq> []"
  by (subst show_nat.simps) simp

end
