(* ===== verification/Float64.thy ===== *)
theory Float64
  imports Complex_Main Prelude "HOL-Library.Word"
begin

text \<open>
  Rust's \<open>f64\<close> (IEEE 754 binary64, round to nearest, ties to even), as far as the program
  uses it: \<open>+ - * /\<close>, unary minus, the comparisons, the literals, and the casts from and to
  \<open>u64\<close>. A finite number is a sign, a mantissa and an exponent of two, in the canonical
  form \<open>f64_wf\<close> (the mantissa below \<open>2^53\<close>, and at least \<open>2^52\<close> unless the exponent is the
  least one, \<open>-1074\<close>). All \<open>NaN\<close>s are one value: the program never looks at a payload.

  Every operation computes the exact rational result and rounds it once, with
  \<open>round_ratio\<close>; \<open>round_ratio_wf\<close> shows that the result is always canonical.
\<close>

datatype f64 = FNaN | FInf bool | FFin bool int int

definition f64_wf :: "f64 \<Rightarrow> bool" where
  "f64_wf x = (case x of
     FFin s m e \<Rightarrow> 0 \<le> m \<and> m < 2 ^ 53 \<and> -1074 \<le> e \<and> e \<le> 971 \<and> (2 ^ 52 \<le> m \<or> e = -1074)
   | _ \<Rightarrow> True)"

section \<open>Rounding\<close>

text \<open>\<open>nbits n\<close>: the number of binary digits of \<open>n\<close>.\<close>

function nbits :: "int \<Rightarrow> int" where
  "nbits n = (if n \<le> 0 then 0 else 1 + nbits (n div 2))"
  by pat_completeness auto
termination
  by (relation "measure nat") auto

declare nbits.simps [simp del]

text \<open>Quotient, remainder and divisor of \<open>(n / d) / 2^e\<close>.\<close>

definition ratio_at :: "int \<Rightarrow> int \<Rightarrow> int \<Rightarrow> int \<times> int \<times> int" where
  "ratio_at n d e =
     (let n' = (if e < 0 then n * 2 ^ nat (- e) else n);
          d' = (if e < 0 then d else d * 2 ^ nat e)
      in (n' div d', n' mod d', d'))"

definition round_even :: "int \<times> int \<times> int \<Rightarrow> int" where
  "round_even = (\<lambda>(q, r, d). if 2 * r < d \<or> 2 * r = d \<and> even q then q else q + 1)"

text \<open>The exponent that makes the quotient a 53-bit number, never below \<open>-1074\<close>.\<close>

definition ratio_exponent :: "int \<Rightarrow> int \<Rightarrow> int" where
  "ratio_exponent n d =
     (let e0 = nbits n - nbits d - 53;
          e1 = (if fst (ratio_at n d e0) < 2 ^ 53 then e0 else e0 + 1)
      in max e1 (-1074))"

text \<open>The number nearest to \<open>n / d\<close>, with sign \<open>s\<close>.\<close>

definition round_ratio :: "bool \<Rightarrow> int \<Rightarrow> int \<Rightarrow> f64" where
  "round_ratio s n d =
     (if n = 0 then FFin s 0 (-1074)
      else let e = ratio_exponent n d;
               m = round_even (ratio_at n d e);
               (m', e') = (if m = 2 ^ 53 then (2 ^ 52, e + 1) else (m, e))
           in if e' > 971 then FInf s else FFin s m' e')"

section \<open>Literals, casts\<close>

definition f64_zero :: f64 where
  "f64_zero = FFin False 0 (-1074)"

text \<open>The decimal literal \<open>m * 10^e\<close>.\<close>

definition f64_dec :: "int \<Rightarrow> int \<Rightarrow> f64" where
  "f64_dec m e =
     (if e < 0 then round_ratio (m < 0) \<bar>m\<bar> (10 ^ nat (- e))
      else round_ratio (m < 0) (\<bar>m\<bar> * 10 ^ nat e) 1)"

text \<open>\<open>x as f64\<close> for \<open>x: u64\<close>; \<open>x as f64\<close> for \<open>x: i64\<close>.\<close>

definition f64_of_u64 :: "64 word \<Rightarrow> f64" where
  "f64_of_u64 x = round_ratio False (uint x) 1"

definition f64_of_i64 :: "64 word \<Rightarrow> f64" where
  "f64_of_i64 x = round_ratio (sint x < 0) \<bar>sint x\<bar> 1"

text \<open>\<open>x as u64\<close>: truncation towards zero, saturating; \<open>NaN\<close> is 0.\<close>

definition u64_of_f64 :: "f64 \<Rightarrow> 64 word" where
  "u64_of_f64 x = (case x of
     FNaN \<Rightarrow> 0
   | FInf s \<Rightarrow> (if s then 0 else - 1)
   | FFin s m e \<Rightarrow>
       (if s then 0
        else let t = (if e < 0 then m div 2 ^ nat (- e) else m * 2 ^ nat e)
             in if t \<ge> 2 ^ 64 then - 1 else word_of_int t))"

section \<open>Arithmetic\<close>

fun f64_neg :: "f64 \<Rightarrow> f64" where
  "f64_neg FNaN = FNaN"
| "f64_neg (FInf s) = FInf (\<not> s)"
| "f64_neg (FFin s m e) = FFin (\<not> s) m e"

definition signed_mant :: "bool \<Rightarrow> int \<Rightarrow> int" where
  "signed_mant s m = (if s then - m else m)"

text \<open>Round \<open>v * 2^e\<close>; an exact zero gets the sign \<open>z\<close>.\<close>

definition round_scaled :: "bool \<Rightarrow> int \<Rightarrow> int \<Rightarrow> f64" where
  "round_scaled z v e =
     (if v = 0 then FFin z 0 (-1074)
      else if e < 0 then round_ratio (v < 0) \<bar>v\<bar> (2 ^ nat (- e))
      else round_ratio (v < 0) (\<bar>v\<bar> * 2 ^ nat e) 1)"

fun f64_add :: "f64 \<Rightarrow> f64 \<Rightarrow> f64" where
  "f64_add (FFin s1 m1 e1) (FFin s2 m2 e2) =
     (let e = min e1 e2
      in round_scaled (s1 \<and> s2)
           (signed_mant s1 m1 * 2 ^ nat (e1 - e) + signed_mant s2 m2 * 2 ^ nat (e2 - e)) e)"
| "f64_add FNaN _ = FNaN"
| "f64_add _ FNaN = FNaN"
| "f64_add (FInf s1) (FInf s2) = (if s1 = s2 then FInf s1 else FNaN)"
| "f64_add (FInf s1) (FFin _ _ _) = FInf s1"
| "f64_add (FFin _ _ _) (FInf s2) = FInf s2"

definition f64_sub :: "f64 \<Rightarrow> f64 \<Rightarrow> f64" where
  "f64_sub x y = f64_add x (f64_neg y)"

fun f64_mul :: "f64 \<Rightarrow> f64 \<Rightarrow> f64" where
  "f64_mul (FFin s1 m1 e1) (FFin s2 m2 e2) =
     round_scaled (s1 \<noteq> s2) (signed_mant s1 m1 * signed_mant s2 m2) (e1 + e2)"
| "f64_mul FNaN _ = FNaN"
| "f64_mul _ FNaN = FNaN"
| "f64_mul (FInf s1) (FInf s2) = FInf (s1 \<noteq> s2)"
| "f64_mul (FInf s1) (FFin s2 m2 _) = (if m2 = 0 then FNaN else FInf (s1 \<noteq> s2))"
| "f64_mul (FFin s1 m1 _) (FInf s2) = (if m1 = 0 then FNaN else FInf (s1 \<noteq> s2))"

fun f64_div :: "f64 \<Rightarrow> f64 \<Rightarrow> f64" where
  "f64_div (FFin s1 m1 e1) (FFin s2 m2 e2) =
     (if m2 = 0 then (if m1 = 0 then FNaN else FInf (s1 \<noteq> s2))
      else if e1 - e2 < 0 then round_ratio (s1 \<noteq> s2) m1 (m2 * 2 ^ nat (e2 - e1))
      else round_ratio (s1 \<noteq> s2) (m1 * 2 ^ nat (e1 - e2)) m2)"
| "f64_div FNaN _ = FNaN"
| "f64_div _ FNaN = FNaN"
| "f64_div (FInf _) (FInf _) = FNaN"
| "f64_div (FInf s1) (FFin s2 _ _) = FInf (s1 \<noteq> s2)"
| "f64_div (FFin s1 _ _) (FInf s2) = FFin (s1 \<noteq> s2) 0 (-1074)"

section \<open>Comparisons\<close>

text \<open>\<open>NaN\<close> is unordered, and \<open>-0 == 0\<close>.\<close>

fun f64_lt :: "f64 \<Rightarrow> f64 \<Rightarrow> bool" where
  "f64_lt (FFin s1 m1 e1) (FFin s2 m2 e2) =
     (let e = min e1 e2
      in signed_mant s1 m1 * 2 ^ nat (e1 - e) < signed_mant s2 m2 * 2 ^ nat (e2 - e))"
| "f64_lt FNaN _ = False"
| "f64_lt _ FNaN = False"
| "f64_lt (FInf s1) (FInf s2) = (s1 \<and> \<not> s2)"
| "f64_lt (FInf s1) (FFin _ _ _) = s1"
| "f64_lt (FFin _ _ _) (FInf s2) = (\<not> s2)"

fun f64_eq :: "f64 \<Rightarrow> f64 \<Rightarrow> bool" where
  "f64_eq (FFin s1 m1 e1) (FFin s2 m2 e2) =
     (let e = min e1 e2
      in signed_mant s1 m1 * 2 ^ nat (e1 - e) = signed_mant s2 m2 * 2 ^ nat (e2 - e))"
| "f64_eq (FInf s1) (FInf s2) = (s1 = s2)"
| "f64_eq _ _ = False"

definition f64_le :: "f64 \<Rightarrow> f64 \<Rightarrow> bool" where
  "f64_le x y = (f64_lt x y \<or> f64_eq x y)"

section \<open>The results are canonical\<close>

lemma nbits_bounds: "0 < n \<Longrightarrow> 0 < nbits n \<and> 2 ^ nat (nbits n - 1) \<le> n \<and> n < 2 ^ nat (nbits n)"
proof (induction n rule: nbits.induct)
  case (1 n)
  show ?case
  proof (cases "n = 1")
    case True
    have "nbits 1 = 1" by (simp add: nbits.simps)
    with True show ?thesis by simp
  next
    case False
    with "1.prems" have n: "1 < n" by simp
    then have "0 < n div 2" by simp
    with "1.IH" "1.prems"
    have IH: "0 < nbits (n div 2)" "2 ^ nat (nbits (n div 2) - 1) \<le> n div 2"
      "n div 2 < 2 ^ nat (nbits (n div 2))" by auto
    have eq: "nbits n = 1 + nbits (n div 2)"
      using n by (subst nbits.simps) simp
    have s: "nat (nbits n - 1) = Suc (nat (nbits (n div 2) - 1))"
      "nat (nbits n) = Suc (nat (nbits (n div 2)))"
      using IH(1) eq by auto
    have "2 * (n div 2) \<le> n" "n < 2 * (n div 2) + 2" by auto
    with IH eq show ?thesis unfolding s power_Suc by linarith
  qed
qed

text \<open>The quotient at exponent \<open>e\<close>, as a real number rounded down.\<close>

lemma ratio_at_floor:
  assumes "0 < d"
  shows "fst (ratio_at n d e) = \<lfloor>(real_of_int n / real_of_int d) / 2 powi e\<rfloor>"
proof (cases "e < 0")
  case True
  then have p: "(2::real) powi e = 1 / 2 ^ nat (- e)"
    by (simp add: power_int_def field_simps)
  have "(real_of_int n / real_of_int d) / 2 powi e
      = real_of_int (n * 2 ^ nat (- e)) / real_of_int d"
    unfolding p by simp
  then show ?thesis
    using True by (simp only: floor_divide_of_int_eq) (simp add: ratio_at_def Let_def)
next
  case False
  then have "(real_of_int n / real_of_int d) / 2 powi e
      = real_of_int n / real_of_int (d * 2 ^ nat e)"
    by (simp add: power_int_def)
  then show ?thesis
    using False by (simp only: floor_divide_of_int_eq) (simp add: ratio_at_def Let_def)
qed

lemma ratio_at_mono:
  assumes "0 < d" "0 \<le> n" "e \<le> e'"
  shows "fst (ratio_at n d e') \<le> fst (ratio_at n d e)"
proof -
  have "(2::real) powi e \<le> 2 powi e'"
    using assms(3) by (intro power_int_increasing) auto
  then have "(real_of_int n / real_of_int d) / 2 powi e' \<le> (real_of_int n / real_of_int d) / 2 powi e"
    using assms(1,2) by (intro divide_left_mono) (auto intro!: mult_pos_pos)
  then show ?thesis
    by (simp only: ratio_at_floor [OF assms(1)] floor_mono)
qed

lemma powi_nat: "0 \<le> k \<Longrightarrow> (2::real) powi k = of_int (2 ^ nat k)"
  by (simp add: power_int_def)

lemma powi_add: "(2::real) powi (j + k) = 2 powi j * 2 powi k"
  by (simp add: power_int_add)

lemma ratio_at_start:
  assumes n: "0 < n" and d: "0 < d" and e: "e = nbits n - nbits d - 53"
  shows "2 ^ 52 \<le> fst (ratio_at n d e)" "fst (ratio_at n d e) < 2 ^ 54"
proof -
  let ?a = "nbits n" and ?b = "nbits d"
  have a: "(2::real) powi (?a - 1) \<le> of_int n" "of_int n < (2::real) powi ?a" "0 < ?a"
    using nbits_bounds [OF n] by (auto simp: powi_nat simp del: of_int_power)
  have b: "(2::real) powi (?b - 1) \<le> of_int d" "of_int d < (2::real) powi ?b" "0 < ?b"
    using nbits_bounds [OF d] by (auto simp: powi_nat simp del: of_int_power)
  have d0: "0 < real_of_int d" using d by simp
  have "2 powi 52 * (real_of_int d * 2 powi e) \<le> 2 powi 52 * (2 powi ?b * 2 powi e)"
    using b(2) by (intro mult_left_mono mult_right_mono) auto
  also have "\<dots> = (2::real) powi (52 + (?b + e))"
    by (simp only: powi_add)
  also have "52 + (?b + e) = ?a - 1"
    using e by simp
  finally have "2 powi 52 * (real_of_int d * 2 powi e) \<le> of_int n" using a(1) by linarith
  then have lo: "2 ^ 52 \<le> real_of_int n / real_of_int d / 2 powi e"
    using d0 by (simp add: field_simps power_int_def)
  have "?a = 54 + (?b - 1 + e)" using e by simp
  with a(2) have "real_of_int n < (2::real) powi (54 + (?b - 1 + e))" by simp
  also have "\<dots> = 2 powi 54 * (2 powi (?b - 1) * 2 powi e)"
    by (simp only: powi_add)
  also have "\<dots> \<le> 2 powi 54 * (real_of_int d * 2 powi e)"
    using b(1) by (intro mult_left_mono mult_right_mono) auto
  finally have "real_of_int n < 2 powi 54 * (real_of_int d * 2 powi e)" .
  then have hi: "real_of_int n / real_of_int d / 2 powi e < 2 ^ 54"
    using d0 by (simp add: field_simps power_int_def)
  show "2 ^ 52 \<le> fst (ratio_at n d e)"
    using lo by (simp add: ratio_at_floor [OF d] le_floor_iff)
  show "fst (ratio_at n d e) < 2 ^ 54"
    using hi by (simp add: ratio_at_floor [OF d] floor_less_iff)
qed

lemma ratio_at_Suc:
  assumes "0 < d"
  shows "fst (ratio_at n d (e + 1)) = fst (ratio_at n d e) div 2"
proof -
  have "\<lfloor>(real_of_int n / real_of_int d / 2 powi e) / real_of_int 2\<rfloor>
      = \<lfloor>real_of_int n / real_of_int d / 2 powi e\<rfloor> div 2"
    by (rule floor_divide_real_eq_div) simp
  moreover have "(2::real) powi (e + 1) = 2 powi e * 2"
    by (simp add: powi_add)
  ultimately show ?thesis
    by (simp add: ratio_at_floor [OF assms] field_simps)
qed

lemma ratio_exponent_quotient:
  assumes n: "0 < n" and d: "0 < d" and e: "e = ratio_exponent n d"
  shows "- 1074 \<le> e" "fst (ratio_at n d e) < 2 ^ 53"
    "e = - 1074 \<or> 2 ^ 52 \<le> fst (ratio_at n d e)"
proof -
  define e0 where "e0 = nbits n - nbits d - 53"
  define e1 where "e1 = (if fst (ratio_at n d e0) < 2 ^ 53 then e0 else e0 + 1)"
  have start: "2 ^ 52 \<le> fst (ratio_at n d e0)" "fst (ratio_at n d e0) < 2 ^ 54"
    using ratio_at_start [OF n d e0_def] by auto
  have e1: "2 ^ 52 \<le> fst (ratio_at n d e1)" "fst (ratio_at n d e1) < 2 ^ 53"
    using start by (auto simp: e1_def ratio_at_Suc [OF d])
  have e': "e = max e1 (- 1074)"
    by (simp add: e ratio_exponent_def Let_def e0_def e1_def)
  show "- 1074 \<le> e" using e' by simp
  have "fst (ratio_at n d e) \<le> fst (ratio_at n d e1)"
    using n d e' by (intro ratio_at_mono) auto
  with e1 show "fst (ratio_at n d e) < 2 ^ 53" by linarith
  show "e = - 1074 \<or> 2 ^ 52 \<le> fst (ratio_at n d e)"
    using e' e1(1) by (auto simp: max_def)
qed

lemma round_even_bounds: "fst t \<le> round_even t \<and> round_even t \<le> fst t + 1"
  by (cases t) (auto simp: round_even_def)

lemma round_ratio_wf: "0 \<le> n \<Longrightarrow> 0 < d \<Longrightarrow> f64_wf (round_ratio s n d)"
proof (cases "n = 0")
  case False
  assume "0 \<le> n" and d: "0 < d"
  with False have n: "0 < n" by simp
  define e where "e = ratio_exponent n d"
  define m where "m = round_even (ratio_at n d e)"
  note q = ratio_exponent_quotient [OF n d e_def]
  have "0 \<le> fst (ratio_at n d e)"
    using n d by (simp add: ratio_at_def Let_def pos_imp_zdiv_nonneg_iff)
  then have m: "0 \<le> m" "m \<le> 2 ^ 53" "e = - 1074 \<or> 2 ^ 52 \<le> m"
    using round_even_bounds [of "ratio_at n d e"] q unfolding m_def by auto
  show ?thesis
    using False m q(1)
    by (auto simp: round_ratio_def Let_def f64_wf_def simp flip: e_def m_def)
qed (simp add: round_ratio_def f64_wf_def)

lemma round_scaled_wf [simp]: "f64_wf (round_scaled z v e)"
  by (auto simp: round_scaled_def f64_wf_def [of "FFin _ 0 _"] intro!: round_ratio_wf)

lemma f64_neg_wf: "f64_wf x \<Longrightarrow> f64_wf (f64_neg x)"
  by (cases x) (auto simp: f64_wf_def)

lemma f64_add_wf: "f64_wf x \<Longrightarrow> f64_wf y \<Longrightarrow> f64_wf (f64_add x y)"
  by (induction x y rule: f64_add.induct) (auto simp: Let_def, auto simp: f64_wf_def)

lemma f64_sub_wf: "f64_wf x \<Longrightarrow> f64_wf y \<Longrightarrow> f64_wf (f64_sub x y)"
  by (simp add: f64_sub_def f64_add_wf f64_neg_wf)

lemma f64_mul_wf: "f64_wf x \<Longrightarrow> f64_wf y \<Longrightarrow> f64_wf (f64_mul x y)"
  by (induction x y rule: f64_mul.induct) (auto, auto simp: f64_wf_def)

lemma f64_div_wf: "f64_wf x \<Longrightarrow> f64_wf y \<Longrightarrow> f64_wf (f64_div x y)"
  by (induction x y rule: f64_div.induct)
    (auto simp: f64_wf_def [of "FFin _ _ _"] intro!: round_ratio_wf, auto simp: f64_wf_def)

lemma f64_dec_wf [simp]: "f64_wf (f64_dec m e)"
  by (auto simp: f64_dec_def intro!: round_ratio_wf)

lemma f64_of_u64_wf [simp]: "f64_wf (f64_of_u64 x)"
  by (auto simp: f64_of_u64_def intro!: round_ratio_wf)

lemmas f64_wf_ops =
  f64_neg_wf f64_add_wf f64_sub_wf f64_mul_wf f64_div_wf f64_dec_wf f64_of_u64_wf

end
