(* ===== verification/Types.thy ===== *)
theory Types
  imports Float64
begin

text \<open>
  The data of the language: \<open>officium-core/src/types.rs\<close> and the Core IR of
  \<open>officium-core/src/ir.rs\<close>.

  \<^item> the eight modes, their finals, their transformer towers and the operations they allow;
  \<^item> the physics side (vectors, gravity commands, plans, deflection fields);
  \<^item> runtime values, expressions and lexical scopes, which are mutually recursive: a closure
    carries an expression and a scope, an expression carries literal values;
  \<^item> \<open>Dissonance\<close>. Its \<open>OutOfFuel\<close> carries a machine continuation, which the machine
    defines later: it is the type parameter \<open>'k\<close>.

  The constructors of an enum carry the enum's letter (\<open>E\<close> for \<open>Expr\<close>, \<open>V\<close> for
  \<open>Value\<close>, \<open>K\<close> for \<open>LayerKind\<close>, \<open>Op\<close> for \<open>OpKind\<close>, \<open>D\<close> for \<open>Dissonance\<close>),
  since Isabelle has no name spaces for them. \<open>Rc\<close> and \<open>Box\<close> are invisible: nothing is
  mutated through them. A \<open>BTreeMap\<close> is the list of its entries in key order.
\<close>

section \<open>Modes and towers\<close>

datatype final = Re | Mi | Fa | Sol

datatype mode =
  Dorian | Hypodorian | Phrygian | Hypophrygian
| Lydian | Hypolydian | Mixolydian | Hypomixolydian

datatype op_kind =
  Op_Nihil | Op_Clama | Op_Recipe | Op_Lege | Op_Pone | Op_Mitte | Op_Perage | Op_Lift

datatype layer_kind = K_Maybe | K_Except | K_State | K_Writer | K_Commit

fun final_of :: "mode \<Rightarrow> final" where
  "final_of Dorian = Re"
| "final_of Hypodorian = Re"
| "final_of Phrygian = Mi"
| "final_of Hypophrygian = Mi"
| "final_of Lydian = Fa"
| "final_of Hypolydian = Fa"
| "final_of Mixolydian = Sol"
| "final_of Hypomixolydian = Sol"

definition is_plagal :: "mode \<Rightarrow> bool" where
  "is_plagal m = (case m of
     Hypodorian \<Rightarrow> True | Hypophrygian \<Rightarrow> True | Hypolydian \<Rightarrow> True | Hypomixolydian \<Rightarrow> True
   | _ \<Rightarrow> False)"

fun from_final :: "final \<Rightarrow> bool \<Rightarrow> mode" where
  "from_final Re False = Dorian"
| "from_final Re True = Hypodorian"
| "from_final Mi False = Phrygian"
| "from_final Mi True = Hypophrygian"
| "from_final Fa False = Lydian"
| "from_final Fa True = Hypolydian"
| "from_final Sol False = Mixolydian"
| "from_final Sol True = Hypomixolydian"

text \<open>The transformer tower of a mode, top layer first.\<close>

fun mode_tower :: "mode \<Rightarrow> layer_kind list" where
  "mode_tower Dorian = [K_Maybe]"
| "mode_tower Hypodorian = [K_Maybe, K_Maybe]"
| "mode_tower Phrygian = [K_Except]"
| "mode_tower Hypophrygian = [K_Except, K_Except]"
| "mode_tower Lydian = [K_State]"
| "mode_tower Hypolydian = [K_State, K_State]"
| "mode_tower Mixolydian = [K_Commit]"
| "mode_tower Hypomixolydian = [K_Writer]"

fun allows :: "mode \<Rightarrow> op_kind \<Rightarrow> bool" where
  "allows m Op_Nihil = (K_Maybe \<in> set (mode_tower m))"
| "allows m Op_Clama = (K_Except \<in> set (mode_tower m))"
| "allows m Op_Recipe = (K_Except \<in> set (mode_tower m))"
| "allows m Op_Lege = (K_State \<in> set (mode_tower m))"
| "allows m Op_Pone = (K_State \<in> set (mode_tower m))"
| "allows m Op_Mitte = (K_Writer \<in> set (mode_tower m))"
| "allows m Op_Perage = (K_Commit \<in> set (mode_tower m))"
| "allows m Op_Lift = (length (mode_tower m) > 1)"

section \<open>Plans\<close>

type_synonym sym = string
type_synonym genus = string
type_synonym body_id = "64 word"
type_synonym micros = "64 word"

record vec3 =
  vec_x :: f64
  vec_y :: f64
  vec_z :: f64

definition along_x :: "f64 \<Rightarrow> vec3" where
  "along_x x = \<lparr>vec_x = x, vec_y = f64_zero, vec_z = f64_zero\<rparr>"

record gravity_cmd =
  cmd_target :: body_id
  cmd_dv :: vec3
  cmd_at :: micros

type_synonym plan = "gravity_cmd list"

definition plan_empty :: plan where
  "plan_empty = []"

definition plan_append :: "plan \<Rightarrow> plan \<Rightarrow> plan" where
  "plan_append p q = p @ q"

record dfield =
  fld_target :: body_id
  fld_dv :: vec3
  fld_at :: micros

section \<open>Values and expressions\<close>

datatype val =
  VUnit
| VNum f64
| VBool bool
| VGenus genus
| VStr string
| VClosure sym expr "(sym \<times> val) list"
| VBuiltin sym "val list"
| VCmd gravity_cmd
| VPlan plan
| VField dfield
| VRecord "(sym \<times> val) list"
and expr =
  EVar sym
| ELam sym expr
| EApp expr expr
| ELit val
| EIf expr expr expr
| EFix expr
| EPure mode expr
| EReturn mode expr
| EBind mode expr sym expr
| EArg
| EAsk sym
| EResolve sym expr
| ENihil
| EClama expr
| ERecipe expr sym expr
| ELege
| EPone expr
| EMitte expr
| EPerage expr
| ELift expr

type_synonym scope = "(sym \<times> val) list"

definition scope_bind :: "scope \<Rightarrow> sym \<Rightarrow> val \<Rightarrow> scope" where
  "scope_bind s name v = (name, v) # s"

fun scope_lookup :: "scope \<Rightarrow> sym \<Rightarrow> val option" where
  "scope_lookup [] name = None"
| "scope_lookup ((n, v) # nxt) name = (if n = name then Some v else scope_lookup nxt name)"

fun ty :: "val \<Rightarrow> string" where
  "ty VUnit = ''unit''"
| "ty (VNum _) = ''num''"
| "ty (VBool _) = ''bool''"
| "ty (VGenus _) = ''genus''"
| "ty (VStr _) = ''str''"
| "ty (VClosure _ _ _) = ''closure''"
| "ty (VBuiltin _ _) = ''builtin''"
| "ty (VCmd _) = ''cmd''"
| "ty (VPlan _) = ''plan''"
| "ty (VField _) = ''field''"
| "ty (VRecord _) = ''record''"

section \<open>Equality of values\<close>

definition vec3_eq :: "vec3 \<Rightarrow> vec3 \<Rightarrow> bool" where
  "vec3_eq a b = (f64_eq (vec_x a) (vec_x b) \<and> f64_eq (vec_y a) (vec_y b) \<and> f64_eq (vec_z a) (vec_z b))"

definition cmd_eq :: "gravity_cmd \<Rightarrow> gravity_cmd \<Rightarrow> bool" where
  "cmd_eq a b = (cmd_target a = cmd_target b \<and> vec3_eq (cmd_dv a) (cmd_dv b) \<and> cmd_at a = cmd_at b)"

definition plan_eq :: "plan \<Rightarrow> plan \<Rightarrow> bool" where
  "plan_eq p q = (length p = length q \<and> list_all (\<lambda>(a, b). cmd_eq a b) (zip p q))"

definition field_eq :: "dfield \<Rightarrow> dfield \<Rightarrow> bool" where
  "field_eq a b = (fld_target a = fld_target b \<and> vec3_eq (fld_dv a) (fld_dv b) \<and> fld_at a = fld_at b)"

text \<open>
  \<open>impl PartialEq for Value\<close>: values of different constructors, closures and builtins never
  compare equal; records compare entry by entry in key order, as \<open>BTreeMap\<close>s do.
\<close>

function val_eq :: "val \<Rightarrow> val \<Rightarrow> bool" where
  "val_eq VUnit w = (case w of VUnit \<Rightarrow> True | _ \<Rightarrow> False)"
| "val_eq (VNum a) w = (case w of VNum b \<Rightarrow> f64_eq a b | _ \<Rightarrow> False)"
| "val_eq (VBool a) w = (case w of VBool b \<Rightarrow> a = b | _ \<Rightarrow> False)"
| "val_eq (VGenus a) w = (case w of VGenus b \<Rightarrow> a = b | _ \<Rightarrow> False)"
| "val_eq (VStr a) w = (case w of VStr b \<Rightarrow> a = b | _ \<Rightarrow> False)"
| "val_eq (VCmd a) w = (case w of VCmd b \<Rightarrow> cmd_eq a b | _ \<Rightarrow> False)"
| "val_eq (VPlan a) w = (case w of VPlan b \<Rightarrow> plan_eq a b | _ \<Rightarrow> False)"
| "val_eq (VField a) w = (case w of VField b \<Rightarrow> field_eq a b | _ \<Rightarrow> False)"
| "val_eq (VRecord a) w = (case w of
     VRecord b \<Rightarrow>
       length a = length b \<and> list_all (\<lambda>(x, y). fst x = fst y \<and> val_eq (snd x) (snd y)) (zip a b)
   | _ \<Rightarrow> False)"
| "val_eq (VClosure p b e) w = False"
| "val_eq (VBuiltin n as) w = False"
  by pat_completeness auto

lemma size_record_entry:
  "(x, y) \<in> set (zip a b) \<Longrightarrow> size (snd x) < size_list (size_prod (\<lambda>_. 0) size) a"
  by (cases x) (auto dest!: set_zip_leftD intro: size_list_estimation)

termination val_eq
  by (relation "measure (\<lambda>(v, w). size v)") (auto dest!: size_record_entry)

section \<open>Records\<close>

text \<open>A record value is a \<open>BTreeMap\<close>: \<open>insert\<close> keeps the keys sorted and distinct.\<close>

fun record_insert :: "sym \<Rightarrow> val \<Rightarrow> (sym \<times> val) list \<Rightarrow> (sym \<times> val) list" where
  "record_insert k v [] = [(k, v)]"
| "record_insert k v ((k', v') # m) =
     (if k < k' then (k, v) # (k', v') # m
      else if k = k' then (k, v) # m
      else (k', v') # record_insert k v m)"

text \<open>\<open>machine::empty_state\<close>: the fresh named-slot state.\<close>

definition empty_state :: val where
  "empty_state = VRecord []"

section \<open>Dissonance\<close>

datatype 'k dissonance =
  D_WrongMode mode op_kind
| D_Unresolved sym genus
| D_Silent
| D_User val
| D_Dissonant string string
| D_Premature
| D_Unconsecrated
| D_UnboundVar sym
| D_Discors sym string
| D_OutOfFuel 'k
| D_Parse nat string

fun is_failure :: "'k dissonance \<Rightarrow> bool" where
  "is_failure D_Silent = False"
| "is_failure (D_OutOfFuel _) = False"
| "is_failure _ = True"

section \<open>Lemmas\<close>

text \<open>The eight modes as a finite class: a statement about every mode is computed.\<close>

instantiation mode :: enum
begin

definition enum_mode :: "mode list" where
  "enum_mode = [Dorian, Hypodorian, Phrygian, Hypophrygian, Lydian, Hypolydian, Mixolydian, Hypomixolydian]"

definition enum_all_mode :: "(mode \<Rightarrow> bool) \<Rightarrow> bool" where
  "enum_all_mode P = list_all P enum_class.enum"

definition enum_ex_mode :: "(mode \<Rightarrow> bool) \<Rightarrow> bool" where
  "enum_ex_mode P = list_ex P enum_class.enum"

instance
proof
  show univ: "UNIV = set (enum_class.enum :: mode list)"
    by (auto simp: enum_mode_def intro: mode.exhaust)
  show "distinct (enum_class.enum :: mode list)" by (simp add: enum_mode_def)
  show "enum_class.enum_all P = Ball UNIV P" for P :: "mode \<Rightarrow> bool"
    unfolding univ by (simp add: enum_all_mode_def list_all_iff)
  show "enum_class.enum_ex P = Bex UNIV P" for P :: "mode \<Rightarrow> bool"
    unfolding univ by (simp add: enum_ex_mode_def list_ex_iff)
qed

end

lemma final_and_plagal: "\<forall>m. from_final (final_of m) (is_plagal m) = m"
  by code_simp

lemma one_mode_commits: "\<forall>m. allows m Op_Perage = (m = Mixolydian)"
  by code_simp

lemma one_mode_plans: "\<forall>m. allows m Op_Mitte = (m = Hypomixolydian)"
  by code_simp

lemma from_final_final_of [simp]: "from_final (final_of m) (is_plagal m) = m"
  using final_and_plagal by blast

lemma final_of_from_final [simp]: "final_of (from_final f p) = f"
  by (cases f; cases p) auto

lemma is_plagal_from_final [simp]: "is_plagal (from_final f p) = p"
  by (cases f; cases p) (auto simp: is_plagal_def)

lemma mode_tower_nonempty [simp]: "mode_tower m \<noteq> []"
  by (cases m) auto

lemma scope_lookup_bind [simp]:
  "scope_lookup (scope_bind s n v) x = (if n = x then Some v else scope_lookup s x)"
  by (simp add: scope_bind_def)

lemma scope_lookup_map_of: "scope_lookup s = map_of s"
  by (induction s) (auto simp: fun_eq_iff)

lemma record_insert_lookup:
  "sorted (map fst m) \<Longrightarrow> map_of (record_insert k v m) = (map_of m)(k \<mapsto> v)"
proof (induction m)
  case (Cons a m)
  obtain k' v' where a: "a = (k', v')" by (cases a)
  have "k \<notin> set (map fst (a # m))" if "k < k'"
    using that Cons.prems a by auto
  then show ?case using Cons a by (auto simp: fun_eq_iff)
qed simp

lemma record_insert_keys: "fst ` set (record_insert k v m) = insert k (fst ` set m)"
  by (induction k v m rule: record_insert.induct) auto

lemma record_insert_sorted:
  "sorted_wrt (<) (map fst m) \<Longrightarrow> sorted_wrt (<) (map fst (record_insert k v m))"
proof (induction k v m rule: record_insert.induct)
  case (2 k v k' v' m)
  have "k' < fst x" if "fst x \<in> insert k (fst ` set m)" "\<not> k < k'" "k \<noteq> k'" for x :: "sym \<times> val"
    using that "2.prems" by (auto simp: not_less)
  moreover have "fst x \<in> insert k (fst ` set m)" if "x \<in> set (record_insert k v m)" for x
    using imageI [OF that, of fst] by (simp only: record_insert_keys)
  moreover have "k < fst x" if "x \<in> set m" "k < k'" for x
    using that "2.prems" by (auto intro: less_trans)
  ultimately show ?case
    using 2 by auto
qed simp

end
