(* ===== verification/Env.thy ===== *)
theory Env
  imports Types
begin

text \<open>
  The fugue and the Reader environment compiled from it: \<open>officium-core/src/env.rs\<close>.
  A fugue's tables are lists, as the source's vectors are: order and duplicates matter, since
  every lookup takes the first entry. The lemmas say what a lookup returns: the first
  matching entry over the fugues in order, a real answer before any tonal one.
\<close>

record fugue =
  fug_name :: sym
  fug_final :: final
  fug_pedals :: "(sym \<times> val) list"
  fug_subject :: "(sym \<times> sym \<times> expr) option"
  fug_real :: "((sym \<times> genus) \<times> expr) list"
  fug_tonal :: "((sym \<times> genus) \<times> expr) list"
  fug_contra :: "expr list"

definition fugue_new :: "sym \<Rightarrow> final \<Rightarrow> fugue" where
  "fugue_new name f =
     \<lparr>fug_name = name, fug_final = f, fug_pedals = [], fug_subject = None,
      fug_real = [], fug_tonal = [], fug_contra = []\<rparr>"

record versus =
  ver_name :: sym
  ver_mode :: mode
  ver_body :: expr
  ver_rhymes :: "(char \<times> string) list"

record program =
  prog_fugues :: "fugue list"
  prog_verses :: "versus list"

definition program_default :: program where
  "program_default = \<lparr>prog_fugues = [], prog_verses = []\<rparr>"

definition prog_verse :: "program \<Rightarrow> sym \<Rightarrow> versus option" where
  "prog_verse p name = find (\<lambda>v. ver_name v = name) (prog_verses p)"

record env =
  env_pedals :: "(sym \<times> val) list"
  env_real :: "((sym \<times> genus) \<times> expr) list"
  env_tonal :: "((sym \<times> genus) \<times> expr) list"
  env_contra :: "expr list"
  env_subjects :: "(sym \<times> sym \<times> expr) list"

definition env_default :: env where
  "env_default = \<lparr>env_pedals = [], env_real = [], env_tonal = [], env_contra = [], env_subjects = []\<rparr>"

text \<open>One round of the loop of \<open>Env::from_fugues\<close>.\<close>

definition env_extend :: "env \<Rightarrow> fugue \<Rightarrow> env" where
  "env_extend env f =
     env\<lparr>env_pedals := env_pedals env @ fug_pedals f,
         env_real := env_real env @ fug_real f,
         env_tonal := env_tonal env @ fug_tonal f,
         env_contra := env_contra env @ fug_contra f,
         env_subjects := env_subjects env @
           (case fug_subject f of None \<Rightarrow> [] | Some s \<Rightarrow> [s])\<rparr>"

definition from_fugues :: "fugue list \<Rightarrow> env" where
  "from_fugues fugues = foldl env_extend env_default fugues"

definition voices :: "env \<Rightarrow> nat" where
  "voices env =
     length (env_pedals env) + length (env_real env) + length (env_tonal env)
     + length (env_contra env) + length (env_subjects env)"

definition ask :: "env \<Rightarrow> sym \<Rightarrow> ('k dissonance, val) result" where
  "ask env s =
     ok_or (map_option snd (find (\<lambda>(n, _). n = s) (env_pedals env))) (D_UnboundVar s)"

definition resolve :: "env \<Rightarrow> sym \<Rightarrow> genus \<Rightarrow> ('k dissonance, expr) result" where
  "resolve env name genus =
     (case find (\<lambda>((n, g), _). n = name \<and> g = genus) (env_real env) of
        Some (_, e) \<Rightarrow> Inr e
      | None \<Rightarrow>
          (case find (\<lambda>((n, g), _). n = name \<and> g = genus) (env_tonal env) of
             Some (_, e) \<Rightarrow> Inr e
           | None \<Rightarrow> Inl (Raise (D_Unresolved name genus))))"

definition env_subject :: "env \<Rightarrow> sym \<Rightarrow> (sym \<times> sym \<times> expr) option" where
  "env_subject env name = find (\<lambda>(n, _, _). n = name) (env_subjects env)"

section \<open>Lemmas\<close>

text \<open>A lookup in a table is \<open>map_of\<close>: the first entry with the key wins.\<close>

lemma find_map_of: "map_option snd (find (\<lambda>(n, _). n = s) xs) = map_of xs s"
  by (induction xs) auto

lemma find_answer:
  "find (\<lambda>((n, g), _). n = name \<and> g = genus) xs
     = map_option (\<lambda>e. ((name, genus), e)) (map_of xs (name, genus))"
  by (induction xs) auto

lemma ask_map_of: "ask env s = ok_or (map_of (env_pedals env) s) (D_UnboundVar s)"
  by (simp add: ask_def find_map_of)

lemma resolve_map_of:
  "resolve env name genus =
     ok_or (case map_of (env_real env) (name, genus) of
              Some e \<Rightarrow> Some e | None \<Rightarrow> map_of (env_tonal env) (name, genus))
       (D_Unresolved name genus)"
  by (simp add: resolve_def find_answer split: option.splits)

lemma ask_not_panicked [simp]: "ask env s \<noteq> Inl Panicked"
  by (simp add: ask_map_of)

lemma resolve_not_panicked [simp]: "resolve env name genus \<noteq> Inl Panicked"
  by (simp add: resolve_map_of)

lemma env_extend_tables [simp]:
  "env_pedals (env_extend env f) = env_pedals env @ fug_pedals f"
  "env_real (env_extend env f) = env_real env @ fug_real f"
  "env_tonal (env_extend env f) = env_tonal env @ fug_tonal f"
  "env_contra (env_extend env f) = env_contra env @ fug_contra f"
  "env_subjects (env_extend env f) = env_subjects env @
     (case fug_subject f of None \<Rightarrow> [] | Some s \<Rightarrow> [s])"
  by (simp_all add: env_extend_def)

lemma foldl_env_extend:
  "env_pedals (foldl env_extend env fs) = env_pedals env @ concat (map fug_pedals fs)"
  "env_real (foldl env_extend env fs) = env_real env @ concat (map fug_real fs)"
  "env_tonal (foldl env_extend env fs) = env_tonal env @ concat (map fug_tonal fs)"
  "env_contra (foldl env_extend env fs) = env_contra env @ concat (map fug_contra fs)"
  "env_subjects (foldl env_extend env fs)
     = env_subjects env @ concat (map (\<lambda>f. case fug_subject f of None \<Rightarrow> [] | Some s \<Rightarrow> [s]) fs)"
  by (induction fs arbitrary: env) auto

lemma from_fugues_tables:
  "env_pedals (from_fugues fs) = concat (map fug_pedals fs)"
  "env_real (from_fugues fs) = concat (map fug_real fs)"
  "env_tonal (from_fugues fs) = concat (map fug_tonal fs)"
  "env_contra (from_fugues fs) = concat (map fug_contra fs)"
  "env_subjects (from_fugues fs) = concat (map (\<lambda>f. case fug_subject f of None \<Rightarrow> [] | Some s \<Rightarrow> [s]) fs)"
  by (simp_all add: from_fugues_def foldl_env_extend env_default_def)

section \<open>Properties\<close>

text \<open>The answer to a name and a genus is the first real answer with that key, over the fugues
  in the order of the score; a tonal answer only when no fugue has a real one; otherwise the
  name is unresolved for that genus.\<close>

theorem resolve_real_before_tonal:
  "resolve (from_fugues fs) name g =
     (case map_of (concat (map fug_real fs)) (name, g) of
        Some e \<Rightarrow> Inr e
      | None \<Rightarrow>
          (case map_of (concat (map fug_tonal fs)) (name, g) of
             Some e \<Rightarrow> Inr e
           | None \<Rightarrow> Inl (Raise (D_Unresolved name g))))"
  by (simp add: resolve_map_of from_fugues_tables split: option.split)

end
