(* ===== verification/Builtins.thy ===== *)
theory Builtins
  imports Env
begin

text \<open>
  The builtins of \<open>officium-core/src/builtins.rs\<close>: pure functions on values, with their
  arities and the one deferred step (\<open>solve\<close> asks the machine to apply a closure and
  finishes with \<open>SolveDv\<close>). Arguments are read by index, as the source does: reading past
  the end is the panic. \<open>call_complete\<close> shows that no fully applied builtin panics, and
  that a builtin fails with a type clash or a missing name only.
\<close>

definition SAFE_FORCE :: f64 where
  "SAFE_FORCE = f64_dec 1 (-3)"

definition SOLVE_K :: f64 where
  "SOLVE_K = f64_dec 5 (-1)"

datatype post_op = SolveDv

datatype builtin_result = Done val | Apply val val post_op

fun apply_post :: "post_op \<Rightarrow> val \<Rightarrow> ('k dissonance, val) result" where
  "apply_post SolveDv v = (case v of
     VNum force \<Rightarrow> Inr (VNum (f64_mul force SOLVE_K))
   | other \<Rightarrow> Inl (Raise (D_Dissonant ''num'' (ty other))))"

definition arity :: "sym \<Rightarrow> nat option" where
  "arity name =
     (if name \<in> set [''add'', ''sub'', ''mul'', ''div'', ''eq'', ''le'', ''lt''] then Some 2
      else if name \<in> set [''dist'', ''mass'', ''genus'', ''outgassing''] then Some 1
      else if name = ''safe'' then Some 2
      else if name = ''solve'' then Some 2
      else if name = ''deflect'' then Some 1
      else if name \<in> set [''target'', ''dv_of'', ''at''] then Some 1
      else if name = ''cmd'' then Some 3
      else if name = ''plan_of'' then Some 1
      else if name = ''corpus'' then Some 4
      else if name = ''not'' then Some 1
      else None)"

definition num :: "val \<Rightarrow> ('k dissonance, f64) result" where
  "num v = (case v of VNum n \<Rightarrow> Inr n | other \<Rightarrow> Inl (Raise (D_Dissonant ''num'' (ty other))))"

definition record_get :: "val \<Rightarrow> sym \<Rightarrow> ('k dissonance, val) result" where
  "record_get v key = (case v of
     VRecord m \<Rightarrow> ok_or (map_of m key) (D_UnboundVar key)
   | other \<Rightarrow> Inl (Raise (D_Dissonant ''record'' (ty other))))"

definition field_of :: "val \<Rightarrow> ('k dissonance, dfield) result" where
  "field_of v = (case v of VField f \<Rightarrow> Inr f | other \<Rightarrow> Inl (Raise (D_Dissonant ''field'' (ty other))))"

definition make_corpus :: "64 word \<Rightarrow> genus \<Rightarrow> f64 \<Rightarrow> f64 \<Rightarrow> val" where
  "make_corpus i g mass d =
     VRecord
       (record_insert ''dist'' (VNum d)
       (record_insert ''mass'' (VNum mass)
       (record_insert ''genus'' (VGenus g)
       (record_insert ''id'' (VNum (f64_of_u64 i)) []))))"

text \<open>\<open>num(&args[i])?\<close> and \<open>record_get(&args[0], key)?\<close>.\<close>

definition num_arg :: "val list \<Rightarrow> nat \<Rightarrow> ('k dissonance, f64) result" where
  "num_arg args i = and_then (index args i) num"

definition arith :: "(f64 \<Rightarrow> f64 \<Rightarrow> val) \<Rightarrow> val list \<Rightarrow> ('k dissonance, builtin_result) result" where
  "arith f args =
     and_then (num_arg args 0) (\<lambda>a. and_then (num_arg args 1) (\<lambda>b. Inr (Done (f a b))))"

text \<open>\<open>call\<close>: the arms in the order of the source.\<close>

definition call :: "sym \<Rightarrow> val list \<Rightarrow> ('k dissonance, builtin_result) result" where
  "call name args =
     (if name = ''add'' then arith (\<lambda>a b. VNum (f64_add a b)) args
      else if name = ''sub'' then arith (\<lambda>a b. VNum (f64_sub a b)) args
      else if name = ''mul'' then arith (\<lambda>a b. VNum (f64_mul a b)) args
      else if name = ''div'' then arith (\<lambda>a b. VNum (f64_div a b)) args
      else if name = ''eq'' then
        and_then (index args 0) (\<lambda>a. and_then (index args 1) (\<lambda>b. Inr (Done (VBool (val_eq a b)))))
      else if name = ''le'' then arith (\<lambda>a b. VBool (f64_le a b)) args
      else if name = ''lt'' then arith (\<lambda>a b. VBool (f64_lt a b)) args
      else if name = ''not'' then
        and_then (index args 0) (\<lambda>a. case a of
            VBool b \<Rightarrow> Inr (Done (VBool (\<not> b)))
          | other \<Rightarrow> Inl (Raise (D_Dissonant ''bool'' (ty other))))
      else if name = ''dist'' then
        and_then (index args 0) (\<lambda>a. and_then (record_get a ''dist'') (\<lambda>v. Inr (Done v)))
      else if name = ''mass'' then
        and_then (index args 0) (\<lambda>a. and_then (record_get a ''mass'') (\<lambda>v. Inr (Done v)))
      else if name = ''genus'' then
        and_then (index args 0) (\<lambda>a. and_then (record_get a ''genus'') (\<lambda>v. Inr (Done v)))
      else if name = ''outgassing'' then
        and_then (index args 0) (\<lambda>a.
          (case (record_get a ''outgassing'' :: (unit dissonance, val) result) of
             Inr v \<Rightarrow> Inr (Done v)
           | Inl _ \<Rightarrow> Inr (Done (VNum (f64_dec 1 (-1))))))
      else if name = ''safe'' then
        and_then (index args 0) (\<lambda>a. and_then (record_get a ''mass'') (\<lambda>mv. and_then (num mv) (\<lambda>m.
        and_then (record_get a ''dist'') (\<lambda>dv. and_then (num dv) (\<lambda>d.
        and_then (num_arg args 1) (\<lambda>g.
          Inr (Done (VBool (f64_lt (f64_div (f64_mul g m) (f64_mul d d)) SAFE_FORCE)))))))))
      else if name = ''solve'' then
        and_then (index args 0) (\<lambda>f. and_then (index args 1) (\<lambda>a. Inr (Apply f a SolveDv)))
      else if name = ''deflect'' then
        and_then (num_arg args 0) (\<lambda>d.
          Inr (Done (VField \<lparr>fld_target = 1, fld_dv = along_x d, fld_at = 0\<rparr>)))
      else if name = ''target'' then
        and_then (index args 0) (\<lambda>a. and_then (field_of a) (\<lambda>f.
          Inr (Done (VNum (f64_of_u64 (fld_target f))))))
      else if name = ''dv_of'' then
        and_then (index args 0) (\<lambda>a. and_then (field_of a) (\<lambda>f.
          Inr (Done (VNum (vec_x (fld_dv f))))))
      else if name = ''at'' then
        and_then (index args 0) (\<lambda>a. and_then (field_of a) (\<lambda>f.
          Inr (Done (VNum (f64_of_u64 (fld_at f))))))
      else if name = ''cmd'' then
        and_then (num_arg args 0) (\<lambda>t. and_then (num_arg args 1) (\<lambda>d. and_then (num_arg args 2) (\<lambda>a.
          Inr (Done (VCmd \<lparr>cmd_target = u64_of_f64 t, cmd_dv = along_x d, cmd_at = u64_of_f64 a\<rparr>)))))
      else if name = ''plan_of'' then
        and_then (index args 0) (\<lambda>a. and_then (field_of a) (\<lambda>f.
          Inr (Done (VPlan [\<lparr>cmd_target = fld_target f, cmd_dv = fld_dv f, cmd_at = fld_at f\<rparr>]))))
      else if name = ''corpus'' then
        and_then (num_arg args 0) (\<lambda>i. and_then (index args 1) (\<lambda>g.
          and_then (case g of
              VGenus g \<Rightarrow> Inr g
            | VStr s \<Rightarrow> Inr s
            | other \<Rightarrow> Inl (Raise (D_Dissonant ''genus'' (ty other)))) (\<lambda>genus.
          and_then (num_arg args 2) (\<lambda>m. and_then (num_arg args 3) (\<lambda>d.
            Inr (Done (make_corpus (u64_of_f64 i) genus m d)))))))
      else Inl (Raise (D_UnboundVar name)))"

definition builtin_value :: "sym \<Rightarrow> val option" where
  "builtin_value name = map_option (\<lambda>_. VBuiltin name []) (arity name)"

section \<open>Lemmas\<close>

text \<open>The only builtin that asks for an application is \<open>solve\<close>, of its first argument.\<close>

lemma call_Apply:
  "call name args = Inr (Apply f a p) \<Longrightarrow>
     name = ''solve'' \<and> 1 < length args \<and> f = args ! 0 \<and> a = args ! 1 \<and> p = SolveDv"
  by (auto simp: call_def arith_def num_arg_def and_then_Inr_iff index_def
      split: if_splits sum.splits val.splits)

text \<open>
  A builtin fails with a type clash or a missing name, never with a control signal; and it
  reads past its arguments only when it is not fully applied.
\<close>

definition plain_failure :: "'k dissonance \<Rightarrow> bool" where
  "plain_failure d = (case d of D_Dissonant _ _ \<Rightarrow> True | D_UnboundVar _ \<Rightarrow> True | _ \<Rightarrow> False)"

lemma plain_failure_simps [simp]:
  "plain_failure (D_Dissonant w g)" "plain_failure (D_UnboundVar n)"
  "\<not> plain_failure (D_User v)" "\<not> plain_failure D_Silent" "\<not> plain_failure (D_OutOfFuel k)"
  "\<not> plain_failure (D_WrongMode m op)" "\<not> plain_failure D_Premature" "\<not> plain_failure D_Unconsecrated"
  by (simp_all add: plain_failure_def)

definition plain_exn :: "bool \<Rightarrow> 'k dissonance exn \<Rightarrow> bool" where
  "plain_exn short e = (case e of Raise d \<Rightarrow> plain_failure d | Panicked \<Rightarrow> short)"

lemma plain_exn_simps [simp]:
  "plain_exn short (Raise d) = plain_failure d" "plain_exn short Panicked = short"
  by (simp_all add: plain_exn_def)

lemma num_errs [errs_intros]: "errs_in (plain_exn short) (num v)"
  by (cases v) (simp_all add: num_def)

lemma record_get_errs [errs_intros]: "errs_in (plain_exn short) (record_get v k)"
  by (cases v) (auto simp: record_get_def intro: errs_intros)

lemma field_of_errs [errs_intros]: "errs_in (plain_exn short) (field_of v)"
  by (cases v) (simp_all add: field_of_def)

lemma apply_post_errs [errs_intros]: "errs_in (plain_exn short) (apply_post p v)"
  by (cases p; cases v) simp_all

lemma num_arg_errs [errs_intros]:
  "(length args \<le> i \<Longrightarrow> short) \<Longrightarrow> errs_in (plain_exn short) (num_arg args i)"
  unfolding num_arg_def by (intro errs_intros) simp

lemma arith_errs [errs_intros]:
  "(length args < 2 \<Longrightarrow> short) \<Longrightarrow> errs_in (plain_exn short) (arith f args)"
  unfolding arith_def by (intro errs_intros) auto

lemma errs_in_bool_case:
  "errs_in P (case v of VBool b \<Rightarrow> f b | _ \<Rightarrow> Inl (Raise (D_Dissonant w (ty v)))) \<longleftrightarrow>
     (case v of VBool b \<Rightarrow> errs_in P (f b) | _ \<Rightarrow> P (Raise (D_Dissonant w (ty v))))"
  by (cases v) auto

definition short_args :: "sym \<Rightarrow> val list \<Rightarrow> bool" where
  "short_args name args = (case arity name of None \<Rightarrow> False | Some n \<Rightarrow> length args < n)"

lemma call_errs: "errs_in (plain_exn (short_args name args)) (call name args)"
  unfolding call_def
  by (intro errs_intros; (hypsubst | simp only:)?;
      (auto simp: short_args_def arity_def split: val.split sum.split intro: errs_intros)?)

section \<open>Properties\<close>

text \<open>A builtin called with as many arguments as its arity never panics; when it fails, it is
  with a type clash or with a name that a record lacks.\<close>

theorem call_complete:
  assumes "arity name = Some n" and "n \<le> length args"
  shows "case (call name args :: ('k dissonance, builtin_result) result) of
     Inr r \<Rightarrow> True
   | Inl Panicked \<Rightarrow> False
   | Inl (Raise d) \<Rightarrow> (\<exists>want got. d = D_Dissonant want got) \<or> (\<exists>x. d = D_UnboundVar x)"
proof (cases "call name args :: ('k dissonance, builtin_result) result")
  case (Inl e)
  have "plain_exn (short_args name args) e" by (rule errs_inD [OF call_errs Inl])
  moreover have "\<not> short_args name args" using assms by (simp add: short_args_def)
  ultimately show ?thesis
    by (cases e) (auto simp: Inl plain_failure_def split: dissonance.splits)
qed simp

theorem call_complete_witness:
  "case call ''not'' [VUnit] of
     Inr r \<Rightarrow> True
   | Inl Panicked \<Rightarrow> False
   | Inl (Raise d) \<Rightarrow> (\<exists>want got. d = (D_Dissonant want got :: unit dissonance)) \<or> (\<exists>x. d = D_UnboundVar x)"
  by (rule call_complete [where n = 1]) (simp_all add: arity_def)

end
