(* ===== verification/Machine.thy ===== *)
theory Machine
  imports Builtins
begin

text \<open>
  The evaluator of \<open>officium-core/src/machine.rs\<close>: an explicit-stack machine.

  \<^item> \<open>control\<close>, \<open>layer\<close>, \<open>frame\<close>, \<open>continuation\<close>, \<open>outcome\<close> are the source's types. The
    stack is a list whose head is the top (\<open>Vec::pop\<close> takes the head).
  \<^item> \<open>eval_step\<close>, \<open>value_step\<close>, \<open>apply_val\<close> and \<open>unwind\<close> take the machine and return it
    changed, beside a result: an error returned with \<open>?\<close> leaves the changes made before it.
  \<^item> \<open>machine_step\<close> is one round of the loop of \<open>resume\<close>; \<open>resume\<close> runs it on a fuel
    budget, and returns the paused machine when the budget is spent.
  \<^item> every index into the tower and every \<open>unreachable!()\<close> is a \<open>Panicked\<close> branch.

  Fuel is a \<open>u64\<close> that only counts down to 0: a natural number here.
\<close>

section \<open>State\<close>

record outcome =
  out_value :: "val option"
  out_state :: val
  out_plan :: plan
  out_committed :: "plan option"

datatype control = C_Eval expr scope | C_Value val

datatype layer = L_Maybe | L_Except | L_State val | L_Writer plan | L_Commit

fun layer_kind :: "layer \<Rightarrow> layer_kind" where
  "layer_kind L_Maybe = K_Maybe"
| "layer_kind L_Except = K_Except"
| "layer_kind (L_State _) = K_State"
| "layer_kind (L_Writer _) = K_Writer"
| "layer_kind L_Commit = K_Commit"

datatype frame =
  F_AppArg expr scope
| F_AppCall val
| F_IfK expr expr scope
| F_BindK sym expr scope
| F_ReturnK
| F_ClamaK nat
| F_RecipeH sym expr scope nat
| F_PoneK nat
| F_MitteK nat
| F_PerageK
| F_ResolveK sym scope
| F_FixK expr scope
| F_LiftK nat
| F_BuiltinPost post_op

record continuation =
  m_control :: control
  m_stack :: "frame list"
  m_tower :: "layer list"
  m_depth :: nat
  m_thrown :: nat
  m_mode :: mode
  m_arg :: val

type_synonym diss = "continuation dissonance"
type_synonym 'a mres = "(diss, 'a) result"

definition push :: "continuation \<Rightarrow> frame \<Rightarrow> continuation" where
  "push m f = m\<lparr>m_stack := f # m_stack m\<rparr>"

section \<open>Building and draining the tower\<close>

text \<open>The topmost State layer takes the given state, deeper ones start empty.\<close>

fun seed_tower :: "layer_kind list \<Rightarrow> val option \<Rightarrow> layer list" where
  "seed_tower [] st = []"
| "seed_tower (K_Maybe # ks) st = L_Maybe # seed_tower ks st"
| "seed_tower (K_Except # ks) st = L_Except # seed_tower ks st"
| "seed_tower (K_State # ks) st =
     L_State (case st of Some v \<Rightarrow> v | None \<Rightarrow> empty_state) # seed_tower ks None"
| "seed_tower (K_Writer # ks) st = L_Writer plan_empty # seed_tower ks st"
| "seed_tower (K_Commit # ks) st = L_Commit # seed_tower ks st"

definition build_tower :: "mode \<Rightarrow> val \<Rightarrow> layer list" where
  "build_tower mode st = seed_tower (mode_tower mode) (Some st)"

fun drain :: "layer list \<Rightarrow> val \<Rightarrow> plan \<Rightarrow> bool \<Rightarrow> bool \<Rightarrow> val \<times> plan" where
  "drain [] st pl saw_state saw_plan = (st, pl)"
| "drain (L_State v # tw) st pl saw_state saw_plan =
     (if saw_state then drain tw st pl saw_state saw_plan else drain tw v pl True saw_plan)"
| "drain (L_Writer p # tw) st pl saw_state saw_plan =
     (if saw_plan then drain tw st pl saw_state saw_plan else drain tw st p saw_state True)"
| "drain (_ # tw) st pl saw_state saw_plan = drain tw st pl saw_state saw_plan"

definition finish :: "layer list \<Rightarrow> val option \<Rightarrow> plan option \<Rightarrow> outcome" where
  "finish tower value committed =
     (case drain tower VUnit plan_empty False False of
        (st, pl) \<Rightarrow> \<lparr>out_value = value, out_state = st, out_plan = pl, out_committed = committed\<rparr>)"

section \<open>Errors\<close>

text \<open>
  The loop of \<open>unwind\<close>: pop frames until the handler of the throwing layer, restoring the
  lift depth on the way. The result is the stack and depth that are left, and the handler.
\<close>

fun unwind_frames ::
  "nat \<Rightarrow> frame list \<Rightarrow> nat \<Rightarrow> (frame list \<times> nat) \<times> (sym \<times> expr \<times> scope) option" where
  "unwind_frames thrown [] depth = (([], depth), None)"
| "unwind_frames thrown (F_RecipeH name handler scope channel # st) depth =
     (if channel = thrown then ((st, depth), Some (name, handler, scope))
      else unwind_frames thrown st depth)"
| "unwind_frames thrown (F_LiftK d # st) depth = unwind_frames thrown st d"
| "unwind_frames thrown (_ # st) depth = unwind_frames thrown st depth"

definition unwind :: "continuation \<Rightarrow> diss \<Rightarrow> continuation \<times> control mres" where
  "unwind m d = (case d of
     D_User v \<Rightarrow>
       (case unwind_frames (m_thrown m) (m_stack m) (m_depth m) of
          ((st, depth), h) \<Rightarrow>
            (m\<lparr>m_stack := st, m_depth := depth\<rparr>,
             case h of
               Some (name, handler, scope) \<Rightarrow> Inr (C_Eval handler (scope_bind scope name v))
             | None \<Rightarrow> Inl (Raise (D_User v))))
   | other \<Rightarrow> (m, Inl (Raise other)))"

text \<open>The topmost layer of a kind that is visible at the current lift depth.\<close>

definition layer_at :: "continuation \<Rightarrow> layer_kind \<Rightarrow> op_kind \<Rightarrow> nat mres" where
  "layer_at m kind op =
     ok_or (find_index (\<lambda>i. layer_kind (m_tower m ! i) = kind)
              (m_depth m) (length (m_tower m) - m_depth m))
       (D_WrongMode (m_mode m) op)"

section \<open>Application\<close>

text \<open>
  \<open>apply\<close>. A builtin collects arguments until it has its arity; \<open>solve\<close> applies its first
  argument in turn, which is a component of the builtin value, so the recursion ends.
\<close>

lemma call_Apply_size:
  assumes "call name (as @ [a]) = Inr (Apply f x p)"
  shows "size f < Suc (size_list size as)"
proof -
  have f: "f = (as @ [a]) ! 0" and len: "1 < length (as @ [a])"
    using call_Apply [OF assms] by auto
  then have "f \<in> set as" by (cases as) auto
  then have "size f \<le> size_list size as" by (rule size_list_estimation') simp
  then show ?thesis by simp
qed

function apply_val :: "continuation \<Rightarrow> val \<Rightarrow> val \<Rightarrow> continuation \<times> control mres" where
  "apply_val m (VClosure param body env) arg =
     (m, Inr (C_Eval body (scope_bind env param arg)))"
| "apply_val m (VBuiltin name as) arg =
     (let args = as @ [arg]; want = (case arity name of Some n \<Rightarrow> n | None \<Rightarrow> 0) in
      if length args < want then (m, Inr (C_Value (VBuiltin name args)))
      else (case call name args of
              Inl e \<Rightarrow> (m, Inl e)
            | Inr (Done v) \<Rightarrow> (m, Inr (C_Value v))
            | Inr (Apply f a post) \<Rightarrow> apply_val (push m (F_BuiltinPost post)) f a))"
| "apply_val m VUnit arg = (m, Inl (Raise (D_Dissonant ''closure'' (ty VUnit))))"
| "apply_val m (VNum n) arg = (m, Inl (Raise (D_Dissonant ''closure'' (ty (VNum n)))))"
| "apply_val m (VBool b) arg = (m, Inl (Raise (D_Dissonant ''closure'' (ty (VBool b)))))"
| "apply_val m (VGenus g) arg = (m, Inl (Raise (D_Dissonant ''closure'' (ty (VGenus g)))))"
| "apply_val m (VStr s) arg = (m, Inl (Raise (D_Dissonant ''closure'' (ty (VStr s)))))"
| "apply_val m (VCmd c) arg = (m, Inl (Raise (D_Dissonant ''closure'' (ty (VCmd c)))))"
| "apply_val m (VPlan p) arg = (m, Inl (Raise (D_Dissonant ''closure'' (ty (VPlan p)))))"
| "apply_val m (VField f) arg = (m, Inl (Raise (D_Dissonant ''closure'' (ty (VField f)))))"
| "apply_val m (VRecord r) arg = (m, Inl (Raise (D_Dissonant ''closure'' (ty (VRecord r)))))"
  by pat_completeness auto
termination
  by (relation "measure (\<lambda>(m, f, a). size f)") (auto dest: call_Apply_size)

section \<open>One step\<close>

text \<open>\<open>let i = m.layer(kind, op)?; m.stack.push(frame); Control::Eval(e, scope)\<close>.\<close>

definition with_layer ::
  "continuation \<Rightarrow> layer_kind \<Rightarrow> op_kind \<Rightarrow> (nat \<Rightarrow> continuation \<times> control mres) \<Rightarrow> continuation \<times> control mres" where
  "with_layer m kind op k = (case layer_at m kind op of Inl e \<Rightarrow> (m, Inl e) | Inr i \<Rightarrow> k i)"

definition eval_var :: "env \<Rightarrow> scope \<Rightarrow> sym \<Rightarrow> control mres" where
  "eval_var env scope name =
     (case scope_lookup scope name of
        Some v \<Rightarrow> Inr (C_Value v)
      | None \<Rightarrow>
          (case builtin_value name of
             Some v \<Rightarrow> Inr (C_Value v)
           | None \<Rightarrow>
               (case (ask env name :: val mres) of
                  Inr v \<Rightarrow> Inr (C_Value v)
                | Inl _ \<Rightarrow> Inl (Raise (D_UnboundVar name)))))"

fun eval_step :: "env \<Rightarrow> continuation \<Rightarrow> expr \<Rightarrow> scope \<Rightarrow> continuation \<times> control mres" where
  "eval_step env m (ELit v) scope = (m, Inr (C_Value v))"
| "eval_step env m (EVar name) scope = (m, eval_var env scope name)"
| "eval_step env m (ELam param body) scope = (m, Inr (C_Value (VClosure param body scope)))"
| "eval_step env m (EApp f a) scope = (push m (F_AppArg a scope), Inr (C_Eval f scope))"
| "eval_step env m (EIf c t e) scope = (push m (F_IfK t e scope), Inr (C_Eval c scope))"
| "eval_step env m (EFix f) scope = (push m (F_FixK f scope), Inr (C_Eval f scope))"
| "eval_step env m (EPure md e) scope = (m, Inr (C_Eval e scope))"
| "eval_step env m (EReturn md e) scope = (push m F_ReturnK, Inr (C_Eval e scope))"
| "eval_step env m (EBind md mval name k) scope =
     (push m (F_BindK name k scope), Inr (C_Eval mval scope))"
| "eval_step env m EArg scope = (m, Inr (C_Value (m_arg m)))"
| "eval_step env m (EAsk name) scope = (m, and_then (ask env name) (\<lambda>v. Inr (C_Value v)))"
| "eval_step env m (EResolve name g) scope =
     (push m (F_ResolveK name scope), Inr (C_Eval g scope))"
| "eval_step env m ENihil scope =
     with_layer m K_Maybe Op_Nihil (\<lambda>_. (m, Inl (Raise D_Silent)))"
| "eval_step env m (EClama e) scope =
     with_layer m K_Except Op_Clama (\<lambda>ch. (push m (F_ClamaK ch), Inr (C_Eval e scope)))"
| "eval_step env m (ERecipe body name handler) scope =
     with_layer m K_Except Op_Recipe
       (\<lambda>ch. (push m (F_RecipeH name handler scope ch), Inr (C_Eval body scope)))"
| "eval_step env m ELege scope =
     with_layer m K_State Op_Lege
       (\<lambda>i. (m, and_then (index (m_tower m) i)
                  (\<lambda>l. case l of L_State v \<Rightarrow> Inr (C_Value v) | _ \<Rightarrow> Inl Panicked)))"
| "eval_step env m (EPone e) scope =
     with_layer m K_State Op_Pone (\<lambda>i. (push m (F_PoneK i), Inr (C_Eval e scope)))"
| "eval_step env m (EMitte e) scope =
     with_layer m K_Writer Op_Mitte (\<lambda>i. (push m (F_MitteK i), Inr (C_Eval e scope)))"
| "eval_step env m (EPerage e) scope =
     with_layer m K_Commit Op_Perage (\<lambda>_. (push m F_PerageK, Inr (C_Eval e scope)))"
| "eval_step env m (ELift e) scope =
     (if length (m_tower m) < m_depth m then (m, Inl Panicked)
      else if length (m_tower m) - m_depth m < 2
      then (m, Inl (Raise (D_WrongMode (m_mode m) Op_Lift)))
      else ((push m (F_LiftK (m_depth m)))\<lparr>m_depth := m_depth m + 1\<rparr>, Inr (C_Eval e scope)))"

datatype step_out = Continue control | Halt outcome

definition continue_with :: "continuation \<times> control mres \<Rightarrow> continuation \<times> step_out mres" where
  "continue_with r = (case r of (m, c) \<Rightarrow> (m, and_then c (\<lambda>c. Inr (Continue c))))"

text \<open>The closure \<open>\x -> (fix f) x\<close> that re-enters a fixpoint.\<close>

definition stretto :: sym where
  "stretto = ''$stretto''"

definition self_ref :: "expr \<Rightarrow> scope \<Rightarrow> val" where
  "self_ref f scope = VClosure stretto (EApp (EFix f) (EVar stretto)) scope"

definition mitte_layer :: "layer \<Rightarrow> val \<Rightarrow> layer mres" where
  "mitte_layer l v = (case l of
     L_Writer plan \<Rightarrow>
       (case v of
          VCmd cmd \<Rightarrow> Inr (L_Writer (plan @ [cmd]))
        | VPlan p \<Rightarrow> Inr (L_Writer (plan_append plan p))
        | other \<Rightarrow> Inl (Raise (D_Dissonant ''cmd'' (ty other))))
   | _ \<Rightarrow> Inl Panicked)"

fun value_step :: "env \<Rightarrow> continuation \<Rightarrow> frame \<Rightarrow> val \<Rightarrow> continuation \<times> step_out mres" where
  "value_step env m (F_AppArg arg scope) v =
     (push m (F_AppCall v), Inr (Continue (C_Eval arg scope)))"
| "value_step env m (F_AppCall f) v = continue_with (apply_val m f v)"
| "value_step env m (F_IfK t e scope) v =
     (m, case v of
           VBool b \<Rightarrow> Inr (Continue (C_Eval (if b then t else e) scope))
         | other \<Rightarrow> Inl (Raise (D_Dissonant ''bool'' (ty other))))"
| "value_step env m (F_BindK name k scope) v =
     (m, Inr (Continue (C_Eval k (scope_bind scope name v))))"
| "value_step env m F_ReturnK v =
     (m\<lparr>m_tower := []\<rparr>, Inr (Halt (finish (m_tower m) (Some v) None)))"
| "value_step env m (F_ClamaK channel) v =
     (m\<lparr>m_thrown := channel\<rparr>, Inl (Raise (D_User v)))"
| "value_step env m (F_RecipeH name handler scope channel) v = (m, Inr (Continue (C_Value v)))"
| "value_step env m (F_PoneK i) v =
     (if i < length (m_tower m)
      then (m\<lparr>m_tower := (m_tower m)[i := L_State v]\<rparr>, Inr (Continue (C_Value VUnit)))
      else (m, Inl Panicked))"
| "value_step env m (F_MitteK i) v =
     (case and_then (index (m_tower m) i) (\<lambda>l. mitte_layer l v) of
        Inl e \<Rightarrow> (m, Inl e)
      | Inr l \<Rightarrow> (m\<lparr>m_tower := (m_tower m)[i := l]\<rparr>, Inr (Continue (C_Value VUnit))))"
| "value_step env m F_PerageK v =
     (case v of
        VPlan p \<Rightarrow>
          (if p = [] then (m, Inl (Raise D_Premature))
           else (m\<lparr>m_tower := []\<rparr>, Inr (Halt (finish (m_tower m) (Some VUnit) (Some p)))))
      | other \<Rightarrow> (m, Inl (Raise D_Unconsecrated)))"
| "value_step env m (F_ResolveK name scope) v =
     (m, case v of
           VGenus g \<Rightarrow> and_then (resolve env name g) (\<lambda>overload. Inr (Continue (C_Eval overload scope)))
         | other \<Rightarrow> Inl (Raise (D_Dissonant ''genus'' (ty other))))"
| "value_step env m (F_FixK f scope) v = continue_with (apply_val m v (self_ref f scope))"
| "value_step env m (F_LiftK depth) v = (m\<lparr>m_depth := depth\<rparr>, Inr (Continue (C_Value v)))"
| "value_step env m (F_BuiltinPost post) v =
     (m, and_then (apply_post post v) (\<lambda>v. Inr (Continue (C_Value v))))"

section \<open>Running\<close>

text \<open>
  What one round of the loop does with the result of a step: go on with the new control,
  return the outcome, or unwind an error (a panic is not an error value: it ends the run).
\<close>

definition settle :: "continuation \<times> step_out mres \<Rightarrow> continuation + outcome mres" where
  "settle r = (case r of
     (m, Inr (Continue c)) \<Rightarrow> Inl (m\<lparr>m_control := c\<rparr>)
   | (m, Inr (Halt out)) \<Rightarrow> Inr (Inr out)
   | (m, Inl Panicked) \<Rightarrow> Inr (Inl Panicked)
   | (m, Inl (Raise d)) \<Rightarrow>
       (case unwind m d of
          (m', Inr c) \<Rightarrow> Inl (m'\<lparr>m_control := c\<rparr>)
        | (m', Inl e) \<Rightarrow> Inr (Inl e)))"

definition machine_step :: "env \<Rightarrow> continuation \<Rightarrow> continuation + outcome mres" where
  "machine_step env m0 =
     (let m = m0\<lparr>m_control := C_Value VUnit\<rparr> in
      case m_control m0 of
        C_Eval e scope \<Rightarrow> settle (continue_with (eval_step env m e scope))
      | C_Value v \<Rightarrow>
          (case m_stack m of
             [] \<Rightarrow> Inr (Inr (finish (m_tower m) (Some v) None))
           | frame # st \<Rightarrow> settle (value_step env (m\<lparr>m_stack := st\<rparr>) frame v)))"

fun resume :: "env \<Rightarrow> continuation \<Rightarrow> nat \<Rightarrow> outcome mres" where
  "resume env m 0 = Inl (Raise (D_OutOfFuel m))"
| "resume env m (Suc fuel) =
     (case machine_step env m of Inl m' \<Rightarrow> resume env m' fuel | Inr r \<Rightarrow> r)"

definition start :: "mode \<Rightarrow> expr \<Rightarrow> val \<Rightarrow> val \<Rightarrow> continuation" where
  "start mode body arg st =
     \<lparr>m_control = C_Eval body [], m_stack = [], m_tower = build_tower mode st,
      m_depth = 0, m_thrown = 0, m_mode = mode, m_arg = arg\<rparr>"

definition run_verse :: "env \<Rightarrow> mode \<Rightarrow> expr \<Rightarrow> val \<Rightarrow> val \<Rightarrow> nat \<Rightarrow> outcome mres" where
  "run_verse env mode body arg st fuel = resume env (start mode body arg st) fuel"

end
