(* ===== verification/Machine_Inv.thy ===== *)
theory Machine_Inv
  imports Machine
begin

text \<open>
  The invariant of the machine and what follows from it.

  \<open>m_wf\<close>: the tower has the layers of the verse's mode; every frame that names a layer names
  one of the right kind; the lift depth is the number of \<open>LiftK\<close> frames on the stack and
  leaves at least one layer visible. Every step keeps it, so no step panics, and the errors
  and effects a verse can end with are those of its mode.
\<close>

section \<open>Definitions\<close>

definition frame_ok :: "layer_kind list \<Rightarrow> frame \<Rightarrow> bool" where
  "frame_ok ks f = (case f of
     F_ClamaK i \<Rightarrow> i < length ks \<and> ks ! i = K_Except
   | F_RecipeH _ _ _ i \<Rightarrow> i < length ks \<and> ks ! i = K_Except
   | F_PoneK i \<Rightarrow> i < length ks \<and> ks ! i = K_State
   | F_MitteK i \<Rightarrow> i < length ks \<and> ks ! i = K_Writer
   | F_PerageK \<Rightarrow> K_Commit \<in> set ks
   | _ \<Rightarrow> True)"

fun lifts_ok :: "nat \<Rightarrow> frame list \<Rightarrow> bool" where
  "lifts_ok d [] = (d = 0)"
| "lifts_ok d (f # st) =
     (case f of F_LiftK d' \<Rightarrow> d = Suc d' \<and> lifts_ok d' st | _ \<Rightarrow> lifts_ok d st)"

definition m_wf :: "continuation \<Rightarrow> bool" where
  "m_wf m \<longleftrightarrow>
     map layer_kind (m_tower m) = mode_tower (m_mode m)
     \<and> list_all (frame_ok (mode_tower (m_mode m))) (m_stack m)
     \<and> lifts_ok (m_depth m) (m_stack m)
     \<and> m_depth m < length (m_tower m)"

text \<open>The errors a verse in a mode can end with, and the outcomes.\<close>

definition mode_error :: "mode \<Rightarrow> diss \<Rightarrow> bool" where
  "mode_error mode d = (case d of
     D_WrongMode mode' op \<Rightarrow> mode' = mode
   | D_Silent \<Rightarrow> allows mode Op_Nihil
   | D_User v \<Rightarrow> allows mode Op_Clama
   | D_Premature \<Rightarrow> allows mode Op_Perage
   | D_Unconsecrated \<Rightarrow> allows mode Op_Perage
   | D_Unresolved _ _ \<Rightarrow> True
   | D_Dissonant _ _ \<Rightarrow> True
   | D_UnboundVar _ \<Rightarrow> True
   | _ \<Rightarrow> False)"

definition mode_exn :: "mode \<Rightarrow> diss exn \<Rightarrow> bool" where
  "mode_exn mode e = (case e of Raise d \<Rightarrow> mode_error mode d | Panicked \<Rightarrow> False)"

definition outcome_ok :: "mode \<Rightarrow> outcome \<Rightarrow> bool" where
  "outcome_ok mode out \<longleftrightarrow>
     (\<forall>p. out_committed out = Some p \<longrightarrow> allows mode Op_Perage \<and> p \<noteq> [] \<and> out_value out = Some VUnit)
     \<and> (out_plan out \<noteq> [] \<longrightarrow> allows mode Op_Mitte)
     \<and> (out_state out \<noteq> VUnit \<longrightarrow> allows mode Op_Pone)"

section \<open>Simplification\<close>

lemma mode_exn_simps [simp]:
  "mode_exn mode (Raise d) = mode_error mode d" "\<not> mode_exn mode Panicked"
  by (simp_all add: mode_exn_def)

lemma mode_error_simps [simp]:
  "mode_error mode (D_WrongMode mode' op) \<longleftrightarrow> mode' = mode"
  "mode_error mode D_Silent = allows mode Op_Nihil"
  "mode_error mode (D_User v) = allows mode Op_Clama"
  "mode_error mode D_Premature = allows mode Op_Perage"
  "mode_error mode D_Unconsecrated = allows mode Op_Perage"
  "mode_error mode (D_Unresolved n g)"
  "mode_error mode (D_Dissonant w t)"
  "mode_error mode (D_UnboundVar n)"
  "\<not> mode_error mode (D_OutOfFuel k)"
  by (simp_all add: mode_error_def)

lemma plain_mode_exn: "plain_exn False e \<Longrightarrow> mode_exn mode e"
  by (cases e) (auto simp: plain_failure_def mode_error_def split: dissonance.splits)

lemma frame_ok_simps [simp]:
  "frame_ok ks (F_AppArg a s)" "frame_ok ks (F_AppCall v)" "frame_ok ks (F_IfK t e s)"
  "frame_ok ks (F_BindK n k s)" "frame_ok ks F_ReturnK" "frame_ok ks (F_ResolveK n s)"
  "frame_ok ks (F_FixK f s)" "frame_ok ks (F_LiftK d)" "frame_ok ks (F_BuiltinPost p)"
  "frame_ok ks (F_ClamaK i) \<longleftrightarrow> i < length ks \<and> ks ! i = K_Except"
  "frame_ok ks (F_RecipeH n h s i) \<longleftrightarrow> i < length ks \<and> ks ! i = K_Except"
  "frame_ok ks (F_PoneK i) \<longleftrightarrow> i < length ks \<and> ks ! i = K_State"
  "frame_ok ks (F_MitteK i) \<longleftrightarrow> i < length ks \<and> ks ! i = K_Writer"
  "frame_ok ks F_PerageK \<longleftrightarrow> K_Commit \<in> set ks"
  by (simp_all add: frame_ok_def)

lemma push_simps [simp]:
  "m_stack (push m f) = f # m_stack m" "m_tower (push m f) = m_tower m"
  "m_depth (push m f) = m_depth m" "m_mode (push m f) = m_mode m"
  "m_arg (push m f) = m_arg m" "m_thrown (push m f) = m_thrown m"
  "m_control (push m f) = m_control m"
  by (simp_all add: push_def)

lemma m_wf_tower: "m_wf m \<Longrightarrow> map layer_kind (m_tower m) = mode_tower (m_mode m)"
  by (simp add: m_wf_def)

lemma m_wf_length: "m_wf m \<Longrightarrow> length (m_tower m) = length (mode_tower (m_mode m))"
  by (metis m_wf_tower length_map)

lemma m_wf_kind:
  "m_wf m \<Longrightarrow> i < length (m_tower m) \<Longrightarrow> layer_kind (m_tower m ! i) = mode_tower (m_mode m) ! i"
  by (metis m_wf_tower nth_map)

lemma m_wf_push [wf_intros]:
  assumes "m_wf m" "frame_ok (mode_tower (m_mode m)) f" "\<And>d. f \<noteq> F_LiftK d"
  shows "m_wf (push m f)"
  using assms by (auto simp: m_wf_def split: frame.splits)

lemma m_wf_pop:
  assumes "m_wf (push m f)" "\<And>d. f \<noteq> F_LiftK d"
  shows "m_wf m" "frame_ok (mode_tower (m_mode m)) f"
  using assms by (auto simp: m_wf_def split: frame.splits)

lemma m_wf_pop_lift:
  assumes "m_wf (push m (F_LiftK d))"
  shows "m_wf (m\<lparr>m_depth := d\<rparr>)"
  using assms by (auto simp: m_wf_def)

lemma m_wf_control [simp]: "m_wf (m\<lparr>m_control := c\<rparr>) = m_wf m"
  by (simp add: m_wf_def)

lemma m_wf_thrown [simp]: "m_wf (m\<lparr>m_thrown := t\<rparr>) = m_wf m"
  by (simp add: m_wf_def)

lemma m_wf_set_layer:
  assumes "m_wf m" "i < length (m_tower m)" "layer_kind l = layer_kind (m_tower m ! i)"
  shows "m_wf (m\<lparr>m_tower := (m_tower m)[i := l]\<rparr>)"
  using assms by (simp add: m_wf_def list_update_same_map)

section \<open>Layers\<close>

text \<open>The layer an operation needs.\<close>

fun op_layer :: "op_kind \<Rightarrow> layer_kind" where
  "op_layer Op_Nihil = K_Maybe"
| "op_layer Op_Clama = K_Except"
| "op_layer Op_Recipe = K_Except"
| "op_layer Op_Lege = K_State"
| "op_layer Op_Pone = K_State"
| "op_layer Op_Mitte = K_Writer"
| "op_layer Op_Perage = K_Commit"
| "op_layer Op_Lift = K_Maybe"

lemma allows_op_layer: "op \<noteq> Op_Lift \<Longrightarrow> allows mode op \<longleftrightarrow> op_layer op \<in> set (mode_tower mode)"
  by (cases op) auto

lemma layer_at_Inr:
  assumes "m_wf m" "layer_at m k op = Inr i"
  shows "m_depth m \<le> i" "i < length (m_tower m)" "i < length (mode_tower (m_mode m))"
    "mode_tower (m_mode m) ! i = k"
    "\<forall>j. m_depth m \<le> j \<and> j < i \<longrightarrow> mode_tower (m_mode m) ! j \<noteq> k"
proof -
  have d: "m_depth m \<le> length (m_tower m)" using assms(1) by (simp add: m_wf_def)
  obtain j where "find_index (\<lambda>i. layer_kind (m_tower m ! i) = k)
      (m_depth m) (length (m_tower m) - m_depth m) = Some j" and ij: "i = j"
    using assms(2) by (auto simp: layer_at_def ok_or_def split: option.splits)
  from find_index_Some [OF this(1)] d have *: "m_depth m \<le> i" "i < length (m_tower m)"
      "layer_kind (m_tower m ! i) = k"
      "\<forall>j. m_depth m \<le> j \<and> j < i \<longrightarrow> layer_kind (m_tower m ! j) \<noteq> k"
    by (auto simp: ij)
  show "m_depth m \<le> i" "i < length (m_tower m)" by fact+
  then show "i < length (mode_tower (m_mode m))" by (simp add: m_wf_length [OF assms(1)])
  show "mode_tower (m_mode m) ! i = k" using *(2,3) m_wf_kind [OF assms(1)] by simp
  show "\<forall>j. m_depth m \<le> j \<and> j < i \<longrightarrow> mode_tower (m_mode m) ! j \<noteq> k"
    using *(2,4) m_wf_kind [OF assms(1)] by (metis less_trans)
qed

lemma layer_at_frame:
  assumes "m_wf m" "layer_at m k op = Inr i"
  shows "i < length (mode_tower (m_mode m)) \<and> mode_tower (m_mode m) ! i = k"
  using layer_at_Inr [OF assms] by simp

lemma layer_at_mem:
  assumes "m_wf m" "layer_at m k op = Inr i"
  shows "k \<in> set (mode_tower (m_mode m))"
  using layer_at_frame [OF assms] by (auto simp: in_set_conv_nth)

lemma layer_at_state:
  assumes "m_wf m" "layer_at m K_State op = Inr i"
  shows "i < length (m_tower m)" "\<exists>v. m_tower m ! i = L_State v"
proof -
  show i: "i < length (m_tower m)"
    using layer_at_Inr [OF assms] by simp
  have "layer_kind (m_tower m ! i) = K_State"
    using layer_at_frame [OF assms] m_wf_kind [OF assms(1) i] by simp
  then show "\<exists>v. m_tower m ! i = L_State v" by (cases "m_tower m ! i") auto
qed

lemma layer_at_Inl: "layer_at m k op = Inl e \<Longrightarrow> e = Raise (D_WrongMode (m_mode m) op)"
  by (auto simp: layer_at_def ok_or_def split: option.splits)

lemma layer_at_visible:
  assumes "m_wf m"
  shows "(\<exists>i. layer_at m k op = Inr i) \<longleftrightarrow> k \<in> set (drop (m_depth m) (mode_tower (m_mode m)))"
proof -
  have d: "m_depth m < length (mode_tower (m_mode m))"
    using assms by (simp add: m_wf_def flip: m_wf_length [OF assms])
  have "(\<exists>i. layer_at m k op = Inr i) \<longleftrightarrow>
      find_index (\<lambda>i. layer_kind (m_tower m ! i) = k)
        (m_depth m) (length (m_tower m) - m_depth m) \<noteq> None"
    by (auto simp: layer_at_def ok_or_def split: option.splits)
  also have "\<dots> \<longleftrightarrow> (\<exists>j \<ge> m_depth m. j < length (mode_tower (m_mode m)) \<and> mode_tower (m_mode m) ! j = k)"
    using d m_wf_kind [OF assms]
    by (auto simp: find_index_None m_wf_length [OF assms])
  also have "\<dots> \<longleftrightarrow> k \<in> set (drop (m_depth m) (mode_tower (m_mode m)))"
  proof
    assume "\<exists>j \<ge> m_depth m. j < length (mode_tower (m_mode m)) \<and> mode_tower (m_mode m) ! j = k"
    then obtain j where "m_depth m \<le> j" "j < length (mode_tower (m_mode m))"
      "mode_tower (m_mode m) ! j = k" by blast
    then show "k \<in> set (drop (m_depth m) (mode_tower (m_mode m)))"
      by (auto simp: in_set_conv_nth intro!: exI [of _ "j - m_depth m"])
  next
    assume "k \<in> set (drop (m_depth m) (mode_tower (m_mode m)))"
    then obtain j where "j < length (mode_tower (m_mode m)) - m_depth m"
      "mode_tower (m_mode m) ! (m_depth m + j) = k"
      by (auto simp: in_set_conv_nth)
    then show "\<exists>j \<ge> m_depth m. j < length (mode_tower (m_mode m)) \<and> mode_tower (m_mode m) ! j = k"
      by (intro exI [of _ "m_depth m + j"]) auto
  qed
  finally show ?thesis .
qed

section \<open>Every step keeps the invariant\<close>

text \<open>
  \<open>step_ok mode P (m', r)\<close>: the machine is well formed in the mode, the errors are those of
  the mode and a result satisfies \<open>P\<close>.
\<close>

definition step_ok :: "mode \<Rightarrow> val \<Rightarrow> ('a \<Rightarrow> bool) \<Rightarrow> continuation \<times> 'a mres \<Rightarrow> bool" where
  "step_ok mode arg P r \<longleftrightarrow>
     m_mode (fst r) = mode \<and> m_arg (fst r) = arg
     \<and> (case snd r of
          Inr a \<Rightarrow> P a \<and> m_wf (fst r)
        | Inl e \<Rightarrow> mode_exn mode e \<and> m_wf (fst r))"

lemma step_ok_Inr [simp]:
  "step_ok mode arg P (m, Inr a) \<longleftrightarrow> m_mode m = mode \<and> m_arg m = arg \<and> P a \<and> m_wf m"
  by (auto simp: step_ok_def)

lemma step_ok_Inl [simp]:
  "step_ok mode arg P (m, Inl e) \<longleftrightarrow> m_mode m = mode \<and> m_arg m = arg \<and> mode_exn mode e \<and> m_wf m"
  by (auto simp: step_ok_def)

lemma step_ok_pure:
  "m_wf m \<Longrightarrow> m_mode m = mode \<Longrightarrow> m_arg m = arg \<Longrightarrow> errs_in (mode_exn mode) r \<Longrightarrow>
   (\<And>a. r = Inr a \<Longrightarrow> P a) \<Longrightarrow> step_ok mode arg P (m, r)"
  by (cases r) auto

abbreviation any :: "'a \<Rightarrow> bool" where
  "any \<equiv> \<lambda>_. True"

lemma apply_val_ok:
  "m_wf m \<Longrightarrow> step_ok (m_mode m) (m_arg m) any (apply_val m f a)"
proof (induction m f a rule: apply_val.induct)
  case (2 m name as arg)
  define args where "args = as @ [arg]"
  define want where "want = (case arity name of Some n \<Rightarrow> n | None \<Rightarrow> 0)"
  have "\<not> short_args name args" if "want \<le> length args"
    using that by (auto simp: short_args_def want_def split: option.splits)
  then have errs: "mode_exn (m_mode m) e" if "want \<le> length args" "call name args = Inl e" for e
    using that errs_inD [OF call_errs] plain_mode_exn by (metis (full_types))
  have rec: "step_ok (m_mode m) (m_arg m) any (apply_val (push m (F_BuiltinPost p)) f x)"
    if "want \<le> length args" "(call name args :: builtin_result mres) = Inr (Apply f x p)" for f x p
    using 2(1) [OF args_def want_def _ _ refl] that 2(2) by (simp add: not_less m_wf_push)
  show ?case
    using 2(2) errs rec
    by (auto simp: Let_def not_less simp flip: args_def want_def
        split: sum.split builtin_result.split)
qed auto

lemma with_layer_ok:
  assumes "m_wf m"
    and "\<And>i. layer_at m k op = Inr i \<Longrightarrow> step_ok (m_mode m) (m_arg m) P (f i)"
  shows "step_ok (m_mode m) (m_arg m) P (with_layer m k op f)"
  using assms layer_at_Inl [of m k op]
  by (auto simp: with_layer_def split: sum.splits)

lemma eval_var_errs: "errs_in (mode_exn mode) (eval_var env scope name)"
  by (auto simp: eval_var_def split: option.split sum.split)

lemma ask_errs: "errs_in (mode_exn mode) (ask env name)"
  by (auto simp: ask_map_of intro: errs_intros)

lemma resolve_errs: "errs_in (mode_exn mode) (resolve env name g)"
  unfolding resolve_map_of by (intro errs_intros) simp

lemma eval_step_ok:
  assumes wf: "m_wf m"
  shows "step_ok (m_mode m) (m_arg m) any (eval_step env m e scope)"
proof (cases e)
  case (EVar x)
  then show ?thesis
    using wf by (auto intro!: step_ok_pure eval_var_errs)
next
  case (EAsk x)
  then show ?thesis
    using wf by (auto intro!: step_ok_pure errs_in_and_then ask_errs)
next
  case (ELift e)
  from wf show ?thesis
    by (auto simp: ELift m_wf_def)
next
  case ELege
  show ?thesis
    unfolding ELege eval_step.simps
  proof (rule with_layer_ok [OF wf])
    fix i
    assume "layer_at m K_State Op_Lege = Inr i"
    from layer_at_state [OF wf this] wf
    show "step_ok (m_mode m) (m_arg m) any
        (m, and_then (index (m_tower m) i) (\<lambda>l. case l of L_State v \<Rightarrow> Inr (C_Value v) | _ \<Rightarrow> Inl Panicked))"
      by auto
  qed
qed (use wf layer_at_frame [OF wf] layer_at_mem [OF wf] in \<open>auto intro!: with_layer_ok m_wf_push\<close>)

section \<open>Outcomes\<close>

lemma drain_state:
  "fst (drain tw st pl ss sp) \<noteq> VUnit \<Longrightarrow> st = VUnit \<Longrightarrow> K_State \<in> set (map layer_kind tw)"
  by (induction tw st pl ss sp rule: drain.induct) (auto split: if_splits)

lemma drain_plan:
  "snd (drain tw st pl ss sp) \<noteq> [] \<Longrightarrow> pl = [] \<Longrightarrow> K_Writer \<in> set (map layer_kind tw)"
  by (induction tw st pl ss sp rule: drain.induct) (auto split: if_splits)

lemma finish_ok:
  assumes "map layer_kind tw = mode_tower mode"
    and "\<And>p. c = Some p \<Longrightarrow> allows mode Op_Perage \<and> p \<noteq> [] \<and> v = Some VUnit"
  shows "outcome_ok mode (finish tw v c)"
  using assms drain_state [of tw VUnit "[]" False False] drain_plan [of tw VUnit "[]" False False]
  by (auto simp: outcome_ok_def finish_def plan_empty_def split: prod.split)

definition step_out_ok :: "mode \<Rightarrow> continuation \<times> step_out mres \<Rightarrow> bool" where
  "step_out_ok mode r \<longleftrightarrow> (case r of
     (m, Inr (Halt out)) \<Rightarrow> outcome_ok mode out
   | (m, Inr (Continue c)) \<Rightarrow> m_wf m \<and> m_mode m = mode
   | (m, Inl e) \<Rightarrow> m_wf m \<and> m_mode m = mode \<and> mode_exn mode e)"

lemma step_out_ok_simps [simp]:
  "step_out_ok mode (m, Inr (Halt out)) = outcome_ok mode out"
  "step_out_ok mode (m, Inr (Continue c)) \<longleftrightarrow> m_wf m \<and> m_mode m = mode"
  "step_out_ok mode (m, Inl e) \<longleftrightarrow> m_wf m \<and> m_mode m = mode \<and> mode_exn mode e"
  by (simp_all add: step_out_ok_def)

lemma continue_with_ok:
  "step_ok mode arg any r \<Longrightarrow> step_out_ok mode (continue_with r)"
  by (cases r; cases "snd r") (auto simp: continue_with_def)

lemma step_out_ok_pure:
  "m_wf m \<Longrightarrow> m_mode m = mode \<Longrightarrow> errs_in (mode_exn mode) r \<Longrightarrow>
   step_out_ok mode (m, and_then r (\<lambda>c. Inr (Continue (f c))))"
  by (cases r) auto

lemma mitte_layer_ok:
  assumes "layer_kind l = K_Writer"
  shows "errs_in (mode_exn mode) (mitte_layer l v)"
    and "mitte_layer l v = Inr l' \<Longrightarrow> layer_kind l' = K_Writer"
  using assms by (cases l; cases v; auto simp: mitte_layer_def)+

lemma value_step_ok:
  assumes "m_wf (push m f)"
  shows "step_out_ok (m_mode m) (value_step env m f v)"
proof (cases f)
  case (F_LiftK d)
  then show ?thesis using m_wf_pop_lift assms by auto
next
  case (F_MitteK i)
  have wf: "m_wf m" and ok: "i < length (mode_tower (m_mode m))" "mode_tower (m_mode m) ! i = K_Writer"
    using m_wf_pop [OF assms] F_MitteK by auto
  then have i: "i < length (m_tower m)" "layer_kind (m_tower m ! i) = K_Writer"
    using m_wf_length [OF wf] m_wf_kind [OF wf] by auto
  show ?thesis
    using wf i mitte_layer_ok [OF i(2), where v = v] m_wf_set_layer [OF wf i(1)]
    by (auto simp: F_MitteK split: sum.split)
next
  case (F_PoneK i)
  have wf: "m_wf m" and ok: "i < length (mode_tower (m_mode m))" "mode_tower (m_mode m) ! i = K_State"
    using m_wf_pop [OF assms] F_PoneK by auto
  then have i: "i < length (m_tower m)" "layer_kind (m_tower m ! i) = K_State"
    using m_wf_length [OF wf] m_wf_kind [OF wf] by auto
  show ?thesis
    using wf i m_wf_set_layer [OF wf i(1)] by (auto simp: F_PoneK)
next
  case (F_AppCall g)
  then show ?thesis
    using m_wf_pop [OF assms] by (auto intro!: continue_with_ok apply_val_ok)
next
  case (F_FixK g s)
  then show ?thesis
    using m_wf_pop [OF assms] by (auto intro!: continue_with_ok apply_val_ok)
next
  case (F_BuiltinPost p)
  then have "errs_in (mode_exn (m_mode m)) (apply_post p v)"
    by (intro errs_in_mono [OF apply_post_errs [where short = False] plain_mode_exn])
  then show ?thesis
    using m_wf_pop [OF assms] F_BuiltinPost by (auto intro!: step_out_ok_pure)
next
  case (F_ClamaK i)
  then have "K_Except \<in> set (mode_tower (m_mode m))"
    using m_wf_pop(2) [OF assms] by (auto simp: in_set_conv_nth)
  then show ?thesis
    using m_wf_pop(1) [OF assms] F_ClamaK by auto
next
  case (F_ResolveK n s)
  then show ?thesis
    using m_wf_pop(1) [OF assms] step_out_ok_pure [OF _ refl resolve_errs, of m env n]
    by (cases v) auto
qed (use m_wf_pop [OF assms] m_wf_tower in \<open>auto intro!: m_wf_push finish_ok split: val.split\<close>)

section \<open>Unwinding, the loop\<close>

lemma unwind_frames_ok:
  "unwind_frames t st d = ((st', d'), h) \<Longrightarrow> lifts_ok d st \<Longrightarrow> list_all Q st \<Longrightarrow>
     lifts_ok d' st' \<and> d' \<le> d \<and> list_all Q st'"
  by (induction t st d arbitrary: st' d' h rule: unwind_frames.induct)
    (fastforce split: if_splits)+

lemma unwind_ok:
  assumes "m_wf m" "unwind m d = (m', r)"
  shows "m_mode m' = m_mode m" "m_wf m'" "r = Inl e \<Longrightarrow> e = Raise d"
  using assms
  by (cases d; force simp: unwind_def m_wf_def dest!: unwind_frames_ok [of _ _ _ _ _ _ "frame_ok _"]
      split: prod.splits option.splits)+

lemma settle_simps:
  "settle (m, Inr (Continue c)) = Inl (m\<lparr>m_control := c\<rparr>)"
  "settle (m, Inr (Halt out)) = Inr (Inr out)"
  "settle (m, Inl Panicked) = Inr (Inl Panicked)"
  "unwind m d = (m', Inr c) \<Longrightarrow> settle (m, Inl (Raise d)) = Inl (m'\<lparr>m_control := c\<rparr>)"
  "unwind m d = (m', Inl e) \<Longrightarrow> settle (m, Inl (Raise d)) = Inr (Inl e)"
  by (simp_all add: settle_def)

text \<open>What a result of a round may be: a well-formed machine of the mode, or an end of the run.\<close>

definition round_ok :: "mode \<Rightarrow> continuation + outcome mres \<Rightarrow> bool" where
  "round_ok mode r = (case r of
     Inl m \<Rightarrow> m_wf m \<and> m_mode m = mode
   | Inr (Inr out) \<Rightarrow> outcome_ok mode out
   | Inr (Inl e) \<Rightarrow> mode_exn mode e)"

lemma round_ok_simps [simp]:
  "round_ok mode (Inl m) \<longleftrightarrow> m_wf m \<and> m_mode m = mode"
  "round_ok mode (Inr (Inr out)) = outcome_ok mode out"
  "round_ok mode (Inr (Inl e)) = mode_exn mode e"
  by (simp_all add: round_ok_def)

lemma settle_ok:
  assumes "step_out_ok mode r"
  shows "round_ok mode (settle r)"
proof (cases r)
  case (Pair m res)
  show ?thesis
  proof (cases res)
    case (Inl e)
    show ?thesis
    proof (cases e)
      case (Raise d)
      obtain m' c where u: "unwind m d = (m', c)" by (cases "unwind m d")
      from assms have m: "m_wf m" "m_mode m = mode" "mode_exn mode (Raise d)"
        by (auto simp: Pair Inl Raise)
      show ?thesis
        using m unwind_ok [OF m(1) u] u
        by (cases c) (auto simp: Pair Inl Raise settle_simps)
    qed (use assms in \<open>auto simp: Pair Inl\<close>)
  next
    case (Inr out)
    then show ?thesis
      using assms by (cases out) (auto simp: Pair settle_simps)
  qed
qed

lemma machine_step_ok:
  assumes "m_wf m"
  shows "round_ok (m_mode m) (machine_step env m)"
proof -
  let ?m = "m\<lparr>m_control := C_Value VUnit\<rparr>"
  have wf: "m_wf ?m" using assms by simp
  have ev: "round_ok (m_mode m) (settle (continue_with (eval_step env ?m e s)))" for e s
    using settle_ok [OF continue_with_ok [OF eval_step_ok [OF wf]]] by simp
  have val: "round_ok (m_mode m) (settle (value_step env (?m\<lparr>m_stack := st\<rparr>) f v))"
    if "m_stack m = f # st" for f st v
  proof -
    have "push (?m\<lparr>m_stack := st\<rparr>) f = ?m" using that by (simp add: push_def)
    with wf have "m_wf (push (?m\<lparr>m_stack := st\<rparr>) f)" by simp
    from settle_ok [OF value_step_ok [OF this]] show ?thesis by simp
  qed
  have fin: "outcome_ok (m_mode m) (finish (m_tower m) (Some v) None)" for v
    by (rule finish_ok [OF m_wf_tower [OF assms]]) simp
  show ?thesis
    using ev val fin
    by (auto simp: machine_step_def Let_def split: control.split list.split)
qed

text \<open>
  A whole run: an outcome or an error of the mode, or the paused machine, well formed again.
\<close>

definition run_ok :: "mode \<Rightarrow> outcome mres \<Rightarrow> bool" where
  "run_ok mode r \<longleftrightarrow>
     (\<exists>m. r = Inl (Raise (D_OutOfFuel m)) \<and> m_wf m \<and> m_mode m = mode) \<or> round_ok mode (Inr r)"

lemma resume_ok: "m_wf m \<Longrightarrow> run_ok (m_mode m) (resume env m fuel)"
proof (induction fuel arbitrary: m)
  case (Suc fuel)
  show ?case
  proof (cases "machine_step env m")
    case (Inl m')
    with machine_step_ok [OF Suc.prems, of env] Suc.IH [of m'] show ?thesis by simp
  next
    case (Inr r)
    with machine_step_ok [OF Suc.prems, of env] show ?thesis by (simp add: run_ok_def)
  qed
qed (simp add: run_ok_def)

lemma seed_tower_kinds: "map layer_kind (seed_tower ks st) = ks"
  by (induction ks st rule: seed_tower.induct) auto

lemma start_wf: "m_wf (start mode body arg st)"
  by (auto simp: m_wf_def start_def build_tower_def seed_tower_kinds
      simp flip: length_map [of layer_kind])

end
