(* ===== verification/Fuel.thy ===== *)
theory Fuel
  imports Machine_Inv
begin

text \<open>
  Fuel, and the contract between the machine and its drivers.

  The drivers (the hosted \<open>run_full\<close>, the kernel's \<open>run_full\<close>) never look inside a paused
  machine: they resume it, slice after slice. What they rely on is the interface \<open>resumable\<close>:
  running for \<open>a + b\<close> steps is running for \<open>a\<close> and resuming for \<open>b\<close>. Inside the locale,
  \<open>slices_run\<close> shows that a run cut into slices is the run in one piece, and \<open>run_mono\<close> that
  more fuel never changes a result. The machine provides the interface (interpretation
  \<open>officium\<close>), on well-formed machines.
\<close>

section \<open>Runs in slices\<close>

text \<open>At most \<open>n\<close> slices of \<open>s\<close> steps each.\<close>

fun slices :: "('m \<Rightarrow> nat \<Rightarrow> 'm + 'r) \<Rightarrow> nat \<Rightarrow> nat \<Rightarrow> 'm \<Rightarrow> 'm + 'r" where
  "slices run s 0 m = Inl m"
| "slices run s (Suc n) m =
     (case run m s of Inl m' \<Rightarrow> slices run s n m' | Inr r \<Rightarrow> Inr r)"

locale resumable =
  fixes run :: "'m \<Rightarrow> nat \<Rightarrow> 'm + 'r"
    and ok :: "'m \<Rightarrow> bool"
  assumes run_0: "run m 0 = Inl m"
    and run_add: "ok m \<Longrightarrow> run m (a + b) = (case run m a of Inl m' \<Rightarrow> run m' b | Inr r \<Rightarrow> Inr r)"
    and run_ok: "ok m \<Longrightarrow> run m a = Inl m' \<Longrightarrow> ok m'"
begin

lemma run_mono: "ok m \<Longrightarrow> run m a = Inr r \<Longrightarrow> a \<le> b \<Longrightarrow> run m b = Inr r"
  using run_add [of m a "b - a"] by simp

lemma run_unique:
  assumes "ok m" "run m a = Inr r" "run m b = Inr r'"
  shows "r = r'"
proof -
  have "run m (max a b) = Inr r" "run m (max a b) = Inr r'"
    by (rule run_mono [OF assms(1,2)], simp) (rule run_mono [OF assms(1,3)], simp)
  then show ?thesis by simp
qed

lemma paused_mono: "ok m \<Longrightarrow> run m b = Inl m' \<Longrightarrow> a \<le> b \<Longrightarrow> \<exists>m''. run m a = Inl m''"
  using run_mono [of m a _ b] by (cases "run m a") auto

lemma slices_run: "ok m \<Longrightarrow> slices run s n m = run m (n * s)"
proof (induction n arbitrary: m)
  case (Suc n)
  show ?case
  proof (cases "run m s")
    case (Inl m')
    with Suc.prems run_ok have "ok m'" by blast
    with Suc.IH [of m'] Inl run_add [OF Suc.prems, of s "n * s"] show ?thesis by simp
  next
    case (Inr r)
    with run_add [OF Suc.prems, of s "n * s"] show ?thesis by simp
  qed
qed (simp add: run_0)

text \<open>The size of the slices does not matter.\<close>

lemma slices_same:
  "ok m \<Longrightarrow> slices run s n m = Inr r \<Longrightarrow> slices run s' n' m = Inr r' \<Longrightarrow> r = r'"
  by (simp add: slices_run run_unique)

end

section \<open>The machine is resumable\<close>

text \<open>The machine's result, seen by a driver: paused, or over.\<close>

definition paused :: "outcome mres \<Rightarrow> continuation + outcome mres" where
  "paused r = (case r of Inl (Raise (D_OutOfFuel m)) \<Rightarrow> Inl m | _ \<Rightarrow> Inr r)"

definition machine_run :: "env \<Rightarrow> continuation \<Rightarrow> nat \<Rightarrow> continuation + outcome mres" where
  "machine_run env m fuel = paused (resume env m fuel)"

lemma paused_simps [simp]:
  "paused (Inl (Raise (D_OutOfFuel m))) = Inl m"
  "paused (Inr out) = Inr (Inr out)"
  "paused (Inl Panicked) = Inr (Inl Panicked)"
  by (simp_all add: paused_def)

lemma paused_Inl_iff: "paused r = Inl m \<longleftrightarrow> r = Inl (Raise (D_OutOfFuel m))"
  by (auto simp: paused_def split: sum.splits exn.splits dissonance.splits)

lemma paused_Inr_iff: "paused r = Inr r' \<longleftrightarrow> r' = r \<and> (\<forall>m. r \<noteq> Inl (Raise (D_OutOfFuel m)))"
  by (auto simp: paused_def split: sum.splits exn.splits dissonance.splits)

lemma round_ok_over: "round_ok mode (Inr r) \<Longrightarrow> paused r = Inr r"
  by (cases r) (auto simp: paused_Inr_iff)

lemma machine_run_0: "machine_run env m 0 = Inl m"
  by (simp add: machine_run_def)

lemma machine_run_Suc:
  "m_wf m \<Longrightarrow> machine_run env m (Suc fuel) =
     (case machine_step env m of Inl m' \<Rightarrow> machine_run env m' fuel | Inr r \<Rightarrow> Inr r)"
  using machine_step_ok [of m env] round_ok_over
  by (auto simp: machine_run_def split: sum.split)

lemma machine_run_add:
  "m_wf m \<Longrightarrow> machine_run env m (a + b)
     = (case machine_run env m a of Inl m' \<Rightarrow> machine_run env m' b | Inr r \<Rightarrow> Inr r)"
proof (induction a arbitrary: m)
  case (Suc a)
  then show ?case
    using machine_step_ok [OF Suc.prems, of env]
    by (auto simp: machine_run_Suc split: sum.split)
qed (simp add: machine_run_0)

interpretation officium: resumable "machine_run env" m_wf for env
proof
  fix m m' :: continuation and a b :: nat
  show "machine_run env m 0 = Inl m" by (rule machine_run_0)
  show "m_wf m \<Longrightarrow> machine_run env m (a + b)
      = (case machine_run env m a of Inl m' \<Rightarrow> machine_run env m' b | Inr r \<Rightarrow> Inr r)"
    by (rule machine_run_add)
  show "m_wf m \<Longrightarrow> machine_run env m a = Inl m' \<Longrightarrow> m_wf m'"
    using resume_ok [of m env a] round_ok_over
    by (force simp: machine_run_def run_ok_def paused_Inl_iff)
qed

end
