(* ===== verification/Semantics.thy ===== *)
theory Semantics
  imports Fuel
begin

text \<open>
  What the machine computes: a reference interpreter, and the proof that the machine
  implements it.

  The interpreter is compositional. A computation is a function of the effect tower; it
  yields a value, or throws on an Except layer, or cadences, or fails. \<open>seq\<close> runs one
  computation after another, \<open>recover\<close> is \<open>recipe\<close>, and a lifted body runs one layer down.
  There is no stack, no frame and no unwinding. Its fuel bounds the nesting of evaluations
  (\<open>None\<close>: it was not enough).

  \<open>realises\<close> relates a machine state to a computation: from that state, on any stack, the
  machine reaches what the computation yields. One rule per way of composing computations
  (\<open>realises_seq\<close>, \<open>realises_recover\<close>, \<open>realises_lift\<close>, \<open>realises_step\<close>) makes the
  simulation one short case per construct. \<open>Adequacy\<close> has the converse: a machine that stops
  within \<open>k\<close> steps is one whose computation is defined with fuel \<open>k\<close>. Together:
  \<open>interp_verse\<close> and \<open>run_verse\<close> give the same results and stop on the same verses.
\<close>

section \<open>The interpreter\<close>

datatype 'a eff = Ok 'a | Thrown nat val | Halted outcome | Failed "diss exn"

type_synonym 'a comp = "layer list \<Rightarrow> ('a eff \<times> layer list) option"

definition ret :: "'a \<Rightarrow> 'a comp" where
  "ret a = (\<lambda>tw. Some (Ok a, tw))"

definition fail :: "diss exn \<Rightarrow> 'a comp" where
  "fail e = (\<lambda>tw. Some (Failed e, tw))"

definition of_result :: "'a mres \<Rightarrow> 'a comp" where
  "of_result r = (case r of Inl e \<Rightarrow> fail e | Inr a \<Rightarrow> ret a)"

definition seq :: "'a comp \<Rightarrow> ('a \<Rightarrow> 'b comp) \<Rightarrow> 'b comp" where
  "seq c g = (\<lambda>tw. case c tw of
     None \<Rightarrow> None
   | Some (Ok a, tw') \<Rightarrow> g a tw'
   | Some (Thrown i v, tw') \<Rightarrow> Some (Thrown i v, tw')
   | Some (Halted out, tw') \<Rightarrow> Some (Halted out, tw')
   | Some (Failed e, tw') \<Rightarrow> Some (Failed e, tw'))"

definition recover :: "nat \<Rightarrow> 'a comp \<Rightarrow> (val \<Rightarrow> 'a comp) \<Rightarrow> 'a comp" where
  "recover i c h = (\<lambda>tw. case c tw of
     Some (Thrown j v, tw') \<Rightarrow> if j = i then h v tw' else Some (Thrown j v, tw')
   | r \<Rightarrow> r)"

definition throw :: "nat \<Rightarrow> val \<Rightarrow> 'a comp" where
  "throw i v = (\<lambda>tw. Some (Thrown i v, tw))"

definition cadence :: "val \<Rightarrow> plan option \<Rightarrow> 'a comp" where
  "cadence v committed = (\<lambda>tw. Some (Halted (finish tw (Some v) committed), tw))"

definition state_get :: "nat \<Rightarrow> val comp" where
  "state_get i = (\<lambda>tw. case tw ! i of L_State v \<Rightarrow> ret v tw | _ \<Rightarrow> fail Panicked tw)"

definition state_put :: "nat \<Rightarrow> val \<Rightarrow> val comp" where
  "state_put i v = (\<lambda>tw. Some (Ok VUnit, tw[i := L_State v]))"

definition tell :: "nat \<Rightarrow> val \<Rightarrow> val comp" where
  "tell i v = (\<lambda>tw. case mitte_layer (tw ! i) v of
     Inl e \<Rightarrow> fail e tw
   | Inr l \<Rightarrow> Some (Ok VUnit, tw[i := l]))"

definition commit :: "val \<Rightarrow> val comp" where
  "commit v = (case v of
     VPlan p \<Rightarrow> if p = [] then fail (Raise D_Premature) else cadence VUnit (Some p)
   | _ \<Rightarrow> fail (Raise D_Unconsecrated))"

text \<open>The layer an operation acts on: the topmost of its kind, \<open>d\<close> layers down at least.\<close>

definition on_layer ::
  "mode \<Rightarrow> nat \<Rightarrow> layer_kind \<Rightarrow> op_kind \<Rightarrow> (nat \<Rightarrow> 'a comp) \<Rightarrow> 'a comp" where
  "on_layer mode d k op f =
     (case find_index (\<lambda>i. mode_tower mode ! i = k) d (length (mode_tower mode) - d) of
        Some i \<Rightarrow> f i
      | None \<Rightarrow> fail (Raise (D_WrongMode mode op)))"

fun interp :: "nat \<Rightarrow> env \<Rightarrow> mode \<Rightarrow> val \<Rightarrow> nat \<Rightarrow> expr \<Rightarrow> scope \<Rightarrow> val comp"
  and interp_apply :: "nat \<Rightarrow> env \<Rightarrow> mode \<Rightarrow> val \<Rightarrow> nat \<Rightarrow> val \<Rightarrow> val \<Rightarrow> val comp" where
  "interp 0 env mode arg d e sc = (\<lambda>tw. None)"
| "interp (Suc n) env mode arg d e sc =
     (case e of
        ELit v \<Rightarrow> ret v
      | EVar x \<Rightarrow> (case eval_var env sc x of
            Inr (C_Value v) \<Rightarrow> ret v | Inr (C_Eval _ _) \<Rightarrow> fail Panicked | Inl err \<Rightarrow> fail err)
      | ELam p b \<Rightarrow> ret (VClosure p b sc)
      | EApp f a \<Rightarrow> seq (interp n env mode arg d f sc) (\<lambda>fv. seq (interp n env mode arg d a sc) (\<lambda>av. interp_apply n env mode arg d fv av))
      | EIf c t e \<Rightarrow> seq (interp n env mode arg d c sc) (\<lambda>v. case v of
            VBool b \<Rightarrow> interp n env mode arg d (if b then t else e) sc
          | other \<Rightarrow> fail (Raise (D_Dissonant ''bool'' (ty other))))
      | EFix f \<Rightarrow> seq (interp n env mode arg d f sc) (\<lambda>v. interp_apply n env mode arg d v (self_ref f sc))
      | EPure _ e \<Rightarrow> interp n env mode arg d e sc
      | EReturn _ e \<Rightarrow> seq (interp n env mode arg d e sc) (\<lambda>v. cadence v None)
      | EBind _ m x k \<Rightarrow> seq (interp n env mode arg d m sc) (\<lambda>v. interp n env mode arg d k (scope_bind sc x v))
      | EArg \<Rightarrow> ret arg
      | EAsk x \<Rightarrow> of_result (ask env x)
      | EResolve x g \<Rightarrow> seq (interp n env mode arg d g sc) (\<lambda>v. case v of
            VGenus g \<Rightarrow> seq (of_result (resolve env x g)) (\<lambda>e. interp n env mode arg d e sc)
          | other \<Rightarrow> fail (Raise (D_Dissonant ''genus'' (ty other))))
      | ENihil \<Rightarrow> on_layer mode d K_Maybe Op_Nihil (\<lambda>_. fail (Raise D_Silent))
      | EClama e \<Rightarrow> on_layer mode d K_Except Op_Clama (\<lambda>i. seq (interp n env mode arg d e sc) (throw i))
      | ERecipe b x h \<Rightarrow> on_layer mode d K_Except Op_Recipe
          (\<lambda>i. recover i (interp n env mode arg d b sc) (\<lambda>v. interp n env mode arg d h (scope_bind sc x v)))
      | ELege \<Rightarrow> on_layer mode d K_State Op_Lege state_get
      | EPone e \<Rightarrow> on_layer mode d K_State Op_Pone (\<lambda>i. seq (interp n env mode arg d e sc) (state_put i))
      | EMitte e \<Rightarrow> on_layer mode d K_Writer Op_Mitte (\<lambda>i. seq (interp n env mode arg d e sc) (tell i))
      | EPerage e \<Rightarrow> on_layer mode d K_Commit Op_Perage (\<lambda>_. seq (interp n env mode arg d e sc) commit)
      | ELift e \<Rightarrow>
          (if length (mode_tower mode) - d < 2 then fail (Raise (D_WrongMode mode Op_Lift))
           else interp n env mode arg (Suc d) e sc))"
| "interp_apply 0 env mode arg d f a = (\<lambda>tw. None)"
| "interp_apply (Suc n) env mode arg d f a =
     (case f of
        VClosure p b sc \<Rightarrow> interp n env mode arg d b (scope_bind sc p a)
      | VBuiltin name as \<Rightarrow>
          (if length (as @ [a]) < (case arity name of Some n \<Rightarrow> n | None \<Rightarrow> 0)
           then ret (VBuiltin name (as @ [a]))
           else (case call name (as @ [a]) of
                   Inl e \<Rightarrow> fail e
                 | Inr (Done v) \<Rightarrow> ret v
                 | Inr (Apply g x post) \<Rightarrow>
                     seq (interp_apply n env mode arg d g x) (\<lambda>v. of_result (apply_post post v))))
      | other \<Rightarrow> fail (Raise (D_Dissonant ''closure'' (ty other))))"

definition verse_result :: "val eff \<times> layer list \<Rightarrow> outcome mres" where
  "verse_result = (\<lambda>(r, tw). case r of
     Ok v \<Rightarrow> Inr (finish tw (Some v) None)
   | Thrown i v \<Rightarrow> Inl (Raise (D_User v))
   | Halted out \<Rightarrow> Inr out
   | Failed e \<Rightarrow> Inl e)"

definition interp_verse :: "nat \<Rightarrow> env \<Rightarrow> mode \<Rightarrow> expr \<Rightarrow> val \<Rightarrow> val \<Rightarrow> outcome mres option" where
  "interp_verse n env mode body arg st =
     map_option verse_result (interp n env mode arg 0 body [] (build_tower mode st))"

section \<open>Running the machine from a configuration\<close>

definition cfg ::
  "mode \<Rightarrow> val \<Rightarrow> control \<Rightarrow> frame list \<Rightarrow> layer list \<Rightarrow> nat \<Rightarrow> nat \<Rightarrow> continuation" where
  "cfg mode arg c st tw d th =
     \<lparr>m_control = c, m_stack = st, m_tower = tw, m_depth = d, m_thrown = th, m_mode = mode, m_arg = arg\<rparr>"

fun run_from :: "env \<Rightarrow> nat \<Rightarrow> continuation + outcome mres \<Rightarrow> continuation + outcome mres" where
  "run_from env 0 s = s"
| "run_from env (Suc k) s =
     (case s of Inl m \<Rightarrow> run_from env k (machine_step env m) | Inr r \<Rightarrow> Inr r)"

lemma run_from_Inr [simp]: "run_from env k (Inr r) = Inr r"
  by (cases k) auto

lemma run_from_add: "run_from env (j + k) s = run_from env k (run_from env j s)"
  by (induction j arbitrary: s) (auto split: sum.split)

lemma run_from_mono: "run_from env j s = Inr r \<Longrightarrow> j \<le> k \<Longrightarrow> run_from env k s = Inr r"
  using run_from_add [of env j "k - j" s] by simp

lemma run_from_before: "run_from env k s = Inr r \<Longrightarrow> run_from env j s = Inl m \<Longrightarrow>
    j < k \<and> run_from env (k - j) (Inl m) = Inr r"
  using run_from_mono [of env k s r j] run_from_add [of env j "k - j" s]
  by (cases "k \<le> j") auto

lemma machine_run_run_from: "m_wf m \<Longrightarrow> machine_run env m k = run_from env k (Inl m)"
proof (induction k arbitrary: m)
  case (Suc k)
  then show ?case
    using machine_step_ok [OF Suc.prems, of env] by (auto simp: machine_run_Suc split: sum.split)
qed (simp add: machine_run_0)

lemma run_from_then_step:
  "run_from env k s = Inl m \<Longrightarrow> run_from env (k + 1) s = machine_step env m"
  by (simp only: run_from_add) simp

text \<open>Selecting from and updating a configuration.\<close>

lemma cfg_simps [simp]:
  "m_control (cfg mode arg c st tw d th) = c" "m_stack (cfg mode arg c st tw d th) = st"
  "m_tower (cfg mode arg c st tw d th) = tw" "m_depth (cfg mode arg c st tw d th) = d"
  "m_thrown (cfg mode arg c st tw d th) = th" "m_mode (cfg mode arg c st tw d th) = mode"
  "m_arg (cfg mode arg c st tw d th) = arg"
  "push (cfg mode arg c st tw d th) f = cfg mode arg c (f # st) tw d th"
  "(cfg mode arg c st tw d th)\<lparr>m_control := c'\<rparr> = cfg mode arg c' st tw d th"
  "(cfg mode arg c st tw d th)\<lparr>m_stack := st'\<rparr> = cfg mode arg c st' tw d th"
  "(cfg mode arg c st tw d th)\<lparr>m_tower := tw'\<rparr> = cfg mode arg c st tw' d th"
  "(cfg mode arg c st tw d th)\<lparr>m_depth := d'\<rparr> = cfg mode arg c st tw d' th"
  "(cfg mode arg c st tw d th)\<lparr>m_thrown := th'\<rparr> = cfg mode arg c st tw d th'"
  by (simp_all add: cfg_def push_def)

lemma machine_step_eval [step_simps]:
  "machine_step env (cfg mode arg (C_Eval e sc) st tw d th)
     = settle (continue_with (eval_step env (cfg mode arg (C_Value VUnit) st tw d th) e sc))"
  by (simp add: machine_step_def)

lemma machine_step_value [step_simps]:
  "machine_step env (cfg mode arg (C_Value v) (f # st) tw d th)
     = settle (value_step env (cfg mode arg (C_Value VUnit) st tw d th) f v)"
  by (simp add: machine_step_def)

lemma machine_step_end [step_simps]:
  "machine_step env (cfg mode arg (C_Value v) [] tw d th) = Inr (Inr (finish tw (Some v) None))"
  by (simp add: machine_step_def)

lemma continue_with_simps [step_simps]:
  "continue_with (m, Inr c) = (m, Inr (Continue c))"
  "continue_with (m, Inl e) = (m, Inl e)"
  by (simp_all add: continue_with_def)

text \<open>Where the machine is once a computation has yielded \<open>r\<close>, above the stack \<open>st\<close>.\<close>

definition after ::
  "mode \<Rightarrow> val \<Rightarrow> val eff \<Rightarrow> frame list \<Rightarrow> layer list \<Rightarrow> nat \<Rightarrow> nat \<Rightarrow> continuation + outcome mres" where
  "after mode arg r st tw d th = (case r of
     Ok v \<Rightarrow> Inl (cfg mode arg (C_Value v) st tw d th)
   | Thrown i v \<Rightarrow> settle (cfg mode arg (C_Value VUnit) st tw d i, Inl (Raise (D_User v)))
   | Halted out \<Rightarrow> Inr (Inr out)
   | Failed e \<Rightarrow> Inr (Inl e))"

definition tower_ok :: "mode \<Rightarrow> nat \<Rightarrow> layer list \<Rightarrow> bool" where
  "tower_ok mode d tw \<longleftrightarrow> map layer_kind tw = mode_tower mode \<and> d < length (mode_tower mode)"

type_synonym config = "frame list \<Rightarrow> layer list \<Rightarrow> nat \<Rightarrow> continuation + outcome mres"

definition realises :: "env \<Rightarrow> mode \<Rightarrow> val \<Rightarrow> nat \<Rightarrow> config \<Rightarrow> val comp \<Rightarrow> bool" where
  "realises env mode arg d s c \<longleftrightarrow>
     (\<forall>tw r tw'. tower_ok mode d tw \<longrightarrow> c tw = Some (r, tw') \<longrightarrow>
        tower_ok mode d tw'
        \<and> (\<exists>k. \<forall>st th. \<exists>th'. run_from env k (s st tw th) = after mode arg r st tw' d th'))"

text \<open>A frame that errors pass without being caught.\<close>

definition transparent :: "frame \<Rightarrow> bool" where
  "transparent f = (case f of F_RecipeH _ _ _ _ \<Rightarrow> False | F_LiftK _ \<Rightarrow> False | _ \<Rightarrow> True)"

lemma unwind_transparent:
  "transparent f \<Longrightarrow> unwind_frames t (f # st) d = unwind_frames t st d"
  by (cases f) (auto simp: transparent_def)

lemma settle_user:
  "settle (cfg mode arg c st tw d i, Inl (Raise (D_User v))) =
     (case unwind_frames i st d of
        ((st', d'), Some (x, h, sc)) \<Rightarrow> Inl (cfg mode arg (C_Eval h (scope_bind sc x v)) st' tw d' i)
      | ((st', d'), None) \<Rightarrow> Inr (Inl (Raise (D_User v))))"
  by (simp add: settle_def unwind_def cfg_def split: prod.split option.split)

lemma settle_other:
  "(\<And>v. d \<noteq> D_User v) \<Longrightarrow> settle (m, Inl (Raise d)) = Inr (Inl (Raise d))"
  by (cases d) (auto simp: settle_def unwind_def)

lemma after_transparent:
  "transparent f \<Longrightarrow> (\<And>v. r \<noteq> Ok v) \<Longrightarrow> after mode arg r (f # st) tw d th = after mode arg r st tw d th"
  by (cases r) (auto simp: after_def settle_user unwind_transparent)

lemma after_Inr:
  "after mode arg (Halted out) st tw d th = Inr (Inr out)"
  "after mode arg (Failed e) st tw d th = Inr (Inl e)"
  "after mode arg (Ok v) st tw d th = Inl (cfg mode arg (C_Value v) st tw d th)"
  by (simp_all add: after_def)

section \<open>Composing computations\<close>

lemma realisesI:
  assumes "\<And>tw r tw'. tower_ok mode d tw \<Longrightarrow> c tw = Some (r, tw') \<Longrightarrow>
    tower_ok mode d tw' \<and> (\<exists>k. \<forall>st th. \<exists>th'. run_from env k (s st tw th) = after mode arg r st tw' d th')"
  shows "realises env mode arg d s c"
  using assms by (simp add: realises_def)

lemma realisesE:
  assumes "realises env mode arg d s c" "tower_ok mode d tw" "c tw = Some (r, tw')"
  obtains k where "tower_ok mode d tw'"
    "\<And>st th. \<exists>th'. run_from env k (s st tw th) = after mode arg r st tw' d th'"
  using assms by (fastforce simp: realises_def)

text \<open>A state that is already where a computation ends.\<close>

lemma realises_here:
  assumes "\<And>tw r tw'. tower_ok mode d tw \<Longrightarrow> c tw = Some (r, tw') \<Longrightarrow>
    tower_ok mode d tw' \<and> (\<forall>st th. \<exists>th'. s st tw th = after mode arg r st tw' d th')"
  shows "realises env mode arg d s c"
proof (rule realisesI)
  fix tw r tw'
  assume "tower_ok mode d tw" "c tw = Some (r, tw')"
  from assms [OF this]
  show "tower_ok mode d tw' \<and> (\<exists>k. \<forall>st th. \<exists>th'. run_from env k (s st tw th) = after mode arg r st tw' d th')"
    by (intro conjI exI [of _ 0]) auto
qed

lemma realises_ret:
  "(\<And>st tw th. s st tw th = Inl (cfg mode arg (C_Value v) st tw d th)) \<Longrightarrow>
   realises env mode arg d s (ret v)"
  by (rule realises_here) (auto simp: ret_def after_Inr)

lemma realises_fail:
  "(\<And>st tw th. s st tw th = Inr (Inl e)) \<Longrightarrow> realises env mode arg d s (fail e)"
  by (rule realises_here) (auto simp: fail_def after_Inr)

lemma realises_step:
  assumes "realises env mode arg d s' c"
    and "\<And>st tw th. tower_ok mode d tw \<Longrightarrow> machine_step env (m st tw th) = s' st tw th"
  shows "realises env mode arg d (\<lambda>st tw th. Inl (m st tw th)) c"
proof (rule realisesI)
  fix tw r tw'
  assume tw: "tower_ok mode d tw" and c: "c tw = Some (r, tw')"
  obtain k where "tower_ok mode d tw'"
    and k: "\<And>st th. \<exists>th'. run_from env k (s' st tw th) = after mode arg r st tw' d th'"
    using realisesE [OF assms(1) tw c] by blast
  then show "tower_ok mode d tw' \<and>
      (\<exists>k. \<forall>st th. \<exists>th'. run_from env k (Inl (m st tw th)) = after mode arg r st tw' d th')"
    using assms(2) [OF tw] by (intro conjI exI [of _ "Suc k"]) auto
qed

lemma realises_seq:
  assumes c: "realises env mode arg d s c"
    and f: "transparent f"
    and g: "\<And>v. realises env mode arg d (\<lambda>st tw th. Inl (cfg mode arg (C_Value v) (f # st) tw d th)) (g v)"
  shows "realises env mode arg d (\<lambda>st. s (f # st)) (seq c g)"
proof (rule realisesI)
  fix tw r tw'
  assume tw: "tower_ok mode d tw" and "seq c g tw = Some (r, tw')"
  then obtain r1 tw1 where c1: "c tw = Some (r1, tw1)"
    and rest: "case r1 of Ok v \<Rightarrow> g v tw1 = Some (r, tw') | _ \<Rightarrow> r = r1 \<and> tw' = tw1"
    by (auto simp: seq_def split: option.splits eff.splits)
  obtain k1 where tw1: "tower_ok mode d tw1"
    and k1: "\<And>st th. \<exists>th'. run_from env k1 (s st tw th) = after mode arg r1 st tw1 d th'"
    using realisesE [OF c tw c1] by blast
  show "tower_ok mode d tw' \<and>
      (\<exists>k. \<forall>st th. \<exists>th'. run_from env k (s (f # st) tw th) = after mode arg r st tw' d th')"
  proof (cases "\<exists>v. r1 = Ok v")
    case True
    then obtain v where v: "r1 = Ok v" by blast
    with rest have "g v tw1 = Some (r, tw')" by simp
    then obtain k2 where tw': "tower_ok mode d tw'"
      and k2: "\<And>st th. \<exists>th'. run_from env k2 (Inl (cfg mode arg (C_Value v) (f # st) tw1 d th))
                 = after mode arg r st tw' d th'"
      using realisesE [OF g tw1] by blast
    have "\<exists>th'. run_from env (k1 + k2) (s (f # st) tw th) = after mode arg r st tw' d th'" for st th
      using k1 [of "f # st" th] k2 by (auto simp: run_from_add v after_Inr)
    with tw' show ?thesis by blast
  next
    case False
    then have r1: "\<And>v. r1 \<noteq> Ok v" by blast
    then have "r = r1" "tw' = tw1" using rest by (cases r1; simp)+
    have "\<exists>th'. run_from env k1 (s (f # st) tw th) = after mode arg r1 st tw1 d th'" for st th
      using k1 [of "f # st" th] unfolding after_transparent [OF f r1] .
    then show ?thesis
      using tw1 \<open>r = r1\<close> \<open>tw' = tw1\<close> by blast
  qed
qed

lemma realises_recover:
  assumes c: "realises env mode arg d s c"
    and h: "\<And>v. realises env mode arg d
              (\<lambda>st tw th. Inl (cfg mode arg (C_Eval handler (scope_bind sc x v)) st tw d th)) (h v)"
  shows "realises env mode arg d (\<lambda>st. s (F_RecipeH x handler sc i # st)) (recover i c h)"
proof (rule realisesI)
  let ?f = "F_RecipeH x handler sc i"
  fix tw r tw'
  assume tw: "tower_ok mode d tw" and "recover i c h tw = Some (r, tw')"
  then obtain r1 tw1 where c1: "c tw = Some (r1, tw1)"
    and rest: "case r1 of Thrown j v \<Rightarrow>
        if j = i then h v tw1 = Some (r, tw') else r = r1 \<and> tw' = tw1 | _ \<Rightarrow> r = r1 \<and> tw' = tw1"
    by (auto simp: recover_def split: option.splits eff.splits prod.splits if_splits)
  obtain k1 where tw1: "tower_ok mode d tw1"
    and k1: "\<And>st th. \<exists>th'. run_from env k1 (s st tw th) = after mode arg r1 st tw1 d th'"
    using realisesE [OF c tw c1] by blast
  show "tower_ok mode d tw' \<and>
      (\<exists>k. \<forall>st th. \<exists>th'. run_from env k (s (?f # st) tw th) = after mode arg r st tw' d th')"
  proof (cases r1)
    case (Ok v)
    have "\<exists>th'. run_from env (k1 + 1) (s (?f # st) tw th) = after mode arg r1 st tw1 d th'" for st th
      using k1 [of "?f # st" th] run_from_then_step [of env k1 "s (?f # st) tw th"]
      by (auto simp: Ok after_Inr step_simps settle_simps)
    then have "\<exists>k. \<forall>st th. \<exists>th'. run_from env k (s (?f # st) tw th) = after mode arg r1 st tw1 d th'"
      by blast
    with tw1 rest Ok show ?thesis by simp
  next
    case (Thrown j v)
    show ?thesis
    proof (cases "j = i")
      case True
      with rest Thrown have "h v tw1 = Some (r, tw')" by simp
      then obtain k2 where tw': "tower_ok mode d tw'"
        and k2: "\<And>st th. \<exists>th'. run_from env k2
             (Inl (cfg mode arg (C_Eval handler (scope_bind sc x v)) st tw1 d th)) = after mode arg r st tw' d th'"
        using realisesE [OF h tw1] by blast
      have "\<exists>th'. run_from env (k1 + k2) (s (?f # st) tw th) = after mode arg r st tw' d th'" for st th
        using k1 [of "?f # st" th] k2 True by (auto simp: run_from_add Thrown after_def settle_user)
      with tw' show ?thesis by blast
    next
      case False
      have "after mode arg r1 (?f # st) tw1 d th = after mode arg r1 st tw1 d th" for st th
        using False by (simp add: Thrown after_def settle_user)
      then have "\<exists>th'. run_from env k1 (s (?f # st) tw th) = after mode arg r1 st tw1 d th'" for st th
        using k1 [of "?f # st" th] by simp
      then show ?thesis
        using tw1 rest Thrown False by auto
    qed
  next
    case (Halted out)
    with tw1 k1 rest show ?thesis by (intro conjI exI [of _ k1]) (auto simp: after_Inr)
  next
    case (Failed e)
    with tw1 k1 rest show ?thesis by (intro conjI exI [of _ k1]) (auto simp: after_Inr)
  qed
qed

lemma realises_lift:
  assumes c: "realises env mode arg (Suc d) s c" and d: "Suc d < length (mode_tower mode)"
  shows "realises env mode arg d (\<lambda>st. s (F_LiftK d # st)) c"
proof (rule realisesI)
  fix tw r tw'
  assume tw: "tower_ok mode d tw" and c1: "c tw = Some (r, tw')"
  have "tower_ok mode (Suc d) tw" using tw d by (simp add: tower_ok_def)
  from realisesE [OF c this c1] obtain k1 where tw': "tower_ok mode d tw'"
    and k1: "\<And>st th. \<exists>th'. run_from env k1 (s st tw th) = after mode arg r st tw' (Suc d) th'"
    by (metis Suc_lessD tower_ok_def)
  show "tower_ok mode d tw' \<and>
      (\<exists>k. \<forall>st th. \<exists>th'. run_from env k (s (F_LiftK d # st) tw th) = after mode arg r st tw' d th')"
  proof (cases r)
    case (Ok v)
    have "\<exists>th'. run_from env (k1 + 1) (s (F_LiftK d # st) tw th) = after mode arg r st tw' d th'" for st th
      using k1 [of "F_LiftK d # st" th] run_from_then_step [of env k1 "s (F_LiftK d # st) tw th"]
      by (auto simp: Ok after_Inr step_simps settle_simps)
    with tw' show ?thesis by blast
  next
    case (Thrown j v)
    have "after mode arg r (F_LiftK d # st) tw' (Suc d) th = after mode arg r st tw' d th" for st th
      by (simp add: Thrown after_def settle_user)
    then have "\<exists>th'. run_from env k1 (s (F_LiftK d # st) tw th) = after mode arg r st tw' d th'" for st th
      using k1 [of "F_LiftK d # st" th] by simp
    with tw' show ?thesis by blast
  next
    case (Halted out)
    with tw' k1 show ?thesis by (intro conjI exI [of _ k1]) (auto simp: after_Inr)
  next
    case (Failed e)
    with tw' k1 show ?thesis by (intro conjI exI [of _ k1]) (auto simp: after_Inr)
  qed
qed

section \<open>The machine realises the interpreter\<close>

lemma tower_ok_length: "tower_ok mode d tw \<Longrightarrow> length tw = length (mode_tower mode)"
  by (metis length_map tower_ok_def)

lemma tower_ok_kind:
  "tower_ok mode d tw \<Longrightarrow> i < length (mode_tower mode) \<Longrightarrow> layer_kind (tw ! i) = mode_tower mode ! i"
  by (metis nth_map tower_ok_def length_map)

lemma tower_ok_update:
  "tower_ok mode d tw \<Longrightarrow> layer_kind l = layer_kind (tw ! i) \<Longrightarrow> tower_ok mode d (tw[i := l])"
  by (simp add: tower_ok_def list_update_same_map)

lemma find_index_cong:
  "(\<And>j. i \<le> j \<Longrightarrow> j < i + n \<Longrightarrow> P j = Q j) \<Longrightarrow> find_index P i n = find_index Q i n"
  by (induction n arbitrary: i) auto

text \<open>The machine finds the layer the static tower names.\<close>

lemma layer_at_cfg:
  assumes "tower_ok mode d tw"
  shows "layer_at (cfg mode arg c st tw d th) k op =
    ok_or (find_index (\<lambda>i. mode_tower mode ! i = k) d (length (mode_tower mode) - d))
      (D_WrongMode mode op)"
proof -
  have "find_index (\<lambda>i. layer_kind (tw ! i) = k) d (length (mode_tower mode) - d)
      = find_index (\<lambda>i. mode_tower mode ! i = k) d (length (mode_tower mode) - d)"
    using assms by (intro find_index_cong) (auto simp: tower_ok_kind)
  then show ?thesis by (simp add: layer_at_def tower_ok_length [OF assms])
qed

lemma realises_on_layer:
  assumes step: "\<And>st tw th. s st tw th =
      settle (continue_with (with_layer (cfg mode arg (C_Value VUnit) st tw d th) k op (t st tw th)))"
    and ok: "\<And>i. i < length (mode_tower mode) \<Longrightarrow> mode_tower mode ! i = k \<Longrightarrow>
      realises env mode arg d (\<lambda>st tw th. settle (continue_with (t st tw th i))) (f i)"
  shows "realises env mode arg d s (on_layer mode d k op f)"
proof (cases "find_index (\<lambda>i. mode_tower mode ! i = k) d (length (mode_tower mode) - d)")
  case None
  show ?thesis
    by (rule realises_here)
      (auto simp: step on_layer_def None fail_def with_layer_def layer_at_cfg step_simps
        settle_other after_Inr)
next
  case (Some i)
  with find_index_Some [OF Some] have i: "i < length (mode_tower mode)" "mode_tower mode ! i = k"
    by auto
  have s: "tower_ok mode d tw \<Longrightarrow> s st tw th = settle (continue_with (t st tw th i))" for st tw th
    by (simp add: step with_layer_def layer_at_cfg Some)
  show ?thesis
    using ok [OF i] by (simp add: on_layer_def Some realises_def s)
qed

lemma realises_cong:
  "(\<And>st tw th. tower_ok mode d tw \<Longrightarrow> s st tw th = s' st tw th) \<Longrightarrow>
   realises env mode arg d s' c \<Longrightarrow> realises env mode arg d s c"
  by (simp add: realises_def)

text \<open>A step that pushes a frame and evaluates a subexpression.\<close>

lemma realises_value_step:
  assumes "realises env mode arg d
      (\<lambda>st tw th. settle (value_step env (cfg mode arg (C_Value VUnit) st tw d th) f v)) c"
  shows "realises env mode arg d (\<lambda>st tw th. Inl (cfg mode arg (C_Value v) (f # st) tw d th)) c"
  by (rule realises_step [OF assms]) (simp add: step_simps)

lemma realises_eval_step:
  assumes "realises env mode arg d
      (\<lambda>st tw th. settle (continue_with (eval_step env (cfg mode arg (C_Value VUnit) st tw d th) e sc))) c"
  shows "realises env mode arg d (\<lambda>st tw th. Inl (cfg mode arg (C_Eval e sc) st tw d th)) c"
  by (rule realises_step [OF assms]) (simp add: step_simps)

lemma plain_settle: "plain_exn short e \<Longrightarrow> settle (m, Inl e) = Inr (Inl e)"
  by (cases e) (auto simp: settle_simps plain_failure_def intro!: settle_other split: dissonance.splits)

lemma realises_plain_fail:
  assumes "plain_exn short e"
  shows "realises env mode arg d (\<lambda>st tw th. settle (cfg mode arg (C_Value VUnit) st tw d th, Inl e)) (fail e)"
  by (rule realises_fail) (rule plain_settle [OF assms])

text \<open>The composition rules at the shapes the steps produce.\<close>

lemmas realises_seq_eval =
  realises_seq [of env mode arg d "\<lambda>st tw th. Inl (cfg mode arg (C_Eval e sc) st tw d th)"
    for env mode arg d e sc]
lemmas realises_seq_apply =
  realises_seq [of env mode arg d
    "\<lambda>st tw th. settle (continue_with (apply_val (cfg mode arg (C_Value VUnit) st tw d th) f a))"
    for env mode arg d f a]
lemmas realises_recover_eval =
  realises_recover [of env mode arg d "\<lambda>st tw th. Inl (cfg mode arg (C_Eval e sc) st tw d th)"
    for env mode arg d e sc]
lemmas realises_lift_eval =
  realises_lift [of env mode arg d "\<lambda>st tw th. Inl (cfg mode arg (C_Eval e sc) st tw (Suc d) th)"
    for env mode arg d e sc]

lemma transparent_simps [simp]:
  "transparent (F_AppArg a s)" "transparent (F_AppCall v)" "transparent (F_IfK t e s)"
  "transparent (F_BindK n k s)" "transparent F_ReturnK" "transparent (F_ResolveK n s)"
  "transparent (F_FixK f s)" "transparent (F_BuiltinPost p)" "transparent (F_ClamaK i)"
  "transparent (F_PoneK i)" "transparent (F_MitteK i)" "transparent F_PerageK"
  by (simp_all add: transparent_def)

lemma realises_none: "realises env mode arg d s (\<lambda>tw. None)"
  by (simp add: realises_def)

lemma realises_raise:
  "(\<And>v. e \<noteq> D_User v) \<Longrightarrow>
   realises env mode arg d (\<lambda>st tw th. settle (m st tw th, Inl (Raise e))) (fail (Raise e))"
  by (rule realises_fail) (simp add: settle_other)

lemma realises_state_get:
  assumes "i < length (mode_tower mode)" "mode_tower mode ! i = K_State"
  shows "realises env mode arg d (\<lambda>st tw th. settle (continue_with (cfg mode arg (C_Value VUnit) st tw d th,
    and_then (index tw i) (\<lambda>l. case l of L_State v \<Rightarrow> Inr (C_Value v) | _ \<Rightarrow> Inl Panicked)))) (state_get i)"
proof (rule realises_here)
  fix tw r tw'
  assume tw: "tower_ok mode d tw" and c: "state_get i tw = Some (r, tw')"
  have "layer_kind (tw ! i) = K_State" "i < length tw"
    using assms tower_ok_kind [OF tw] tower_ok_length [OF tw] by auto
  then show "tower_ok mode d tw' \<and> (\<forall>st th. \<exists>th'. settle (continue_with (cfg mode arg (C_Value VUnit) st tw d th,
      and_then (index tw i) (\<lambda>l. case l of L_State v \<Rightarrow> Inr (C_Value v) | _ \<Rightarrow> Inl Panicked)))
      = after mode arg r st tw' d th')"
    using tw c by (cases "tw ! i") (auto simp: state_get_def ret_def step_simps settle_simps after_Inr)
qed

lemma realises_state_put:
  assumes "i < length (mode_tower mode)" "mode_tower mode ! i = K_State"
  shows "realises env mode arg d (\<lambda>st tw th. Inl (cfg mode arg (C_Value v) (F_PoneK i # st) tw d th)) (state_put i v)"
proof (rule realises_value_step, rule realises_here)
  fix tw r tw'
  assume tw: "tower_ok mode d tw" and c: "state_put i v tw = Some (r, tw')"
  have "layer_kind (tw ! i) = K_State" "i < length tw"
    using assms tower_ok_kind [OF tw] tower_ok_length [OF tw] by auto
  with tw c show "tower_ok mode d tw' \<and> (\<forall>st th. \<exists>th'.
      settle (value_step env (cfg mode arg (C_Value VUnit) st tw d th) (F_PoneK i) v) = after mode arg r st tw' d th')"
    by (auto simp: state_put_def settle_simps after_Inr intro!: tower_ok_update)
qed

lemma realises_tell:
  assumes "i < length (mode_tower mode)" "mode_tower mode ! i = K_Writer"
  shows "realises env mode arg d (\<lambda>st tw th. Inl (cfg mode arg (C_Value v) (F_MitteK i # st) tw d th)) (tell i v)"
proof (rule realises_value_step, rule realises_here)
  fix tw r tw'
  assume tw: "tower_ok mode d tw" and c: "tell i v tw = Some (r, tw')"
  have k: "layer_kind (tw ! i) = K_Writer" "i < length tw"
    using assms tower_ok_kind [OF tw] tower_ok_length [OF tw] by auto
  then obtain p where p: "tw ! i = L_Writer p" by (cases "tw ! i") auto
  show "tower_ok mode d tw' \<and> (\<forall>st th. \<exists>th'.
      settle (value_step env (cfg mode arg (C_Value VUnit) st tw d th) (F_MitteK i) v) = after mode arg r st tw' d th')"
    using tw c k p
    by (cases v) (auto simp: tell_def mitte_layer_def fail_def settle_simps settle_other after_Inr
        intro!: tower_ok_update)
qed

lemma realises_cadence:
  assumes "\<And>st tw th. tower_ok mode d tw \<Longrightarrow> s st tw th = Inr (Inr (finish tw (Some v) c))"
  shows "realises env mode arg d s (cadence v c)"
  using assms by (intro realises_here) (auto simp: cadence_def after_Inr)

lemma realises_commit:
  "realises env mode arg d (\<lambda>st tw th. Inl (cfg mode arg (C_Value v) (F_PerageK # st) tw d th)) (commit v)"
  by (rule realises_value_step, cases v)
    (auto simp: commit_def settle_simps intro!: realises_raise realises_cadence)

lemma realises_throw:
  "realises env mode arg d (\<lambda>st tw th. Inl (cfg mode arg (C_Value v) (F_ClamaK i # st) tw d th)) (throw i v)"
  by (rule realises_value_step, rule realises_here) (auto simp: throw_def after_def)

text \<open>\<open>eval_at\<close>, \<open>apply_at\<close>: about to evaluate an expression, to apply a function value.\<close>

definition eval_at :: "mode \<Rightarrow> val \<Rightarrow> nat \<Rightarrow> expr \<Rightarrow> scope \<Rightarrow> config" where
  "eval_at mode arg d e sc = (\<lambda>st tw th. Inl (cfg mode arg (C_Eval e sc) st tw d th))"

definition apply_at :: "mode \<Rightarrow> val \<Rightarrow> nat \<Rightarrow> val \<Rightarrow> val \<Rightarrow> config" where
  "apply_at mode arg d f a =
     (\<lambda>st tw th. settle (continue_with (apply_val (cfg mode arg (C_Value VUnit) st tw d th) f a)))"

definition value_at :: "mode \<Rightarrow> val \<Rightarrow> nat \<Rightarrow> frame \<Rightarrow> val \<Rightarrow> config" where
  "value_at mode arg d f v = (\<lambda>st tw th. Inl (cfg mode arg (C_Value v) (f # st) tw d th))"

text \<open>The simulation, one evaluation deeper: \<open>IH\<close> is what is known of the subcomputations.\<close>

definition sim_eval :: "env \<Rightarrow> mode \<Rightarrow> val \<Rightarrow> nat \<Rightarrow> bool" where
  "sim_eval env mode arg n \<longleftrightarrow>
     (\<forall>d e sc. realises env mode arg d (eval_at mode arg d e sc) (interp n env mode arg d e sc))"

definition sim_apply :: "env \<Rightarrow> mode \<Rightarrow> val \<Rightarrow> nat \<Rightarrow> bool" where
  "sim_apply env mode arg n \<longleftrightarrow>
     (\<forall>d f a. realises env mode arg d (apply_at mode arg d f a) (interp_apply n env mode arg d f a))"

lemma sim_evalD:
  "sim_eval env mode arg n \<Longrightarrow>
   realises env mode arg d (\<lambda>st tw th. Inl (cfg mode arg (C_Eval e sc) st tw d th)) (interp n env mode arg d e sc)"
  by (simp add: sim_eval_def eval_at_def)

lemma sim_applyD:
  "sim_apply env mode arg n \<Longrightarrow>
   realises env mode arg d
     (\<lambda>st tw th. settle (continue_with (apply_val (cfg mode arg (C_Value VUnit) st tw d th) f a)))
     (interp_apply n env mode arg d f a)"
  by (simp add: sim_apply_def apply_at_def)

lemma realises_of_result:
  assumes "errs_in (plain_exn False) r"
    and "\<And>v st tw th. r = Inr v \<Longrightarrow> s st tw th = Inl (cfg mode arg (C_Value v) st tw d th)"
    and "\<And>e st tw th. r = Inl e \<Longrightarrow> s st tw th = settle (cfg mode arg (C_Value VUnit) st tw d th, Inl e)"
  shows "realises env mode arg d s (of_result r)"
  using assms
  by (cases r) (auto simp: of_result_def plain_settle intro!: realises_ret realises_fail)

lemma sim_apply_Suc:
  assumes ev: "sim_eval env mode arg n" and ap: "sim_apply env mode arg n"
  shows "sim_apply env mode arg (Suc n)"
  unfolding sim_apply_def
proof (intro allI)
  fix d f a
  show "realises env mode arg d (apply_at mode arg d f a) (interp_apply (Suc n) env mode arg d f a)"
  proof (cases f)
    case (VClosure p b sc)
    then show ?thesis
      using sim_evalD [OF ev] by (simp add: apply_at_def step_simps settle_simps)
  next
    case (VBuiltin name as)
    define want where "want = (case arity name of Some n \<Rightarrow> n | None \<Rightarrow> 0)"
    have short: "\<not> short_args name (as @ [a])" if "\<not> Suc (length as) < want"
      using that by (auto simp: short_args_def want_def split: option.splits)
    have errs: "plain_exn False e"
      if "\<not> Suc (length as) < want" "call name (as @ [a]) = Inl e" for e :: "diss exn"
      using errs_inD [OF call_errs that(2)] short [OF that(1)] by simp
    have post: "realises env mode arg d
        (\<lambda>st tw th. Inl (cfg mode arg (C_Value v) (F_BuiltinPost p # st) tw d th)) (of_result (apply_post p v))"
      for p v
      by (rule realises_value_step, rule realises_of_result [OF apply_post_errs])
        (auto simp: settle_simps)
    have app: "realises env mode arg d
        (\<lambda>st tw th. settle (continue_with (apply_val (cfg mode arg (C_Value VUnit) (F_BuiltinPost p # st) tw d th) g x)))
        (seq (interp_apply n env mode arg d g x) (\<lambda>v. of_result (apply_post p v)))" for p g x
      by (rule realises_seq_apply [OF sim_applyD [OF ap]]) (auto intro: post)
    show ?thesis
      using errs app
      by (auto simp: VBuiltin apply_at_def Let_def step_simps settle_simps plain_settle
          simp flip: want_def split: sum.split builtin_result.split
          intro!: realises_ret realises_fail)
  qed (auto simp: apply_at_def step_simps intro!: realises_raise)
qed

lemma eval_var_cases:
  "(\<exists>v. eval_var env sc x = Inr (C_Value v)) \<or> (\<exists>e. eval_var env sc x = Inl e \<and> plain_exn False e)"
  by (auto simp: eval_var_def split: option.split sum.split)

lemma sim_eval_Suc:
  assumes ev: "sim_eval env mode arg n" and ap: "sim_apply env mode arg n"
  shows "sim_eval env mode arg (Suc n)"
  unfolding sim_eval_def
proof (intro allI)
  fix d e sc
  note IH = sim_evalD [OF ev] and seq = realises_seq_eval [OF sim_evalD [OF ev]]
  note vstep = realises_value_step and app = sim_applyD [OF ap]
  have "realises env mode arg d
      (\<lambda>st tw th. settle (continue_with (eval_step env (cfg mode arg (C_Value VUnit) st tw d th) e sc)))
      (interp (Suc n) env mode arg d e sc)"
  proof (cases e)
    case (EVar x)
    show ?thesis
      using eval_var_cases [of env sc x]
      by (auto simp: EVar step_simps settle_simps plain_settle intro!: realises_ret realises_fail)
  next
    case (EApp f a)
    have "realises env mode arg d
        (\<lambda>st tw th. Inl (cfg mode arg (C_Eval f sc) (F_AppArg a sc # st) tw d th))
        (seq (interp n env mode arg d f sc) (\<lambda>fv. seq (interp n env mode arg d a sc) (\<lambda>av.
           interp_apply n env mode arg d fv av)))"
      by (intro seq vstep; simp add: settle_simps; intro seq vstep; simp add: app)
    then show ?thesis by (simp add: EApp step_simps settle_simps)
  next
    case (EIf c t f)
    have "realises env mode arg d
        (\<lambda>st tw th. settle (value_step env (cfg mode arg (C_Value VUnit) st tw d th) (F_IfK t f sc) v))
        (case v of VBool b \<Rightarrow> interp n env mode arg d (if b then t else f) sc
         | other \<Rightarrow> fail (Raise (D_Dissonant ''bool'' (ty other))))" for v
      by (cases v) (auto simp: settle_simps IH intro!: realises_raise)
    then have "realises env mode arg d
        (\<lambda>st tw th. Inl (cfg mode arg (C_Eval c sc) (F_IfK t f sc # st) tw d th))
        (interp (Suc n) env mode arg d (EIf c t f) sc)"
      unfolding interp.simps expr.case by (intro seq vstep transparent_simps)
    then show ?thesis by (simp add: EIf step_simps settle_simps del: interp.simps)
  next
    case (EFix f)
    show ?thesis
      by (auto simp: EFix step_simps settle_simps app intro!: seq vstep)
  next
    case (EReturn md e)
    have "realises env mode arg d
        (\<lambda>st tw th. Inl (cfg mode arg (C_Eval e sc) (F_ReturnK # st) tw d th))
        (seq (interp n env mode arg d e sc) (\<lambda>v. cadence v None))"
      by (intro seq vstep transparent_simps realises_cadence) (simp add: settle_simps)
    then show ?thesis by (simp add: EReturn step_simps settle_simps)
  next
    case (EBind md m x k)
    show ?thesis
      by (auto simp: EBind step_simps settle_simps IH intro!: seq vstep)
  next
    case (EAsk x)
    have "errs_in (plain_exn False) (ask env x :: val mres)"
      by (auto simp: ask_map_of intro: errs_intros)
    then show ?thesis
      by (auto simp: EAsk step_simps settle_simps intro!: realises_of_result)
  next
    case (EResolve x g)
    have "realises env mode arg d
        (\<lambda>st tw th. settle (value_step env (cfg mode arg (C_Value VUnit) st tw d th) (F_ResolveK x sc) v))
        (case v of VGenus g \<Rightarrow> seq (of_result (resolve env x g)) (\<lambda>e. interp n env mode arg d e sc)
         | other \<Rightarrow> fail (Raise (D_Dissonant ''genus'' (ty other))))" for v
    proof (cases v)
      case (VGenus g)
      show ?thesis
        by (cases "resolve env x g :: expr mres")
          (auto simp: VGenus of_result_def seq_def ret_def fail_def settle_simps IH resolve_map_of ok_or_def
            settle_other after_Inr realises_here split: option.splits intro!: realises_here)
    qed (auto intro!: realises_raise)
    then have "realises env mode arg d
        (\<lambda>st tw th. Inl (cfg mode arg (C_Eval g sc) (F_ResolveK x sc # st) tw d th))
        (interp (Suc n) env mode arg d (EResolve x g) sc)"
      unfolding interp.simps expr.case by (intro seq vstep transparent_simps)
    then show ?thesis by (simp add: EResolve step_simps settle_simps del: interp.simps)
  next
    case ENihil
    show ?thesis
      by (auto simp: ENihil step_simps intro!: realises_on_layer realises_raise)
  next
    case (EClama e)
    show ?thesis
      by (auto simp: EClama step_simps settle_simps intro!: realises_on_layer seq realises_throw)
  next
    case (ERecipe b x h)
    show ?thesis
      by (auto simp: ERecipe step_simps settle_simps IH
          intro!: realises_on_layer realises_recover_eval)
  next
    case ELege
    show ?thesis
      by (auto simp: ELege intro!: realises_on_layer realises_state_get)
  next
    case (EPone e)
    show ?thesis
      by (auto simp: EPone step_simps settle_simps intro!: realises_on_layer seq realises_state_put)
  next
    case (EMitte e)
    show ?thesis
      by (auto simp: EMitte step_simps settle_simps intro!: realises_on_layer seq realises_tell)
  next
    case (EPerage e)
    show ?thesis
      by (auto simp: EPerage step_simps settle_simps intro!: realises_on_layer seq realises_commit)
  next
    case (ELift e)
    let ?low = "length (mode_tower mode) - d < 2"
    have step: "settle (continue_with (eval_step env (cfg mode arg (C_Value VUnit) st tw d th) (ELift e) sc)) =
        (if ?low then settle (cfg mode arg (C_Value VUnit) st tw d th, Inl (Raise (D_WrongMode mode Op_Lift)))
         else Inl (cfg mode arg (C_Eval e sc) (F_LiftK d # st) tw (Suc d) th))"
      if "tower_ok mode d tw" for st tw th
      using tower_ok_length [OF that] that by (simp add: tower_ok_def step_simps settle_simps)
    show ?thesis
      unfolding ELift interp.simps expr.case
      by (rule realises_cong [OF step], assumption)
        (auto intro!: realises_raise realises_lift_eval IH)
  qed (auto simp: step_simps settle_simps IH intro!: realises_ret)
  from realises_eval_step [OF this]
  show "realises env mode arg d (eval_at mode arg d e sc) (interp (Suc n) env mode arg d e sc)"
    by (simp only: eval_at_def)
qed

text \<open>Every evaluation depth.\<close>

lemma sim: "sim_eval env mode arg n \<and> sim_apply env mode arg n"
proof (induction n)
  case 0
  have "realises env mode arg d s (interp 0 env mode arg d e sc)"
    "realises env mode arg d s (interp_apply 0 env mode arg d f a)" for d s e sc f a
    by (simp_all add: realises_none)
  then show ?case by (simp add: sim_eval_def sim_apply_def)
next
  case (Suc n)
  then show ?case by (simp add: sim_eval_Suc sim_apply_Suc)
qed

lemmas realises_eval = sim_evalD [OF sim [THEN conjunct1]]
lemmas realises_apply = sim_applyD [OF sim [THEN conjunct2]]

section \<open>A whole verse\<close>

definition start_cfg :: "mode \<Rightarrow> expr \<Rightarrow> val \<Rightarrow> val \<Rightarrow> continuation" where
  "start_cfg mode body arg st = cfg mode arg (C_Eval body []) [] (build_tower mode st) 0 0"

lemma start_is_cfg: "start mode body arg st = start_cfg mode body arg st"
  by (simp add: start_def start_cfg_def cfg_def)

lemma tower_ok_build: "tower_ok mode 0 (build_tower mode st)"
  by (simp add: tower_ok_def build_tower_def seed_tower_kinds)

text \<open>What the interpreter yields, the machine returns, given enough steps.\<close>

lemma machine_reaches_interp:
  assumes "interp_verse n env mode body arg st = Some r"
  shows "\<exists>k. \<forall>j\<ge>k. run_from env j (Inl (start_cfg mode body arg st)) = Inr r"
proof -
  obtain e tw' where i: "interp n env mode arg 0 body [] (build_tower mode st) = Some (e, tw')"
    and r: "r = verse_result (e, tw')"
    using assms by (auto simp: interp_verse_def)
  obtain k where tw': "tower_ok mode 0 tw'"
    and k: "\<And>s th. \<exists>th'. run_from env k (Inl (cfg mode arg (C_Eval body []) s (build_tower mode st) 0 th))
        = after mode arg e s tw' 0 th'"
    using realisesE [OF realises_eval tower_ok_build i] by blast
  obtain th' where "run_from env k (Inl (start_cfg mode body arg st)) = after mode arg e [] tw' 0 th'"
    unfolding start_cfg_def using k by blast
  then have "run_from env (k + 1) (Inl (start_cfg mode body arg st)) = Inr r"
    unfolding run_from_add
    by (cases e) (auto simp: r verse_result_def after_def settle_user step_simps)
  then show ?thesis by (blast intro: run_from_mono)
qed

end
