(* ===== verification/Adequacy.thy ===== *)
theory Adequacy
  imports Semantics
begin

text \<open>
  The converse of the simulation in \<open>Semantics\<close>: a machine that stops is one whose
  computation the interpreter finishes. A family of computations indexed by fuel is a
  \<open>chain\<close> when more fuel never changes an answer; \<open>halts k s C\<close> says that if the machine
  stops within \<open>k\<close> steps of the state \<open>s\<close>, some member of the family is defined. One rule
  per way of composing computations, as for \<open>realises\<close>.
\<close>

section \<open>More fuel never changes an answer\<close>

definition comp_le :: "'a comp \<Rightarrow> 'a comp \<Rightarrow> bool" where
  "comp_le c c' \<longleftrightarrow> (\<forall>tw x. c tw = Some x \<longrightarrow> c' tw = Some x)"

lemma comp_le_refl [simp, intro]: "comp_le c c"
  by (simp add: comp_le_def)

lemma comp_le_none [simp, intro]: "comp_le (\<lambda>tw. None) c"
  by (simp add: comp_le_def)

lemma comp_le_seq [intro]:
  "comp_le c c' \<Longrightarrow> (\<And>a. comp_le (g a) (g' a)) \<Longrightarrow> comp_le (seq c g) (seq c' g')"
  by (fastforce simp: comp_le_def seq_def split: option.splits eff.splits prod.splits)

lemma comp_le_recover [intro]:
  assumes "comp_le c c'" "\<And>v. comp_le (h v) (h' v)"
  shows "comp_le (recover i c h) (recover i c' h')"
  unfolding comp_le_def
proof (intro allI impI)
  fix tw x
  assume x: "recover i c h tw = Some x"
  then obtain r tw' where c: "c tw = Some (r, tw')"
    by (auto simp: recover_def split: option.splits)
  then have "c' tw = Some (r, tw')" using assms(1) by (simp add: comp_le_def)
  with c x show "recover i c' h' tw = Some x"
    using assms(2) by (cases r; cases x) (auto simp: recover_def comp_le_def split: if_splits)
qed

lemma comp_le_on_layer [intro]:
  "(\<And>i. comp_le (f i) (f' i)) \<Longrightarrow> comp_le (on_layer mode d k op f) (on_layer mode d k op f')"
  by (auto simp: on_layer_def split: option.split)

lemma interp_step_le_Suc:
  assumes ev: "\<And>d e sc. comp_le (interp n env mode arg d e sc) (interp m env mode arg d e sc)"
    and ap: "\<And>d f a. comp_le (interp_apply n env mode arg d f a) (interp_apply m env mode arg d f a)"
  shows "comp_le (interp (Suc n) env mode arg d e sc) (interp (Suc m) env mode arg d e sc)"
    and "comp_le (interp_apply (Suc n) env mode arg d f a) (interp_apply (Suc m) env mode arg d f a)"
proof -
  show "comp_le (interp (Suc n) env mode arg d e sc) (interp (Suc m) env mode arg d e sc)"
    by (cases e; simp only: interp.simps(2) expr.case)
      (auto intro!: comp_le_seq comp_le_recover comp_le_on_layer ev ap split: val.split)
  show "comp_le (interp_apply (Suc n) env mode arg d f a) (interp_apply (Suc m) env mode arg d f a)"
    by (cases f; simp only: interp_apply.simps(2) val.case)
      (auto intro!: comp_le_seq ev ap split: sum.split builtin_result.split)
qed

lemma interp_step_le:
  "(\<forall>d e sc. comp_le (interp n env mode arg d e sc) (interp (Suc n) env mode arg d e sc))
   \<and> (\<forall>d f a. comp_le (interp_apply n env mode arg d f a) (interp_apply (Suc n) env mode arg d f a))"
proof (induction n)
  case 0
  show ?case by (simp add: comp_le_def)
next
  case (Suc n)
  then show ?case by (intro conjI allI interp_step_le_Suc) blast+
qed

definition chain :: "(nat \<Rightarrow> 'a comp) \<Rightarrow> bool" where
  "chain C \<longleftrightarrow> (\<forall>m n tw x. m \<le> n \<longrightarrow> C m tw = Some x \<longrightarrow> C n tw = Some x)"

lemma chainD: "chain C \<Longrightarrow> C m tw = Some x \<Longrightarrow> m \<le> n \<Longrightarrow> C n tw = Some x"
  unfolding chain_def by blast

lemma chainI: "(\<And>n. comp_le (C n) (C (Suc n))) \<Longrightarrow> chain C"
  unfolding chain_def comp_le_def
proof (intro allI impI)
  fix m n tw x
  assume step: "\<And>n. \<forall>tw x. C n tw = Some x \<longrightarrow> C (Suc n) tw = Some x"
  show "m \<le> n \<Longrightarrow> C m tw = Some x \<Longrightarrow> C n tw = Some x"
    by (induction rule: dec_induct) (auto simp: step)
qed

lemma interp_chain: "chain (\<lambda>n. interp n env mode arg d e sc)"
  using interp_step_le by (intro chainI) blast

lemma interp_apply_chain: "chain (\<lambda>n. interp_apply n env mode arg d f a)"
  using interp_step_le by (intro chainI) blast

lemma chain_const [simp, intro]: "chain (\<lambda>_. c)"
  by (simp add: chain_def)

lemma chain_seq [intro]:
  "chain C \<Longrightarrow> (\<And>a. chain (G a)) \<Longrightarrow> chain (\<lambda>n. seq (C n) (\<lambda>a. G a n))"
  by (intro chainI comp_le_seq; unfold comp_le_def; blast intro: chainD le_SucI)

section \<open>Machines that stop\<close>

definition halts ::
  "env \<Rightarrow> mode \<Rightarrow> nat \<Rightarrow> nat \<Rightarrow> config \<Rightarrow> (nat \<Rightarrow> val comp) \<Rightarrow> bool" where
  "halts env mode d k s C \<longleftrightarrow>
     (\<forall>tw st th j r. tower_ok mode d tw \<longrightarrow> j \<le> k \<longrightarrow> run_from env j (s st tw th) = Inr r \<longrightarrow>
        (\<exists>n x. C n tw = Some x))"

lemma haltsI:
  assumes "\<And>tw st th j r. tower_ok mode d tw \<Longrightarrow> j \<le> k \<Longrightarrow> run_from env j (s st tw th) = Inr r \<Longrightarrow>
    \<exists>n x. C n tw = Some x"
  shows "halts env mode d k s C"
  unfolding halts_def using assms by blast

lemma haltsE:
  assumes "halts env mode d k s C" "tower_ok mode d tw" "j \<le> k" "run_from env j (s st tw th) = Inr r"
  obtains n x where "C n tw = Some x"
  using assms unfolding halts_def by blast

lemma halts_total: "(\<And>n tw. C n tw \<noteq> None) \<Longrightarrow> halts env mode d k s C"
  by (intro haltsI) auto

lemma halts_mono: "halts env mode d k s C \<Longrightarrow> k' \<le> k \<Longrightarrow> halts env mode d k' s C"
  unfolding halts_def by (blast intro: le_trans)

lemma halts_Suc: "halts env mode d k s (\<lambda>n. C (Suc n)) \<Longrightarrow> halts env mode d k s C"
  unfolding halts_def by blast

lemma halts_cong:
  "(\<And>st tw th. tower_ok mode d tw \<Longrightarrow> s st tw th = s' st tw th) \<Longrightarrow>
   halts env mode d k s' C \<Longrightarrow> halts env mode d k s C"
  by (simp add: halts_def)

lemma halts_zero: "(\<And>st tw th. \<exists>m. s st tw th = Inl m) \<Longrightarrow> halts env mode d 0 s C"
  unfolding halts_def by (metis Inl_Inr_False le_zero_eq run_from.simps(1))

text \<open>One machine step costs one.\<close>

lemma halts_step:
  assumes "halts env mode d k s C"
    and "\<And>st tw th. tower_ok mode d tw \<Longrightarrow> machine_step env (m st tw th) = s st tw th"
  shows "halts env mode d (Suc k) (\<lambda>st tw th. Inl (m st tw th)) C"
proof (rule haltsI)
  fix tw st th j r
  assume tw: "tower_ok mode d tw" and "j \<le> Suc k" and run: "run_from env j (Inl (m st tw th)) = Inr r"
  then obtain j' where j: "j = Suc j'" "j' \<le> k" by (cases j) auto
  with run assms(2) [OF tw] have "run_from env j' (s st tw th) = Inr r" by simp
  with haltsE [OF assms(1) tw j(2)] show "\<exists>n x. C n tw = Some x" by metis
qed

lemma halts_value_step:
  assumes "halts env mode d k
      (\<lambda>st tw th. settle (value_step env (cfg mode arg (C_Value VUnit) st tw d th) f v)) C"
  shows "halts env mode d k (\<lambda>st tw th. Inl (cfg mode arg (C_Value v) (f # st) tw d th)) C"
  by (rule halts_mono [OF halts_step [OF assms]]) (simp_all add: step_simps)

lemma halts_eval_step:
  assumes "halts env mode d k
      (\<lambda>st tw th. settle (continue_with (eval_step env (cfg mode arg (C_Value VUnit) st tw d th) e sc))) C"
  shows "halts env mode d (Suc k) (\<lambda>st tw th. Inl (cfg mode arg (C_Eval e sc) st tw d th)) C"
  by (rule halts_step [OF assms]) (simp add: step_simps)

section \<open>Composing\<close>

lemma halts_seq:
  assumes c: "halts env mode d k s C" and ch: "chain C"
    and sim: "\<And>n. realises env mode arg d s (C n)"
    and g: "\<And>v. halts env mode d k (\<lambda>st tw th. Inl (cfg mode arg (C_Value v) (f # st) tw d th)) (G v)"
    and gch: "\<And>v. chain (G v)"
  shows "halts env mode d k (\<lambda>st. s (f # st)) (\<lambda>n. seq (C n) (\<lambda>v. G v n))"
proof (rule haltsI)
  fix tw st th j r
  assume tw: "tower_ok mode d tw" and j: "j \<le> k" and run: "run_from env j (s (f # st) tw th) = Inr r"
  obtain n r1 tw1 where n: "C n tw = Some (r1, tw1)"
    using haltsE [OF c tw j run] by (metis surj_pair)
  obtain k1 where tw1: "tower_ok mode d tw1"
    and k1: "\<And>st th. \<exists>th'. run_from env k1 (s st tw th) = after mode arg r1 st tw1 d th'"
    using realisesE [OF sim tw n] by blast
  show "\<exists>n x. seq (C n) (\<lambda>v. G v n) tw = Some x"
  proof (cases r1)
    case (Ok v)
    obtain th' where "run_from env k1 (s (f # st) tw th) = Inl (cfg mode arg (C_Value v) (f # st) tw1 d th')"
      using k1 [of "f # st" th] by (auto simp: Ok after_Inr)
    with run_from_before [OF run this] j have
      "run_from env (j - k1) (Inl (cfg mode arg (C_Value v) (f # st) tw1 d th')) = Inr r" "j - k1 \<le> k" by auto
    from haltsE [OF g tw1 this(2,1)] obtain n' x where "G v n' tw1 = Some x" .
    then have "seq (C (max n n')) (\<lambda>v. G v (max n n')) tw = Some x"
      using chainD [OF ch n, of "max n n'"] chainD [OF gch, of v n' tw1 x "max n n'"]
      by (simp add: seq_def Ok)
    then show ?thesis by blast
  qed (auto simp: seq_def n intro!: exI [of _ n])
qed

lemma halts_recover:
  assumes c: "halts env mode d k s C" and ch: "chain C"
    and sim: "\<And>n. realises env mode arg d s (C n)"
    and h: "\<And>v. halts env mode d k
              (\<lambda>st tw th. Inl (cfg mode arg (C_Eval handler (scope_bind sc x v)) st tw d th)) (H v)"
    and hch: "\<And>v. chain (H v)"
  shows "halts env mode d k (\<lambda>st. s (F_RecipeH x handler sc i # st)) (\<lambda>n. recover i (C n) (\<lambda>v. H v n))"
proof (rule haltsI)
  let ?f = "F_RecipeH x handler sc i"
  fix tw st th j r
  assume tw: "tower_ok mode d tw" and j: "j \<le> k" and run: "run_from env j (s (?f # st) tw th) = Inr r"
  obtain n r1 tw1 where n: "C n tw = Some (r1, tw1)"
    using haltsE [OF c tw j run] by (metis surj_pair)
  obtain k1 where tw1: "tower_ok mode d tw1"
    and k1: "\<And>st th. \<exists>th'. run_from env k1 (s st tw th) = after mode arg r1 st tw1 d th'"
    using realisesE [OF sim tw n] by blast
  show "\<exists>n y. recover i (C n) (\<lambda>v. H v n) tw = Some y"
  proof (cases "\<exists>v. r1 = Thrown i v")
    case True
    then obtain v where v: "r1 = Thrown i v" by blast
    obtain th' where "run_from env k1 (s (?f # st) tw th) = Inl (cfg mode arg (C_Eval handler (scope_bind sc x v)) st tw1 d th')"
      using k1 [of "?f # st" th] by (auto simp: v after_def settle_user)
    with run_from_before [OF run this] j have
      "run_from env (j - k1) (Inl (cfg mode arg (C_Eval handler (scope_bind sc x v)) st tw1 d th')) = Inr r"
      "j - k1 \<le> k" by auto
    from haltsE [OF h tw1 this(2,1)] obtain n' y where "H v n' tw1 = Some y" .
    then have "recover i (C (max n n')) (\<lambda>v. H v (max n n')) tw = Some y"
      using chainD [OF ch n, of "max n n'"] chainD [OF hch, of v n' tw1 y "max n n'"]
      by (simp add: recover_def v)
    then show ?thesis by blast
  next
    case False
    then show ?thesis
      by (intro exI [of _ n]) (cases r1; auto simp: recover_def n)
  qed
qed

lemma halts_lift:
  assumes "halts env mode (Suc d) k s C" "Suc d < length (mode_tower mode)"
  shows "halts env mode d k (\<lambda>st. s (F_LiftK d # st)) C"
proof (rule haltsI)
  fix tw st th j r
  assume "tower_ok mode d tw" "j \<le> k" "run_from env j (s (F_LiftK d # st) tw th) = Inr r"
  moreover from this(1) assms(2) have "tower_ok mode (Suc d) tw" by (simp add: tower_ok_def)
  ultimately show "\<exists>n x. C n tw = Some x" using haltsE [OF assms(1)] by metis
qed

lemma halts_on_layer:
  assumes step: "\<And>st tw th. s st tw th =
      settle (continue_with (with_layer (cfg mode arg (C_Value VUnit) st tw d th) kd op (t st tw th)))"
    and ok: "\<And>i. i < length (mode_tower mode) \<Longrightarrow> mode_tower mode ! i = kd \<Longrightarrow>
      halts env mode d k (\<lambda>st tw th. settle (continue_with (t st tw th i))) (\<lambda>n. f n i)"
  shows "halts env mode d k s (\<lambda>n. on_layer mode d kd op (f n))"
proof (cases "find_index (\<lambda>i. mode_tower mode ! i = kd) d (length (mode_tower mode) - d)")
  case None
  show ?thesis by (rule halts_total) (simp add: on_layer_def None fail_def)
next
  case (Some i)
  with find_index_Some [OF Some] have i: "i < length (mode_tower mode)" "mode_tower mode ! i = kd"
    by auto
  have s: "tower_ok mode d tw \<Longrightarrow> s st tw th = settle (continue_with (t st tw th i))" for st tw th
    by (simp add: step with_layer_def layer_at_cfg Some)
  show ?thesis
    using ok [OF i] by (simp add: on_layer_def Some halts_def s)
qed

section \<open>The interpreter finishes what the machine finishes\<close>

definition halts_eval :: "env \<Rightarrow> mode \<Rightarrow> val \<Rightarrow> nat \<Rightarrow> bool" where
  "halts_eval env mode arg k \<longleftrightarrow> (\<forall>d e sc. halts env mode d k
     (\<lambda>st tw th. Inl (cfg mode arg (C_Eval e sc) st tw d th)) (\<lambda>n. interp n env mode arg d e sc))"

lemma halts_evalD:
  "halts_eval env mode arg k \<Longrightarrow> halts env mode d k
     (\<lambda>st tw th. Inl (cfg mode arg (C_Eval e sc) st tw d th)) (\<lambda>n. interp n env mode arg d e sc)"
  by (simp add: halts_eval_def)

lemma total_simps [simp]:
  "ret a tw \<noteq> None" "fail e tw \<noteq> None" "of_result r tw \<noteq> None" "throw i v tw \<noteq> None"
  "cadence v c tw \<noteq> None" "commit v tw \<noteq> None" "state_get i tw \<noteq> None" "state_put i v tw \<noteq> None"
  "tell i v tw \<noteq> None"
  by (simp_all add: ret_def fail_def of_result_def throw_def cadence_def commit_def state_get_def
      state_put_def tell_def split: sum.split val.split layer.split)

lemma halts_done: "(\<And>tw. c tw \<noteq> None) \<Longrightarrow> halts env mode d k s (\<lambda>_. c)"
  by (rule halts_total)

lemma halts_leaf [simp]:
  "halts env mode d k s (\<lambda>_. ret v)" "halts env mode d k s (\<lambda>_. fail e)"
  "halts env mode d k s (\<lambda>_. of_result r)" "halts env mode d k s (\<lambda>_. cadence v c)"
  "halts env mode d k s (\<lambda>_. state_get i)"
  by (rule halts_done, simp)+

lemma halts_apply:
  assumes ev: "halts_eval env mode arg k"
  shows "halts env mode d k
     (\<lambda>st tw th. settle (continue_with (apply_val (cfg mode arg (C_Value VUnit) st tw d th) f a)))
     (\<lambda>n. interp_apply n env mode arg d f a)"
proof (induction "size f" arbitrary: f a rule: less_induct)
  case less
  show ?case
  proof (cases f)
    case (VClosure p b sc)
    then show ?thesis
      using halts_evalD [OF ev] by - (rule halts_Suc, simp add: step_simps settle_simps)
  next
    case (VBuiltin name as)
    define want where "want = (case arity name of Some n \<Rightarrow> n | None \<Rightarrow> 0)"
    show ?thesis
    proof (cases "\<not> Suc (length as) < want \<and> (\<exists>g x p. call name (as @ [a]) = (Inr (Apply g x p) :: builtin_result mres))")
      case True
      then obtain g x p where c: "call name (as @ [a]) = (Inr (Apply g x p) :: builtin_result mres)" by blast
      have "size g < size f" using call_Apply_size [OF c] by (simp add: VBuiltin)
      have post: "halts env mode d k (\<lambda>st tw th. Inl (cfg mode arg (C_Value v) (F_BuiltinPost p # st) tw d th))
          (\<lambda>_. of_result (apply_post p v))" for v
        by (rule halts_done) simp
      have "halts env mode d k
          (\<lambda>st tw th. settle (continue_with (apply_val (cfg mode arg (C_Value VUnit) (F_BuiltinPost p # st) tw d th) g x)))
          (\<lambda>n. seq (interp_apply n env mode arg d g x) (\<lambda>v. of_result (apply_post p v)))"
        by (rule halts_seq [OF less [OF \<open>size g < size f\<close>] interp_apply_chain realises_apply post chain_const])
      then show ?thesis
        using True by - (rule halts_Suc, simp add: VBuiltin c Let_def flip: want_def)
    next
      case False
      then show ?thesis
        by - (rule halts_Suc, rule halts_total,
          cases "call name (as @ [a]) :: builtin_result mres",
          auto simp: VBuiltin simp del: not_None_eq simp flip: want_def split: builtin_result.split)
    qed
  qed (rule halts_Suc, simp)+
qed

text \<open>A pushed frame, a subexpression, and what the frame does with its value.\<close>

lemmas halts_seq_eval =
  halts_seq [of env mode d k "\<lambda>st tw th. Inl (cfg mode arg (C_Eval e sc) st tw d th)"
      "\<lambda>n. interp n env mode arg d e sc" arg for env mode arg d k e sc,
    OF _ interp_chain realises_eval]

lemma halts_frame:
  assumes ev: "halts_eval env mode arg k"
    and g: "\<And>v. halts env mode d k
      (\<lambda>st tw th. settle (value_step env (cfg mode arg (C_Value VUnit) st tw d th) f v)) (G v)"
    and gch: "\<And>v. chain (G v)"
  shows "halts env mode d k (\<lambda>st tw th. Inl (cfg mode arg (C_Eval e sc) (f # st) tw d th))
     (\<lambda>n. seq (interp n env mode arg d e sc) (\<lambda>v. G v n))"
  by (rule halts_seq_eval [OF halts_evalD [OF ev] halts_value_step [OF g] gch])

lemma halts_frame_done:
  assumes "halts_eval env mode arg k" "\<And>v tw. g v tw \<noteq> None"
  shows "halts env mode d k (\<lambda>st tw th. Inl (cfg mode arg (C_Eval e sc) (f # st) tw d th))
     (\<lambda>n. seq (interp n env mode arg d e sc) g)"
  by (rule halts_frame [OF assms(1) halts_done chain_const]) (rule assms(2))

lemma halts_eval_Suc:
  assumes ev: "halts_eval env mode arg k"
  shows "halts env mode d k
     (\<lambda>st tw th. settle (continue_with (eval_step env (cfg mode arg (C_Value VUnit) st tw d th) e sc)))
     (\<lambda>n. interp (Suc n) env mode arg d e sc)"
proof (cases e)
  case (EApp f a)
  have "halts env mode d k (\<lambda>st tw th. Inl (cfg mode arg (C_Eval f sc) (F_AppArg a sc # st) tw d th))
      (\<lambda>n. seq (interp n env mode arg d f sc) (\<lambda>fv. seq (interp n env mode arg d a sc) (\<lambda>av.
           interp_apply n env mode arg d fv av)))"
    using halts_apply [OF ev]
    by (intro halts_frame [OF ev] chain_seq interp_chain interp_apply_chain; simp add: settle_simps;
        intro halts_frame [OF ev] interp_apply_chain; simp add: settle_simps)
  then show ?thesis by (simp add: EApp step_simps settle_simps)
next
  case (EIf c t f)
  have "halts env mode d k (\<lambda>st tw th. Inl (cfg mode arg (C_Eval c sc) (F_IfK t f sc # st) tw d th))
      (\<lambda>n. interp (Suc n) env mode arg d (EIf c t f) sc)"
    unfolding interp.simps expr.case
  proof (rule halts_frame [OF ev, where G = "\<lambda>v n. case v of
            VBool b \<Rightarrow> interp n env mode arg d (if b then t else f) sc
          | other \<Rightarrow> fail (Raise (D_Dissonant ''bool'' (ty other)))"])
    fix v
    show "halts env mode d k
        (\<lambda>st tw th. settle (value_step env (cfg mode arg (C_Value VUnit) st tw d th) (F_IfK t f sc) v))
        (\<lambda>n. case v of VBool b \<Rightarrow> interp n env mode arg d (if b then t else f) sc
          | other \<Rightarrow> fail (Raise (D_Dissonant ''bool'' (ty other))))"
      using halts_evalD [OF ev] by (cases v) (auto simp: settle_simps)
    show "chain (\<lambda>n. case v of VBool b \<Rightarrow> interp n env mode arg d (if b then t else f) sc
          | other \<Rightarrow> fail (Raise (D_Dissonant ''bool'' (ty other))))"
      by (cases v) (auto intro: interp_chain)
  qed
  then show ?thesis by (simp add: EIf step_simps settle_simps del: interp.simps)
next
  case (EFix f)
  have "halts env mode d k (\<lambda>st tw th. Inl (cfg mode arg (C_Eval f sc) (F_FixK f sc # st) tw d th))
      (\<lambda>n. seq (interp n env mode arg d f sc) (\<lambda>v. interp_apply n env mode arg d v (self_ref f sc)))"
    using halts_apply [OF ev]
    by (intro halts_frame [OF ev] interp_apply_chain; simp add: settle_simps)
  then show ?thesis by (simp add: EFix step_simps settle_simps)
next
  case (EBind md m x b)
  have "halts env mode d k (\<lambda>st tw th. Inl (cfg mode arg (C_Eval m sc) (F_BindK x b sc # st) tw d th))
      (\<lambda>n. seq (interp n env mode arg d m sc) (\<lambda>v. interp n env mode arg d b (scope_bind sc x v)))"
    using halts_evalD [OF ev]
    by (intro halts_frame [OF ev] interp_chain; simp add: settle_simps)
  then show ?thesis by (simp add: EBind step_simps settle_simps)
next
  case (EResolve x g)
  let ?G = "\<lambda>v n. case v of VGenus g \<Rightarrow> seq (of_result (resolve env x g)) (\<lambda>e. interp n env mode arg d e sc)
          | other \<Rightarrow> fail (Raise (D_Dissonant ''genus'' (ty other)))"
  have "halts env mode d k (\<lambda>st tw th. Inl (cfg mode arg (C_Eval g sc) (F_ResolveK x sc # st) tw d th))
      (\<lambda>n. interp (Suc n) env mode arg d (EResolve x g) sc)"
    unfolding interp.simps expr.case
  proof (rule halts_frame [OF ev, where G = ?G])
    fix v
    show "halts env mode d k
        (\<lambda>st tw th. settle (value_step env (cfg mode arg (C_Value VUnit) st tw d th) (F_ResolveK x sc) v)) (?G v)"
    proof (cases v)
      case (VGenus g)
      show ?thesis
      proof (cases "resolve env x g :: expr mres")
        case (Inl err)
        then show ?thesis by (auto simp: VGenus of_result_def seq_def fail_def intro!: halts_total)
      next
        case (Inr b)
        then show ?thesis
          using halts_evalD [OF ev]
          by (simp add: VGenus of_result_def seq_def ret_def settle_simps)
      qed
    qed auto
    show "chain (?G v)"
      by (cases v) (auto intro!: chain_seq interp_chain chain_const)
  qed
  then show ?thesis by (simp add: EResolve step_simps settle_simps del: interp.simps)
next
  case (ERecipe b x h)
  show ?thesis
    unfolding ERecipe interp.simps expr.case eval_step.simps
  proof (rule halts_on_layer, rule refl)
    fix i
    show "halts env mode d k (\<lambda>st tw th. settle (continue_with
        (push (cfg mode arg (C_Value VUnit) st tw d th) (F_RecipeH x h sc i), Inr (C_Eval b sc))))
      (\<lambda>n. recover i (interp n env mode arg d b sc) (\<lambda>v. interp n env mode arg d h (scope_bind sc x v)))"
      by (simp add: step_simps settle_simps)
        (rule halts_recover [OF halts_evalD [OF ev] interp_chain realises_eval halts_evalD [OF ev] interp_chain])
  qed
next
  case (ELift e)
  show ?thesis
  proof (cases "length (mode_tower mode) - d < 2")
    case True
    then show ?thesis by (simp add: ELift)
  next
    case False
    have "settle (continue_with (eval_step env (cfg mode arg (C_Value VUnit) st tw d th) (ELift e) sc)) =
        Inl (cfg mode arg (C_Eval e sc) (F_LiftK d # st) tw (Suc d) th)"
      if "tower_ok mode d tw" for st tw th
      using False tower_ok_length [OF that] that by (simp add: tower_ok_def step_simps settle_simps)
    moreover have "halts env mode d k
        (\<lambda>st tw th. Inl (cfg mode arg (C_Eval e sc) (F_LiftK d # st) tw (Suc d) th))
        (\<lambda>n. interp n env mode arg (Suc d) e sc)"
      using False
      by (intro halts_lift [where s = "\<lambda>st tw th. Inl (cfg mode arg (C_Eval e sc) st tw (Suc d) th)"]
          halts_evalD [OF ev]) auto
    ultimately have "halts env mode d k
       (\<lambda>st tw th. settle (continue_with (eval_step env (cfg mode arg (C_Value VUnit) st tw d th) (ELift e) sc)))
       (\<lambda>n. interp n env mode arg (Suc d) e sc)"
      by (rule halts_cong)
    with False show ?thesis by (simp add: ELift)
  qed
next
  case (EVar x)
  show ?thesis
    using eval_var_cases [of env sc x] by (auto simp: EVar)
next
  case (EPure md e)
  show ?thesis
    using halts_evalD [OF ev] by (simp add: EPure step_simps settle_simps)
next
  case (EReturn md e)
  show ?thesis
    using halts_frame_done [OF ev, of "\<lambda>v. cadence v None" d e sc F_ReturnK]
    by (simp add: EReturn step_simps settle_simps)
next
  case ENihil
  show ?thesis
    unfolding ENihil interp.simps expr.case eval_step.simps
    by (rule halts_on_layer, rule refl) simp
next
  case (EClama e)
  have "halts env mode d k (\<lambda>st tw th. Inl (cfg mode arg (C_Eval e sc) (F_ClamaK i # st) tw d th))
      (\<lambda>n. seq (interp n env mode arg d e sc) (throw i))" for i
    by (rule halts_frame_done [OF ev]) simp
  then show ?thesis
    unfolding EClama interp.simps expr.case eval_step.simps
    by - (rule halts_on_layer, rule refl, simp add: step_simps settle_simps)
next
  case ELege
  show ?thesis
    unfolding ELege interp.simps expr.case eval_step.simps
    by (rule halts_on_layer, rule refl) simp
next
  case (EPone e)
  have "halts env mode d k (\<lambda>st tw th. Inl (cfg mode arg (C_Eval e sc) (F_PoneK i # st) tw d th))
      (\<lambda>n. seq (interp n env mode arg d e sc) (state_put i))" for i
    by (rule halts_frame_done [OF ev]) simp
  then show ?thesis
    unfolding EPone interp.simps expr.case eval_step.simps
    by - (rule halts_on_layer, rule refl, simp add: step_simps settle_simps)
next
  case (EMitte e)
  have "halts env mode d k (\<lambda>st tw th. Inl (cfg mode arg (C_Eval e sc) (F_MitteK i # st) tw d th))
      (\<lambda>n. seq (interp n env mode arg d e sc) (tell i))" for i
    by (rule halts_frame_done [OF ev]) simp
  then show ?thesis
    unfolding EMitte interp.simps expr.case eval_step.simps
    by - (rule halts_on_layer, rule refl, simp add: step_simps settle_simps)
next
  case (EPerage e)
  have "halts env mode d k (\<lambda>st tw th. Inl (cfg mode arg (C_Eval e sc) (F_PerageK # st) tw d th))
      (\<lambda>n. seq (interp n env mode arg d e sc) commit)"
    by (rule halts_frame_done [OF ev]) simp
  then show ?thesis
    unfolding EPerage interp.simps expr.case eval_step.simps
    by - (rule halts_on_layer, rule refl, simp add: step_simps settle_simps)
qed simp_all

lemma halts_interp: "halts_eval env mode arg k"
proof (induction k)
  case 0
  show ?case unfolding halts_eval_def by (intro allI halts_zero) blast
next
  case (Suc k)
  show ?case
    unfolding halts_eval_def
    by (intro allI, rule halts_Suc, rule halts_eval_step, rule halts_eval_Suc [OF Suc])
qed

section \<open>A whole verse\<close>

lemma interp_verse_mono:
  "interp_verse n env mode body arg st = Some r \<Longrightarrow> n \<le> n' \<Longrightarrow> interp_verse n' env mode body arg st = Some r"
  by (auto simp: interp_verse_def dest: chainD [OF interp_chain])

lemma machine_stops_interp:
  assumes "run_from env k (Inl (start_cfg mode body arg st)) = Inr r"
  shows "\<exists>n. interp_verse n env mode body arg st = Some r"
proof -
  obtain n x where "interp n env mode arg 0 body [] (build_tower mode st) = Some x"
    using haltsE [OF halts_evalD [OF halts_interp] tower_ok_build le_refl assms [unfolded start_cfg_def]] .
  then have i: "interp_verse n env mode body arg st = Some (verse_result x)"
    by (simp add: interp_verse_def)
  obtain k' where k': "\<And>j. k' \<le> j \<Longrightarrow> run_from env j (Inl (start_cfg mode body arg st)) = Inr (verse_result x)"
    using machine_reaches_interp [OF i] by blast
  from k' [of "max k k'"] run_from_mono [OF assms, of "max k k'"] have "r = verse_result x" by simp
  with i show ?thesis by blast
qed

end
