(* ===== verification/Verse.thy ===== *)
theory Verse
  imports Adequacy
begin

text \<open>
  What running a verse can do: the properties of \<open>run_verse\<close> and \<open>resume\<close> that the rest of
  the system relies on. \<open>computes\<close> is the result of a verse, whatever the fuel it takes.
\<close>

section \<open>The result of a verse\<close>

definition out_of_fuel :: "outcome mres \<Rightarrow> bool" where
  "out_of_fuel r = (case r of Inl (Raise (D_OutOfFuel m)) \<Rightarrow> True | _ \<Rightarrow> False)"

definition computes :: "env \<Rightarrow> mode \<Rightarrow> expr \<Rightarrow> val \<Rightarrow> val \<Rightarrow> outcome mres \<Rightarrow> bool" where
  "computes env mode body arg st r \<longleftrightarrow>
     (\<exists>fuel. run_verse env mode body arg st fuel = r \<and> \<not> out_of_fuel r)"

lemma paused_out_of_fuel: "paused r = Inr r' \<longleftrightarrow> r' = r \<and> \<not> out_of_fuel r"
  by (auto simp: paused_def out_of_fuel_def split: sum.split exn.split dissonance.split)

lemma run_verse_machine:
  "run_verse env mode body arg st fuel = r \<and> \<not> out_of_fuel r \<longleftrightarrow>
     machine_run env (start mode body arg st) fuel = Inr r"
  by (auto simp: machine_run_def run_verse_def paused_out_of_fuel)

lemma run_verse_from:
  "run_verse env mode body arg st fuel = r \<and> \<not> out_of_fuel r \<longleftrightarrow>
     run_from env fuel (Inl (start_cfg mode body arg st)) = Inr r"
  by (simp add: run_verse_machine start_is_cfg machine_run_run_from [OF start_wf, unfolded start_is_cfg])

lemma computes_interp:
  "computes env mode body arg st r \<longleftrightarrow> (\<exists>n. interp_verse n env mode body arg st = Some r)"
  unfolding computes_def run_verse_from
  using machine_stops_interp machine_reaches_interp by (metis le_refl)

lemma computes_unique:
  "computes env mode body arg st r \<Longrightarrow> computes env mode body arg st r' \<Longrightarrow> r = r'"
  unfolding computes_def run_verse_machine by (metis officium.run_unique start_wf)

section \<open>Equality of verses\<close>

text \<open>What a family of computations yields, whatever the fuel.\<close>

definition yields :: "(nat \<Rightarrow> 'a comp) \<Rightarrow> layer list \<Rightarrow> 'a eff \<times> layer list \<Rightarrow> bool" where
  "yields C tw x \<longleftrightarrow> (\<exists>n. C n tw = Some x)"

text \<open>Two expressions that compute the same, in a scope, at a lift depth, on every tower.\<close>

definition same :: "env \<Rightarrow> mode \<Rightarrow> val \<Rightarrow> nat \<Rightarrow> scope \<Rightarrow> expr \<Rightarrow> expr \<Rightarrow> bool" where
  "same env mode arg d sc e e' \<longleftrightarrow> (\<forall>tw x. tower_ok mode d tw \<longrightarrow>
     yields (\<lambda>n. interp n env mode arg d e sc) tw x = yields (\<lambda>n. interp n env mode arg d e' sc) tw x)"

lemma sameI:
  "(\<And>tw x. tower_ok mode d tw \<Longrightarrow>
     yields (\<lambda>n. interp n env mode arg d e sc) tw x = yields (\<lambda>n. interp n env mode arg d e' sc) tw x) \<Longrightarrow>
   same env mode arg d sc e e'"
  by (simp add: same_def)

lemma computes_same:
  assumes "same env mode arg 0 [] e e'"
  shows "computes env mode e arg st r \<longleftrightarrow> computes env mode e' arg st r"
proof -
  have "computes env mode e arg st r \<longleftrightarrow>
      (\<exists>x. yields (\<lambda>n. interp n env mode arg 0 e []) (build_tower mode st) x \<and> r = verse_result x)" for e
    by (auto simp: computes_interp interp_verse_def yields_def)
  then show ?thesis
    using assms tower_ok_build [of mode st] by (simp add: same_def)
qed

lemma yields_const [simp]: "yields (\<lambda>_. c) tw x \<longleftrightarrow> c tw = Some x"
  by (simp add: yields_def)

lemma yields_Suc:
  assumes "chain C"
  shows "yields (\<lambda>n. C (Suc n)) tw x = yields C tw x"
  using chainD [OF assms, of _ tw x] unfolding yields_def by (meson le_SucI le_refl)

text \<open>What follows a computation that yielded \<open>r\<close>: the rest \<open>K v\<close> after a value, nothing otherwise.\<close>

fun follows :: "(val \<Rightarrow> layer list \<Rightarrow> val eff \<times> layer list \<Rightarrow> bool) \<Rightarrow>
    val eff \<times> layer list \<Rightarrow> val eff \<times> layer list \<Rightarrow> bool" where
  "follows K (Ok v, tw) y = K v tw y"
| "follows K (Thrown i v, tw) y = (y = (Thrown i v, tw))"
| "follows K (Halted out, tw) y = (y = (Halted out, tw))"
| "follows K (Failed e, tw) y = (y = (Failed e, tw))"

lemma yields_seq:
  assumes "chain C" "\<And>a. chain (G a)"
  shows "yields (\<lambda>n. seq (C n) (\<lambda>a. G a n)) tw y \<longleftrightarrow>
     (\<exists>x. yields C tw x \<and> follows (\<lambda>v. yields (G v)) x y)" (is "?l = ?r")
proof
  assume ?l
  then obtain n where n: "seq (C n) (\<lambda>a. G a n) tw = Some y" by (auto simp: yields_def)
  then obtain r tw' where c: "C n tw = Some (r, tw')" by (auto simp: seq_def split: option.splits)
  then have "yields C tw (r, tw')" by (auto simp: yields_def)
  moreover have "follows (\<lambda>v. yields (G v)) (r, tw') y"
    using n c by (cases r) (auto simp: seq_def yields_def)
  ultimately show ?r by blast
next
  assume ?r
  then obtain r tw' n where n: "C n tw = Some (r, tw')"
    and rest: "follows (\<lambda>v. yields (G v)) (r, tw') y" by (auto simp: yields_def)
  show ?l
  proof (cases r)
    case (Ok a)
    with rest obtain n' where n': "G a n' tw' = Some y" by (auto simp: yields_def)
    have "seq (C (max n n')) (\<lambda>a. G a (max n n')) tw = Some y"
      using chainD [OF assms(1) n, of "max n n'"] chainD [OF assms(2) n', of "max n n'"]
      by (simp add: seq_def Ok)
    then show ?thesis by (auto simp: yields_def)
  qed (use n rest in \<open>auto simp: yields_def seq_def intro!: exI [of _ n]\<close>)
qed

lemma yields_interp_Suc:
  "yields (\<lambda>n. interp n env mode arg d e sc) tw x = yields (\<lambda>n. interp (Suc n) env mode arg d e sc) tw x"
  by (rule yields_Suc [OF interp_chain, symmetric])

lemma yields_apply_closure:
  "yields (\<lambda>n. interp_apply n env mode arg d (VClosure p b sc) a) =
   yields (\<lambda>n. interp n env mode arg d b (scope_bind sc p a))"
  using yields_Suc [OF interp_apply_chain, of env mode arg d "VClosure p b sc" a] by (simp add: fun_eq_iff)

lemmas yields_rules = yields_seq interp_chain interp_apply_chain chain_const chain_seq

text \<open>What each construct of the laws yields.\<close>

lemma yields_bind:
  "yields (\<lambda>n. interp n env mode arg d (EBind md m x k) sc) tw y \<longleftrightarrow>
     (\<exists>r. yields (\<lambda>n. interp n env mode arg d m sc) tw r \<and>
        follows (\<lambda>v. yields (\<lambda>n. interp n env mode arg d k (scope_bind sc x v))) r y)"
  unfolding yields_interp_Suc [of env mode arg d "EBind md m x k"] interp.simps expr.case
  by (rule yields_seq) (rule interp_chain)+

lemma yields_pure:
  "yields (\<lambda>n. interp n env mode arg d (EPure md e) sc) tw y = yields (\<lambda>n. interp n env mode arg d e sc) tw y"
  unfolding yields_interp_Suc [of env mode arg d "EPure md e"] interp.simps expr.case ..

lemma yields_var:
  "scope_lookup sc x = Some v \<Longrightarrow>
   yields (\<lambda>n. interp n env mode arg d (EVar x) sc) tw y \<longleftrightarrow> y = (Ok v, tw)"
  unfolding yields_interp_Suc [of env mode arg d "EVar x"] by (auto simp: eval_var_def ret_def)

lemma yields_var_bound:
  "yields (\<lambda>n. interp n env mode arg d (EVar x) (scope_bind sc x v)) = (\<lambda>tw y. y = (Ok v, tw))"
  by (simp add: fun_eq_iff yields_var)

lemma yields_app_lam:
  "yields (\<lambda>n. interp n env mode arg d (EApp (ELam x k) e) sc) tw y \<longleftrightarrow>
     (\<exists>r. yields (\<lambda>n. interp n env mode arg d e sc) tw r \<and>
        follows (\<lambda>v. yields (\<lambda>n. interp n env mode arg d k (scope_bind sc x v))) r y)"
proof -
  have lam: "yields (\<lambda>n. interp n env mode arg d (ELam x k) sc) tw z \<longleftrightarrow> z = (Ok (VClosure x k sc), tw)" for z
    unfolding yields_interp_Suc [of env mode arg d "ELam x k"] by (auto simp: ret_def)
  show ?thesis
    unfolding yields_interp_Suc [of env mode arg d "EApp (ELam x k) e"] interp.simps expr.case
    by (simp add: yields_seq interp_chain interp_apply_chain chain_seq lam yields_apply_closure)
qed

lemma yields_lit: "yields (\<lambda>n. interp n env mode arg d (ELit v) sc) tw y \<longleftrightarrow> y = (Ok v, tw)"
  unfolding yields_interp_Suc [of env mode arg d "ELit v"] by (auto simp: ret_def)

text \<open>The layer operations, on the layer that the tower of the mode names.\<close>

definition layer_index :: "mode \<Rightarrow> nat \<Rightarrow> layer_kind \<Rightarrow> nat option" where
  "layer_index mode d k = find_index (\<lambda>i. mode_tower mode ! i = k) d (length (mode_tower mode) - d)"

lemma layer_index_Some:
  "layer_index mode d k = Some i \<Longrightarrow> d \<le> i \<and> i < length (mode_tower mode) \<and> mode_tower mode ! i = k"
  unfolding layer_index_def using find_index_Some by fastforce

lemma on_layer_index: "layer_index mode d k = Some i \<Longrightarrow> on_layer mode d k op f = f i"
  by (simp add: on_layer_def layer_index_def)

lemma yields_lege:
  assumes "layer_index mode d K_State = Some i" "tower_ok mode d tw" "tw ! i = L_State v"
  shows "yields (\<lambda>n. interp n env mode arg d ELege sc) tw y \<longleftrightarrow> y = (Ok v, tw)"
  unfolding yields_interp_Suc [of env mode arg d ELege]
  using assms by (auto simp: on_layer_index state_get_def ret_def)

lemma yields_pone:
  assumes "layer_index mode d K_State = Some i"
  shows "yields (\<lambda>n. interp n env mode arg d (EPone e) sc) tw y \<longleftrightarrow>
     (\<exists>r. yields (\<lambda>n. interp n env mode arg d e sc) tw r \<and>
        follows (\<lambda>v tw' y. y = (Ok VUnit, tw'[i := L_State v])) r y)"
proof -
  have f: "yields (\<lambda>_. state_put i v) = (\<lambda>tw' y. y = (Ok VUnit, tw'[i := L_State v]))" for v
    by (auto simp: fun_eq_iff state_put_def)
  show ?thesis
    unfolding yields_interp_Suc [of env mode arg d "EPone e"] interp.simps expr.case
      on_layer_index [OF assms]
    by (subst yields_seq [OF interp_chain chain_const]) (simp only: f)
qed

text \<open>What a computation yields is over a tower of the same shape.\<close>

lemma yields_tower_ok:
  "yields (\<lambda>n. interp n env mode arg d e sc) tw (r, tw') \<Longrightarrow> tower_ok mode d tw \<Longrightarrow> tower_ok mode d tw'"
  unfolding yields_def by (metis realises_eval realisesE)

section \<open>The laws\<close>

lemma same_left_identity: "same env mode arg d sc (EBind md (EPure md' e) x k) (EApp (ELam x k) e)"
  by (rule sameI) (simp add: yields_bind yields_pure yields_app_lam)

lemma follows_ok: "follows (\<lambda>v tw' y. y = (Ok v, tw')) r y \<longleftrightarrow> r = y"
  by (cases r; cases "fst r") auto

lemma same_right_identity: "same env mode arg d sc (EBind md m x (EPure md' (EVar x))) m"
proof (rule sameI)
  fix tw y
  have "yields (\<lambda>n. interp n env mode arg d (EPure md' (EVar x)) (scope_bind sc x v))
      = (\<lambda>tw y. y = (Ok v, tw))" for v
    by (simp add: fun_eq_iff yields_pure yields_var)
  then show "yields (\<lambda>n. interp n env mode arg d (EBind md m x (EPure md' (EVar x))) sc) tw y
      = yields (\<lambda>n. interp n env mode arg d m sc) tw y"
    by (simp add: yields_bind follows_ok del: split_paired_Ex)
qed

lemma yields_put_get:
  assumes i: "layer_index mode d K_State = Some i" and tw: "tower_ok mode d tw"
  shows "yields (\<lambda>n. interp n env mode arg d (EBind md (EPone e) x ELege) sc) tw y \<longleftrightarrow>
    (\<exists>r. yields (\<lambda>n. interp n env mode arg d e sc) tw r \<and>
       follows (\<lambda>v tw' y. y = (Ok v, tw'[i := L_State v])) r y)"
proof -
  have ok: "tower_ok mode d (tw'[i := L_State v]) \<and> i < length tw'" if "tower_ok mode d tw'" for tw' v
    using layer_index_Some [OF i] tower_ok_kind [OF that, of i] tower_ok_length [OF that] that
    by (auto intro!: tower_ok_update)
  have "(\<exists>r. follows (\<lambda>v tw' y. y = (Ok VUnit, tw'[i := L_State v])) (r0, tw0) r \<and>
      follows (\<lambda>v. yields (\<lambda>n. interp n env mode arg d ELege (scope_bind sc x v))) r y)
    \<longleftrightarrow> follows (\<lambda>v tw' y. y = (Ok v, tw'[i := L_State v])) (r0, tw0) y"
    if "tower_ok mode d tw0" for r0 tw0
    using ok [OF that] by (cases r0) (auto simp: yields_lege [OF i])
  then show ?thesis
    using yields_tower_ok [OF _ tw] by (simp add: yields_bind yields_pone [OF i]) blast
qed

lemma same_put_get:
  assumes i: "layer_index mode d K_State = Some i" and "z \<noteq> x"
  shows "same env mode arg d sc (EBind md (EPone e) y ELege)
    (EBind md e x (EBind md (EPone (EVar x)) z (EPure md (EVar x))))"
proof (rule sameI)
  fix tw w
  assume tw: "tower_ok mode d tw"
  have "yields (\<lambda>n. interp n env mode arg d (EBind md (EPone (EVar x)) z (EPure md (EVar x))) (scope_bind sc x v))
      = (\<lambda>tw' w. w = (Ok v, tw'[i := L_State v]))" for v
    using \<open>z \<noteq> x\<close>
    by (auto simp: fun_eq_iff yields_bind yields_pone [OF i] yields_pure yields_var)
  then show "yields (\<lambda>n. interp n env mode arg d (EBind md (EPone e) y ELege) sc) tw w =
      yields (\<lambda>n. interp n env mode arg d (EBind md e x (EBind md (EPone (EVar x)) z (EPure md (EVar x)))) sc) tw w"
    by (simp add: yields_put_get [OF i tw]) (simp add: yields_bind)
qed

section \<open>Unwinding\<close>

definition catches :: "nat \<Rightarrow> frame \<Rightarrow> bool" where
  "catches i f = (case f of F_RecipeH x h sc c \<Rightarrow> c = i | _ \<Rightarrow> False)"

lemma unwind_frames_spec:
  "lifts_ok d st \<Longrightarrow> unwind_frames i st d = ((st', d'), r) \<Longrightarrow>
     lifts_ok d' st' \<and>
     (case r of
        Some (x, h, sc) \<Rightarrow> \<exists>pre. st = pre @ F_RecipeH x h sc i # st' \<and> (\<forall>f\<in>set pre. \<not> catches i f)
      | None \<Rightarrow> st' = [] \<and> (\<forall>f\<in>set st. \<not> catches i f))"
proof (induction i st d rule: unwind_frames.induct)
  case (2 i x h sc c st d)
  then show ?case
    by (auto simp: catches_def Cons_eq_append_conv split: if_splits option.splits)
qed (auto simp: catches_def Cons_eq_append_conv split: option.splits)

section \<open>Properties\<close>

text \<open>C1: the machine computes exactly what the reference interpreter computes: a verse run on
  some fuel returns the result \<open>r\<close> (a cadence, an error) if and only if the interpreter, at some
  depth of evaluation, does.\<close>

theorem machine_is_interpreter:
  "(\<exists>fuel. run_verse env mode body arg st fuel = r \<and> \<not> out_of_fuel r) \<longleftrightarrow>
   (\<exists>n. interp_verse n env mode body arg st = Some r)"
  by (rule computes_interp [unfolded computes_def])

text \<open>C3: a verse never panics, and ends as its mode allows. Paused, it is a well-formed machine;
  failed, its error is one of the mode (no throw outside the Except modes, no silence outside
  the Maybe modes, no plan rejected outside Mixolydian); at its cadence it has a plan or a state
  only in a mode that has the layer.\<close>

theorem verse_ends_in_mode:
  "case run_verse env mode body arg st fuel of
     Inr out \<Rightarrow> outcome_ok mode out
   | Inl (Raise (D_OutOfFuel m)) \<Rightarrow> m_wf m \<and> m_mode m = mode
   | Inl (Raise d) \<Rightarrow> mode_error mode d
   | Inl Panicked \<Rightarrow> False"
  using resume_ok [OF start_wf [of mode body arg st], of env fuel]
  by (auto simp: run_verse_def run_ok_def start_def split: sum.split exn.split dissonance.split)

text \<open>C2: only a Mixolydian verse commits, and what it commits is a plan that is not empty; the
  cadence's value is then the unit.\<close>

theorem commit_only_mixolydian:
  assumes "run_verse env mode body arg st fuel = Inr out" and "out_committed out = Some p"
  shows "mode = Mixolydian \<and> p \<noteq> [] \<and> out_value out = Some VUnit"
proof -
  have "outcome_ok mode out"
    using resume_ok [OF start_wf [of mode body arg st], of env fuel] assms(1)
    by (simp add: run_verse_def run_ok_def start_def)
  with assms(2) show ?thesis by (cases mode) (auto simp: outcome_ok_def)
qed

text \<open>Fuel is additive: a verse run on \<open>a + b\<close> is the verse run on \<open>a\<close> and, when that pauses,
  the paused machine resumed on \<open>b\<close>.\<close>

theorem fuel_splits:
  "run_verse env mode body arg st (a + b) =
     (case run_verse env mode body arg st a of
        Inl (Raise (D_OutOfFuel m)) \<Rightarrow> resume env m b
      | r \<Rightarrow> r)"
proof -
  have "resume env m (a + b) = (case resume env m a of Inl (Raise (D_OutOfFuel m)) \<Rightarrow> resume env m b | r \<Rightarrow> r)"
    if "m_wf m" for m
    using that
  proof (induction a arbitrary: m)
    case (Suc a)
    show ?case
    proof (cases "machine_step env m")
      case (Inl m')
      then show ?thesis using Suc.IH [of m'] machine_step_ok [OF Suc.prems, of env] by simp
    next
      case (Inr r)
      then show ?thesis
        using machine_step_ok [OF Suc.prems, of env]
        by (auto split: sum.split exn.split dissonance.split)
    qed
  qed simp
  from this [OF start_wf] show ?thesis by (simp add: run_verse_def)
qed

text \<open>Left identity: binding a pure expression is applying the continuation to it.\<close>

theorem bind_left_identity:
  "(\<exists>fuel. run_verse env mode (EBind md (EPure md' e) x k) arg st fuel = r \<and> \<not> out_of_fuel r) \<longleftrightarrow>
   (\<exists>fuel. run_verse env mode (EApp (ELam x k) e) arg st fuel = r \<and> \<not> out_of_fuel r)"
  unfolding computes_def [symmetric] by (rule computes_same [OF same_left_identity])

text \<open>Right identity: binding a computation to a pure variable is the computation.\<close>

theorem bind_right_identity:
  "(\<exists>fuel. run_verse env mode (EBind md m x (EPure md' (EVar x))) arg st fuel = r \<and> \<not> out_of_fuel r) \<longleftrightarrow>
   (\<exists>fuel. run_verse env mode m arg st fuel = r \<and> \<not> out_of_fuel r)"
  unfolding computes_def [symmetric] by (rule computes_same [OF same_right_identity])

text \<open>Reading the state just after writing it gives the value written (and an expression that
  throws or ends before the write ends the verse the same way).\<close>

theorem lege_after_pone:
  assumes "allows mode Op_Pone" and "z \<noteq> x"
  shows "(\<exists>fuel. run_verse env mode (EBind md (EPone e) y ELege) arg st fuel = r \<and> \<not> out_of_fuel r) \<longleftrightarrow>
    (\<exists>fuel. run_verse env mode (EBind md e x (EBind md (EPone (EVar x)) z (EPure md (EVar x)))) arg st fuel = r
       \<and> \<not> out_of_fuel r)"
proof -
  obtain i where "layer_index mode 0 K_State = Some i"
    using assms(1) by (cases mode) (auto simp: layer_index_def)
  from computes_same [OF same_put_get [OF this assms(2)]] show ?thesis
    by (simp only: computes_def)
qed

text \<open>C20: a throw goes to the nearest handler of its layer. The frames above that handler are
  dropped, the ones under it and the tower are kept, and the lift depth is again the one the
  handler was set at. A throw that no handler of its layer encloses ends the verse.\<close>

theorem throw_reaches_nearest_handler:
  assumes "m_wf m"
  shows "case unwind m (D_User v) of
     (m', Inr c) \<Rightarrow> \<exists>pre x h sc.
        m_stack m = pre @ F_RecipeH x h sc (m_thrown m) # m_stack m'
        \<and> (\<forall>f\<in>set pre. \<not> catches (m_thrown m) f)
        \<and> c = C_Eval h (scope_bind sc x v)
        \<and> lifts_ok (m_depth m') (m_stack m') \<and> m_tower m' = m_tower m
   | (m', Inl e) \<Rightarrow> e = Raise (D_User v) \<and> (\<forall>f\<in>set (m_stack m). \<not> catches (m_thrown m) f)"
proof -
  obtain st' d' r where u: "unwind_frames (m_thrown m) (m_stack m) (m_depth m) = ((st', d'), r)"
    by (metis surj_pair)
  have "lifts_ok (m_depth m) (m_stack m)" using assms by (simp add: m_wf_def)
  from unwind_frames_spec [OF this u] show ?thesis
    by (auto simp: unwind_def u split: option.splits)
qed

text \<open>The layer an operation acts on is the first of its kind in the part of the mode's tower
  that the lift depth leaves visible; without one the operation is a WrongMode error.\<close>

theorem layer_is_first_visible:
  assumes "m_wf m"
  shows "layer_at m k op =
    (case filter (\<lambda>i. mode_tower (m_mode m) ! i = k) [m_depth m ..< length (mode_tower (m_mode m))] of
       [] \<Rightarrow> Inl (Raise (D_WrongMode (m_mode m) op))
     | i # is \<Rightarrow> Inr i)"
proof -
  have gen: "find_index P i n = (case filter P [i ..< i + n] of [] \<Rightarrow> None | j # js \<Rightarrow> Some j)" for P i n
  proof (induction n arbitrary: i)
    case (Suc n)
    have "[i ..< i + Suc n] = i # [Suc i ..< Suc i + n]"
      by (simp add: upt_rec)
    with Suc [of "Suc i"] show ?case by simp
  qed simp
  have d: "m_depth m < length (m_tower m)" using assms by (simp add: m_wf_def)
  have "find_index (\<lambda>i. layer_kind (m_tower m ! i) = k) (m_depth m) (length (m_tower m) - m_depth m)
      = find_index (\<lambda>i. mode_tower (m_mode m) ! i = k) (m_depth m) (length (m_tower m) - m_depth m)"
    by (rule find_index_cong) (simp add: m_wf_kind [OF assms])
  then show ?thesis
    using d by (simp add: layer_at_def gen m_wf_length [OF assms] split: list.split)
qed

text \<open>Outside a lift, the machine finds a layer for an operation exactly when the table of
  legal operations of the mode allows it.\<close>

theorem legality_is_tower:
  assumes "m_wf m" and "m_depth m = 0" and "op \<noteq> Op_Lift"
  shows "(\<exists>i. layer_at m (op_layer op) op = Inr i) \<longleftrightarrow> allows (m_mode m) op"
  using layer_at_visible [OF assms(1)] allows_op_layer [OF assms(3)] assms(2) by simp

section \<open>Witnesses\<close>

text \<open>A verse that commits a plan of one command.\<close>

definition one_plan :: plan where
  "one_plan = [\<lparr>cmd_target = 1, cmd_dv = along_x f64_zero, cmd_at = 0\<rparr>]"

lemma commit_runs:
  "run_verse env_default Mixolydian (EPerage (ELit (VPlan one_plan))) VUnit VUnit 9
     = Inr \<lparr>out_value = Some VUnit, out_state = VUnit, out_plan = [], out_committed = Some one_plan\<rparr>"
  by code_simp

theorem commit_only_mixolydian_witness:
  "Mixolydian = Mixolydian \<and> one_plan \<noteq> []
   \<and> out_value \<lparr>out_value = Some VUnit, out_state = VUnit, out_plan = [], out_committed = Some one_plan\<rparr> = Some VUnit"
  by (rule commit_only_mixolydian [OF commit_runs]) simp

definition unit_cadence :: outcome where
  "unit_cadence = \<lparr>out_value = Some VUnit, out_state = VUnit, out_plan = [], out_committed = None\<rparr>"

theorem lege_after_pone_witness:
  "(\<exists>fuel. run_verse env_default Lydian (EBind Lydian (EPone EArg) ''y'' ELege) VUnit VUnit fuel
        = Inr unit_cadence \<and> \<not> out_of_fuel (Inr unit_cadence)) \<longleftrightarrow>
   (\<exists>fuel. run_verse env_default Lydian (EBind Lydian EArg ''x'' (EBind Lydian (EPone (EVar ''x'')) ''z''
        (EPure Lydian (EVar ''x'')))) VUnit VUnit fuel = Inr unit_cadence \<and> \<not> out_of_fuel (Inr unit_cadence))"
  by (rule lege_after_pone) simp_all

text \<open>A machine two layers of Except deep, one handler of each layer on its stack.\<close>

definition two_handlers :: continuation where
  "two_handlers = (start Hypophrygian EArg VUnit VUnit)
     \<lparr>m_stack := [F_RecipeH ''lower'' EArg [] 1, F_LiftK 0, F_RecipeH ''upper'' EArg [] 0],
      m_depth := 1\<rparr>"

lemma two_handlers_wf: "m_wf two_handlers"
  by code_simp

theorem throw_reaches_nearest_handler_witness:
  "case unwind two_handlers (D_User VUnit) of
     (m', Inr c) \<Rightarrow> \<exists>pre x h sc.
        m_stack two_handlers = pre @ F_RecipeH x h sc (m_thrown two_handlers) # m_stack m'
        \<and> (\<forall>f\<in>set pre. \<not> catches (m_thrown two_handlers) f)
        \<and> c = C_Eval h (scope_bind sc x VUnit)
        \<and> lifts_ok (m_depth m') (m_stack m') \<and> m_tower m' = m_tower two_handlers
   | (m', Inl e) \<Rightarrow> e = Raise (D_User VUnit) \<and> (\<forall>f\<in>set (m_stack two_handlers). \<not> catches (m_thrown two_handlers) f)"
  by (rule throw_reaches_nearest_handler [OF two_handlers_wf])

theorem layer_is_first_visible_witness:
  "layer_at two_handlers K_Except Op_Clama =
    (case filter (\<lambda>i. mode_tower (m_mode two_handlers) ! i = K_Except)
        [m_depth two_handlers ..< length (mode_tower (m_mode two_handlers))] of
       [] \<Rightarrow> Inl (Raise (D_WrongMode (m_mode two_handlers) Op_Clama))
     | i # is \<Rightarrow> Inr i)"
  by (rule layer_is_first_visible [OF two_handlers_wf])

theorem legality_is_tower_witness:
  "(\<exists>i. layer_at (start Phrygian EArg VUnit VUnit) (op_layer Op_Recipe) Op_Recipe = Inr i) \<longleftrightarrow>
     allows (m_mode (start Phrygian EArg VUnit VUnit)) Op_Recipe"
  by (rule legality_is_tower [OF start_wf]) (simp_all add: start_def)

end
