(* ===== verification/Driver.thy ===== *)
theory Driver
  imports Verse
begin

text \<open>
  The drivers: how a verse is run to its end, and how the three verses of the office are
  wired. \<open>kernel/src/celebrare.rs\<close> (ring 0: a verse has a budget, and the driver yields
  between fuel slices) and \<open>officium-host/src/main.rs\<close> (the hosted mirror: no budget, so a
  verse may run for ever, \<open>None\<close>).

  What a driver prints is a list of \<open>said\<close>, one constructor per message. The only effect that
  leaves the interpreter is \<open>gravity_sink\<close>: the interface \<open>gravity_platform\<close> states its
  contract (the sink receives the commands of the plan, in order, once), and both platforms
  provide it. The properties say that the slices do not matter, that the kernel always comes
  back, that only a committed Mixolydian plan reaches the sink, and that the host sends the
  sink what the kernel sends.
\<close>

section \<open>Messages\<close>

datatype said =
  S_Gravitas body_id f64 micros
| S_Corpus string
| S_Cadenced sym "val option"
| S_Nihil
| S_Pure nat
| S_NoCommit
| S_NoCorrectio
| S_Numquam sym nat
| S_Loud diss
| S_Text string
| S_Unknown_score string
| S_Cannot_read string
| S_Score nat nat nat
| S_Versus sym
| S_Sung char string
| S_No_verses
| S_Render nat
| S_Consummatum nat

section \<open>Running a verse: the kernel\<close>

definition FUEL_SLICE :: nat where
  "FUEL_SLICE = 20000"

definition MAX_SLICES :: nat where
  "MAX_SLICES = 500"

record kernel_platform =
  kp_said :: "said list"
  kp_yields :: nat

definition kp_say :: "said \<Rightarrow> kernel_platform \<Rightarrow> kernel_platform" where
  "kp_say s k = k\<lparr>kp_said := kp_said k @ [s]\<rparr>"

definition kp_yield :: "kernel_platform \<Rightarrow> kernel_platform" where
  "kp_yield k = k\<lparr>kp_yields := Suc (kp_yields k)\<rparr>"

text \<open>The loop of \<open>run_full\<close>: \<open>r\<close> and \<open>count\<close> are its mutable variables \<open>r\<close> and \<open>slices\<close>.\<close>

function kernel_loop ::
  "env \<Rightarrow> sym \<Rightarrow> outcome mres \<Rightarrow> nat \<Rightarrow> kernel_platform \<Rightarrow> outcome mres \<times> kernel_platform" where
  "kernel_loop env name r count k =
     (case r of
        Inl (Raise (D_OutOfFuel m)) \<Rightarrow>
          (if Suc count \<ge> MAX_SLICES
           then (Inl (Raise (D_OutOfFuel m)), kp_say (S_Numquam name (FUEL_SLICE * MAX_SLICES)) k)
           else kernel_loop env name (resume env m FUEL_SLICE) (Suc count) (kp_yield k))
      | other \<Rightarrow> (other, k))"
  by pat_completeness auto
termination
  by (relation "measure (\<lambda>(env, name, r, count, k). MAX_SLICES - count)") auto

declare kernel_loop.simps [simp del]

definition kernel_run_full ::
  "env \<Rightarrow> versus \<Rightarrow> val \<Rightarrow> kernel_platform \<Rightarrow> outcome mres \<times> kernel_platform" where
  "kernel_run_full env v arg k =
     kernel_loop env (ver_name v) (run_verse env (ver_mode v) (ver_body v) arg empty_state FUEL_SLICE) 0 k"

section \<open>Running a verse: the host\<close>

text \<open>Not returning is \<open>None\<close>.\<close>

partial_function (option) host_loop :: "env \<Rightarrow> nat \<Rightarrow> outcome mres \<Rightarrow> outcome mres option" where
  "host_loop env fuel_slice r =
     (case r of
        Inl e \<Rightarrow> (case e of
            Raise d \<Rightarrow> (case d of
                D_OutOfFuel m \<Rightarrow> host_loop env fuel_slice (resume env m fuel_slice)
              | _ \<Rightarrow> Some r)
          | Panicked \<Rightarrow> Some r)
      | Inr out \<Rightarrow> Some r)"

definition host_run_full :: "env \<Rightarrow> versus \<Rightarrow> val \<Rightarrow> nat \<Rightarrow> outcome mres option" where
  "host_run_full env v arg fuel_slice =
     host_loop env fuel_slice (run_verse env (ver_mode v) (ver_body v) arg empty_state fuel_slice)"

section \<open>The platforms\<close>

text \<open>
  The interface of the gravity sink. \<open>received\<close> is what the gravity hardware has got so far.
\<close>

locale gravity_platform =
  fixes gravity_sink :: "plan \<Rightarrow> 'p \<Rightarrow> ('e, unit) result \<times> 'p"
    and received :: "'p \<Rightarrow> (body_id \<times> f64 \<times> micros) list"
  assumes sink_ok: "fst (gravity_sink plan p) = Inr ()"
    and sink_received: "received (snd (gravity_sink plan p)) =
      received p @ map (\<lambda>c. (cmd_target c, vec_x (cmd_dv c), cmd_at c)) plan"
begin

text \<open>What a driver does with the plan of an outcome: the sink gets that plan, or nothing.\<close>

lemma commits:
  "received (case c of None \<Rightarrow> p | Some plan \<Rightarrow> snd (gravity_sink plan p)) =
     received p @ (case c of None \<Rightarrow> [] | Some plan \<Rightarrow>
       map (\<lambda>c. (cmd_target c, vec_x (cmd_dv c), cmd_at c)) plan)"
  by (simp add: sink_received split: option.split)

end

definition gravity_sink_line :: "body_id \<Rightarrow> f64 \<Rightarrow> micros \<Rightarrow> kernel_platform \<Rightarrow> kernel_platform" where
  "gravity_sink_line t dv_x a k = kp_say (S_Gravitas t dv_x a) k"

definition kernel_gravity_sink :: "plan \<Rightarrow> kernel_platform \<Rightarrow> ('e, unit) result \<times> kernel_platform" where
  "kernel_gravity_sink plan k =
     (Inr (), fold (\<lambda>c. gravity_sink_line (cmd_target c) (vec_x (cmd_dv c)) (cmd_at c)) plan k)"

fun said_gravitas :: "said \<Rightarrow> (body_id \<times> f64 \<times> micros) list" where
  "said_gravitas (S_Gravitas t d a) = [(t, d, a)]"
| "said_gravitas _ = []"

definition kernel_received :: "kernel_platform \<Rightarrow> (body_id \<times> f64 \<times> micros) list" where
  "kernel_received k = concat (map said_gravitas (kp_said k))"

record host_platform =
  hp_said :: "said list"
  hp_committed :: "plan list"

definition hp_say :: "said \<Rightarrow> host_platform \<Rightarrow> host_platform" where
  "hp_say s p = p\<lparr>hp_said := hp_said p @ [s]\<rparr>"

text \<open>The host prints all of the vector; the line is kept as its x component here.\<close>

definition host_gravity_sink :: "plan \<Rightarrow> host_platform \<Rightarrow> ('e, unit) result \<times> host_platform" where
  "host_gravity_sink plan p =
     (Inr (),
      (fold (\<lambda>c. hp_say (S_Gravitas (cmd_target c) (vec_x (cmd_dv c)) (cmd_at c))) plan p)
        \<lparr>hp_committed := hp_committed p @ [plan]\<rparr>)"

definition host_received :: "host_platform \<Rightarrow> (body_id \<times> f64 \<times> micros) list" where
  "host_received p = map (\<lambda>c. (cmd_target c, vec_x (cmd_dv c), cmd_at c)) (concat (hp_committed p))"

section \<open>The office of one body: the kernel\<close>

text \<open>\<open>celebrate_body\<close>, its three verses in turn. \<open>unwrap\<close> and a panicking verse are \<open>Panicked\<close>.\<close>

definition kernel_loud :: "diss exn \<Rightarrow> kernel_platform \<Rightarrow> kernel_platform mres" where
  "kernel_loud e k = (case e of Raise d \<Rightarrow> Inr (kp_say (S_Loud d) k) | Panicked \<Rightarrow> Inl Panicked)"

definition kernel_executio :: "env \<Rightarrow> program \<Rightarrow> plan \<Rightarrow> kernel_platform \<Rightarrow> kernel_platform mres" where
  "kernel_executio env prog planned k =
     (case prog_verse prog ''executio'' of
        None \<Rightarrow> Inr k
      | Some executio \<Rightarrow>
          (case kernel_run_full env executio (VPlan planned) k of
             (Inr out, k) \<Rightarrow>
               (case out_committed out of
                  None \<Rightarrow> Inr k
                | Some plan \<Rightarrow>
                    (case kernel_gravity_sink plan k of
                       (Inl e, k) \<Rightarrow> kernel_loud e k
                     | (Inr _, k) \<Rightarrow> Inr k))
           | (Inl e, k) \<Rightarrow> kernel_loud e k))"

definition kernel_consilium :: "env \<Rightarrow> program \<Rightarrow> val \<Rightarrow> kernel_platform \<Rightarrow> kernel_platform mres" where
  "kernel_consilium env prog field k =
     (case prog_verse prog ''consilium'' of
        None \<Rightarrow> Inr k
      | Some consilium \<Rightarrow>
          (case kernel_run_full env consilium field k of
             (Inr out, k) \<Rightarrow>
               kernel_executio env prog (out_plan out) (kp_say (S_Pure (length (out_plan out))) k)
           | (Inl e, k) \<Rightarrow> kernel_loud e k))"

definition kernel_celebrate_body :: "env \<Rightarrow> program \<Rightarrow> val \<Rightarrow> kernel_platform \<Rightarrow> kernel_platform mres" where
  "kernel_celebrate_body env prog body k =
     (case prog_verse prog ''correctio'' of
        None \<Rightarrow> Inl Panicked
      | Some correctio \<Rightarrow>
          (case kernel_run_full env correctio body k of
             (Inr out, k) \<Rightarrow>
               (case out_value out of
                  Some (VField f) \<Rightarrow> kernel_consilium env prog (VField f) k
                | other \<Rightarrow> Inr (kp_say (S_Cadenced ''correctio'' other) k))
           | (Inl (Raise D_Silent), k) \<Rightarrow> Inr (kp_say S_Nihil k)
           | (Inl e, k) \<Rightarrow> kernel_loud e k))"

text \<open>The procession of bodies, and the office after the score is accepted.\<close>

definition bodies :: "(string \<times> val) list" where
  "bodies =
     [(''asteroides periculosus'', make_corpus 1 ''asteroides'' (f64_dec 1 20) (f64_dec 1 5)),
      (''cometes periculosus'', make_corpus 2 ''cometes'' (f64_dec 5 19) (f64_dec 2 5)),
      (''lapillus tutus'', make_corpus 3 ''asteroides'' (f64_dec 1 0) (f64_dec 1 9))]"

fun kernel_procession :: "env \<Rightarrow> program \<Rightarrow> (string \<times> val) list \<Rightarrow> kernel_platform \<Rightarrow> kernel_platform mres" where
  "kernel_procession env prog [] k = Inr k"
| "kernel_procession env prog ((label, body) # bs) k =
     and_then (kernel_celebrate_body env prog body (kp_say (S_Corpus label) k))
       (kernel_procession env prog bs)"

section \<open>The office of one body: the host\<close>

definition host_loud :: "diss exn \<Rightarrow> host_platform \<Rightarrow> host_platform mres option" where
  "host_loud e p = (case e of Raise d \<Rightarrow> Some (Inr (hp_say (S_Loud d) p)) | Panicked \<Rightarrow> Some (Inl Panicked))"

definition host_executio :: "env \<Rightarrow> program \<Rightarrow> nat \<Rightarrow> plan \<Rightarrow> host_platform \<Rightarrow> host_platform mres option" where
  "host_executio env prog fuel planned p =
     (case prog_verse prog ''executio'' of
        None \<Rightarrow> Some (Inr p)
      | Some executio \<Rightarrow>
          (case host_run_full env executio (VPlan planned) fuel of
             None \<Rightarrow> None
           | Some (Inr out) \<Rightarrow>
               (case out_committed out of
                  None \<Rightarrow> Some (Inr (hp_say S_NoCommit p))
                | Some plan \<Rightarrow>
                    (case host_gravity_sink plan p of
                       (Inl e, p) \<Rightarrow> host_loud e p
                     | (Inr _, p) \<Rightarrow> Some (Inr p)))
           | Some (Inl e) \<Rightarrow> host_loud e p))"

definition host_consilium :: "env \<Rightarrow> program \<Rightarrow> nat \<Rightarrow> val \<Rightarrow> host_platform \<Rightarrow> host_platform mres option" where
  "host_consilium env prog fuel field p =
     (case prog_verse prog ''consilium'' of
        None \<Rightarrow> Some (Inr p)
      | Some consilium \<Rightarrow>
          (case host_run_full env consilium field fuel of
             None \<Rightarrow> None
           | Some (Inr out) \<Rightarrow>
               host_executio env prog fuel (out_plan out) (hp_say (S_Pure (length (out_plan out))) p)
           | Some (Inl e) \<Rightarrow> host_loud e p))"

definition host_celebrate_body ::
  "env \<Rightarrow> program \<Rightarrow> nat \<Rightarrow> string \<Rightarrow> val \<Rightarrow> host_platform \<Rightarrow> host_platform mres option" where
  "host_celebrate_body env prog fuel label body p0 =
     (let p = hp_say (S_Corpus label) p0 in
      case prog_verse prog ''correctio'' of
        None \<Rightarrow> Some (Inr (hp_say S_NoCorrectio p))
      | Some correctio \<Rightarrow>
          (case host_run_full env correctio body fuel of
             None \<Rightarrow> None
           | Some (Inr out) \<Rightarrow>
               (case out_value out of
                  Some (VField f) \<Rightarrow> host_consilium env prog fuel (VField f) p
                | other \<Rightarrow> Some (Inr (hp_say (S_Cadenced ''correctio'' other) p)))
           | Some (Inl (Raise D_Silent)) \<Rightarrow> Some (Inr (hp_say S_Nihil p))
           | Some (Inl e) \<Rightarrow> host_loud e p))"

fun host_procession ::
  "env \<Rightarrow> program \<Rightarrow> nat \<Rightarrow> (string \<times> val) list \<Rightarrow> host_platform \<Rightarrow> host_platform mres option" where
  "host_procession env prog fuel [] p = Some (Inr p)"
| "host_procession env prog fuel ((label, body) # bs) p =
     (case host_celebrate_body env prog fuel label body p of
        Some (Inr p) \<Rightarrow> host_procession env prog fuel bs p
      | stopped \<Rightarrow> stopped)"

section \<open>The sink is the interface\<close>

lemma kernel_sink_said:
  "kp_said (fold (\<lambda>c. gravity_sink_line (cmd_target c) (vec_x (cmd_dv c)) (cmd_at c)) plan k)
     = kp_said k @ map (\<lambda>c. S_Gravitas (cmd_target c) (vec_x (cmd_dv c)) (cmd_at c)) plan"
  by (induction plan arbitrary: k) (simp_all add: gravity_sink_line_def kp_say_def)

lemma host_sink_committed:
  "hp_committed (fold (\<lambda>c. hp_say (S_Gravitas (cmd_target c) (vec_x (cmd_dv c)) (cmd_at c))) plan p) = hp_committed p"
  by (induction plan arbitrary: p) (simp_all add: hp_say_def)

lemma concat_map_gravitas: "concat (map (\<lambda>c. said_gravitas (S_Gravitas (t c) (d c) (a c))) xs) = map (\<lambda>c. (t c, d c, a c)) xs"
  by (induction xs) auto

interpretation kernel_sink: gravity_platform kernel_gravity_sink kernel_received
  by unfold_locales
    (simp_all add: kernel_gravity_sink_def kernel_received_def kernel_sink_said concat_map_gravitas comp_def)

interpretation host_sink: gravity_platform host_gravity_sink host_received
  by unfold_locales (simp_all add: host_gravity_sink_def host_received_def)

section \<open>The slices do not matter\<close>

definition unpaused :: "continuation + outcome mres \<Rightarrow> outcome mres" where
  "unpaused s = (case s of Inl m \<Rightarrow> Inl (Raise (D_OutOfFuel m)) | Inr r \<Rightarrow> r)"

lemma unpaused_simps [simp]:
  "unpaused (Inl m) = Inl (Raise (D_OutOfFuel m))" "unpaused (Inr r) = r"
  by (simp_all add: unpaused_def)

lemma unpaused_paused [simp]: "unpaused (paused r) = r"
  by (auto simp: unpaused_def paused_def split: sum.split exn.split dissonance.split)

lemma resume_machine_run: "resume env m fuel = unpaused (machine_run env m fuel)"
  by (simp add: machine_run_def)

lemma kernel_loop_over: "paused r = Inr r' \<Longrightarrow> kernel_loop env name r count k = (r, k)"
  by (subst kernel_loop.simps) (auto simp: paused_def split: sum.splits exn.splits dissonance.splits)

lemma kernel_loop_paused:
  "kernel_loop env name (Inl (Raise (D_OutOfFuel m))) count k =
     (if MAX_SLICES \<le> Suc count
      then (Inl (Raise (D_OutOfFuel m)), kp_say (S_Numquam name (FUEL_SLICE * MAX_SLICES)) k)
      else kernel_loop env name (resume env m FUEL_SLICE) (Suc count) (kp_yield k))"
  by (subst kernel_loop.simps) simp

lemma kernel_loop_slices:
  "fst (kernel_loop env name (Inl (Raise (D_OutOfFuel m))) count k) =
     unpaused (slices (machine_run env) FUEL_SLICE (MAX_SLICES - Suc count) m)"
proof (induction "MAX_SLICES - Suc count" arbitrary: count m k)
  case 0
  then show ?case by (simp add: kernel_loop_paused)
next
  case (Suc n)
  then have n: "MAX_SLICES - Suc count = Suc (MAX_SLICES - Suc (Suc count))" "\<not> MAX_SLICES \<le> Suc count"
    by simp_all
  show ?case
  proof (cases "machine_run env m FUEL_SLICE")
    case (Inl m')
    then have "resume env m FUEL_SLICE = Inl (Raise (D_OutOfFuel m'))" by (simp add: resume_machine_run)
    with Suc.hyps(1) [of "Suc count"] Suc.hyps(2) n Inl show ?thesis
      by (simp add: kernel_loop_paused)
  next
    case (Inr r)
    then have "paused (resume env m FUEL_SLICE) = Inr r" by (simp add: machine_run_def)
    from kernel_loop_over [OF this] Inr n show ?thesis
      by (simp add: kernel_loop_paused resume_machine_run)
  qed
qed

lemma kernel_run_full_result:
  "fst (kernel_run_full env v arg k)
     = run_verse env (ver_mode v) (ver_body v) arg empty_state (FUEL_SLICE * MAX_SLICES)"
proof -
  define m where "m = start (ver_mode v) (ver_body v) arg empty_state"
  have wf: "m_wf m" by (simp add: m_def start_wf)
  have run: "run_verse env (ver_mode v) (ver_body v) arg empty_state n = unpaused (machine_run env m n)" for n
    by (simp add: run_verse_def resume_machine_run m_def)
  have "MAX_SLICES = Suc (MAX_SLICES - 1)" by (simp add: MAX_SLICES_def)
  then have all: "machine_run env m (FUEL_SLICE * MAX_SLICES) = slices (machine_run env) FUEL_SLICE (Suc (MAX_SLICES - 1)) m"
    using officium.slices_run [OF wf, of env FUEL_SLICE MAX_SLICES] by (simp add: mult.commute)
  show ?thesis
  proof (cases "machine_run env m FUEL_SLICE")
    case (Inl m')
    then show ?thesis
      using kernel_loop_slices [of env "ver_name v" m' 0 k] by (simp add: kernel_run_full_def run all)
  next
    case (Inr r)
    then have "paused r = Inr r" by (metis machine_run_def paused_out_of_fuel)
    with Inr show ?thesis by (simp add: kernel_run_full_def run all kernel_loop_over)
  qed
qed

text \<open>What the loop says, and how often it yields.\<close>

lemma kernel_loop_said:
  "kp_said (snd (kernel_loop env name r count k)) =
     kp_said k @ (if out_of_fuel (fst (kernel_loop env name r count k))
                  then [S_Numquam name (FUEL_SLICE * MAX_SLICES)] else [])"
proof (induction env name r count k rule: kernel_loop.induct)
  case (1 env name r count k)
  show ?case
  proof (cases "paused r")
    case (Inl m)
    then have "r = Inl (Raise (D_OutOfFuel m))" by (simp add: paused_Inl_iff)
    with "1.IH" [of "Raise (D_OutOfFuel m)" "D_OutOfFuel m" m] show ?thesis
      by (auto simp: kernel_loop_paused kp_say_def kp_yield_def out_of_fuel_def)
  next
    case (Inr r')
    then show ?thesis by (simp add: kernel_loop_over) (simp add: paused_out_of_fuel)
  qed
qed

lemma kernel_loop_yields:
  "kp_yields (snd (kernel_loop env name r count k)) \<le> kp_yields k + (MAX_SLICES - Suc count)"
proof (induction env name r count k rule: kernel_loop.induct)
  case (1 env name r count k)
  show ?case
  proof (cases "paused r")
    case (Inl m)
    then have "r = Inl (Raise (D_OutOfFuel m))" by (simp add: paused_Inl_iff)
    with "1.IH" [of "Raise (D_OutOfFuel m)" "D_OutOfFuel m" m] show ?thesis
      by (auto simp: kernel_loop_paused kp_say_def kp_yield_def)
  next
    case (Inr r')
    then show ?thesis by (simp add: kernel_loop_over)
  qed
qed

text \<open>The host's loop.\<close>

lemma host_loop_over: "paused r = Inr r' \<Longrightarrow> host_loop env s r = Some r"
  by (subst host_loop.simps) (auto simp: paused_def split: sum.splits exn.splits dissonance.splits)

lemma host_loop_paused:
  "host_loop env s (Inl (Raise (D_OutOfFuel m))) = host_loop env s (resume env m s)"
  by (subst host_loop.simps) simp

lemma host_loop_slices:
  "slices (machine_run env) s n m = Inr r \<Longrightarrow> host_loop env s (Inl (Raise (D_OutOfFuel m))) = Some r"
proof (induction n arbitrary: m)
  case (Suc n)
  show ?case
  proof (cases "machine_run env m s")
    case (Inl m')
    with Suc show ?thesis by (simp add: host_loop_paused resume_machine_run)
  next
    case (Inr r')
    then have "paused r' = Inr r'" by (metis machine_run_def paused_out_of_fuel)
    with Inr Suc.prems show ?thesis by (simp add: host_loop_paused resume_machine_run host_loop_over)
  qed
qed simp

lemma host_loop_returns:
  assumes "host_loop env s r = Some r'"
  shows "case paused r of Inr _ \<Rightarrow> r' = r | Inl m \<Rightarrow> \<exists>n. slices (machine_run env) s n m = Inr r'"
proof (rule host_loop.raw_induct [OF _ assms])
  fix loop and env :: env and s r r'
  assume IH1: "\<And>env s r r'. loop env s r = Some r' \<Longrightarrow>
      case paused r of Inr _ \<Rightarrow> r' = r | Inl m \<Rightarrow> \<exists>n. slices (machine_run env) s n m = Inr r'"
    and step: "(case r of
        Inl e \<Rightarrow> (case e of
            Raise d \<Rightarrow> (case d of
                D_OutOfFuel m \<Rightarrow> loop env s (resume env m s)
              | _ \<Rightarrow> Some r)
          | Panicked \<Rightarrow> Some r)
      | Inr out \<Rightarrow> Some r) = Some r'"
  show "case paused r of Inr _ \<Rightarrow> r' = r | Inl m \<Rightarrow> \<exists>n. slices (machine_run env) s n m = Inr r'"
  proof (cases "paused r")
    case (Inl m)
    then have r: "r = Inl (Raise (D_OutOfFuel m))" by (simp add: paused_Inl_iff)
    with step have IH: "case machine_run env m s of Inr _ \<Rightarrow> r' = resume env m s
        | Inl m' \<Rightarrow> \<exists>n. slices (machine_run env) s n m' = Inr r'"
      using IH1 [of env s "resume env m s" r'] r by (simp add: machine_run_def)
    have "\<exists>n. slices (machine_run env) s n m = Inr r'"
    proof (cases "machine_run env m s")
      case (Inl m')
      with IH obtain n where "slices (machine_run env) s n m' = Inr r'" by auto
      with Inl have "slices (machine_run env) s (Suc n) m = Inr r'" by simp
      then show ?thesis by blast
    next
      case (Inr r'')
      with IH have "slices (machine_run env) s (Suc 0) m = Inr r'" by (simp add: resume_machine_run)
      then show ?thesis by blast
    qed
    with Inl show ?thesis by simp
  next
    case (Inr r'')
    with step show ?thesis
      by (auto simp: paused_def split: sum.splits exn.splits dissonance.splits)
  qed
qed

lemma host_run_full_iff:
  assumes "0 < s"
  shows "host_run_full env v arg s = Some r \<longleftrightarrow> computes env (ver_mode v) (ver_body v) arg empty_state r"
proof -
  define m where "m = start (ver_mode v) (ver_body v) arg empty_state"
  have wf: "m_wf m" by (simp add: m_def start_wf)
  have run: "run_verse env (ver_mode v) (ver_body v) arg empty_state n = unpaused (machine_run env m n)" for n
    by (simp add: run_verse_def resume_machine_run m_def)
  have computes: "computes env (ver_mode v) (ver_body v) arg empty_state r \<longleftrightarrow> (\<exists>n. machine_run env m n = Inr r)"
    by (simp add: computes_def run_verse_machine m_def)
  show ?thesis
  proof
    assume "host_run_full env v arg s = Some r"
    from host_loop_returns [OF this [unfolded host_run_full_def]]
    have "\<exists>n. slices (machine_run env) s n m = Inr r"
    proof (cases "machine_run env m s")
      case (Inl m')
      then show ?thesis
        using host_loop_returns [OF \<open>host_run_full env v arg s = Some r\<close> [unfolded host_run_full_def run]]
        by (auto simp: paused_def intro: exI [of _ "Suc n" for n])
    next
      case (Inr r')
      then have "paused r' = Inr r'" by (metis machine_run_def paused_out_of_fuel)
      with Inr show ?thesis
        using host_loop_returns [OF \<open>host_run_full env v arg s = Some r\<close> [unfolded host_run_full_def run]]
        by (auto intro: exI [of _ "Suc 0"])
    qed
    then show "computes env (ver_mode v) (ver_body v) arg empty_state r"
      unfolding computes using officium.slices_run [OF wf] by metis
  next
    assume "computes env (ver_mode v) (ver_body v) arg empty_state r"
    then obtain n where n: "machine_run env m n = Inr r" by (auto simp: computes)
    have "n \<le> n * s" using assms by simp
    from officium.run_mono [OF wf n this] have sl: "slices (machine_run env) s n m = Inr r"
      by (simp add: officium.slices_run [OF wf])
    then have "n \<noteq> 0" by (intro notI) simp
    then obtain n' where n': "n = Suc n'" by (cases n) auto
    show "host_run_full env v arg s = Some r"
    proof (cases "machine_run env m s")
      case (Inl m')
      with sl n' have "slices (machine_run env) s n' m' = Inr r" by simp
      from host_loop_slices [OF this] Inl show ?thesis by (simp add: host_run_full_def run)
    next
      case (Inr r')
      then have "paused r' = Inr r'" by (metis machine_run_def paused_out_of_fuel)
      from host_loop_over [OF this] Inr sl n' show ?thesis by (simp add: host_run_full_def run)
    qed
  qed
qed

section \<open>What a run of the office sends to the sink\<close>

lemma run_verse_not_panicked: "run_verse env mode body arg st fuel \<noteq> Inl Panicked"
  using resume_ok [OF start_wf [of mode body arg st], of env fuel]
  by (auto simp: run_verse_def run_ok_def)

lemma computes_outcome_ok:
  assumes "computes env mode body arg st (Inr out)"
  shows "outcome_ok mode out"
proof -
  obtain fuel where "run_verse env mode body arg st fuel = Inr out" using assms by (auto simp: computes_def)
  then show ?thesis
    using resume_ok [OF start_wf [of mode body arg st], of env fuel]
    by (simp add: run_verse_def run_ok_def start_def)
qed

definition is_numquam :: "said \<Rightarrow> bool" where
  "is_numquam s = (case s of S_Numquam _ _ \<Rightarrow> True | _ \<Rightarrow> False)"

definition abandoned :: "kernel_platform \<Rightarrow> nat" where
  "abandoned k = length (filter is_numquam (kp_said k))"

definition commands :: "plan \<Rightarrow> (body_id \<times> f64 \<times> micros) list" where
  "commands plan = map (\<lambda>c. (cmd_target c, vec_x (cmd_dv c), cmd_at c)) plan"

lemma is_numquam_simps [simp]:
  "is_numquam (S_Numquam n i)" "\<not> is_numquam (S_Gravitas t d a)" "\<not> is_numquam (S_Corpus l)"
  "\<not> is_numquam (S_Cadenced n v)" "\<not> is_numquam S_Nihil" "\<not> is_numquam (S_Pure j)"
  "\<not> is_numquam S_NoCommit" "\<not> is_numquam S_NoCorrectio" "\<not> is_numquam (S_Loud e)"
  by (simp_all add: is_numquam_def)

lemma kp_say_effects [simp]:
  "abandoned (kp_say s k) = abandoned k + (if is_numquam s then 1 else 0)"
  "kernel_received (kp_say s k) = kernel_received k @ said_gravitas s"
  "kp_yields (kp_say s k) = kp_yields k"
  by (simp_all add: abandoned_def kernel_received_def kp_say_def)

lemma hp_say_received [simp]: "host_received (hp_say s p) = host_received p"
  by (simp add: host_received_def hp_say_def)

lemma kernel_gravity_sink_simps:
  "kernel_gravity_sink plan k = (Inr (), snd (kernel_gravity_sink plan k :: ('e, unit) result \<times> kernel_platform))"
  by (simp add: kernel_gravity_sink_def)

lemma abandoned_sink [simp]:
  "abandoned (fold (\<lambda>c. gravity_sink_line (cmd_target c) (vec_x (cmd_dv c)) (cmd_at c)) plan k) = abandoned k"
  by (induction plan arbitrary: k) (simp_all add: gravity_sink_line_def)

lemma received_sink [simp]:
  "kernel_received (fold (\<lambda>c. gravity_sink_line (cmd_target c) (vec_x (cmd_dv c)) (cmd_at c)) plan k)
     = kernel_received k @ commands plan"
  by (simp add: kernel_received_def kernel_sink_said concat_map_gravitas comp_def commands_def)

text \<open>One verse: it sends nothing; either the host returns the same, or the kernel gave up.\<close>

lemma kernel_run_full_cases:
  assumes "kernel_run_full env v arg k = (r, k')"
  shows "kernel_received k' = kernel_received k"
    and "r \<noteq> Inl Panicked"
    and "(abandoned k' = abandoned k \<and> (\<forall>s > 0. host_run_full env v arg s = Some r)
          \<and> computes env (ver_mode v) (ver_body v) arg empty_state r)
         \<or> (abandoned k' = Suc (abandoned k) \<and> out_of_fuel r)"
proof -
  have r: "r = run_verse env (ver_mode v) (ver_body v) arg empty_state (FUEL_SLICE * MAX_SLICES)"
    using kernel_run_full_result [of env v arg k] assms by simp
  have said: "kp_said k' = kp_said k @ (if out_of_fuel r then [S_Numquam (ver_name v) (FUEL_SLICE * MAX_SLICES)] else [])"
    using kernel_loop_said [of env "ver_name v" _ 0 k] assms by (metis kernel_run_full_def fst_conv snd_conv)
  show "kernel_received k' = kernel_received k" by (simp add: kernel_received_def said)
  show "r \<noteq> Inl Panicked" by (simp add: r run_verse_not_panicked)
  show "(abandoned k' = abandoned k \<and> (\<forall>s > 0. host_run_full env v arg s = Some r)
          \<and> computes env (ver_mode v) (ver_body v) arg empty_state r)
         \<or> (abandoned k' = Suc (abandoned k) \<and> out_of_fuel r)"
  proof (cases "out_of_fuel r")
    case False
    then have "computes env (ver_mode v) (ver_body v) arg empty_state r"
      using r by (auto simp: computes_def)
    with False said show ?thesis by (simp add: abandoned_def host_run_full_iff)
  qed (simp add: abandoned_def said)
qed

text \<open>\<open>office\<close>: the kernel's part does not panic and its sink receives the commands of a plan; where it abandoned no verse,
  the host's part ends too and its sink receives the same.\<close>

definition executes :: "program \<Rightarrow> plan \<Rightarrow> bool" where
  "executes prog plan \<longleftrightarrow> plan = [] \<or>
     (\<exists>v. prog_verse prog ''executio'' = Some v \<and> ver_mode v = Mixolydian)"

definition office ::
  "program \<Rightarrow> kernel_platform \<Rightarrow> kernel_platform mres \<Rightarrow> (host_platform \<Rightarrow> host_platform mres option) \<Rightarrow> bool" where
  "office prog k r host \<longleftrightarrow> (\<exists>k' plan. r = Inr k' \<and> executes prog plan
     \<and> kernel_received k' = kernel_received k @ commands plan
     \<and> abandoned k \<le> abandoned k'
     \<and> (abandoned k' = abandoned k \<longrightarrow>
          (\<forall>p. \<exists>p'. host p = Some (Inr p') \<and> host_received p' = host_received p @ commands plan)))"

lemma officeI:
  assumes "r = Inr k'" "executes prog plan" "kernel_received k' = kernel_received k @ commands plan"
    and "abandoned k \<le> abandoned k'"
    and "\<And>p. abandoned k' = abandoned k \<Longrightarrow>
      \<exists>p'. host p = Some (Inr p') \<and> host_received p' = host_received p @ commands plan"
  shows "office prog k r host"
  using assms unfolding office_def by blast

lemma commands_Nil [simp]: "commands [] = []" and executes_Nil [simp]: "executes prog []"
  by (simp_all add: commands_def executes_def)

lemma office_executio:
  assumes "0 < fuel"
  shows "office prog k (kernel_executio env prog planned k) (host_executio env prog fuel planned)"
proof (cases "prog_verse prog ''executio''")
  case None
  then show ?thesis
    by (intro officeI [where plan = "[]" and k' = k]) (simp_all add: kernel_executio_def host_executio_def)
next
  case (Some v)
  obtain r k1 where run: "kernel_run_full env v (VPlan planned) k = (r, k1)" by (metis surj_pair)
  note run_cases = kernel_run_full_cases [OF run]
  show ?thesis
  proof (cases r)
    case (Inl e)
    with run_cases obtain d where e: "e = Raise d" by (cases e) auto
    show ?thesis
      using run_cases(1,3) assms
      by (intro officeI [where plan = "[]" and k' = "kp_say (S_Loud d) k1"])
        (auto simp: kernel_executio_def host_executio_def kernel_loud_def host_loud_def Some run Inl e)
  next
    case (Inr out)
    have host: "host_run_full env v (VPlan planned) fuel = Some (Inr out)" "abandoned k1 = abandoned k"
      using run_cases(3) Inr assms by (auto simp: out_of_fuel_def)
    show ?thesis
    proof (cases "out_committed out")
      case None
      with run_cases(1) host Inr show ?thesis
        by (intro officeI [where plan = "[]" and k' = k1])
          (auto simp: kernel_executio_def host_executio_def Some run)
    next
      case (Some plan)
      have "computes env (ver_mode v) (ver_body v) (VPlan planned) empty_state (Inr out)"
        using run_cases(3) Inr by (auto simp: out_of_fuel_def)
      from computes_outcome_ok [OF this] have "outcome_ok (ver_mode v) out" .
      then have "ver_mode v = Mixolydian"
        using Some by (cases "ver_mode v") (auto simp: outcome_ok_def)
      with \<open>prog_verse prog ''executio'' = Some v\<close> have "executes prog plan" by (simp add: executes_def)
      with run_cases(1) host Inr Some \<open>prog_verse prog ''executio'' = Some v\<close> show ?thesis
        using host_sink.sink_received [of plan]
        by (intro officeI [where plan = plan and k' = "snd (kernel_gravity_sink plan k1 :: (diss exn + unit) \<times> kernel_platform)"])
          (auto simp: kernel_executio_def host_executio_def run kernel_gravity_sink_def
            host_gravity_sink_def commands_def)
    qed
  qed
qed

lemma office_after:
  assumes "office prog k1 r host" "kernel_received k1 = kernel_received k" "abandoned k1 = abandoned k"
  shows "office prog k r host"
  using assms by (simp add: office_def)

lemma office_hp_say:
  assumes "office prog k r host"
  shows "office prog k r (\<lambda>p. host (hp_say s p))"
  using assms unfolding office_def by (metis hp_say_received)

lemma office_loud:
  assumes "kernel_received k1 = kernel_received k" "abandoned k \<le> abandoned k1"
    and "abandoned k1 = abandoned k \<Longrightarrow> host = (\<lambda>p. Some (Inr (hp_say s' p)))" and "\<not> is_numquam s" "said_gravitas s = []"
  shows "office prog k (Inr (kp_say s k1)) host"
  using assms by (intro officeI [where plan = "[]" and k' = "kp_say s k1"]) auto

lemma office_consilium:
  assumes "0 < fuel"
  shows "office prog k (kernel_consilium env prog field k) (host_consilium env prog fuel field)"
proof (cases "prog_verse prog ''consilium''")
  case None
  then show ?thesis
    by (intro officeI [where plan = "[]" and k' = k]) (simp_all add: kernel_consilium_def host_consilium_def)
next
  case (Some v)
  obtain r k1 where run: "kernel_run_full env v field k = (r, k1)" by (metis surj_pair)
  note run_cases = kernel_run_full_cases [OF run]
  show ?thesis
  proof (cases r)
    case (Inl e)
    with run_cases obtain d where e: "e = Raise d" by (cases e) auto
    show ?thesis
      using run_cases(1,3) assms
      by (auto simp: kernel_consilium_def host_consilium_def kernel_loud_def host_loud_def Some run Inl e
          intro!: office_loud)
  next
    case (Inr out)
    have host: "host_run_full env v field fuel = Some (Inr out)" "abandoned k1 = abandoned k"
      using run_cases(3) Inr assms by (auto simp: out_of_fuel_def)
    have "office prog k (kernel_executio env prog (out_plan out) (kp_say (S_Pure (length (out_plan out))) k1))
        (\<lambda>p. host_executio env prog fuel (out_plan out) (hp_say (S_Pure (length (out_plan out))) p))"
      by (rule office_after [OF office_hp_say [OF office_executio [OF assms]]])
        (simp_all add: run_cases(1) host(2))
    moreover have "host_consilium env prog fuel field =
        (\<lambda>p. host_executio env prog fuel (out_plan out) (hp_say (S_Pure (length (out_plan out))) p))"
      using host by (simp add: fun_eq_iff host_consilium_def Some Inr)
    ultimately show ?thesis
      by (simp add: kernel_consilium_def Some run Inr)
  qed
qed

lemma office_body:
  assumes "0 < fuel" "prog_verse prog ''correctio'' \<noteq> None"
  shows "office prog k (kernel_celebrate_body env prog body k)
    (\<lambda>p. host_celebrate_body env prog fuel label body p)"
proof -
  obtain v where v: "prog_verse prog ''correctio'' = Some v" using assms(2) by blast
  obtain r k1 where run: "kernel_run_full env v body k = (r, k1)" by (metis surj_pair)
  note run_cases = kernel_run_full_cases [OF run]
  show ?thesis
  proof (cases r)
    case (Inl e)
    with run_cases obtain d where e: "e = Raise d" by (cases e) auto
    show ?thesis
    proof (cases "d = D_Silent")
      case True
      show ?thesis
        using run_cases(1,3) assms
        by (auto simp: kernel_celebrate_body_def host_celebrate_body_def v run Inl e True out_of_fuel_def
            fun_eq_iff intro!: officeI [where plan = "[]" and k' = "kp_say S_Nihil k1"])
    next
      case False
      then have k: "kernel_celebrate_body env prog body k = Inr (kp_say (S_Loud d) k1)"
        by (cases d) (auto simp: kernel_celebrate_body_def v run Inl e kernel_loud_def)
      have h: "host_celebrate_body env prog fuel label body p = Some (Inr (hp_say (S_Loud d) (hp_say (S_Corpus label) p)))"
        if "host_run_full env v body fuel = Some (Inl (Raise d))" for p
        using False by (cases d) (auto simp: host_celebrate_body_def v that host_loud_def)
      show ?thesis
        unfolding k using run_cases(1,3) assms h Inl e
        by (intro officeI [where plan = "[]" and k' = "kp_say (S_Loud d) k1"]) auto
    qed
  next
    case (Inr out)
    have host: "host_run_full env v body fuel = Some (Inr out)" "abandoned k1 = abandoned k"
      using run_cases(3) Inr assms by (auto simp: out_of_fuel_def)
    show ?thesis
    proof (cases "\<exists>f. out_value out = Some (VField f)")
      case True
      then obtain f where f: "out_value out = Some (VField f)" by blast
      have "office prog k (kernel_consilium env prog (VField f) k1)
          (\<lambda>p. host_consilium env prog fuel (VField f) (hp_say (S_Corpus label) p))"
        by (rule office_after [OF office_hp_say [OF office_consilium [OF assms(1)]]])
          (simp_all add: run_cases(1) host(2))
      then show ?thesis
        using host by (simp add: kernel_celebrate_body_def host_celebrate_body_def v run Inr f)
    next
      case False
      then have k: "kernel_celebrate_body env prog body k = Inr (kp_say (S_Cadenced ''correctio'' (out_value out)) k1)"
        and h: "host_celebrate_body env prog fuel label body p =
          Some (Inr (hp_say (S_Cadenced ''correctio'' (out_value out)) (hp_say (S_Corpus label) p)))" for p
        using host by (auto simp: kernel_celebrate_body_def host_celebrate_body_def Let_def v run Inr
            split: option.split val.split)
      show ?thesis
        unfolding k using run_cases(1) host(2) h
        by (intro officeI [where plan = "[]" and k' = "kp_say (S_Cadenced ''correctio'' (out_value out)) k1"]) auto
    qed
  qed
qed

section \<open>Properties\<close>

lemma kernel_run_is_same_run:
  "fst (kernel_run_full env v arg k)
     = run_verse env (ver_mode v) (ver_body v) arg empty_state 10000000"
  using kernel_run_full_result [of env v arg k] by (simp add: FUEL_SLICE_def MAX_SLICES_def)

text \<open>C19: the kernel's slices are invisible: its \<open>run_full\<close> returns what one uninterrupted run on
  ten million steps returns, the abandoned machine of a verse that is not over included.\<close>

theorem kernel_run_is_one_run:
  "fst (kernel_run_full env v arg k)
     = run_verse env (ver_mode v) (ver_body v) arg empty_state 10000000"
  by (rule kernel_run_is_same_run)

text \<open>The kernel always comes back: a verse is interrupted at most 499 times, and the only
  line printed on the way is the one that says a verse was abandoned.\<close>

theorem kernel_run_comes_back:
  "kp_yields (snd (kernel_run_full env v arg k)) \<le> kp_yields k + 499
   \<and> kp_said (snd (kernel_run_full env v arg k)) = kp_said k @
       (if out_of_fuel (fst (kernel_run_full env v arg k)) then [S_Numquam (ver_name v) 10000000] else [])"
  using kernel_loop_yields [of env "ver_name v" _ 0 k] kernel_loop_said [of env "ver_name v" _ 0 k]
  by (simp add: kernel_run_full_def FUEL_SLICE_def MAX_SLICES_def)

text \<open>The host's loop returns \<open>r\<close> exactly when the verse, on some fuel, does: it does not
  return on a verse that never ends, and the slice size changes nothing.\<close>

theorem host_runs_to_the_end:
  assumes "0 < fuel_slice"
  shows "host_run_full env v arg fuel_slice = Some r \<longleftrightarrow>
    (\<exists>fuel. run_verse env (ver_mode v) (ver_body v) arg empty_state fuel = r \<and> \<not> out_of_fuel r)"
  using host_run_full_iff [OF assms] by (simp add: computes_def)

text \<open>On a slice of no steps (\<open>--fuel 0\<close>) the host never returns, whatever the verse.\<close>

theorem host_fuel_zero_hangs: "host_run_full env v arg 0 = None"
proof (rule ccontr)
  assume "host_run_full env v arg 0 \<noteq> None"
  then obtain r where "host_loop env 0 (run_verse env (ver_mode v) (ver_body v) arg empty_state 0) = Some r"
    by (auto simp: host_run_full_def)
  from host_loop_returns [OF this] obtain n where
    "slices (machine_run env) 0 n (start (ver_mode v) (ver_body v) arg empty_state) = Inr r"
    by (auto simp: run_verse_def)
  moreover have "slices (machine_run env) 0 n m = Inl m" for m
    by (induction n) (simp_all add: machine_run_0)
  ultimately show False by simp
qed

text \<open>
  What a celebration should send, said without the driver: \<open>verse_ends\<close> is a verse run on its own, on the
  kernel's ten million steps; a body \<open>commits\<close> a plan when correctio makes a field of it, consilium is run
  on that field, and executio, run on the plan consilium proposed, commits the plan.
\<close>

definition verse_ends :: "env \<Rightarrow> program \<Rightarrow> string \<Rightarrow> val \<Rightarrow> outcome \<Rightarrow> bool" where
  "verse_ends env prog name arg out \<longleftrightarrow> (\<exists>v. prog_verse prog name = Some v
     \<and> run_verse env (ver_mode v) (ver_body v) arg empty_state 10000000 = Inr out)"

definition executio_commits :: "env \<Rightarrow> program \<Rightarrow> plan \<Rightarrow> plan \<Rightarrow> bool" where
  "executio_commits env prog planned plan \<longleftrightarrow>
     (\<exists>exe. verse_ends env prog ''executio'' (VPlan planned) exe \<and> out_committed exe = Some plan)"

definition consilium_commits :: "env \<Rightarrow> program \<Rightarrow> val \<Rightarrow> plan \<Rightarrow> bool" where
  "consilium_commits env prog field plan \<longleftrightarrow>
     (\<exists>con. verse_ends env prog ''consilium'' field con \<and> executio_commits env prog (out_plan con) plan)"

definition commits :: "env \<Rightarrow> program \<Rightarrow> val \<Rightarrow> plan \<Rightarrow> bool" where
  "commits env prog body plan \<longleftrightarrow>
     (\<exists>cor f. verse_ends env prog ''correctio'' body cor \<and> out_value cor = Some (VField f)
        \<and> consilium_commits env prog (VField f) plan)"

text \<open>\<open>sends\<close>: the sink receives the plan if there is one to commit, and nothing if there is none.\<close>

definition sends :: "(plan \<Rightarrow> bool) \<Rightarrow> kernel_platform \<Rightarrow> kernel_platform \<Rightarrow> bool" where
  "sends committed k k' \<longleftrightarrow>
     (\<exists>plan. committed plan \<and> kernel_received k' = kernel_received k @ commands plan)
     \<or> (\<forall>plan. \<not> committed plan) \<and> kernel_received k' = kernel_received k"

lemma kernel_verse:
  assumes "prog_verse prog name = Some v" "kernel_run_full env v arg k = (r, k1)"
  shows "kernel_received k1 = kernel_received k" "r \<noteq> Inl Panicked"
    and "verse_ends env prog name arg out \<longleftrightarrow> r = Inr out"
  using kernel_run_full_cases [OF assms(2)] kernel_run_is_same_run [of env v arg k] assms
  by (simp_all add: verse_ends_def)

lemma no_verse: "prog_verse prog name = None \<Longrightarrow> \<not> verse_ends env prog name arg out"
  by (simp add: verse_ends_def)

lemma executio_sends:
  "\<exists>k'. kernel_executio env prog planned k = Inr k' \<and> sends (executio_commits env prog planned) k k'"
proof (cases "prog_verse prog ''executio''")
  case None
  then show ?thesis by (simp add: kernel_executio_def sends_def executio_commits_def no_verse)
next
  case (Some v)
  obtain r k1 where run: "kernel_run_full env v (VPlan planned) k = (r, k1)" by (metis surj_pair)
  note ends = kernel_verse [OF Some run]
  show ?thesis
  proof (cases r)
    case (Inl e)
    with ends(2) obtain d where "e = Raise d" by (cases e) auto
    with ends(1,3) Inl Some run show ?thesis
      by (simp add: kernel_executio_def sends_def executio_commits_def kernel_loud_def)
  next
    case (Inr out)
    with ends(1,3) Some run show ?thesis
      by (cases "out_committed out")
        (simp_all add: kernel_executio_def sends_def executio_commits_def kernel_gravity_sink_def)
  qed
qed

lemma consilium_sends:
  "\<exists>k'. kernel_consilium env prog field k = Inr k' \<and> sends (consilium_commits env prog field) k k'"
proof (cases "prog_verse prog ''consilium''")
  case None
  then show ?thesis by (simp add: kernel_consilium_def sends_def consilium_commits_def no_verse)
next
  case (Some v)
  obtain r k1 where run: "kernel_run_full env v field k = (r, k1)" by (metis surj_pair)
  note ends = kernel_verse [OF Some run]
  show ?thesis
  proof (cases r)
    case (Inl e)
    with ends(2) obtain d where "e = Raise d" by (cases e) auto
    with ends(1,3) Inl Some run show ?thesis
      by (simp add: kernel_consilium_def sends_def consilium_commits_def kernel_loud_def)
  next
    case (Inr out)
    have "consilium_commits env prog field = executio_commits env prog (out_plan out)"
      using ends(3) Inr by (auto simp: consilium_commits_def)
    moreover have "sends committed (kp_say (S_Pure n) k1) k' = sends committed k k'" for committed n k'
      using ends(1) by (simp add: sends_def)
    ultimately show ?thesis
      using executio_sends [of env prog "out_plan out" "kp_say (S_Pure (length (out_plan out))) k1"] Some run Inr
      by (simp add: kernel_consilium_def)
  qed
qed

lemma committed_mixolydian:
  assumes "commits env prog body plan"
  shows "\<exists>v. prog_verse prog ''executio'' = Some v \<and> ver_mode v = Mixolydian"
proof -
  obtain v arg out where v: "prog_verse prog ''executio'' = Some v" "out_committed out = Some plan"
    and run: "run_verse env (ver_mode v) (ver_body v) arg empty_state 10000000 = Inr out"
    using assms by (auto simp: commits_def consilium_commits_def executio_commits_def verse_ends_def)
  have "computes env (ver_mode v) (ver_body v) arg empty_state (Inr out)"
    using run by (auto simp: computes_def out_of_fuel_def)
  from computes_outcome_ok [OF this] have "outcome_ok (ver_mode v) out" .
  then show ?thesis using v by (cases "ver_mode v") (auto simp: outcome_ok_def)
qed

text \<open>C18: celebrating a body in the kernel ends (it does not panic), and the gravity sink gets exactly the
  commands of the plan that is committed: if correctio makes a field of the body, consilium runs on it, and
  executio, run on the plan consilium proposed, commits a plan, then that plan, once, and the verse is
  Mixolydian; if any of this fails, nothing.\<close>

theorem sink_gets_committed_plan:
  assumes "prog_verse prog ''correctio'' \<noteq> None"
  shows "\<exists>k'. kernel_celebrate_body env prog body k = Inr k'
    \<and> ((\<exists>plan v. commits env prog body plan \<and> prog_verse prog ''executio'' = Some v \<and> ver_mode v = Mixolydian
          \<and> kernel_received k' = kernel_received k @ commands plan)
       \<or> (\<nexists>plan. commits env prog body plan) \<and> kernel_received k' = kernel_received k)"
proof -
  obtain v where v: "prog_verse prog ''correctio'' = Some v" using assms by blast
  obtain r k1 where run: "kernel_run_full env v body k = (r, k1)" by (metis surj_pair)
  note ends = kernel_verse [OF v run]
  have "\<exists>k'. kernel_celebrate_body env prog body k = Inr k' \<and> sends (commits env prog body) k k'"
  proof (cases r)
    case (Inl e)
    with ends(2) obtain d where "e = Raise d" by (cases e) auto
    with ends(1,3) Inl v run show ?thesis
      by (cases d) (simp_all add: kernel_celebrate_body_def sends_def commits_def kernel_loud_def)
  next
    case (Inr out)
    show ?thesis
    proof (cases "\<exists>f. out_value out = Some (VField f)")
      case True
      then obtain f where f: "out_value out = Some (VField f)" by blast
      have "commits env prog body = consilium_commits env prog (VField f)"
        using ends(3) Inr f by (auto simp: commits_def)
      moreover have "sends committed k1 k' = sends committed k k'" for committed k'
        using ends(1) by (simp add: sends_def)
      ultimately show ?thesis
        using consilium_sends [of env prog "VField f" k1] v run Inr f
        by (simp add: kernel_celebrate_body_def)
    next
      case False
      with ends(1,3) Inr v run show ?thesis
        by (auto simp: kernel_celebrate_body_def sends_def commits_def split: option.split val.split)
    qed
  qed
  then show ?thesis unfolding sends_def using committed_mixolydian [of env prog body] by blast
qed

text \<open>The host mirrors the kernel: a body that the kernel celebrates without abandoning a verse,
  the host celebrates too, on any fuel slice, and the same commands reach both sinks.\<close>

theorem host_mirrors_kernel:
  assumes "0 < fuel" and "prog_verse prog ''correctio'' \<noteq> None"
    and "kernel_celebrate_body env prog body k = Inr k'" and "abandoned k' = abandoned k"
  shows "\<exists>p' new. host_celebrate_body env prog fuel label body p = Some (Inr p')
    \<and> kernel_received k' = kernel_received k @ new \<and> host_received p' = host_received p @ new"
  using office_body [OF assms(1,2), of k env body label] assms(3,4)
  unfolding office_def by (metis sum.inject(2))

section \<open>Witnesses\<close>

lemma kernel_run_done:
  assumes "run_verse env (ver_mode v) (ver_body v) arg empty_state n = r" "\<not> out_of_fuel r" "n \<le> FUEL_SLICE"
  shows "kernel_run_full env v arg k = (r, k)"
proof -
  have "machine_run env (start (ver_mode v) (ver_body v) arg empty_state) n = Inr r"
    using assms(1,2) run_verse_machine by blast
  from officium.run_mono [OF start_wf this assms(3)]
  have "run_verse env (ver_mode v) (ver_body v) arg empty_state FUEL_SLICE = r"
    using run_verse_machine by blast
  moreover have "paused r = Inr r" using assms(2) by (simp add: paused_out_of_fuel)
  ultimately show ?thesis by (simp add: kernel_run_full_def kernel_loop_over)
qed

text \<open>A score of the three verses: a constant field, a plan of one command, its commit.\<close>

definition small_verses :: "versus list" where
  "small_verses =
     [\<lparr>ver_name = ''correctio'', ver_mode = Dorian,
       ver_body = ELit (VField \<lparr>fld_target = 1, fld_dv = along_x f64_zero, fld_at = 0\<rparr>), ver_rhymes = []\<rparr>,
      \<lparr>ver_name = ''consilium'', ver_mode = Hypomixolydian,
       ver_body = EMitte (ELit (VCmd (hd one_plan))), ver_rhymes = []\<rparr>,
      \<lparr>ver_name = ''executio'', ver_mode = Mixolydian,
       ver_body = EPerage EArg, ver_rhymes = []\<rparr>]"

definition small_score :: program where
  "small_score = \<lparr>prog_fugues = [], prog_verses = small_verses\<rparr>"

definition idle_kernel :: kernel_platform where
  "idle_kernel = \<lparr>kp_said = [], kp_yields = 0\<rparr>"

lemma small_runs:
  "run_verse env_default Dorian (ver_body (small_verses ! 0)) VUnit empty_state 9 =
     Inr \<lparr>out_value = Some (VField \<lparr>fld_target = 1, fld_dv = along_x f64_zero, fld_at = 0\<rparr>),
       out_state = VUnit, out_plan = [], out_committed = None\<rparr>"
  "run_verse env_default Hypomixolydian (ver_body (small_verses ! 1))
       (VField \<lparr>fld_target = 1, fld_dv = along_x f64_zero, fld_at = 0\<rparr>) empty_state 9 =
     Inr \<lparr>out_value = Some VUnit, out_state = VUnit, out_plan = one_plan, out_committed = None\<rparr>"
  "run_verse env_default Mixolydian (ver_body (small_verses ! 2)) (VPlan one_plan) empty_state 9 =
     Inr \<lparr>out_value = Some VUnit, out_state = VUnit, out_plan = [], out_committed = Some one_plan\<rparr>"
  by code_simp+

lemma small_score_verse:
  "prog_verse small_score ''correctio'' = Some (small_verses ! 0)"
  "prog_verse small_score ''consilium'' = Some (small_verses ! 1)"
  "prog_verse small_score ''executio'' = Some (small_verses ! 2)"
  by (simp_all add: prog_verse_def small_score_def small_verses_def)

lemma small_modes:
  "ver_mode (small_verses ! 0) = Dorian" "ver_mode (small_verses ! 1) = Hypomixolydian"
  "ver_mode (small_verses ! 2) = Mixolydian"
  by (simp_all add: small_verses_def)

lemma small_office:
  "\<exists>k'. kernel_celebrate_body env_default small_score VUnit idle_kernel = Inr k' \<and>
     abandoned k' = 0 \<and> kernel_received k' = [(1, f64_zero, 0)]"
proof -
  have nine: "9 \<le> FUEL_SLICE" by (simp add: FUEL_SLICE_def)
  note fin = kernel_run_done [where n = 9, OF _ _ nine]
  have 1: "kernel_run_full env_default (small_verses ! 0) VUnit k = (Inr \<lparr>out_value = Some (VField \<lparr>fld_target = 1, fld_dv = along_x f64_zero, fld_at = 0\<rparr>),
       out_state = VUnit, out_plan = [], out_committed = None\<rparr>, k)" for k
    by (rule fin) (simp_all only: small_modes small_runs, simp add: out_of_fuel_def)
  have 2: "kernel_run_full env_default (small_verses ! 1) (VField \<lparr>fld_target = 1, fld_dv = along_x f64_zero, fld_at = 0\<rparr>) k
      = (Inr \<lparr>out_value = Some VUnit, out_state = VUnit, out_plan = one_plan, out_committed = None\<rparr>, k)" for k
    by (rule fin) (simp_all only: small_modes small_runs, simp add: out_of_fuel_def)
  have 3: "kernel_run_full env_default (small_verses ! 2) (VPlan one_plan) k
      = (Inr \<lparr>out_value = Some VUnit, out_state = VUnit, out_plan = [], out_committed = Some one_plan\<rparr>, k)" for k
    by (rule fin) (simp_all only: small_modes small_runs, simp add: out_of_fuel_def)
  show ?thesis
    by (simp add: kernel_celebrate_body_def kernel_consilium_def kernel_executio_def small_score_verse 1 2 [unfolded One_nat_def] 3
        kernel_gravity_sink_def commands_def)
      (simp add: one_plan_def idle_kernel_def abandoned_def kernel_received_def along_x_def)
qed

lemma small_end:
  assumes "verse_ends env_default small_score name arg out" "prog_verse small_score name = Some v"
    and "run_verse env_default (ver_mode v) (ver_body v) arg empty_state 9 = Inr out'"
  shows "out = out'"
proof -
  have "\<not> out_of_fuel (Inr out' :: outcome mres)" by (simp add: out_of_fuel_def)
  from kernel_run_done [OF assms(3) this, of idle_kernel]
  have "kernel_run_full env_default v arg idle_kernel = (Inr out', idle_kernel)" by (simp add: FUEL_SLICE_def)
  from kernel_verse(3) [OF assms(2) this] assms(1) show ?thesis by simp
qed

lemma small_commits:
  assumes "commits env_default small_score VUnit plan"
  shows "plan = one_plan"
proof -
  note run = small_runs [folded small_modes]
  note ends = small_end [OF _ small_score_verse(1) run(1)] small_end [OF _ small_score_verse(2) run(2)]
    small_end [OF _ small_score_verse(3) run(3)]
  show ?thesis
    using assms unfolding commits_def consilium_commits_def executio_commits_def
    by (auto dest!: ends)
qed

theorem host_runs_to_the_end_witness:
  "host_run_full env_default (small_verses ! 2) (VPlan one_plan) 5 = Some (Inr unit_cadence) \<longleftrightarrow>
    (\<exists>fuel. run_verse env_default (ver_mode (small_verses ! 2)) (ver_body (small_verses ! 2)) (VPlan one_plan)
       empty_state fuel = Inr unit_cadence \<and> \<not> out_of_fuel (Inr unit_cadence))"
  by (rule host_runs_to_the_end) simp

theorem sink_gets_committed_plan_witness:
  "commits env_default small_score VUnit one_plan
    \<and> (\<exists>k'. kernel_celebrate_body env_default small_score VUnit idle_kernel = Inr k'
         \<and> kernel_received k' = [(1, f64_zero, 0)])"
proof -
  obtain k' where k: "kernel_celebrate_body env_default small_score VUnit idle_kernel = Inr k'"
    "kernel_received k' = [(1, f64_zero, 0)]" using small_office by blast
  have idle: "kernel_received idle_kernel = []" by (simp add: kernel_received_def idle_kernel_def)
  have "prog_verse small_score ''correctio'' \<noteq> None" by (simp add: small_score_verse)
  from sink_gets_committed_plan [OF this, of env_default VUnit idle_kernel] k idle
  obtain plan where plan: "commits env_default small_score VUnit plan" by auto
  have "plan = one_plan" using plan by (rule small_commits)
  then show ?thesis using plan k by blast
qed

theorem host_mirrors_kernel_witness:
  "\<exists>p'. host_celebrate_body env_default small_score 7 ''corpus'' VUnit \<lparr>hp_said = [], hp_committed = []\<rparr> = Some (Inr p')
     \<and> host_received p' = [(1, f64_zero, 0)]"
proof -
  obtain k' where k: "kernel_celebrate_body env_default small_score VUnit idle_kernel = Inr k'"
    "abandoned k' = 0" "kernel_received k' = [(1, f64_zero, 0)]" using small_office by blast
  have idle: "abandoned idle_kernel = 0" "kernel_received idle_kernel = []"
    by (simp_all add: idle_kernel_def abandoned_def kernel_received_def)
  show ?thesis
    using host_mirrors_kernel [of 7 small_score env_default VUnit idle_kernel k' "''corpus''"
        "\<lparr>hp_said = [], hp_committed = []\<rparr>"] k idle
    by (auto simp: small_score_verse host_received_def)
qed

end
