(* ===== verification/Organ.thy ===== *)
theory Organ
  imports Env "HOL-Library.Multiset" "HOL-Library.Word"
begin

text \<open>
  Reading a program back aurally: \<open>officium-audio/src/degree_op.rs\<close> (the table between scale
  degrees and operations, the church scales, the ambitus of the modes) and
  \<open>officium-audio/src/render.rs\<close> (from a program to note events, and from events to the calls
  of the \<open>Organ\<close> trait). The lemmas show that the table is a bijection in every mode, that a
  degree is determined by its pitch, where a verse's notes lie, and that playing an event list
  turns every note on and off exactly once.

  Pitches, degrees and voices are \<open>u8\<close>, kept as 8-bit words. \<open>Ticks\<close> (\<open>u32\<close>) are natural
  numbers: a score of four thousand million notes is out of scope. The \<open>libm\<close> crate is a parameter.
\<close>

section \<open>The degree table\<close>

datatype render_op = R_Cadence | R_Ask | R_Arg | R_Pure | R_Resolve | R_Modal | R_BindOther | R_Branch

definition degree :: "mode \<Rightarrow> render_op \<Rightarrow> 8 word" where
  "degree mode op = (let plagal = is_plagal mode in case op of
     R_Cadence \<Rightarrow> 1
   | R_Arg \<Rightarrow> 2
   | R_Ask \<Rightarrow> if plagal then 3 else 5
   | R_Pure \<Rightarrow> if plagal then 5 else 3
   | R_BindOther \<Rightarrow> 4
   | R_Modal \<Rightarrow> 6
   | R_Resolve \<Rightarrow> 7
   | R_Branch \<Rightarrow> 8)"

definition op_of_degree :: "mode \<Rightarrow> 8 word \<Rightarrow> render_op option" where
  "op_of_degree mode deg =
     (let plagal = is_plagal mode in
      if deg = 1 then Some R_Cadence
      else if deg = 2 then Some R_Arg
      else if deg = 3 then Some (if plagal then R_Ask else R_Pure)
      else if deg = 4 then Some R_BindOther
      else if deg = 5 then Some (if plagal then R_Pure else R_Ask)
      else if deg = 6 then Some R_Modal
      else if deg = 7 then Some R_Resolve
      else if deg = 8 then Some R_Branch
      else None)"

fun final_pitch :: "final \<Rightarrow> 8 word" where
  "final_pitch Re = 62"
| "final_pitch Mi = 64"
| "final_pitch Fa = 65"
| "final_pitch Sol = 67"

fun scale :: "final \<Rightarrow> int list" where
  "scale Re = [0, 2, 3, 5, 7, 9, 10, 12]"
| "scale Mi = [0, 1, 3, 5, 7, 8, 10, 12]"
| "scale Fa = [0, 2, 4, 6, 7, 9, 11, 12]"
| "scale Sol = [0, 2, 4, 5, 7, 9, 10, 12]"

text \<open>The offset in semitones, an \<open>i8\<close>: it is between -5 and 12. No caller passes degree 0.\<close>

definition degree_offset :: "mode \<Rightarrow> 8 word \<Rightarrow> int" where
  "degree_offset mode deg =
     (let s = scale (final_of mode) ! unat ((deg - 1) mod 8) in
      if is_plagal mode then
        (if deg = 6 \<or> deg = 7 then s - 12
         else if deg = 8 then -5
         else s)
      else s)"

definition degree_pitch :: "mode \<Rightarrow> 8 word \<Rightarrow> 8 word" where
  "degree_pitch mode deg = word_of_int (uint (final_pitch (final_of mode)) + degree_offset mode deg)"

section \<open>Rendering\<close>

record organ_note =
  n_pitch :: "8 word"
  n_onset :: nat
  n_dur :: nat
  n_voice :: "8 word"

fun classify :: "expr \<Rightarrow> render_op" where
  "classify (EReturn md e) = R_Cadence"
| "classify ENihil = R_Cadence"
| "classify (EClama e) = R_Cadence"
| "classify (EPerage e) = R_Cadence"
| "classify (EAsk x) = R_Ask"
| "classify EArg = R_Arg"
| "classify (EPure md e) = R_Pure"
| "classify (EResolve x g) = R_Resolve"
| "classify ELege = R_Modal"
| "classify (EPone e) = R_Modal"
| "classify (EMitte e) = R_Modal"
| "classify (ELift e) = R_Modal"
| "classify (EIf c t e) = R_Branch"
| "classify _ = R_BindOther"

text \<open>The mutable arguments of a walk: the onset of the next note and the events so far.\<close>

type_synonym tape = "nat \<times> organ_note list"

definition push_note :: "mode \<Rightarrow> render_op \<Rightarrow> 8 word \<Rightarrow> nat \<Rightarrow> tape \<Rightarrow> tape" where
  "push_note mode op voice dur = (\<lambda>(onset, out).
     (onset + dur,
      out @ [\<lparr>n_pitch = degree_pitch mode (degree mode op), n_onset = onset, n_dur = dur, n_voice = voice\<rparr>]))"

fun walk_verse :: "expr \<Rightarrow> mode \<Rightarrow> 8 word \<Rightarrow> tape \<Rightarrow> tape" where
  "walk_verse (EBind md m x k) mode voice tp =
     walk_verse k mode voice (push_note mode (classify m) voice 1 tp)"
| "walk_verse (EIf c t els) mode voice tp =
     walk_verse els mode voice (walk_verse t mode voice (push_note mode R_Branch voice 1 tp))"
| "walk_verse (EReturn md e) mode voice tp = push_note mode R_Cadence voice 2 tp"
| "walk_verse ENihil mode voice tp = push_note mode R_Cadence voice 2 tp"
| "walk_verse (EClama e) mode voice tp = push_note mode R_Cadence voice 2 tp"
| "walk_verse (EPerage e) mode voice tp = push_note mode R_Cadence voice 2 tp"
| "walk_verse _ mode voice tp = tp"

definition SUBJECT_MOTIF :: "8 word list" where
  "SUBJECT_MOTIF = [1, 5, 3, 1]"

text \<open>One degree of the motif: a note is pushed, then its pitch and duration are overwritten.\<close>

definition motif_note :: "mode \<Rightarrow> 8 word \<Rightarrow> tape \<Rightarrow> tape" where
  "motif_note mode deg tp =
     (case push_note mode R_BindOther 1 0 tp of
        (onset, out) \<Rightarrow>
          (onset + 1, butlast out @ [(last out)\<lparr>n_pitch := degree_pitch mode deg, n_dur := 1\<rparr>]))"

definition render_fugue :: "fugue \<Rightarrow> tape \<Rightarrow> tape" where
  "render_fugue f tp =
     (let mode = from_final (fug_final f) False;
          pedal_start = fst tp;
          (onset, out) = (if fug_subject f \<noteq> None then fold (motif_note mode) SUBJECT_MOTIF tp else tp);
          pedal_dur = max (onset - pedal_start) 2
      in if fug_pedals f \<noteq> []
         then (onset, out @ [\<lparr>n_pitch = final_pitch (fug_final f) - 24, n_onset = pedal_start,
                             n_dur = pedal_dur, n_voice = 0\<rparr>])
         else (onset, out))"

text \<open>
  The verses, on voices 2 and up. The sum \<open>2 + i as u8\<close> is checked in the build profile of the repository:
  \<open>None\<close> is the panic when it overflows, at the 255th verse.
\<close>

fun render_verses :: "nat \<Rightarrow> versus list \<Rightarrow> tape \<Rightarrow> tape option" where
  "render_verses i [] tp = Some tp"
| "render_verses i (v # vs) tp =
     (let i8 = of_nat i :: 8 word
      in if 255 < 2 + unat i8 then None
         else render_verses (Suc i) vs (walk_verse (ver_body v) (ver_mode v) (2 + i8) tp))"

definition render_program :: "program \<Rightarrow> organ_note list option" where
  "render_program prog =
     map_option snd (render_verses 0 (prog_verses prog) (fold render_fugue (prog_fugues prog) (0, [])))"

definition render_verse :: "expr \<Rightarrow> mode \<Rightarrow> 8 word \<Rightarrow> organ_note list" where
  "render_verse body mode voice = snd (walk_verse body mode voice (0, []))"

section \<open>Playing\<close>

definition TICK_US :: nat where
  "TICK_US = 250000"

text \<open>The calls of the \<open>Organ\<close> trait.\<close>

datatype organ_call = Note_on "8 word" "8 word" | Note_off "8 word" "8 word" | Tick nat

definition play_tick :: "organ_note list \<Rightarrow> nat \<Rightarrow> organ_call list" where
  "play_tick events t =
     map (\<lambda>n. Note_on (n_voice n) (n_pitch n)) (filter (\<lambda>n. n_onset n = t) events)
     @ [Tick TICK_US]
     @ map (\<lambda>n. Note_off (n_voice n) (n_pitch n)) (filter (\<lambda>n. n_onset n + n_dur n = t + 1) events)"

definition play_end :: "organ_note list \<Rightarrow> nat" where
  "play_end events = fold max (map (\<lambda>n. n_onset n + n_dur n) events) 0"

definition play :: "organ_note list \<Rightarrow> organ_call list" where
  "play events = (if events = [] then [] else concat (map (play_tick events) [0 ..< play_end events]))"

text \<open>
  The pitch in Hertz. The two functions of the \<open>libm\<close> crate are parameters; \<open>as u32\<close> truncates and
  saturates.
\<close>

record libm =
  libm_exp2 :: "f64 \<Rightarrow> f64"
  libm_round :: "f64 \<Rightarrow> f64"

definition u32_of_f64 :: "f64 \<Rightarrow> 32 word" where
  "u32_of_f64 x = (let n = u64_of_f64 x in if 2 ^ 32 \<le> uint n then - 1 else ucast n)"

definition pitch_hz :: "libm \<Rightarrow> 8 word \<Rightarrow> 32 word" where
  "pitch_hz lib p =
     (let semis = f64_sub (f64_of_u64 (ucast p)) (f64_dec 69 0);
          hz = f64_mul (f64_dec 440 0) (libm_exp2 lib (f64_div semis (f64_dec 12 0)))
      in u32_of_f64 (libm_round lib hz))"

text \<open>The organ of the hosted driver writes a log. Its time is in microseconds.\<close>

record mock_organ =
  mo_log :: "string list"
  mo_time :: nat

definition mock_organ :: mock_organ where
  "mock_organ = \<lparr>mo_log = [], mo_time = 0\<rparr>"

definition pad_left :: "nat \<Rightarrow> string \<Rightarrow> string" where
  "pad_left width s = replicate (width - length s) (CHR '' '') @ s"

definition at_time :: "mock_organ \<Rightarrow> string" where
  "at_time m = ''t='' @ pad_left 7 (show_nat (mo_time m)) @ ''us  ''"

fun mock_call :: "libm \<Rightarrow> organ_call \<Rightarrow> mock_organ \<Rightarrow> mock_organ" where
  "mock_call lib (Note_on v p) m =
     m\<lparr>mo_log := mo_log m @ [at_time m @ ''v'' @ show_nat (unat v) @ '' ON  '' @ show_nat (unat p)
       @ '' ('' @ show_nat (unat (pitch_hz lib p)) @ '' Hz)'']\<rparr>"
| "mock_call lib (Note_off v p) m =
     m\<lparr>mo_log := mo_log m @ [at_time m @ ''v'' @ show_nat (unat v) @ '' OFF '' @ show_nat (unat p)]\<rparr>"
| "mock_call lib (Tick dt) m = m\<lparr>mo_time := mo_time m + dt\<rparr>"

section \<open>The table is a bijection\<close>

lemma degree_op_inverse: "op_of_degree mode (degree mode op) = Some op"
  by (cases op; cases "is_plagal mode") (simp_all add: degree_def op_of_degree_def)

lemma op_degree_inverse: "op_of_degree mode d = Some op \<Longrightarrow> degree mode op = d"
  by (auto simp: op_of_degree_def degree_def Let_def split: if_splits)

text \<open>The offsets, mode by mode.\<close>

definition degrees :: "8 word list" where
  "degrees = [1, 2, 3, 4, 5, 6, 7, 8]"

lemma degree_in_degrees: "degree mode op \<in> set degrees"
  by (cases op) (simp_all add: degree_def degrees_def)

lemma offsets_table:
  "map (degree_offset Dorian) degrees = [0, 2, 3, 5, 7, 9, 10, 12]"
  "map (degree_offset Hypodorian) degrees = [0, 2, 3, 5, 7, -3, -2, -5]"
  "map (degree_offset Phrygian) degrees = [0, 1, 3, 5, 7, 8, 10, 12]"
  "map (degree_offset Hypophrygian) degrees = [0, 1, 3, 5, 7, -4, -2, -5]"
  "map (degree_offset Lydian) degrees = [0, 2, 4, 6, 7, 9, 11, 12]"
  "map (degree_offset Hypolydian) degrees = [0, 2, 4, 6, 7, -3, -1, -5]"
  "map (degree_offset Mixolydian) degrees = [0, 2, 4, 5, 7, 9, 10, 12]"
  "map (degree_offset Hypomixolydian) degrees = [0, 2, 4, 5, 7, -3, -2, -5]"
  by code_simp+

lemma offsets_distinct: "distinct (map (degree_offset mode) degrees)"
  by (cases mode) (simp_all add: offsets_table)

lemma offsets_range: "d \<in> set degrees \<Longrightarrow> -5 \<le> degree_offset mode d \<and> degree_offset mode d \<le> 12"
proof -
  have "list_all (\<lambda>s. -5 \<le> s \<and> s \<le> 12) (map (degree_offset mode) degrees)"
    by (cases mode) (simp_all add: offsets_table)
  then show "d \<in> set degrees \<Longrightarrow> ?thesis" by (auto simp: list_all_iff)
qed

section \<open>The melody of a verse\<close>

text \<open>The operations a walk sings, and their notes.\<close>

fun verse_ops :: "expr \<Rightarrow> render_op list" where
  "verse_ops (EBind md m x k) = classify m # verse_ops k"
| "verse_ops (EIf c t els) = R_Branch # verse_ops t @ verse_ops els"
| "verse_ops (EReturn md e) = [R_Cadence]"
| "verse_ops ENihil = [R_Cadence]"
| "verse_ops (EClama e) = [R_Cadence]"
| "verse_ops (EPerage e) = [R_Cadence]"
| "verse_ops _ = []"

lemma push_note_pitches:
  "map n_pitch (snd (push_note mode op voice dur tp)) = map n_pitch (snd tp) @ [degree_pitch mode (degree mode op)]"
  by (simp add: push_note_def split: prod.split)

lemma walk_verse_pitches:
  "map n_pitch (snd (walk_verse e mode voice tp))
     = map n_pitch (snd tp) @ map (\<lambda>op. degree_pitch mode (degree mode op)) (verse_ops e)"
  by (induction e mode voice tp rule: walk_verse.induct) (simp_all add: push_note_pitches)

lemma render_verse_pitches:
  "map n_pitch (render_verse body mode voice) = map (\<lambda>op. degree_pitch mode (degree mode op)) (verse_ops body)"
  by (simp add: render_verse_def walk_verse_pitches)

text \<open>Durations are positive and nothing sounds past the end of the tape.\<close>

definition tape_ok :: "tape \<Rightarrow> bool" where
  "tape_ok tp \<longleftrightarrow> (\<forall>n\<in>set (snd tp). 0 < n_dur n)"

lemma push_note_ok: "tape_ok tp \<Longrightarrow> 0 < dur \<Longrightarrow> tape_ok (push_note mode op voice dur tp)"
  by (auto simp: tape_ok_def push_note_def split: prod.split)

lemma walk_verse_ok: "tape_ok tp \<Longrightarrow> tape_ok (walk_verse e mode voice tp)"
  by (induction e mode voice tp rule: walk_verse.induct) (simp_all add: push_note_ok)

lemma motif_note_ok: "tape_ok tp \<Longrightarrow> tape_ok (motif_note mode deg tp)"
  by (auto simp: tape_ok_def push_note_def motif_note_def split: prod.split)

lemma fold_ok: "(\<And>x tp. tape_ok tp \<Longrightarrow> tape_ok (f x tp)) \<Longrightarrow> tape_ok tp \<Longrightarrow> tape_ok (fold f xs tp)"
  by (induction xs arbitrary: tp) simp_all

lemma render_fugue_ok:
  assumes "tape_ok tp"
  shows "tape_ok (render_fugue f tp)"
proof -
  define tp' where "tp' = (if fug_subject f \<noteq> None
      then fold (motif_note (from_final (fug_final f) False)) SUBJECT_MOTIF tp else tp)"
  obtain onset out where o: "tp' = (onset, out)" by (cases tp')
  have "tape_ok tp'" using assms by (simp add: tp'_def fold_ok motif_note_ok)
  then have "tape_ok (onset, out)" by (simp add: o)
  then show ?thesis
    using o unfolding tp'_def by (simp add: render_fugue_def Let_def tape_ok_def less_max_iff_disj)
qed

lemma render_verses_ok: "render_verses i vs tp = Some tp' \<Longrightarrow> tape_ok tp \<Longrightarrow> tape_ok tp'"
  by (induction i vs tp rule: render_verses.induct) (simp_all add: Let_def walk_verse_ok split: if_splits)

lemma render_program_durations:
  assumes "render_program prog = Some events"
  shows "\<forall>n\<in>set events. 0 < n_dur n"
proof -
  have "tape_ok (fold render_fugue (prog_fugues prog) (0, []))"
    by (rule fold_ok [OF render_fugue_ok]) (simp_all add: tape_ok_def)
  with assms render_verses_ok show ?thesis by (fastforce simp: render_program_def tape_ok_def)
qed

text \<open>Rendering panics exactly on the programs of more than 254 verses.\<close>

lemma render_verses_None: "i \<le> 254 \<Longrightarrow> render_verses i vs tp = None \<longleftrightarrow> 254 < i + length vs"
proof (induction i vs tp rule: render_verses.induct)
  case (2 i v vs tp)
  have i: "unat (of_nat i :: 8 word) = i" using 2(2) by (simp add: unat_of_nat)
  show ?case
  proof (cases "i = 254")
    case True
    then show ?thesis using i by (simp add: Let_def)
  next
    case False
    then have "\<not> 255 < 2 + unat (of_nat i :: 8 word)" "Suc i \<le> 254" using 2(2) i by auto
    with 2(1) [OF refl this] show ?thesis by (simp add: Let_def)
  qed
qed simp

lemma render_program_None: "render_program prog = None \<longleftrightarrow> 254 < length (prog_verses prog)"
  by (simp add: render_program_def render_verses_None)

section \<open>Playing an event list\<close>

definition note_ons :: "organ_call list \<Rightarrow> (8 word \<times> 8 word) list" where
  "note_ons cs = concat (map (\<lambda>c. case c of Note_on v p \<Rightarrow> [(v, p)] | _ \<Rightarrow> []) cs)"

definition note_offs :: "organ_call list \<Rightarrow> (8 word \<times> 8 word) list" where
  "note_offs cs = concat (map (\<lambda>c. case c of Note_off v p \<Rightarrow> [(v, p)] | _ \<Rightarrow> []) cs)"

lemma note_ons_append [simp]: "note_ons (xs @ ys) = note_ons xs @ note_ons ys" "note_ons [] = []"
  by (simp_all add: note_ons_def)

lemma note_offs_append [simp]: "note_offs (xs @ ys) = note_offs xs @ note_offs ys" "note_offs [] = []"
  by (simp_all add: note_offs_def)

lemma note_calls_map [simp]:
  "note_ons (map (\<lambda>n. Note_on (n_voice n) (n_pitch n)) ns) = map (\<lambda>n. (n_voice n, n_pitch n)) ns"
  "note_ons (map (\<lambda>n. Note_off (n_voice n) (n_pitch n)) ns) = []"
  "note_offs (map (\<lambda>n. Note_on (n_voice n) (n_pitch n)) ns) = []"
  "note_offs (map (\<lambda>n. Note_off (n_voice n) (n_pitch n)) ns) = map (\<lambda>n. (n_voice n, n_pitch n)) ns"
  "note_ons (Tick t # cs) = note_ons cs" "note_offs (Tick t # cs) = note_offs cs"
  by (induction ns) (simp_all add: note_ons_def note_offs_def)

lemma note_ons_concat: "note_ons (concat css) = concat (map note_ons css)"
  by (induction css) simp_all

lemma note_offs_concat: "note_offs (concat css) = concat (map note_offs css)"
  by (induction css) simp_all

text \<open>Collecting a list by the value of a bounded key loses nothing.\<close>

lemma mset_by_key:
  "(\<forall>x\<in>set xs. g x < N) \<Longrightarrow> mset (concat (map (\<lambda>t. filter (\<lambda>x. g x = t) xs) [0 ..< N])) = mset xs"
proof (induction N arbitrary: xs)
  case 0
  then show ?case by (cases xs) auto
next
  case (Suc N)
  let ?low = "filter (\<lambda>x. g x < N) xs" and ?top = "filter (\<lambda>x. g x = N) xs"
  have same: "filter (\<lambda>x. g x = t) xs = filter (\<lambda>x. g x = t) ?low" if "t < N" for t
    using that by (induction xs) auto
  have "mset (concat (map (\<lambda>t. filter (\<lambda>x. g x = t) xs) [0 ..< N]))
      = mset (concat (map (\<lambda>t. filter (\<lambda>x. g x = t) ?low) [0 ..< N]))"
    by (intro arg_cong [of _ _ mset] arg_cong [of _ _ concat] map_cong refl same) simp
  also have "\<dots> = mset ?low" by (rule Suc.IH) simp
  finally have "mset (concat (map (\<lambda>t. filter (\<lambda>x. g x = t) xs) [0 ..< Suc N])) = mset ?low + mset ?top"
    by simp
  also have "\<dots> = mset xs"
    using Suc.prems by (induction xs) (auto simp: less_Suc_eq)
  finally show ?case .
qed

lemma play_end_bound: "n \<in> set events \<Longrightarrow> n_onset n + n_dur n \<le> play_end events"
proof -
  have "m \<in> set ms \<Longrightarrow> m \<le> fold max ms (a::nat)" and "a \<le> fold max ms (a::nat)" for m ms a
    by (induction ms arbitrary: a) (auto intro: order_trans [OF max.cobounded2] order_trans [OF max.cobounded1])
  then show "n \<in> set events \<Longrightarrow> ?thesis" by (simp add: play_end_def)
qed

lemma play_ons:
  "note_ons (play events) = concat (map (\<lambda>t. map (\<lambda>n. (n_voice n, n_pitch n)) (filter (\<lambda>n. n_onset n = t) events))
     [0 ..< play_end events])"
  by (simp add: play_def play_tick_def note_ons_concat comp_def play_end_def)

lemma play_offs:
  "note_offs (play events) = concat (map (\<lambda>t. map (\<lambda>n. (n_voice n, n_pitch n))
     (filter (\<lambda>n. n_onset n + n_dur n = t + 1) events)) [0 ..< play_end events])"
  by (simp add: play_def play_tick_def note_offs_concat comp_def play_end_def)

lemma mset_map_by_key:
  assumes "\<forall>x\<in>set xs. g x < N"
  shows "mset (concat (map (\<lambda>t. map f (filter (\<lambda>x. g x = t) xs)) [0 ..< N])) = image_mset f (mset xs)"
proof -
  have "concat (map (\<lambda>t. map f (filter (\<lambda>x. g x = t) xs)) [0 ..< N])
      = map f (concat (map (\<lambda>t. filter (\<lambda>x. g x = t) xs) [0 ..< N]))"
    by (simp add: map_concat comp_def)
  then show ?thesis by (simp add: mset_by_key [OF assms])
qed

lemma play_balanced:
  assumes "\<forall>n\<in>set events. 0 < n_dur n"
  shows "mset (note_ons (play events)) = image_mset (\<lambda>n. (n_voice n, n_pitch n)) (mset events)"
    and "mset (note_offs (play events)) = image_mset (\<lambda>n. (n_voice n, n_pitch n)) (mset events)"
proof -
  have bound: "n_onset n + n_dur n \<le> play_end events \<and> 0 < n_dur n" if "n \<in> set events" for n
    using that assms play_end_bound by blast
  then show "mset (note_ons (play events)) = image_mset (\<lambda>n. (n_voice n, n_pitch n)) (mset events)"
    unfolding play_ons by (intro mset_map_by_key) fastforce
  have "filter (\<lambda>n. n_onset n + n_dur n = t + 1) events = filter (\<lambda>n. n_onset n + n_dur n - 1 = t) events" for t
    using bound by (intro filter_cong refl) fastforce
  then have "note_offs (play events) = concat (map (\<lambda>t. map (\<lambda>n. (n_voice n, n_pitch n))
      (filter (\<lambda>n. n_onset n + n_dur n - 1 = t) events)) [0 ..< play_end events])"
    by (simp add: play_offs)
  then show "mset (note_offs (play events)) = image_mset (\<lambda>n. (n_voice n, n_pitch n)) (mset events)"
    using bound by (simp only:) (intro mset_map_by_key; fastforce)
qed

section \<open>Properties\<close>

text \<open>In every mode the table between operations and degrees is a bijection: a degree stands
  for an operation exactly when it is the degree that the operation is sung on.\<close>

theorem degree_table_bijective: "op_of_degree mode d = Some op \<longleftrightarrow> degree mode op = d"
  using degree_op_inverse op_degree_inverse by metis

text \<open>Playing a rendered program leaves no note hanging: over the whole performance each note
  event is switched on exactly once and off exactly once.\<close>

theorem no_note_hangs:
  assumes "render_program prog = Some events"
  shows "mset (note_ons (play events)) = image_mset (\<lambda>n. (n_voice n, n_pitch n)) (mset events)
   \<and> mset (note_offs (play events)) = image_mset (\<lambda>n. (n_voice n, n_pitch n)) (mset events)"
  using play_balanced [OF render_program_durations [OF assms]] by blast

end
