(* ===== verification/Transcribe.thy ===== *)
theory Transcribe
  imports Organ
begin

text \<open>
  Audio in: \<open>officium-audio/src/transcribe.rs\<close>. A phrase of pitches becomes the text of a
  plain-form score.

  \<^item> \<open>hear\<close> is the first half of \<open>transcribe\<close>: the final from the last pitch, authentic or
    plagal from the ambitus, each pitch a degree, each degree an operation.
  \<^item> \<open>block\<close> is the recursive method of \<open>Transcriber\<close>: it consumes the operations of one block
    and writes its lines. The transcriber's fields are a record, threaded through.
  \<^item> \<open>transcribe\<close> puts the text together.

  The lemmas show that hearing inverts rendering where the phrase shows its ambitus, that it
  does not where a plagal verse never dips under its final, that a block consumes exactly one
  phrase, and that every rendered verse that cadences is transcribed.
\<close>

section \<open>Hearing a phrase\<close>

fun show_mode :: "mode \<Rightarrow> string" where
  "show_mode Dorian = ''Dorian''"
| "show_mode Hypodorian = ''Hypodorian''"
| "show_mode Phrygian = ''Phrygian''"
| "show_mode Hypophrygian = ''Hypophrygian''"
| "show_mode Lydian = ''Lydian''"
| "show_mode Hypolydian = ''Hypolydian''"
| "show_mode Mixolydian = ''Mixolydian''"
| "show_mode Hypomixolydian = ''Hypomixolydian''"

definition final_of_pitch :: "8 word \<Rightarrow> final option" where
  "final_of_pitch cadence =
     (let pc = cadence mod 12 in
      if pc = 2 then Some Re else if pc = 4 then Some Mi
      else if pc = 5 then Some Fa else if pc = 7 then Some Sol else None)"

text \<open>The loop from pitches to operations; \<open>i\<close> is the index of the next pitch.\<close>

definition degree_of_rel :: "mode \<Rightarrow> int \<Rightarrow> 8 word option" where
  "degree_of_rel mode rel = find (\<lambda>d. degree_offset mode d = rel) [1, 2, 3, 4, 5, 6, 7, 8]"

fun hear_ops :: "mode \<Rightarrow> 8 word \<Rightarrow> nat \<Rightarrow> 8 word list \<Rightarrow> ('k dissonance, render_op list) result" where
  "hear_ops mode cadence i [] = Inr []"
| "hear_ops mode cadence i (p # ps) =
     (case degree_of_rel mode (uint p - uint cadence) of
        None \<Rightarrow> Inl (Raise (D_Parse (i + 1)
          (''nota extra modum: pitch '' @ show_nat (unat p) @ '' is no degree of '' @ show_mode mode)))
      | Some deg \<Rightarrow>
          (case op_of_degree mode deg of
             None \<Rightarrow> Inl Panicked
           | Some op \<Rightarrow> and_then (hear_ops mode cadence (i + 1) ps) (\<lambda>ops. Inr (op # ops))))"

definition hear :: "8 word list \<Rightarrow> ('k dissonance, mode \<times> render_op list) result" where
  "hear pitches =
     (if pitches = [] then Inl (Raise (D_Parse 0 ''silence: nothing to transcribe''))
      else let cadence = last pitches in
        case final_of_pitch cadence of
          None \<Rightarrow> Inl (Raise (D_Parse (length pitches)
            ''cadentia extra modos: the phrase must end on D, E, F or G''))
        | Some f \<Rightarrow>
            let plagal = list_ex (\<lambda>p. p < cadence) pitches; mode = from_final f plagal
            in and_then (hear_ops mode cadence 0 pitches) (\<lambda>ops. Inr (mode, ops)))"

section \<open>Writing the score\<close>

record transcriber =
  tr_ops :: "render_op list"
  tr_mode :: mode
  tr_pos :: nat
  tr_body :: string
  tr_vars :: nat
  tr_prev :: "string option"
  tr_needs_fugue :: bool

definition tr_err :: "transcriber \<Rightarrow> string \<Rightarrow> 'k dissonance exn" where
  "tr_err t msg = Raise (D_Parse (tr_pos t + 1) msg)"

definition next_var :: "transcriber \<Rightarrow> transcriber \<times> string" where
  "next_var t = (t\<lparr>tr_vars := tr_vars t + 1\<rparr>, ''v'' @ show_nat (tr_vars t + 1))"

definition prev_val :: "transcriber \<Rightarrow> string" where
  "prev_val t = (case tr_prev t of Some v \<Rightarrow> v | None \<Rightarrow> ''0'')"

definition newline :: string where
  "newline = [char_of (10 :: nat)]"

definition quote :: string where
  "quote = [char_of (34 :: nat)]"

definition tr_line :: "nat \<Rightarrow> string \<Rightarrow> transcriber \<Rightarrow> transcriber" where
  "tr_line depth text t =
     t\<lparr>tr_body := tr_body t @ concat (replicate depth ''  '') @ text @ newline\<rparr>"

text \<open>\<open>let v = self.next_var(); self.line(depth, "v <- rhs"); self.prev = Some(v)\<close>.\<close>

definition bind_line :: "nat \<Rightarrow> string \<Rightarrow> transcriber \<Rightarrow> transcriber" where
  "bind_line depth rhs t =
     (case next_var t of (t, v) \<Rightarrow> (tr_line depth (v @ '' <- '' @ rhs) t)\<lparr>tr_prev := Some v\<rparr>)"

text \<open>The arms of \<open>block\<close> that neither cadence nor branch.\<close>

fun sing_line :: "nat \<Rightarrow> render_op \<Rightarrow> transcriber \<Rightarrow> transcriber" where
  "sing_line depth R_Arg t = bind_line depth ''arg'' t"
| "sing_line depth R_Ask t =
     bind_line depth (''ask '' @ quote @ ''Dominus'' @ quote) (t\<lparr>tr_needs_fugue := True\<rparr>)"
| "sing_line depth R_Pure t = bind_line depth (''pure '' @ prev_val t) t"
| "sing_line depth R_BindOther t = bind_line depth (prev_val t) t"
| "sing_line depth R_Resolve t =
     bind_line depth (''resolve '' @ quote @ ''vox'' @ quote @ '' (genus (corpus 0 '' @ quote @ ''cantus'' @ quote @ '' 0 0))'')
       (t\<lparr>tr_needs_fugue := True\<rparr>)"
| "sing_line depth R_Modal t =
     (let p = prev_val t in case tr_mode t of
        Lydian \<Rightarrow> tr_line depth (''pone '' @ p) t
      | Hypolydian \<Rightarrow> tr_line depth (''pone '' @ p) t
      | Hypomixolydian \<Rightarrow> tr_line depth (''mitte (cmd '' @ p @ '' '' @ p @ '' '' @ p @ '')'') t
      | _ \<Rightarrow> bind_line depth p t)"
| "sing_line depth op t = t"

function block :: "nat \<Rightarrow> transcriber \<Rightarrow> transcriber \<times> ('k dissonance, unit) result" where
  "block depth t0 =
     (if \<not> tr_pos t0 < length (tr_ops t0)
      then (t0, Inl (tr_err t0 ''phrasis sine cadentia: the phrase never cadences''))
      else let op = tr_ops t0 ! tr_pos t0; t = t0\<lparr>tr_pos := tr_pos t0 + 1\<rparr> in
        if op = R_Cadence then (tr_line depth (''amen '' @ prev_val t) t, Inr ())
        else if op = R_Branch then
          (case block (depth + 1) (tr_line depth ''si verum tunc {'' t) of
             (t, Inl e) \<Rightarrow> (t, Inl e)
           | (t, Inr _) \<Rightarrow>
               (case block (depth + 1) (tr_line depth ''} aliter {'' t) of
                  (t, Inl e) \<Rightarrow> (t, Inl e)
                | (t, Inr _) \<Rightarrow> (tr_line depth ''}'' t, Inr ())))
        else block depth (sing_line depth op t))"
  by pat_completeness auto

text \<open>A line or a statement moves nothing of the phrase.\<close>

lemma tr_line_keeps [simp]:
  "tr_ops (tr_line d x t) = tr_ops t" "tr_pos (tr_line d x t) = tr_pos t" "tr_mode (tr_line d x t) = tr_mode t"
  by (simp_all add: tr_line_def)

lemma bind_line_keeps [simp]:
  "tr_ops (bind_line d x t) = tr_ops t" "tr_pos (bind_line d x t) = tr_pos t" "tr_mode (bind_line d x t) = tr_mode t"
  by (simp_all add: bind_line_def next_var_def)

lemma sing_line_keeps [simp]:
  "tr_ops (sing_line d op t) = tr_ops t" "tr_pos (sing_line d op t) = tr_pos t" "tr_mode (sing_line d op t) = tr_mode t"
  by (cases op; simp add: Let_def split: mode.split)+

lemma block_dom_pos:
  "block_dom TYPE('k) (depth, t) \<Longrightarrow>
     tr_ops (fst (block depth t :: transcriber \<times> ('k dissonance, unit) result)) = tr_ops t
     \<and> tr_pos t \<le> tr_pos (fst (block depth t :: transcriber \<times> ('k dissonance, unit) result))"
proof (induction depth t rule: block.pinduct)
  case (1 depth t0)
  show ?case
  proof (cases "tr_pos t0 < length (tr_ops t0)")
    case False
    then show ?thesis using "1.hyps" by (simp add: block.psimps)
  next
    case True
    define t where "t = t0\<lparr>tr_pos := tr_pos t0 + 1\<rparr>"
    define op where "op = tr_ops t0 ! tr_pos t0"
    have t: "tr_ops t = tr_ops t0" "tr_pos t = Suc (tr_pos t0)" by (simp_all add: t_def)
    have pos: "\<not> \<not> tr_pos t0 < length (tr_ops t0)" using True by simp
    note IH = "1.IH" [OF pos op_def t_def]
    consider "op = R_Cadence" | "op = R_Branch" | "op \<noteq> R_Cadence" "op \<noteq> R_Branch" by blast
    then show ?thesis
    proof cases
      case 1
      then show ?thesis using True "1.hyps" t by (simp add: block.psimps Let_def t_def op_def)
    next
      case 2
      then have ne: "op \<noteq> R_Cadence" by simp
      obtain t1 r1 where b1: "(block (depth + 1) (tr_line depth ''si verum tunc {'' t) :: transcriber \<times> ('k dissonance, unit) result) = (t1, r1)"
        by (metis surj_pair)
      with IH(1) [OF ne 2] t have 1: "tr_ops t1 = tr_ops t0" "tr_pos t0 \<le> tr_pos t1" by simp_all
      show ?thesis
      proof (cases r1)
        case (Inl e)
        with b1 1 True "1.hyps" 2 show ?thesis
          by (simp add: block.psimps Let_def t_def op_def)
      next
        case (Inr u)
        obtain t2 r2 where b2: "(block (depth + 1) (tr_line depth ''} aliter {'' t1) :: transcriber \<times> ('k dissonance, unit) result) = (t2, r2)"
          by (metis surj_pair)
        with IH(2) [OF ne 2 b1 [symmetric] Inr] 1
        have 2: "tr_ops t2 = tr_ops t0" "tr_pos t0 \<le> tr_pos t2" by simp_all
        show ?thesis
          using b1 b2 2 True "1.hyps" Inr \<open>op = R_Branch\<close>
          by (cases r2) (simp_all add: block.psimps Let_def t_def op_def)
      qed
    next
      case 3
      with IH(3) t True "1.hyps" show ?thesis by (simp add: block.psimps Let_def t_def op_def)
    qed
  qed
qed

termination block
proof (relation "measure (\<lambda>(depth, t). length (tr_ops t) - tr_pos t)")
  fix depth t0 op t t1 r1 u
  assume *: "\<not> \<not> tr_pos t0 < length (tr_ops t0)" "op = tr_ops t0 ! tr_pos t0" "t = t0\<lparr>tr_pos := tr_pos t0 + 1\<rparr>"
    "(t1, r1) = (block (depth + 1) (tr_line depth ''si verum tunc {'' t) :: transcriber \<times> ('k dissonance, unit) result)" "r1 = Inr u"
    "block_dom TYPE('k) (depth + 1, tr_line depth ''si verum tunc {'' t)"
  show "((depth + 1, tr_line depth ''} aliter {'' t1), depth, t0) \<in> measure (\<lambda>(depth, t). length (tr_ops t) - tr_pos t)"
    using block_dom_pos [OF *(6)] *(1,3) unfolding *(4) [symmetric] by auto
qed auto

declare block.simps [simp del]

fun final_token :: "final \<Rightarrow> string" where
  "final_token Re = ''Re''"
| "final_token Mi = ''Mi''"
| "final_token Fa = ''Fa''"
| "final_token Sol = ''Sol''"

definition ascii_lower :: "char \<Rightarrow> char" where
  "ascii_lower c = (if CHR ''A'' \<le> c \<and> c \<le> CHR ''Z'' then char_of (of_char c + 32 :: nat) else c)"

definition transcriber_new :: "mode \<Rightarrow> render_op list \<Rightarrow> transcriber" where
  "transcriber_new mode ops =
     \<lparr>tr_ops = ops, tr_mode = mode, tr_pos = 0, tr_body = [], tr_vars = 0, tr_prev = None, tr_needs_fugue = False\<rparr>"

definition transcribe :: "8 word list \<Rightarrow> string \<Rightarrow> ('k dissonance, string) result" where
  "transcribe pitches name =
     and_then (hear pitches) (\<lambda>(mode, ops).
       case block 1 (transcriber_new mode ops) of
         (t, Inl e) \<Rightarrow> Inl e
       | (t, Inr _) \<Rightarrow>
           if tr_pos t \<noteq> length ops
           then Inl (Raise (D_Parse (tr_pos t + 1) ''cantus post amen: notes after the final cadence''))
           else
             let tok = final_token (final_of mode);
                 vtok = (if is_plagal mode then map ascii_lower tok else tok);
                 head = ''; transcribed from the manual: '' @ show_nat (length pitches) @ '' notes, ''
                   @ show_mode mode @ '' on '' @ tok @ newline;
                 fuga = (if tr_needs_fugue t
                   then ''fuga organum in '' @ tok @ '' {'' @ newline
                     @ ''  pedale Dominus = '' @ show_nat (unat (degree_pitch mode (if is_plagal mode then 3 else 5))) @ newline
                     @ ''  reale  vox @ cantus = '' @ [char_of (92 :: nat)] @ ''x -> x'' @ newline
                     @ ''}'' @ newline
                   else [])
             in Inr (head @ fuga @ ''versus '' @ name @ '' in '' @ vtok @ '' {'' @ newline
                     @ tr_body t @ ''}'' @ newline))"

section \<open>A block is a phrase\<close>

text \<open>The operations of one block: statements, then a cadence or a branch with two blocks.\<close>

inductive phrase :: "render_op list \<Rightarrow> bool" where
  phrase_cadence: "phrase [R_Cadence]"
| phrase_branch: "phrase a \<Longrightarrow> phrase b \<Longrightarrow> phrase (R_Branch # a @ b)"
| phrase_line: "op \<noteq> R_Cadence \<Longrightarrow> op \<noteq> R_Branch \<Longrightarrow> phrase a \<Longrightarrow> phrase (op # a)"

lemma phrase_last: "phrase os \<Longrightarrow> os \<noteq> [] \<and> last os = R_Cadence"
  by (induction rule: phrase.induct) auto

text \<open>The arms of \<open>block\<close>, one equation each.\<close>

lemma block_end:
  "\<not> tr_pos t < length (tr_ops t) \<Longrightarrow>
   block depth t = (t, Inl (tr_err t ''phrasis sine cadentia: the phrase never cadences''))"
  by (subst block.simps) simp

definition advance :: "transcriber \<Rightarrow> transcriber" where
  "advance t = t\<lparr>tr_pos := tr_pos t + 1\<rparr>"

lemma advance_simps [simp]:
  "tr_ops (advance t) = tr_ops t" "tr_pos (advance t) = Suc (tr_pos t)" "tr_mode (advance t) = tr_mode t"
  by (simp_all add: advance_def)

lemma block_cadence:
  "tr_pos t < length (tr_ops t) \<Longrightarrow> tr_ops t ! tr_pos t = R_Cadence \<Longrightarrow>
   block depth t = (tr_line depth (''amen '' @ prev_val (advance t)) (advance t), Inr ())"
  by (subst block.simps) (simp add: advance_def Let_def)

lemma block_branch:
  "tr_pos t < length (tr_ops t) \<Longrightarrow> tr_ops t ! tr_pos t = R_Branch \<Longrightarrow>
   block depth t =
     (case block (depth + 1) (tr_line depth ''si verum tunc {'' (advance t)) of
        (t, Inl e) \<Rightarrow> (t, Inl e)
      | (t, Inr _) \<Rightarrow>
          (case block (depth + 1) (tr_line depth ''} aliter {'' t) of
             (t, Inl e) \<Rightarrow> (t, Inl e)
           | (t, Inr _) \<Rightarrow> (tr_line depth ''}'' t, Inr ())))"
  by (subst block.simps) (simp add: advance_def Let_def)

lemma block_line:
  "tr_pos t < length (tr_ops t) \<Longrightarrow> op = tr_ops t ! tr_pos t \<Longrightarrow> op \<noteq> R_Cadence \<Longrightarrow> op \<noteq> R_Branch \<Longrightarrow>
   block depth t = block depth (sing_line depth op (advance t))"
  by (subst block.simps) (simp add: advance_def Let_def)

lemma block_result:
  "block depth t = (t', r :: ('k dissonance, unit) result) \<Longrightarrow>
     tr_ops t' = tr_ops t \<and> tr_pos t \<le> tr_pos t'
     \<and> (r = Inr () \<longrightarrow> (\<exists>os. phrase os \<and> drop (tr_pos t) (tr_ops t) = os @ drop (tr_pos t') (tr_ops t')))"
proof (induction depth t arbitrary: t' r rule: block.induct [where 'a = 'k])
  case (1 depth t)
  show ?case
  proof (cases "tr_pos t < length (tr_ops t)")
    case False
    then show ?thesis using "1.prems" by (auto simp: block_end)
  next
    case True
    define op where "op = tr_ops t ! tr_pos t"
    have pos: "\<not> \<not> tr_pos t < length (tr_ops t)" using True by simp
    note IH = "1.IH" [OF pos op_def advance_def]
    have drop: "drop (tr_pos t) (tr_ops t) = op # drop (Suc (tr_pos t)) (tr_ops t)"
      using True by (simp add: op_def Cons_nth_drop_Suc)
    consider "op = R_Cadence" | "op = R_Branch" | "op \<noteq> R_Cadence" "op \<noteq> R_Branch" by blast
    then show ?thesis
    proof cases
      case 1
      with "1.prems" True have "t' = tr_line depth (''amen '' @ prev_val (advance t)) (advance t)" "r = Inr ()"
        by (simp_all add: block_cadence op_def)
      then show ?thesis using drop 1 phrase_cadence by auto
    next
      case 2
      then have ne: "op \<noteq> R_Cadence" by simp
      obtain t1 r1 where b1: "(block (depth + 1) (tr_line depth ''si verum tunc {'' (advance t)) :: transcriber \<times> ('k dissonance, unit) result) = (t1, r1)"
        by (metis surj_pair)
      note p1' = IH(1) [OF ne 2 b1, unfolded tr_line_keeps advance_simps]
      note p1 = p1' [THEN conjunct1] p1' [THEN conjunct2, THEN conjunct1] p1' [THEN conjunct2, THEN conjunct2]
      show ?thesis
      proof (cases r1)
        case (Inl e)
        have "(t', r) = (t1, Inl e)"
          using "1.prems" unfolding block_branch [OF True 2 [unfolded op_def], of depth] b1 Inl by simp
        then show ?thesis using p1(1,2) by simp
      next
        case (Inr u)
        obtain t2 r2 where b2: "(block (depth + 1) (tr_line depth ''} aliter {'' t1) :: transcriber \<times> ('k dissonance, unit) result) = (t2, r2)"
          by (metis surj_pair)
        note p2' = IH(2) [OF ne 2 b1 [symmetric] Inr b2, unfolded tr_line_keeps]
        note p2 = p2' [THEN conjunct1] p2' [THEN conjunct2, THEN conjunct1] p2' [THEN conjunct2, THEN conjunct2]
        have res: "(t', r) = (case r2 of Inl e \<Rightarrow> (t2, Inl e) | Inr _ \<Rightarrow> (tr_line depth ''}'' t2, Inr ()))"
          using "1.prems" unfolding block_branch [OF True 2 [unfolded op_def], of depth] b1 Inr
          by (simp add: b2 [simplified] split: sum.splits)
        show ?thesis
        proof (cases r2)
          case (Inl e)
          then show ?thesis using res p1(1,2) p2(1,2) by simp
        next
          case (Inr u2)
          obtain a b where ab: "phrase a" "drop (Suc (tr_pos t)) (tr_ops t) = a @ drop (tr_pos t1) (tr_ops t1)"
            "phrase b" "drop (tr_pos t1) (tr_ops t1) = b @ drop (tr_pos t2) (tr_ops t2)"
            using p1(3) p2(3) \<open>r1 = Inr u\<close> Inr by auto
          have "phrase (R_Branch # a @ b)" using ab(1,3) by (rule phrase_branch)
          moreover have "drop (tr_pos t) (tr_ops t) = (R_Branch # a @ b) @ drop (tr_pos t2) (tr_ops t2)"
            using drop 2 ab(2,4) by simp
          moreover have "t' = tr_line depth ''}'' t2" "r = Inr ()" using res Inr by simp_all
          ultimately show ?thesis
            using p1(1,2) p2(1,2) by (metis Suc_leD le_trans tr_line_keeps(1,2))
        qed
      qed
    next
      case 3
      have b: "block depth (sing_line depth op (advance t)) = (t', r)"
        using "1.prems" unfolding block_line [OF True op_def 3, of depth] .
      note p' = IH(3) [OF 3 b, unfolded sing_line_keeps advance_simps]
      note p = p' [THEN conjunct1] p' [THEN conjunct2, THEN conjunct1] p' [THEN conjunct2, THEN conjunct2]
      show ?thesis using drop phrase_line [OF 3] p by (metis Suc_leD append_Cons)
    qed
  qed
qed

lemma block_phrase:
  "phrase os \<Longrightarrow> drop (tr_pos t) (tr_ops t) = os @ rest \<Longrightarrow>
     \<exists>t'. block depth t = (t', Inr () :: ('k dissonance, unit) result)
       \<and> tr_ops t' = tr_ops t \<and> tr_pos t' = tr_pos t + length os"
proof (induction os arbitrary: depth t rest rule: phrase.induct)
  case phrase_cadence
  then have "tr_pos t < length (tr_ops t)" "tr_ops t ! tr_pos t = R_Cadence"
    by (metis append_Cons drop_all leI list.distinct(1), metis append_Cons hd_drop_conv_nth list.sel(1) drop_all leI list.distinct(1))
  then show ?case by (simp add: block_cadence)
next
  case (phrase_branch a b)
  then have pos: "tr_pos t < length (tr_ops t)" "tr_ops t ! tr_pos t = R_Branch"
    by (metis append_Cons drop_all leI list.distinct(1), metis append_Cons hd_drop_conv_nth list.sel(1) drop_all leI list.distinct(1))
  have rest: "drop (Suc (tr_pos t)) (tr_ops t) = a @ b @ rest"
    using phrase_branch.prems pos by (simp add: Cons_nth_drop_Suc [symmetric])
  let ?t1 = "tr_line depth ''si verum tunc {'' (advance t)"
  obtain t1 where t1: "block (depth + 1) ?t1 = (t1, Inr () :: ('k dissonance, unit) result)"
    "tr_ops t1 = tr_ops t" "tr_pos t1 = Suc (tr_pos t) + length a"
    using phrase_branch.IH(1) [of ?t1 "b @ rest" "depth + 1"] rest by auto
  let ?t2 = "tr_line depth ''} aliter {'' t1"
  have "drop (tr_pos t1) (tr_ops t1) = b @ rest"
    unfolding t1(2,3) using rest by (metis add.commute append_eq_conv_conj drop_drop)
  then obtain t2 where t2: "block (depth + 1) ?t2 = (t2, Inr () :: ('k dissonance, unit) result)"
    "tr_ops t2 = tr_ops t" "tr_pos t2 = Suc (tr_pos t) + length a + length b"
    using phrase_branch.IH(2) [of ?t2 rest "depth + 1"] t1(2,3) by auto
  show ?case
    unfolding block_branch [OF pos] t1(1) using t2 by (simp add: t2(1) [simplified])
next
  case (phrase_line op a)
  then have pos: "tr_pos t < length (tr_ops t)" "op = tr_ops t ! tr_pos t"
    by (metis append_Cons drop_all leI list.distinct(1), metis append_Cons hd_drop_conv_nth list.sel(1) drop_all leI list.distinct(1))
  have "drop (Suc (tr_pos t)) (tr_ops t) = a @ rest"
    using phrase_line.prems pos by (simp add: Cons_nth_drop_Suc [symmetric])
  with phrase_line.IH [of "sing_line depth op (advance t)" rest depth]
  show ?case
    unfolding block_line [OF pos phrase_line.hyps(1,2)] by auto
qed

lemma block_whole:
  "(\<exists>t. block depth (transcriber_new mode ops) = (t, Inr () :: ('k dissonance, unit) result)
      \<and> tr_pos t = length ops) \<longleftrightarrow> phrase ops"
proof
  assume "\<exists>t. block depth (transcriber_new mode ops) = (t, Inr () :: ('k dissonance, unit) result) \<and> tr_pos t = length ops"
  then obtain t where t: "block depth (transcriber_new mode ops) = (t, Inr () :: ('k dissonance, unit) result)"
    "tr_pos t = length ops" by blast
  from block_result [OF t(1)] t(2) show "phrase ops" by (auto simp: transcriber_new_def)
next
  assume "phrase ops"
  from block_phrase [OF this, of "transcriber_new mode ops" "[]" depth]
  show "\<exists>t. block depth (transcriber_new mode ops) = (t, Inr () :: ('k dissonance, unit) result) \<and> tr_pos t = length ops"
    by (auto simp: transcriber_new_def)
qed

lemma transcribe_succeeds:
  "(\<exists>text. (transcribe pitches name :: ('k dissonance, string) result) = Inr text) \<longleftrightarrow>
     (\<exists>mode ops. (hear pitches :: ('k dissonance, mode \<times> render_op list) result) = Inr (mode, ops) \<and> phrase ops)"
proof (cases "hear pitches :: ('k dissonance, mode \<times> render_op list) result")
  case (Inl e)
  then show ?thesis by (simp add: transcribe_def)
next
  case (Inr mo)
  obtain mode ops where mo: "mo = (mode, ops)" by (cases mo)
  obtain t r where b: "(block 1 (transcriber_new mode ops) :: transcriber \<times> ('k dissonance, unit) result) = (t, r)"
    by (metis surj_pair)
  have "phrase ops \<longleftrightarrow> r = Inr () \<and> tr_pos t = length ops"
    using block_whole [of 1 mode ops, where 'k = 'k] b by auto
  then show ?thesis
    using Inr mo b by (auto simp: transcribe_def Let_def split: sum.split)
qed

section \<open>Hearing inverts rendering\<close>

lemma rendered_pitch:
  "uint (degree_pitch mode (degree mode op)) - uint (final_pitch (final_of mode)) = degree_offset mode (degree mode op)"
  by (induct mode; induct op; code_simp)

lemma rendered_degree: "degree_of_rel mode (degree_offset mode (degree mode op)) = Some (degree mode op)"
  by (induct mode; induct op; code_simp)

definition dips :: "render_op \<Rightarrow> bool" where
  "dips op \<longleftrightarrow> op = R_Modal \<or> op = R_Resolve \<or> op = R_Branch"

lemma rendered_below:
  "degree_pitch mode (degree mode op) < final_pitch (final_of mode) \<longleftrightarrow> is_plagal mode \<and> dips op"
  by (induct mode; induct op; code_simp)

lemma final_of_final_pitch: "final_of_pitch (final_pitch f) = Some f"
  by (induct f; code_simp)

lemma cadence_pitch: "degree_pitch mode (degree mode R_Cadence) = final_pitch (final_of mode)"
  by (induct mode; code_simp)

lemma hear_ops_rendered:
  "hear_ops mode (final_pitch (final_of mode)) i (map (\<lambda>op. degree_pitch mode (degree mode op)) os) = Inr os"
  by (induction os arbitrary: i) (simp_all add: rendered_pitch rendered_degree degree_op_inverse)

lemma hear_rendered:
  assumes "os \<noteq> []" "last os = R_Cadence" "is_plagal mode \<longleftrightarrow> is_plagal mode \<and> list_ex dips os"
  shows "hear (map (\<lambda>op. degree_pitch mode (degree mode op)) os) = Inr (mode, os)"
proof -
  have last: "last (map (\<lambda>op. degree_pitch mode (degree mode op)) os) = final_pitch (final_of mode)"
    using assms(1,2) by (simp add: last_map cadence_pitch)
  have "list_ex (\<lambda>p. p < final_pitch (final_of mode)) (map (\<lambda>op. degree_pitch mode (degree mode op)) os)
      \<longleftrightarrow> is_plagal mode"
    using assms(3) by (auto simp: list_ex_iff rendered_below)
  then show ?thesis
    using assms(1) by (simp add: hear_def last final_of_final_pitch hear_ops_rendered Let_def)
qed

text \<open>Where a plagal verse keeps above its final: heard as authentic, the two reciting tones swapped.\<close>

definition authentic :: "mode \<Rightarrow> mode" where
  "authentic mode = from_final (final_of mode) False"

fun swap_reciting :: "render_op \<Rightarrow> render_op" where
  "swap_reciting R_Ask = R_Pure"
| "swap_reciting R_Pure = R_Ask"
| "swap_reciting op = op"

lemma plagal_as_authentic:
  "is_plagal mode \<Longrightarrow> \<not> dips op \<Longrightarrow>
   degree_pitch mode (degree mode op) = degree_pitch (authentic mode) (degree (authentic mode) (swap_reciting op))"
proof -
  have "is_plagal mode \<longrightarrow> \<not> dips op \<longrightarrow>
     degree_pitch mode (degree mode op) = degree_pitch (authentic mode) (degree (authentic mode) (swap_reciting op))"
    by (induct mode; induct op; code_simp)
  then show "is_plagal mode \<Longrightarrow> \<not> dips op \<Longrightarrow> ?thesis" by blast
qed

lemma authentic_not_plagal [simp]: "\<not> is_plagal (authentic mode)"
  by (simp add: authentic_def)

lemma hear_undipped:
  assumes "os \<noteq> []" "last os = R_Cadence" "is_plagal mode" "\<not> list_ex dips os"
  shows "hear (map (\<lambda>op. degree_pitch mode (degree mode op)) os) = Inr (authentic mode, map swap_reciting os)"
proof -
  have eq: "map (\<lambda>op. degree_pitch mode (degree mode op)) os
      = map (\<lambda>op. degree_pitch (authentic mode) (degree (authentic mode) op)) (map swap_reciting os)"
    using assms(3,4) by (auto simp: list_ex_iff plagal_as_authentic)
  show ?thesis
    unfolding eq using assms(1,2) by (intro hear_rendered) (auto simp: last_map)
qed

lemma phrase_swap: "phrase os \<Longrightarrow> phrase (map swap_reciting os)"
proof (induction rule: phrase.induct)
  case (phrase_line op a)
  then show ?case by (cases op) (auto intro: phrase.phrase_line)
qed (simp_all add: phrase.phrase_cadence phrase.phrase_branch)

text \<open>Bodies whose spine, in every arm, ends in a cadence, and binds no branch nor cadence.\<close>

fun cadenced :: "expr \<Rightarrow> bool" where
  "cadenced (EBind md m x k) \<longleftrightarrow> classify m \<noteq> R_Cadence \<and> classify m \<noteq> R_Branch \<and> cadenced k"
| "cadenced (EIf c t els) \<longleftrightarrow> cadenced t \<and> cadenced els"
| "cadenced (EReturn md e) \<longleftrightarrow> True"
| "cadenced ENihil \<longleftrightarrow> True"
| "cadenced (EClama e) \<longleftrightarrow> True"
| "cadenced (EPerage e) \<longleftrightarrow> True"
| "cadenced _ \<longleftrightarrow> False"

lemma cadenced_phrase: "cadenced e \<Longrightarrow> phrase (verse_ops e)"
  by (induction e rule: cadenced.induct) (auto intro: phrase.intros)

section \<open>Properties\<close>

text \<open>C23: hearing inverts rendering. The phrase rendered from a verse that ends in a cadence is
  heard as the operations of the verse, in its mode, when the mode is authentic, or plagal and the
  phrase dips below its final.\<close>

theorem hearing_inverts_rendering:
  assumes "verse_ops body \<noteq> []" "last (verse_ops body) = R_Cadence"
    and "is_plagal mode \<Longrightarrow> list_ex dips (verse_ops body)"
  shows "hear (map n_pitch (render_verse body mode voice)) = Inr (mode, verse_ops body)"
  unfolding render_verse_pitches using assms by (intro hear_rendered) auto

text \<open>A plagal verse that never dips below its final is heard in another mode: the authentic
  one, with every \<open>ask\<close> heard as a \<open>pure\<close> and every \<open>pure\<close> as an \<open>ask\<close>.\<close>

theorem undipped_plagal_misheard:
  assumes "verse_ops body \<noteq> []" "last (verse_ops body) = R_Cadence"
    and "is_plagal mode" "\<not> list_ex dips (verse_ops body)"
  shows "hear (map n_pitch (render_verse body mode voice))
    = Inr (from_final (final_of mode) False, map swap_reciting (verse_ops body))"
  using hear_undipped [OF assms] by (simp add: render_verse_pitches authentic_def)

text \<open>C24: a phrase is transcribed into a score exactly when its pitches are heard in a mode and
  their operations are one complete phrase: statements up to a cadence, a branch carrying a phrase
  in each arm, and nothing after.\<close>

theorem transcribed_iff_phrase:
  "(\<exists>text. (transcribe pitches name :: ('k dissonance, string) result) = Inr text) \<longleftrightarrow>
   (\<exists>mode ops. (hear pitches :: ('k dissonance, mode \<times> render_op list) result) = Inr (mode, ops) \<and> phrase ops)"
  by (rule transcribe_succeeds)

text \<open>C25: every verse whose arms all cadence can be sung back: the transcription of its rendering
  succeeds, in any mode.\<close>

theorem rendered_verse_transcribes:
  assumes "cadenced body"
  shows "\<exists>text. (transcribe (map n_pitch (render_verse body mode voice)) name :: ('k dissonance, string) result) = Inr text"
proof -
  let ?os = "verse_ops body"
  have os: "phrase ?os" by (rule cadenced_phrase [OF assms])
  note last = phrase_last [OF os]
  show ?thesis
  proof (cases "is_plagal mode \<and> \<not> list_ex dips ?os")
    case True
    then have "hear (map (\<lambda>op. degree_pitch mode (degree mode op)) ?os)
        = (Inr (authentic mode, map swap_reciting ?os) :: ('k dissonance, mode \<times> render_op list) result)"
      using last by (intro hear_undipped) auto
    then show ?thesis using phrase_swap [OF os] by (auto simp: transcribe_succeeds render_verse_pitches)
  next
    case False
    then have "hear (map (\<lambda>op. degree_pitch mode (degree mode op)) ?os)
        = (Inr (mode, ?os) :: ('k dissonance, mode \<times> render_op list) result)"
      using last by (intro hear_rendered) auto
    then show ?thesis using os by (auto simp: transcribe_succeeds render_verse_pitches)
  qed
qed

section \<open>Witnesses and examples\<close>

text \<open>A body that asks, then writes its state, then cadences.\<close>

definition sung_body :: expr where
  "sung_body = EBind Lydian (EAsk ''G'') ''x'' (EBind Lydian (EPone (EVar ''x'')) ''y'' (EReturn Lydian (EVar ''x'')))"

definition flat_body :: expr where
  "flat_body = EBind Hypodorian (EAsk ''G'') ''x'' (EReturn Hypodorian (EVar ''x''))"

theorem hearing_inverts_rendering_witness:
  "hear (map n_pitch (render_verse sung_body Hypolydian 2)) = Inr (Hypolydian, verse_ops sung_body)"
  by (rule hearing_inverts_rendering) (simp_all add: sung_body_def dips_def)

theorem undipped_plagal_misheard_witness:
  "hear (map n_pitch (render_verse flat_body Hypodorian 2))
     = Inr (from_final (final_of Hypodorian) False, map swap_reciting (verse_ops flat_body))"
  by (rule undipped_plagal_misheard) (simp_all add: flat_body_def dips_def is_plagal_def)

theorem rendered_verse_transcribes_witness:
  "\<exists>text. (transcribe (map n_pitch (render_verse sung_body Hypolydian 2)) ''canto'' :: (unit dissonance, string) result) = Inr text"
  by (rule rendered_verse_transcribes) (simp add: sung_body_def)

text \<open>
  The most recent binder is kept across the arms of a branch: in the phrase branch, arg, cadence,
  cadence the second arm ends with \<open>amen v1\<close>, although \<open>v1\<close> is bound in the first arm only.
\<close>

lemma binder_leaks_into_other_arm:
  "tr_body (fst (block 0 (transcriber_new Dorian [R_Branch, R_Arg, R_Cadence, R_Cadence])
       :: transcriber \<times> (unit dissonance, unit) result))
   = ''si verum tunc {'' @ newline @ ''  v1 <- arg'' @ newline @ ''  amen v1'' @ newline
     @ ''} aliter {'' @ newline @ ''  amen v1'' @ newline @ ''}'' @ newline"
  by code_simp

end
