(* ===== verification/Wakeup.thy ===== *)
theory Wakeup
  imports Prelude
begin

text \<open>
  How a task waits for an interrupt: the protocol that \<open>ScancodeStream::poll_next\<close>,
  \<open>Sleep::poll\<close> and \<open>Refill::poll\<close> share. The task looks at the shared state, registers its
  waker, and looks again before it reports \<open>Pending\<close>; an interrupt handler changes the shared
  state and wakes. Interrupts may come between any two of the task's actions, so each action
  is a step of its own, and a handler (which the single CPU runs to its end) is one step.

  Two crates the kernel uses are not part of the repository, so they are parameters:

  \<^item> \<open>AtomicWaker\<close> of \<open>futures_util\<close>: a record of its three operations; \<open>atomic_waker_ok\<close> is what
    its documentation promises. \<open>register\<close> arms it, \<open>wake\<close> disarms it and wakes the task if it
    was armed, \<open>take\<close> disarms it.
  \<^item> \<open>ArrayQueue\<close> of \<open>crossbeam_queue\<close>: the locale \<open>array_queue\<close>, a bounded first-in first-out
    queue whose \<open>push\<close> fails when it is full.

  The interface \<open>event_source\<close> is what a handler owes the task: if it makes the shared state
  ready, it wakes at least once. Under it no wake-up is lost: a parked task whose event has come is in the
  executor's queue. The keyboard, the timer and the sound card provide the interface.
\<close>

section \<open>The crates\<close>

record 's atomic_waker =
  aw_register :: "'s \<Rightarrow> 's"
  aw_wake :: "'s \<Rightarrow> bool \<times> 's"
  aw_take :: "'s \<Rightarrow> 's"

definition atomic_waker_ok :: "'s atomic_waker \<Rightarrow> ('s \<Rightarrow> bool) \<Rightarrow> bool" where
  "atomic_waker_ok aw armed \<longleftrightarrow>
     (\<forall>s. armed (aw_register aw s))
     \<and> (\<forall>s. fst (aw_wake aw s) = armed s \<and> \<not> armed (snd (aw_wake aw s)))
     \<and> (\<forall>s. \<not> armed (aw_take aw s))"

text \<open>A slot that is full or empty is one.\<close>

definition slot_waker :: "bool atomic_waker" where
  "slot_waker = \<lparr>aw_register = (\<lambda>_. True), aw_wake = (\<lambda>s. (s, False)), aw_take = (\<lambda>_. False)\<rparr>"

lemma slot_waker_ok: "atomic_waker_ok slot_waker (\<lambda>s. s)"
  by (simp add: atomic_waker_ok_def slot_waker_def)

text \<open>\<open>push\<close> returns \<open>None\<close> where the crate returns \<open>Err\<close>: the queue is full and unchanged.\<close>

locale array_queue =
  fixes push :: "'a \<Rightarrow> 'q \<Rightarrow> 'q option" and pop :: "'q \<Rightarrow> ('a \<times> 'q) option"
    and contents :: "'q \<Rightarrow> 'a list" and capacity :: nat
  assumes capacity_pos: "0 < capacity"
    and push_full: "capacity \<le> length (contents q) \<Longrightarrow> push x q = None"
    and push_room: "length (contents q) < capacity \<Longrightarrow> \<exists>q'. push x q = Some q' \<and> contents q' = contents q @ [x]"
    and pop_empty: "contents q = [] \<Longrightarrow> pop q = None"
    and pop_first: "contents q = y # ys \<Longrightarrow> \<exists>q'. pop q = Some (y, q') \<and> contents q' = ys"
begin

lemma push_cases:
  "(push x q = None \<and> capacity \<le> length (contents q)) \<or>
   (\<exists>q'. push x q = Some q' \<and> contents q' = contents q @ [x] \<and> length (contents q) < capacity)"
  using push_full [of q x] push_room [of q x] by (cases "length (contents q) < capacity") auto

lemma pop_cases:
  "(pop q = None \<and> contents q = []) \<or> (\<exists>y q'. pop q = Some (y, q') \<and> contents q = y # contents q')"
  using pop_empty [of q] pop_first [of q] by (cases "contents q") fastforce+

end

definition list_push :: "nat \<Rightarrow> 'a \<Rightarrow> 'a list \<Rightarrow> 'a list option" where
  "list_push n x q = (if length q < n then Some (q @ [x]) else None)"

definition list_pop :: "'a list \<Rightarrow> ('a \<times> 'a list) option" where
  "list_pop q = (case q of [] \<Rightarrow> None | x # xs \<Rightarrow> Some (x, xs))"

interpretation list_queue: array_queue "list_push 100" list_pop "\<lambda>q. q" 100
  by unfold_locales (simp_all add: list_push_def list_pop_def)

section \<open>The protocol\<close>

datatype waiting = Look | Register | Look_again | Untake | Parked | Returned

record ('h, 's) waiter =
  w_shared :: 'h
  w_slot :: 's
  w_woken :: bool
  w_at :: waiting

definition waiter_new :: "'h \<Rightarrow> 's \<Rightarrow> ('h, 's) waiter" where
  "waiter_new h s = \<lparr>w_shared = h, w_slot = s, w_woken = False, w_at = Look\<rparr>"

text \<open>
  What a poll is made of: the test on the shared state, what a successful poll does to it, and
  whether the second look empties the slot when it succeeds (\<open>WAKER.take()\<close>).
\<close>

record 'h look =
  look_ready :: "'h \<Rightarrow> bool"
  look_take :: "'h \<Rightarrow> 'h"
  look_untake :: bool

definition poll_step :: "'s atomic_waker \<Rightarrow> 'h look \<Rightarrow> ('h, 's) waiter \<Rightarrow> ('h, 's) waiter" where
  "poll_step aw l w =
     (let h = w_shared w in
      case w_at w of
        Look \<Rightarrow> if look_ready l h then w\<lparr>w_shared := look_take l h, w_at := Returned\<rparr>
                else w\<lparr>w_at := Register\<rparr>
      | Register \<Rightarrow> w\<lparr>w_slot := aw_register aw (w_slot w), w_at := Look_again\<rparr>
      | Look_again \<Rightarrow>
          if look_ready l h
          then w\<lparr>w_shared := look_take l h, w_at := (if look_untake l then Untake else Returned)\<rparr>
          else w\<lparr>w_at := Parked\<rparr>
      | Untake \<Rightarrow> w\<lparr>w_slot := aw_take aw (w_slot w), w_at := Returned\<rparr>
      | Parked \<Rightarrow> if w_woken w then w\<lparr>w_woken := False, w_at := Look\<rparr> else w
      | Returned \<Rightarrow> w\<lparr>w_at := Look\<rparr>)"

text \<open>One interrupt: the handler's effect on the shared state, and how often it called \<open>wake\<close>.\<close>

fun wake_times :: "'s atomic_waker \<Rightarrow> nat \<Rightarrow> bool \<times> 's \<Rightarrow> bool \<times> 's" where
  "wake_times aw 0 p = p"
| "wake_times aw (Suc n) (woken, s) =
     (case aw_wake aw s of (woke, s') \<Rightarrow> wake_times aw n (woken \<or> woke, s'))"

definition interrupt_step ::
  "'s atomic_waker \<Rightarrow> ('e \<Rightarrow> 'h \<Rightarrow> 'h \<times> nat) \<Rightarrow> 'e \<Rightarrow> ('h, 's) waiter \<Rightarrow> ('h, 's) waiter" where
  "interrupt_step aw handler e w =
     (case handler e (w_shared w) of (h, wakes) \<Rightarrow>
        case wake_times aw wakes (w_woken w, w_slot w) of (woken, s) \<Rightarrow>
          w\<lparr>w_shared := h, w_slot := s, w_woken := woken\<rparr>)"

text \<open>Every interleaving of the two.\<close>

inductive reach ::
  "'s atomic_waker \<Rightarrow> 'h look \<Rightarrow> ('e \<Rightarrow> 'h \<Rightarrow> 'h \<times> nat) \<Rightarrow> ('h, 's) waiter \<Rightarrow> ('h, 's) waiter \<Rightarrow> bool"
  for aw l handler w0 where
  reach_start: "reach aw l handler w0 w0"
| reach_poll: "reach aw l handler w0 w \<Longrightarrow> reach aw l handler w0 (poll_step aw l w)"
| reach_interrupt: "reach aw l handler w0 w \<Longrightarrow> reach aw l handler w0 (interrupt_step aw handler e w)"

section \<open>The interface\<close>

definition waiter_safe :: "('s \<Rightarrow> bool) \<Rightarrow> 'h look \<Rightarrow> ('h, 's) waiter \<Rightarrow> bool" where
  "waiter_safe armed l w \<longleftrightarrow>
     (w_at w = Look_again \<longrightarrow> armed (w_slot w) \<or> w_woken w)
     \<and> (w_at w = Parked \<longrightarrow> w_woken w \<or> (armed (w_slot w) \<and> \<not> look_ready l (w_shared w)))"

lemma safe_poll: "atomic_waker_ok aw armed \<Longrightarrow> waiter_safe armed l w \<Longrightarrow> waiter_safe armed l (poll_step aw l w)"
  by (cases "w_at w") (auto simp: waiter_safe_def poll_step_def Let_def atomic_waker_ok_def)

lemma safe_new: "waiter_safe armed l (waiter_new h s)"
  by (simp add: waiter_safe_def waiter_new_def)

lemma wake_times_ok:
  assumes "atomic_waker_ok aw armed"
  shows "wake_times aw n (woken, s) = (woken', s') \<Longrightarrow>
    woken' = (woken \<or> (0 < n \<and> armed s)) \<and> (n = 0 \<longrightarrow> s' = s)"
proof (induction n arbitrary: woken s)
  case (Suc n)
  obtain woke t where t: "aw_wake aw s = (woke, t)" by (metis surj_pair)
  then have "woke = armed s" "\<not> armed t" using assms by (metis atomic_waker_ok_def fst_conv snd_conv)+
  then show ?case using Suc.IH [of "woken \<or> woke" t] Suc.prems t by auto
qed simp

locale event_source =
  fixes l :: "'h look" and handler :: "'e \<Rightarrow> 'h \<Rightarrow> 'h \<times> nat"
  assumes ready_wakes: "handler e h = (h', wakes) \<Longrightarrow> look_ready l h' \<Longrightarrow> look_ready l h \<or> 0 < wakes"
begin

lemma safe_interrupt:
  assumes "atomic_waker_ok aw armed" "waiter_safe armed l w"
  shows "waiter_safe armed l (interrupt_step aw handler e w)"
proof -
  obtain h' wakes where h: "handler e (w_shared w) = (h', wakes)" by (metis surj_pair)
  obtain woken s where s: "wake_times aw wakes (w_woken w, w_slot w) = (woken, s)" by (metis surj_pair)
  show ?thesis
    using assms(2) ready_wakes [OF h] wake_times_ok [OF assms(1) s] h s
    by (cases "wakes = 0") (auto simp: waiter_safe_def interrupt_step_def)
qed

lemma reach_safe:
  assumes "reach aw l handler (waiter_new h s) w" "atomic_waker_ok aw armed"
  shows "waiter_safe armed l w"
  using assms(1) by induction (simp_all add: safe_new safe_poll safe_interrupt assms(2))

lemma no_lost_wakeup:
  assumes "reach aw l handler (waiter_new h s) w" "atomic_waker_ok aw armed"
    "w_at w = Parked" "look_ready l (w_shared w)"
  shows "w_woken w"
  using reach_safe [OF assms(1,2)] assms(3,4) by (simp add: waiter_safe_def)

end

end
