(* ===== verification/Keyboard.thy ===== *)
theory Keyboard
  imports Wakeup "HOL-Library.Word"
begin

text \<open>
  The keyboard's and the timer's halves of the wake-up protocol: \<open>task/keyboard.rs\<close>,
  \<open>task/timer.rs\<close> and the timer and keyboard handlers of \<open>interrupts.rs\<close>.

  The i8042 controller is what the ports answer: \<open>controller_reads\<close> lists, for each turn of the
  loop of \<open>drain_controller\<close>, the status byte and the data byte behind it. A list that ends
  before a status byte without the output-full bit is a controller that never empties: the
  drain does not return, and its value is \<open>None\<close>. The scancode queue is \<open>None\<close> until
  \<open>ScancodeStream::new\<close> has run. Both handlers provide the interface \<open>event_source\<close>.
\<close>

unbundle bit_operations_syntax

section \<open>Draining the controller\<close>

type_synonym controller_reads = "(8 word \<times> 8 word) list"

record 'q keyboard =
  kb_queue :: "'q option"
  kb_wakes :: nat
  kb_dropped :: nat

fun drain_controller ::
  "(8 word \<Rightarrow> 'q \<Rightarrow> 'q option) \<Rightarrow> controller_reads \<Rightarrow> 'q keyboard \<Rightarrow> 'q keyboard option" where
  "drain_controller push [] k = None"
| "drain_controller push ((status, byte) # reads) k =
     (if status AND 0x01 = 0 then Some k
      else if status AND 0x20 \<noteq> 0 then drain_controller push reads k
      else case kb_queue k of
             None \<Rightarrow> drain_controller push reads k
           | Some q \<Rightarrow> (case push byte q of
               None \<Rightarrow> drain_controller push reads (k\<lparr>kb_dropped := kb_dropped k + 1\<rparr>)
             | Some q' \<Rightarrow> drain_controller push reads
                            (k\<lparr>kb_queue := Some q', kb_wakes := kb_wakes k + 1\<rparr>)))"

text \<open>\<open>None\<close> is the panic of \<open>expect\<close>: the stream exists already.\<close>

definition scancode_stream_new :: "(nat \<Rightarrow> 'q) \<Rightarrow> 'q option \<Rightarrow> 'q option" where
  "scancode_stream_new new_queue cell = (case cell of None \<Rightarrow> Some (new_queue 100) | Some _ \<Rightarrow> None)"

text \<open>The looks of \<open>poll_next\<close>: pop, register, pop again, and \<open>WAKER.take()\<close> on a late success.\<close>

definition scancode_look :: "('q \<Rightarrow> (8 word \<times> 'q) option) \<Rightarrow> 'q look" where
  "scancode_look pop =
     \<lparr>look_ready = (\<lambda>q. pop q \<noteq> None),
      look_take = (\<lambda>q. case pop q of Some (_, q') \<Rightarrow> q' | None \<Rightarrow> q),
      look_untake = True\<rparr>"

text \<open>
  One keyboard interrupt, or one timer tick, from the scancode task's side: a drain that
  returns. (One that does not return is not an interrupt the task lives to see.)
\<close>

definition keyboard_interrupt_handler ::
  "(8 word \<Rightarrow> 'q \<Rightarrow> 'q option) \<Rightarrow> controller_reads \<Rightarrow> 'q \<Rightarrow> 'q \<times> nat" where
  "keyboard_interrupt_handler push reads q =
     (case drain_controller push reads \<lparr>kb_queue = Some q, kb_wakes = 0, kb_dropped = 0\<rparr> of
        Some k \<Rightarrow> (case kb_queue k of Some q' \<Rightarrow> (q', kb_wakes k) | None \<Rightarrow> (q, 0))
      | None \<Rightarrow> (q, 0))"

section \<open>What a drain does\<close>

text \<open>The keyboard's bytes up to the first empty status; \<open>None\<close> when there is no such status.\<close>

fun keyboard_bytes :: "controller_reads \<Rightarrow> 8 word list option" where
  "keyboard_bytes [] = None"
| "keyboard_bytes ((status, byte) # reads) =
     (if status AND 0x01 = 0 then Some []
      else if status AND 0x20 \<noteq> 0 then keyboard_bytes reads
      else map_option ((#) byte) (keyboard_bytes reads))"

lemma drain_hangs: "keyboard_bytes reads = None \<Longrightarrow> drain_controller push reads k = None"
  by (induction reads arbitrary: k rule: keyboard_bytes.induct)
    (auto split: if_splits option.splits)

lemma drain_without_stream:
  "kb_queue k = None \<Longrightarrow> drain_controller push reads k = map_option (\<lambda>_. k) (keyboard_bytes reads)"
  by (induction reads rule: keyboard_bytes.induct) (auto simp: option.map_comp comp_def)

locale byte_queue = array_queue push pop contents capacity
  for push :: "8 word \<Rightarrow> 'q \<Rightarrow> 'q option" and pop :: "'q \<Rightarrow> (8 word \<times> 'q) option"
    and contents :: "'q \<Rightarrow> 8 word list" and capacity :: nat
begin

lemma drain_fills:
  assumes "keyboard_bytes reads = Some bs" "kb_queue k = Some q"
  shows "\<exists>q'. drain_controller push reads k =
      Some (k\<lparr>kb_queue := Some q',
              kb_wakes := kb_wakes k + min (length bs) (capacity - length (contents q)),
              kb_dropped := kb_dropped k + (length bs - (capacity - length (contents q)))\<rparr>)
    \<and> contents q' = contents q @ take (capacity - length (contents q)) bs"
  using assms
proof (induction reads arbitrary: k q bs rule: keyboard_bytes.induct)
  case (2 status byte reads)
  consider "status AND 0x01 = 0" | "status AND 0x01 \<noteq> 0" "status AND 0x20 \<noteq> 0"
    | cs where "status AND 0x01 \<noteq> 0" "status AND 0x20 = 0" "keyboard_bytes reads = Some cs" "bs = byte # cs"
    using "2.prems"(1) by (auto split: if_splits)
  then show ?case
  proof cases
    case 1
    then show ?thesis using "2.prems" by (intro exI [of _ q]) (cases k, simp)
  next
    case 2
    then show ?thesis using "2.IH"(1) [of bs k q] "2.prems" by simp
  next
    case (3 cs)
    show ?thesis
    proof (cases "length (contents q) < capacity")
      case True
      then obtain q1 where q1: "push byte q = Some q1" "contents q1 = contents q @ [byte]"
        using push_room by blast
      have n: "capacity - length (contents q) = Suc (capacity - length (contents q1))"
        using True q1(2) by simp
      show ?thesis
        using "2.IH"(2) [of cs "k\<lparr>kb_queue := Some q1, kb_wakes := kb_wakes k + 1\<rparr>" q1]
          3 "2.prems" q1 n by auto
    next
      case False
      then have full: "push byte q = None" "capacity - length (contents q) = 0"
        using push_full by auto
      show ?thesis
        using "2.IH"(2) [of cs "k\<lparr>kb_dropped := kb_dropped k + 1\<rparr>" q] 3 "2.prems" full by auto
    qed
  qed
qed simp

lemma keyboard_interrupt_handler_eq:
  assumes "keyboard_bytes reads = Some bs"
  shows "\<exists>q'. keyboard_interrupt_handler push reads q =
      (q', min (length bs) (capacity - length (contents q)))
    \<and> contents q' = contents q @ take (capacity - length (contents q)) bs"
  using drain_fills [OF assms, of "\<lparr>kb_queue = Some q, kb_wakes = 0, kb_dropped = 0\<rparr>" q]
  by (auto simp: keyboard_interrupt_handler_def)

lemma keyboard_interrupt_handler_hangs:
  "keyboard_bytes reads = None \<Longrightarrow> keyboard_interrupt_handler push reads q = (q, 0)"
  by (simp add: keyboard_interrupt_handler_def drain_hangs)

lemma look_ready_scancode: "look_ready (scancode_look pop) q = (contents q \<noteq> [])"
  using pop_cases [of q] by (auto simp: scancode_look_def)

end

sublocale byte_queue < scancodes: event_source "scancode_look pop" "keyboard_interrupt_handler push"
proof
  fix reads q q' n
  assume h: "keyboard_interrupt_handler push reads q = (q', n)" and r: "look_ready (scancode_look pop) q'"
  show "look_ready (scancode_look pop) q \<or> 0 < n"
  proof (cases "keyboard_bytes reads")
    case None
    then show ?thesis using h r by (simp add: keyboard_interrupt_handler_hangs)
  next
    case (Some bs)
    then show ?thesis
      using keyboard_interrupt_handler_eq [OF Some, of q] h r by (auto simp: look_ready_scancode)
  qed
qed

text \<open>The queue of the code holds a hundred bytes.\<close>

interpretation scancode_queue: byte_queue "list_push 100" list_pop "\<lambda>q. q" 100
  by (rule byte_queue.intro) (rule list_queue.array_queue_axioms)

context byte_queue
begin

lemmas parked_is_woken = scancodes.no_lost_wakeup

end

section \<open>The timer\<close>

text \<open>
  \<open>TICKS\<close> is a 64-bit atomic counter, and \<open>fetch_add\<close> wraps. The addition in \<open>sleep_ms\<close> wraps
  too in a release build; the theorems assume it does not.
\<close>

definition ms_per_tick :: "64 word" where
  "ms_per_tick = 55"

definition div_ceil :: "64 word \<Rightarrow> 64 word \<Rightarrow> 64 word" where
  "div_ceil a b = (if a mod b = 0 then a div b else a div b + 1)"

definition sleep_ms :: "64 word \<Rightarrow> 64 word \<Rightarrow> 64 word" where
  "sleep_ms ticks ms = ticks + max (div_ceil ms ms_per_tick) 1"

definition sleep_look :: "64 word \<Rightarrow> 64 word look" where
  "sleep_look target = \<lparr>look_ready = (\<lambda>ticks. target \<le> ticks), look_take = (\<lambda>ticks. ticks), look_untake = False\<rparr>"

definition timer_interrupt_handler :: "unit \<Rightarrow> 64 word \<Rightarrow> 64 word \<times> nat" where
  "timer_interrupt_handler _ ticks = (ticks + 1, 1)"

interpretation timer: event_source "sleep_look target" timer_interrupt_handler
  by unfold_locales (simp add: timer_interrupt_handler_def)

lemma ceil_55:
  fixes m :: int
  shows "m mod 55 = 0 \<Longrightarrow> (m + 54) div 55 = m div 55"
    and "m mod 55 \<noteq> 0 \<Longrightarrow> (m + 54) div 55 = m div 55 + 1"
proof -
  obtain q r where m: "m = 55 * q + r" "0 \<le> r" "r < 55"
    by (metis mult_div_mod_eq pos_mod_bound pos_mod_sign zero_less_numeral)
  then have q: "m div 55 = q" "m mod 55 = r"
    using int_div_pos_eq [of m 55 q r] int_mod_pos_eq [of m 55 q r] by simp_all
  show "(m + 54) div 55 = m div 55" if "m mod 55 = 0"
    using int_div_pos_eq [of "m + 54" 55 q 54] m q that by simp
  show "(m + 54) div 55 = m div 55 + 1" if "m mod 55 \<noteq> 0"
    using int_div_pos_eq [of "m + 54" 55 "q + 1" "r - 1"] m q that by simp
qed

lemma ceil_55_less: "55 * n < max m 1 \<Longrightarrow> n < max ((m + 54) div 55) (1 :: int)"
proof (cases "m \<le> 1")
  case False
  assume "55 * n < max m 1"
  then have "(n + 1) * 55 \<le> m + 54" using False by simp
  then have "n + 1 \<le> (m + 54) div 55" using zdiv_mono1 [of "(n + 1) * 55" "m + 54" 55] by simp
  then show ?thesis by simp
qed simp

lemma sleep_length:
  assumes "uint now + uint ms div 55 + 1 < 2 ^ 64"
  shows "uint (sleep_ms now ms) = uint now + max ((uint ms + 54) div 55) 1"
proof -
  have d: "uint (ms div 55) = uint ms div 55" "uint (ms mod 55) = uint ms mod 55"
    by (simp_all add: uint_div uint_mod)
  have b: "uint ms < 2 ^ 64" using uint_lt2p [of ms] by simp
  have c: "uint (div_ceil ms ms_per_tick) = (uint ms + 54) div 55"
  proof (cases "ms mod 55 = 0")
    case True
    then have "uint ms mod 55 = 0" unfolding d(2) [symmetric] by simp
    with True show ?thesis by (simp add: div_ceil_def ms_per_tick_def ceil_55(1) d(1))
  next
    case False
    then have "uint ms mod 55 \<noteq> 0" unfolding d(2) [symmetric] by (simp only: uint_0_iff not_False_eq_True)
    moreover have "uint (ms div 55 + 1) = uint ms div 55 + 1"
      unfolding d(1) [symmetric] using b d(1) by (subst uint_plus_if') simp
    ultimately show ?thesis using False
      by (simp only: div_ceil_def ms_per_tick_def ceil_55(2) if_False simp_thms)
  qed
  have m: "uint (max (div_ceil ms ms_per_tick) 1) = max ((uint ms + 54) div 55) 1"
    using c by (simp add: max_def word_le_def)
  show ?thesis
    using assms b m pos_imp_zdiv_nonneg_iff [of 55 "uint ms"] unfolding sleep_ms_def by (subst uint_plus_if') (auto simp: max_def)
qed

text \<open>A sleeper's life as a list of events: \<open>True\<close> is a tick, \<open>False\<close> an action of its own.\<close>

fun sleeper_run :: "'s atomic_waker \<Rightarrow> 64 word \<Rightarrow> bool list \<Rightarrow> (64 word, 's) waiter \<Rightarrow> (64 word, 's) waiter" where
  "sleeper_run aw target [] w = w"
| "sleeper_run aw target (tick # es) w =
     sleeper_run aw target es
       (if tick then interrupt_step aw timer_interrupt_handler () w else poll_step aw (sleep_look target) w)"

lemma tick_shared:
  "w_shared (interrupt_step aw timer_interrupt_handler () w) = w_shared w + 1"
  "w_at (interrupt_step aw timer_interrupt_handler () w) = w_at w"
  by (simp_all add: interrupt_step_def timer_interrupt_handler_def split: prod.splits)

lemma sleeper_poll_shared: "w_shared (poll_step aw (sleep_look target) w) = w_shared w"
  by (simp add: poll_step_def sleep_look_def Let_def split: waiting.splits)

lemma sleeper_poll_early:
  "w_shared w < target \<Longrightarrow> w_at w \<notin> {Untake, Returned} \<Longrightarrow>
   w_at (poll_step aw (sleep_look target) w) \<notin> {Untake, Returned}"
  by (cases "w_at w") (auto simp: poll_step_def sleep_look_def Let_def)

lemma sleeper_early:
  "uint (w_shared w) + int (length (filter id es)) < uint target \<Longrightarrow> w_at w \<notin> {Untake, Returned} \<Longrightarrow>
   w_at (sleeper_run aw target es w) \<notin> {Untake, Returned}"
proof (induction es arbitrary: w)
  case (Cons e es)
  let ?w = "if e then interrupt_step aw timer_interrupt_handler () w else poll_step aw (sleep_look target) w"
  have lt: "uint target < 2 ^ 64" using uint_lt2p [of target] by simp
  have "uint (w_shared ?w) \<le> uint (w_shared w) + (if e then 1 else 0)"
    using Cons.prems(1) lt by (auto simp: tick_shared sleeper_poll_shared uint_plus_if')
  moreover have "w_at ?w \<notin> {Untake, Returned}"
  proof (cases e)
    case False
    have "w_shared w < target" using Cons.prems(1) by (simp add: word_less_def)
    then show ?thesis using sleeper_poll_early [OF _ Cons.prems(2)] False by simp
  qed (use Cons.prems(2) in \<open>simp add: tick_shared\<close>)
  ultimately show ?case using Cons.IH [of ?w] Cons.prems(1) by (auto split: if_splits)
qed simp

section \<open>The properties\<close>

text \<open>C26: A drain that ends reads every byte the controller held. The keyboard's bytes join the
  queue in order until it is full, each waking the task; the rest are dropped, and counted in
  the warnings; bytes of the mouse never reach the queue.
\<close>

lemma drain_keeps_every_byte_it_can:
  assumes "array_queue push pop contents capacity" "keyboard_bytes reads = Some bs"
  shows "\<exists>q' wakes dropped.
    drain_controller push reads \<lparr>kb_queue = Some q, kb_wakes = 0, kb_dropped = 0\<rparr>
      = Some \<lparr>kb_queue = Some q', kb_wakes = wakes, kb_dropped = dropped\<rparr>
    \<and> contents q' = contents q @ take (capacity - length (contents q)) bs
    \<and> wakes = min (length bs) (capacity - length (contents q))
    \<and> wakes + dropped = length bs"
  using byte_queue.drain_fills [OF byte_queue.intro [OF assms(1)] assms(2),
      of "\<lparr>kb_queue = Some q, kb_wakes = 0, kb_dropped = 0\<rparr>" q]
  by auto

lemma drain_keeps_every_byte_it_can_witness:
  "\<exists>q' wakes dropped.
    drain_controller (list_push 100) [(0x1D, 0x2A), (0x21, 0x09), (0x01, 0xAA), (0x1C, 0)]
        \<lparr>kb_queue = Some [], kb_wakes = 0, kb_dropped = 0\<rparr>
      = Some \<lparr>kb_queue = Some q', kb_wakes = wakes, kb_dropped = dropped\<rparr>
    \<and> q' = [0x2A, 0xAA] \<and> wakes = 2 \<and> wakes + dropped = 2"
  using drain_keeps_every_byte_it_can [OF list_queue.array_queue_axioms,
      of "[(0x1D, 0x2A), (0x21, 0x09), (0x01, 0xAA), (0x1C, 0)]" "[0x2A, 0xAA]" "[]"]
  by auto

text \<open>C27: No keystroke is slept through. Whatever the order of the scancode task's actions, the
  keyboard interrupts and the timer ticks, a task parked while the queue holds a scancode has
  been woken, and its next look returns the oldest scancode and leaves the others.
\<close>

lemma keyboard_never_sleeps_on_input:
  assumes "array_queue push pop contents capacity" "atomic_waker_ok aw armed"
    and "reach aw (scancode_look pop) (keyboard_interrupt_handler push) (waiter_new q s) w"
    and "w_at w = Parked" "contents (w_shared w) = b # bs"
  shows "w_woken w \<and> pop (w_shared w) \<noteq> None \<and>
    (let w' = poll_step aw (scancode_look pop) (poll_step aw (scancode_look pop) w)
     in w_at w' = Returned \<and> contents (w_shared w') = bs)"
proof -
  have bq: "byte_queue push pop contents capacity" using assms(1) by (rule byte_queue.intro)
  have ready: "look_ready (scancode_look pop) (w_shared w)"
    using byte_queue.look_ready_scancode [OF bq] assms(5) by simp
  have woken: "w_woken w"
    by (rule byte_queue.parked_is_woken [OF bq assms(3,2,4) ready])
  then show ?thesis
    using array_queue.pop_first [OF assms(1) assms(5)] assms(4)
    by (auto simp: poll_step_def scancode_look_def Let_def)
qed

lemma keyboard_never_sleeps_on_input_witness:
  "let l = scancode_look list_pop; p = poll_step slot_waker l;
       w = interrupt_step slot_waker (keyboard_interrupt_handler (list_push 100))
             [(0x1D, 0x2A), (0x1C, 0)] (p (p (p (waiter_new [] False))))
   in w_woken w \<and> w_at (p (p w)) = Returned \<and> w_shared (p (p w)) = []"
proof -
  let ?p = "poll_step slot_waker (scancode_look list_pop)"
  let ?h = "keyboard_interrupt_handler (list_push 100)"
  let ?w = "interrupt_step slot_waker ?h [(0x1D, 0x2A), (0x1C, 0)] (?p (?p (?p (waiter_new [] False))))"
  have "reach slot_waker (scancode_look list_pop) ?h (waiter_new [] False) ?w"
    by (intro reach_start reach_poll reach_interrupt)
  moreover have "w_at ?w = Parked" "w_shared ?w = [0x2A]"
    by (simp_all add: waiter_new_def poll_step_def scancode_look_def interrupt_step_def
        keyboard_interrupt_handler_def slot_waker_def list_pop_def list_push_def)
  ultimately show ?thesis
    using keyboard_never_sleeps_on_input [OF list_queue.array_queue_axioms slot_waker_ok]
    by (simp add: Let_def)
qed

text \<open>C28: A sleep lasts. If the tick counter does not overflow, \<open>sleep_ms ms\<close> aims at a tick that
  is the millisecond count rounded up to ticks of 55 ms, one at least, after now; with fewer
  ticks than that, in any interleaving, the sleep has not returned.
\<close>

lemma sleep_is_not_early:
  assumes "uint now + uint ms div 55 + 1 < 2 ^ 64"
    and "55 * int (length (filter id es)) < max (uint ms) 1"
  shows "w_at (sleeper_run aw (sleep_ms now ms) es (waiter_new now s)) \<noteq> Returned"
proof -
  have "int (length (filter id es)) < max ((uint ms + 54) div 55) 1"
    by (rule ceil_55_less [OF assms(2)])
  then show ?thesis
    using sleeper_early [of "waiter_new now s" es "sleep_ms now ms" aw] sleep_length [OF assms(1)]
    by (simp add: waiter_new_def)
qed

lemma sleep_is_not_early_witness:
  "w_at (sleeper_run slot_waker (sleep_ms 5 100) [False, False, True, False, False] (waiter_new 5 False))
     \<noteq> Returned"
  by (rule sleep_is_not_early) simp_all

text \<open>A sleep ends. A sleeper parked when the counter has reached its target has been woken by
  the timer, and returns at its next look.
\<close>

lemma sleep_is_woken:
  assumes "atomic_waker_ok aw armed"
    and "reach aw (sleep_look target) timer_interrupt_handler (waiter_new now s) w"
    and "w_at w = Parked" "target \<le> w_shared w"
  shows "w_woken w \<and> w_at (poll_step aw (sleep_look target) (poll_step aw (sleep_look target) w)) = Returned"
proof -
  have "w_woken w"
    using timer.no_lost_wakeup [OF assms(2,1,3)] assms(4) by (simp add: sleep_look_def)
  then show ?thesis using assms(3,4) by (simp add: poll_step_def sleep_look_def Let_def)
qed

lemma sleep_is_woken_witness:
  "let l = sleep_look 6; p = poll_step slot_waker l;
       w = interrupt_step slot_waker timer_interrupt_handler () (p (p (p (waiter_new 5 False))))
   in w_woken w \<and> w_at (p (p w)) = Returned"
proof -
  let ?p = "poll_step slot_waker (sleep_look 6)"
  let ?w = "interrupt_step slot_waker timer_interrupt_handler () (?p (?p (?p (waiter_new 5 False))))"
  have "reach slot_waker (sleep_look 6) timer_interrupt_handler (waiter_new 5 False) ?w"
    by (intro reach_start reach_poll reach_interrupt)
  moreover have "w_at ?w = Parked" "6 \<le> w_shared ?w"
    by (simp_all add: waiter_new_def poll_step_def sleep_look_def interrupt_step_def
        timer_interrupt_handler_def slot_waker_def)
  ultimately show ?thesis
    using sleep_is_woken [OF slot_waker_ok] by (simp add: Let_def)
qed

end
