(* ===== verification/Executor.thy ===== *)
theory Executor
  imports Wakeup "HOL-Library.Word"
begin

text \<open>
  The executor of \<open>task/executor.rs\<close> and the tasks of \<open>task/mod.rs\<close>. A future is a value of any
  type with a \<open>poll\<close> function: given the task's waker it returns the future after the poll, the
  wakers that were called while it ran (the task's own, other tasks', interrupt handlers'), and
  whether it is ready. A waker is the identifier of the task it wakes, as in \<open>TaskWaker\<close>. The
  queue is any \<open>array_queue\<close>. \<open>None\<close> is a panic.
\<close>

section \<open>Tasks\<close>

type_synonym task_id = "64 word"

definition next_task_id :: "task_id \<Rightarrow> task_id \<times> task_id" where
  "next_task_id counter = (counter, counter + 1)"

type_synonym 'f polling = "task_id \<Rightarrow> 'f \<Rightarrow> 'f \<times> task_id list \<times> bool"

record task =
  yielded :: bool

definition yield_now :: task where
  "yield_now = \<lparr>yielded = False\<rparr>"

definition yield_poll :: "task polling" where
  "yield_poll waker y =
     (if yielded y then (y, [], True) else (y\<lparr>yielded := True\<rparr>, [waker], False))"

section \<open>The executor\<close>

record ('f, 'q) executor =
  tasks :: "task_id \<rightharpoonup> 'f"
  task_queue :: 'q
  waker_cache :: "task_id \<rightharpoonup> task_id"

definition executor_new :: "(nat \<Rightarrow> 'q) \<Rightarrow> ('f, 'q) executor" where
  "executor_new new_queue = \<lparr>tasks = Map.empty, task_queue = new_queue 100, waker_cache = Map.empty\<rparr>"

definition spawn :: "(task_id \<Rightarrow> 'q \<Rightarrow> 'q option) \<Rightarrow> task_id \<Rightarrow> 'f \<Rightarrow> ('f, 'q) executor \<Rightarrow> ('f, 'q) executor option" where
  "spawn push i f ex =
     (case tasks ex i of
        Some _ \<Rightarrow> None
      | None \<Rightarrow> (case push i (task_queue ex) of
          None \<Rightarrow> None
        | Some q \<Rightarrow> Some (ex\<lparr>tasks := (tasks ex)(i \<mapsto> f), task_queue := q\<rparr>)))"

text \<open>\<open>wake_task\<close> for each waker called, in order.\<close>

fun wake_tasks :: "(task_id \<Rightarrow> 'q \<Rightarrow> 'q option) \<Rightarrow> task_id list \<Rightarrow> 'q \<Rightarrow> 'q option" where
  "wake_tasks push [] q = Some q"
| "wake_tasks push (i # is) q = (case push i q of None \<Rightarrow> None | Some q' \<Rightarrow> wake_tasks push is q')"

definition cached_waker :: "task_id \<Rightarrow> (task_id \<rightharpoonup> task_id) \<Rightarrow> task_id \<times> (task_id \<rightharpoonup> task_id)" where
  "cached_waker i cache = (case cache i of Some w \<Rightarrow> (w, cache) | None \<Rightarrow> (i, cache(i \<mapsto> i)))"

text \<open>One turn of the loop of \<open>run_ready_tasks\<close>, for the identifier just popped.\<close>

definition run_task ::
  "(task_id \<Rightarrow> 'q \<Rightarrow> 'q option) \<Rightarrow> 'f polling \<Rightarrow> task_id \<Rightarrow> ('f, 'q) executor \<Rightarrow> ('f, 'q) executor option" where
  "run_task push poll i ex =
     (case tasks ex i of
        None \<Rightarrow> Some ex
      | Some f \<Rightarrow>
          (case cached_waker i (waker_cache ex) of (w, cache) \<Rightarrow>
             (case poll w f of (f', woken, ready) \<Rightarrow>
                (case wake_tasks push woken (task_queue ex) of
                   None \<Rightarrow> None
                 | Some q \<Rightarrow>
                     Some (if ready
                           then ex\<lparr>tasks := (tasks ex)(i := None), task_queue := q, waker_cache := cache(i := None)\<rparr>
                           else ex\<lparr>tasks := (tasks ex)(i \<mapsto> f'), task_queue := q, waker_cache := cache\<rparr>)))))"

datatype 'e turn = Idle | Turned task_id 'e | Panicked

definition run_turn ::
  "(task_id \<Rightarrow> 'q \<Rightarrow> 'q option) \<Rightarrow> ('q \<Rightarrow> (task_id \<times> 'q) option) \<Rightarrow> 'f polling \<Rightarrow>
   ('f, 'q) executor \<Rightarrow> ('f, 'q) executor turn" where
  "run_turn push pop poll ex =
     (case pop (task_queue ex) of
        None \<Rightarrow> Idle
      | Some (i, q) \<Rightarrow>
          (case run_task push poll i (ex\<lparr>task_queue := q\<rparr>) of
             None \<Rightarrow> Panicked
           | Some ex' \<Rightarrow> Turned i ex'))"

text \<open>
  \<open>run_ready_tasks\<close>: tasks that keep waking themselves keep the loop running, so the loop has
  fuel; \<open>Inr\<close> is the executor when the queue ran empty, \<open>Inl True\<close> the panic, \<open>Inl False\<close> a
  loop still running. \<open>turns\<close> is the executor and the identifiers served after that many turns.
\<close>

fun run_ready_tasks ::
  "(task_id \<Rightarrow> 'q \<Rightarrow> 'q option) \<Rightarrow> ('q \<Rightarrow> (task_id \<times> 'q) option) \<Rightarrow> 'f polling \<Rightarrow> nat \<Rightarrow>
   ('f, 'q) executor \<Rightarrow> bool + ('f, 'q) executor" where
  "run_ready_tasks push pop poll 0 ex = Inl False"
| "run_ready_tasks push pop poll (Suc n) ex =
     (case run_turn push pop poll ex of
        Idle \<Rightarrow> Inr ex
      | Panicked \<Rightarrow> Inl True
      | Turned _ ex' \<Rightarrow> run_ready_tasks push pop poll n ex')"

fun turns ::
  "(task_id \<Rightarrow> 'q \<Rightarrow> 'q option) \<Rightarrow> ('q \<Rightarrow> (task_id \<times> 'q) option) \<Rightarrow> 'f polling \<Rightarrow> nat \<Rightarrow>
   ('f, 'q) executor \<Rightarrow> (task_id list \<times> ('f, 'q) executor) option" where
  "turns push pop poll 0 ex = Some ([], ex)"
| "turns push pop poll (Suc n) ex =
     (case run_turn push pop poll ex of
        Turned i ex' \<Rightarrow> map_option (map_prod ((#) i) id) (turns push pop poll n ex')
      | _ \<Rightarrow> None)"

section \<open>The sleep between runs\<close>

text \<open>
  \<open>sleep_if_idle\<close>, one action at a time, with the CPU's interrupt flag: interrupts come only
  while the flag is set, and one ends the halt. \<open>enable_and_hlt\<close> is \<open>sti\<close> and \<open>hlt\<close> back to back:
  the CPU lets no interrupt in between the two, so an interrupt then finds it halted.
\<close>

datatype idle_at = Running | Disabled | Halted | Awake

record 'q idle =
  idle_queue :: 'q
  idle_if :: bool
  idle_at :: idle_at

definition sleep_if_idle_step :: "('q \<Rightarrow> bool) \<Rightarrow> 'q idle \<Rightarrow> 'q idle" where
  "sleep_if_idle_step is_empty s =
     (case idle_at s of
        Running \<Rightarrow> s\<lparr>idle_if := False, idle_at := Disabled\<rparr>
      | Disabled \<Rightarrow> if is_empty (idle_queue s)
                    then s\<lparr>idle_if := True, idle_at := Halted\<rparr>
                    else s\<lparr>idle_if := True, idle_at := Awake\<rparr>
      | Halted \<Rightarrow> s
      | Awake \<Rightarrow> s)"

definition idle_interrupt :: "(task_id \<Rightarrow> 'q \<Rightarrow> 'q option) \<Rightarrow> task_id list \<Rightarrow> 'q idle \<Rightarrow> 'q idle option" where
  "idle_interrupt push woken s =
     (if idle_if s
      then (case wake_tasks push woken (idle_queue s) of
              None \<Rightarrow> None
            | Some q \<Rightarrow> Some (s\<lparr>idle_queue := q, idle_at := (if idle_at s = Halted then Awake else idle_at s)\<rparr>))
      else Some s)"

inductive idles :: "(task_id \<Rightarrow> 'q \<Rightarrow> 'q option) \<Rightarrow> ('q \<Rightarrow> bool) \<Rightarrow> 'q idle \<Rightarrow> 'q idle \<Rightarrow> bool"
  for push is_empty s0 where
  idles_start: "idles push is_empty s0 s0"
| idles_step: "idles push is_empty s0 s \<Longrightarrow> idles push is_empty s0 (sleep_if_idle_step is_empty s)"
| idles_interrupt: "idles push is_empty s0 s \<Longrightarrow> idle_interrupt push woken s = Some s' \<Longrightarrow> idles push is_empty s0 s'"

section \<open>The invariant\<close>

text \<open>
  Cached wakers belong to live tasks and wake them; a task that has not been polled yet (it has
  no cached waker) is in the queue.
\<close>

definition executor_wf :: "('q \<Rightarrow> task_id list) \<Rightarrow> ('f, 'q) executor \<Rightarrow> bool" where
  "executor_wf contents ex \<longleftrightarrow>
     (\<forall>i w. waker_cache ex i = Some w \<longrightarrow> w = i \<and> tasks ex i \<noteq> None)
     \<and> (\<forall>i. tasks ex i \<noteq> None \<longrightarrow> waker_cache ex i = None \<longrightarrow> i \<in> set (contents (task_queue ex)))"

text \<open>Everything that happens to an executor: spawns, turns, and interrupts between them.\<close>

inductive executed ::
  "(nat \<Rightarrow> 'q) \<Rightarrow> (task_id \<Rightarrow> 'q \<Rightarrow> 'q option) \<Rightarrow> ('q \<Rightarrow> (task_id \<times> 'q) option) \<Rightarrow> 'f polling \<Rightarrow>
   ('f, 'q) executor \<Rightarrow> bool"
  for new_queue push pop poll where
  executed_new: "executed new_queue push pop poll (executor_new new_queue)"
| executed_spawn: "executed new_queue push pop poll ex \<Longrightarrow> spawn push i f ex = Some ex' \<Longrightarrow>
    executed new_queue push pop poll ex'"
| executed_turn: "executed new_queue push pop poll ex \<Longrightarrow> run_turn push pop poll ex = Turned i ex' \<Longrightarrow>
    executed new_queue push pop poll ex'"
| executed_wakes: "executed new_queue push pop poll ex \<Longrightarrow> wake_tasks push is (task_queue ex) = Some q \<Longrightarrow>
    executed new_queue push pop poll (ex\<lparr>task_queue := q\<rparr>)"

locale task_queues = array_queue push pop contents capacity
  for push :: "task_id \<Rightarrow> 'q \<Rightarrow> 'q option" and pop :: "'q \<Rightarrow> (task_id \<times> 'q) option"
    and contents :: "'q \<Rightarrow> task_id list" and capacity :: nat
begin

lemma push_contents: "push x q = Some q' \<Longrightarrow> contents q' = contents q @ [x] \<and> length (contents q) < capacity"
  using push_cases [of x q] by auto

lemma pop_contents: "pop q = Some (y, q') \<longleftrightarrow> pop q \<noteq> None \<and> y = fst (the (pop q)) \<and> q' = snd (the (pop q))"
  by (cases "pop q") auto

lemma pop_Some: "pop q = Some (y, q') \<Longrightarrow> contents q = y # contents q'"
  using pop_cases [of q] by auto

lemma wake_contents: "wake_tasks push is q = Some q' \<Longrightarrow> contents q' = contents q @ is"
  by (induction "is" arbitrary: q) (auto dest: push_contents split: option.splits)

lemma wake_fits: "length (contents q) + length is \<le> capacity \<Longrightarrow> wake_tasks push is q \<noteq> None"
proof (induction "is" arbitrary: q)
  case (Cons i "is")
  then have "length (contents q) < capacity" by simp
  from push_room [OF this] obtain q1 where q1: "push i q = Some q1" "contents q1 = contents q @ [i]"
    by blast
  have "length (contents q1) + length is \<le> capacity" using Cons.prems q1(2) by simp
  from Cons.IH [OF this] show ?case using q1(1) by simp
qed simp

lemma spawn_wf: "executor_wf contents ex \<Longrightarrow> spawn push i f ex = Some ex' \<Longrightarrow> executor_wf contents ex'"
  by (auto simp: spawn_def executor_wf_def dest!: push_contents split: option.splits if_splits)

lemma wakes_wf:
  "executor_wf contents ex \<Longrightarrow> wake_tasks push is (task_queue ex) = Some q \<Longrightarrow>
   executor_wf contents (ex\<lparr>task_queue := q\<rparr>)"
  by (auto simp: executor_wf_def dest!: wake_contents)

lemma turn_wf:
  assumes "executor_wf contents ex" "run_turn push pop poll ex = Turned i ex'"
  shows "executor_wf contents ex'"
proof -
  obtain q where q: "pop (task_queue ex) = Some (i, q)"
    and r: "run_task push poll i (ex\<lparr>task_queue := q\<rparr>) = Some ex'"
    using assms(2) by (auto simp: run_turn_def split: option.splits prod.splits)
  have c: "contents (task_queue ex) = i # contents q" by (rule pop_Some [OF q])
  show ?thesis
  proof (cases "tasks ex i")
    case None
    then have "ex' = ex\<lparr>task_queue := q\<rparr>" using r by (simp add: run_task_def)
    then show ?thesis using assms(1) c None by (auto simp: executor_wf_def)
  next
    case (Some f)
    obtain w cache where w: "cached_waker i (waker_cache ex) = (w, cache)" by (metis surj_pair)
    obtain f' woken ready where p: "poll w f = (f', woken, ready)" by (metis surj_pair)
    obtain q' where q': "wake_tasks push woken q = Some q'"
      using r Some w p by (auto simp: run_task_def split: option.splits)
    have cache: "cache = (waker_cache ex)(i \<mapsto> w)" "w = i"
      using w assms(1) by (auto simp: cached_waker_def executor_wf_def fun_upd_idem split: option.splits)
    have live: "v = j" "\<exists>y. tasks ex j = Some y" if "waker_cache ex j = Some v" for j v
      using assms(1) that by (auto simp: executor_wf_def)
    have rest: "j \<in> set (contents q)" if "tasks ex j = Some y" "waker_cache ex j = None" "j \<noteq> i" for j y
      using assms(1) c that by (fastforce simp: executor_wf_def)
    have "ex' = (if ready
        then ex\<lparr>tasks := (tasks ex)(i := None), task_queue := q', waker_cache := (waker_cache ex)(i := None)\<rparr>
        else ex\<lparr>tasks := (tasks ex)(i \<mapsto> f'), task_queue := q', waker_cache := (waker_cache ex)(i \<mapsto> i)\<rparr>)"
      using r Some w p q' cache by (auto simp: run_task_def split: if_splits)
    then show ?thesis
      using live rest wake_contents [OF q'] Some by (auto simp: executor_wf_def split: if_splits)
  qed
qed

lemma executed_wf:
  assumes "executed new_queue push pop poll ex"
  shows "executor_wf contents ex"
  using assms
proof induction
  case executed_new
  show ?case by (simp add: executor_new_def executor_wf_def)
qed (auto intro: spawn_wf turn_wf wakes_wf)

lemma turn_cases:
  assumes "contents (task_queue ex) = i # is"
  shows "run_turn push pop poll ex = Panicked \<or>
    (\<exists>ex' js. run_turn push pop poll ex = Turned i ex' \<and> contents (task_queue ex') = is @ js)"
proof -
  obtain q where q: "pop (task_queue ex) = Some (i, q)" "contents q = is"
    using pop_first [OF assms] by blast
  show ?thesis
    using q by (auto simp: run_turn_def run_task_def dest!: wake_contents split: option.splits prod.splits)
qed

lemma turns_fifo:
  assumes "n \<le> length (contents (task_queue ex))"
  shows "(\<exists>m ex1 served. m < n \<and> turns push pop poll m ex = Some (served, ex1) \<and> run_turn push pop poll ex1 = Panicked)
    \<or> (\<exists>ex'. turns push pop poll n ex = Some (take n (contents (task_queue ex)), ex'))"
  using assms
proof (induction n arbitrary: ex)
  case (Suc n)
  then obtain i "is" where c: "contents (task_queue ex) = i # is"
    by (cases "contents (task_queue ex)") auto
  from turn_cases [OF c, of poll] show ?case
  proof (elim disjE exE conjE)
    assume "run_turn push pop poll ex = Panicked"
    then show ?thesis by (intro disjI1 exI [of _ "0::nat"]) simp
  next
    fix ex' js
    assume t: "run_turn push pop poll ex = Turned i ex'" "contents (task_queue ex') = is @ js"
    have "n \<le> length (contents (task_queue ex'))" using Suc.prems c t(2) by simp
    from Suc.IH [OF this] show ?thesis
    proof (elim disjE exE conjE)
      fix m ex1 served
      assume "m < n" "turns push pop poll m ex' = Some (served, ex1)" "run_turn push pop poll ex1 = Panicked"
      then show ?thesis using t(1) by (intro disjI1 exI [of _ "Suc m"]) auto
    next
      fix ex2
      assume "turns push pop poll n ex' = Some (take n (contents (task_queue ex')), ex2)"
      then show ?thesis using t c Suc.prems by auto
    qed
  qed
qed simp

lemma turn_no_panic:
  assumes "\<And>w f. length (fst (snd (poll w f))) \<le> 1" "length (contents (task_queue ex)) \<le> capacity"
  shows "run_turn push pop poll ex \<noteq> Panicked"
proof (cases "pop (task_queue ex)")
  case (Some p)
  then obtain i q where q: "pop (task_queue ex) = Some (i, q)" by (metis surj_pair)
  have "wake_tasks push (fst (snd (poll w f))) q \<noteq> None" for w f
    using pop_Some [OF q] assms(2) assms(1) [of w f] by (intro wake_fits) simp
  then show ?thesis
    using q by (auto simp: run_turn_def run_task_def split: option.splits prod.splits)
      (metis fst_conv snd_conv option.distinct(1))
qed (simp add: run_turn_def)

lemma turn_length:
  assumes "\<And>w f. length (fst (snd (poll w f))) \<le> 1" "run_turn push pop poll ex = Turned i ex'"
  shows "length (contents (task_queue ex')) \<le> length (contents (task_queue ex))"
proof -
  obtain q where q: "pop (task_queue ex) = Some (i, q)"
    and r: "run_task push poll i (ex\<lparr>task_queue := q\<rparr>) = Some ex'"
    using assms(2) by (auto simp: run_turn_def split: option.splits prod.splits)
  have "length woken \<le> 1" if "poll w f = (f', woken, ready)" for w f f' woken ready
    using assms(1) [of w f] that by simp
  then show ?thesis
    using r pop_Some [OF q]
    by (fastforce simp: run_task_def dest: wake_contents split: option.splits prod.splits if_splits)
qed

lemma turns_length:
  assumes "\<And>w f. length (fst (snd (poll w f))) \<le> 1"
  shows "turns push pop poll n ex = Some (served, ex') \<Longrightarrow>
    length (contents (task_queue ex')) \<le> length (contents (task_queue ex))"
proof (induction n arbitrary: ex served)
  case (Suc n)
  then obtain i ex1 rest where t: "run_turn push pop poll ex = Turned i ex1" "turns push pop poll n ex1 = Some (rest, ex')"
    by (auto split: turn.splits)
  show ?case using turn_length [OF assms t(1)] Suc.IH [OF t(2)] by simp
qed simp

lemma turns_fifo_small:
  assumes "\<And>w f. length (fst (snd (poll w f))) \<le> 1" "length (contents (task_queue ex)) \<le> capacity"
    and "n \<le> length (contents (task_queue ex))"
  shows "\<exists>ex'. turns push pop poll n ex = Some (take n (contents (task_queue ex)), ex')"
  using turns_fifo [OF assms(3), of poll] turns_length [of poll] turn_no_panic [of poll] assms(1,2)
  by (meson le_trans)

text \<open>A run that ends is a sequence of turns that empties the queue.\<close>

lemma run_ready_turns:
  "run_ready_tasks push pop poll n ex = Inr ex' \<Longrightarrow>
   \<exists>m served. m < n \<and> turns push pop poll m ex = Some (served, ex') \<and> contents (task_queue ex') = []"
proof (induction n arbitrary: ex)
  case (Suc n)
  show ?case
  proof (cases "run_turn push pop poll ex")
    case Idle
    then have "pop (task_queue ex) = None" by (auto simp: run_turn_def split: option.splits)
    then have "contents (task_queue ex) = []" using pop_cases [of "task_queue ex"] by auto
    then show ?thesis using Suc.prems Idle by (intro exI [of _ 0]) simp
  next
    case (Turned i ex1)
    then obtain m served where "m < n" "turns push pop poll m ex1 = Some (served, ex')"
      "contents (task_queue ex') = []"
      using Suc.IH [of ex1] Suc.prems by auto
    then show ?thesis using Turned by (intro exI [of _ "Suc m"]) simp
  qed (use Suc.prems in simp)
qed simp

lemma idles_halted:
  assumes "idles push is_empty s0 s" "idle_at s0 = Running" "idle_if s0"
    and "\<And>q. is_empty q \<longleftrightarrow> contents q = []"
  shows "(idle_at s = Disabled \<longrightarrow> \<not> idle_if s) \<and> (idle_at s = Halted \<longrightarrow> contents (idle_queue s) = [])"
  using assms(1)
proof induction
  case (idles_step s)
  then show ?case by (cases "idle_at s") (auto simp: sleep_if_idle_step_def assms(4))
next
  case (idles_interrupt s woken s')
  then show ?case by (auto simp: idle_interrupt_def split: if_splits option.splits)
qed (simp add: assms(2))

end

text \<open>The queue of the code holds a hundred identifiers.\<close>

interpretation run_queue: task_queues "list_push 100" list_pop "\<lambda>q. q" 100
  by (rule task_queues.intro) (rule list_queue.array_queue_axioms)

section \<open>The properties\<close>

text \<open>C29: No spawned task is forgotten. Whatever is spawned, polled or woken, and in whatever
  order, a cached waker belongs to a live task and wakes that task, and a live task that was
  never polled is in the run queue.
\<close>

lemma executor_forgets_no_task:
  assumes "array_queue push pop contents capacity" "executed new_queue push pop poll ex"
  shows "(waker_cache ex i = Some w \<longrightarrow> w = i \<and> tasks ex i \<noteq> None)
    \<and> (tasks ex i \<noteq> None \<and> waker_cache ex i = None \<longrightarrow> i \<in> set (contents (task_queue ex)))"
  using task_queues.executed_wf [OF task_queues.intro [OF assms(1)] assms(2)]
  by (auto simp: executor_wf_def)

lemma executor_forgets_no_task_witness:
  "\<exists>ex ex'. spawn (list_push 100) 7 yield_now (executor_new (\<lambda>_. [])) = Some ex
    \<and> run_turn (list_push 100) list_pop yield_poll ex = Turned 7 ex'
    \<and> (waker_cache ex' 7 = Some 7 \<longrightarrow> 7 = (7 :: task_id) \<and> tasks ex' 7 \<noteq> None)
    \<and> (tasks ex' 7 \<noteq> None \<and> waker_cache ex' 7 = None \<longrightarrow> 7 \<in> set (task_queue ex'))"
proof -
  obtain ex where s: "spawn (list_push 100) 7 yield_now (executor_new (\<lambda>_. [])) = Some ex"
    by (simp add: spawn_def executor_new_def list_push_def)
  then obtain ex' where t: "run_turn (list_push 100) list_pop yield_poll ex = Turned 7 ex'"
    by (auto simp: spawn_def executor_new_def list_push_def run_turn_def list_pop_def run_task_def
        cached_waker_def yield_poll_def yield_now_def)
  have "executed (\<lambda>_. []) (list_push 100) list_pop yield_poll ex'"
    by (rule executed_turn [OF executed_spawn [OF executed_new s] t])
  then show ?thesis
    using s t executor_forgets_no_task [OF list_queue.array_queue_axioms, where i = 7 and w = 7] by blast
qed

text \<open>C30: The executor is fair. The next turns serve the queued tasks in the order they were woken:
  after \<open>n\<close> turns, for any \<open>n\<close> up to the length of the queue, the first \<open>n\<close> of the queue have been
  served, in order, whatever the polls wake in between; the one way not to get there is that
  a waker found the queue full, and when polls wake one task at most, even that cannot happen.
\<close>

lemma executor_is_fair:
  assumes "array_queue push pop contents capacity" "n \<le> length (contents (task_queue ex))"
  shows "((\<exists>m ex1 served. m < n \<and> turns push pop poll m ex = Some (served, ex1)
        \<and> run_turn push pop poll ex1 = Panicked)
      \<or> (\<exists>ex'. turns push pop poll n ex = Some (take n (contents (task_queue ex)), ex')))
    \<and> ((\<forall>w f. length (fst (snd (poll w f))) \<le> 1) \<and> length (contents (task_queue ex)) \<le> capacity \<longrightarrow>
      (\<exists>ex'. turns push pop poll n ex = Some (take n (contents (task_queue ex)), ex')))"
proof -
  have tq: "task_queues push pop contents capacity" using assms(1) by (rule task_queues.intro)
  show ?thesis
    using task_queues.turns_fifo [OF tq assms(2), of poll] task_queues.turns_fifo_small [OF tq _ _ assms(2), of poll]
    by blast
qed

lemma executor_is_fair_witness:
  "let ex = \<lparr>tasks = [1 \<mapsto> yield_now, 2 \<mapsto> yield_now], task_queue = [2, 1], waker_cache = Map.empty\<rparr>
   in \<exists>ex'. turns (list_push 100) list_pop yield_poll 2 ex = Some ([2, 1], ex')"
proof -
  have "\<forall>w f. length (fst (snd (yield_poll w f))) \<le> 1" by (simp add: yield_poll_def)
  then show ?thesis
    using executor_is_fair [OF list_queue.array_queue_axioms, of 2
        "\<lparr>tasks = [1 \<mapsto> yield_now, 2 \<mapsto> yield_now], task_queue = [2, 1], waker_cache = Map.empty\<rparr>" yield_poll]
    by (simp add: numeral_2_eq_2)
qed

text \<open>The CPU never halts over work. \<open>sleep_if_idle\<close> tests the queue with interrupts disabled,
  so whenever the CPU is halted the run queue is empty, in any interleaving with interrupts.
\<close>

lemma never_halts_over_work:
  assumes "array_queue push pop contents capacity" "\<And>q. is_empty q \<longleftrightarrow> contents q = []"
    and "idles push is_empty \<lparr>idle_queue = q, idle_if = True, idle_at = Running\<rparr> s" "idle_at s = Halted"
  shows "contents (idle_queue s) = []"
  using task_queues.idles_halted [OF task_queues.intro [OF assms(1)] assms(3) _ _ assms(2)] assms(4) by simp

lemma never_halts_over_work_witness:
  "let s0 = \<lparr>idle_queue = [], idle_if = True, idle_at = Running\<rparr>;
       s = sleep_if_idle_step (\<lambda>q. q = []) (sleep_if_idle_step (\<lambda>q. q = []) s0)
   in idle_at s = Halted \<and> idle_queue s = ([] :: task_id list)"
proof -
  let ?step = "sleep_if_idle_step (\<lambda>q :: task_id list. q = [])"
  let ?s0 = "\<lparr>idle_queue = [], idle_if = True, idle_at = Running\<rparr>"
  have "idles (list_push 100) (\<lambda>q. q = []) ?s0 (?step (?step ?s0))"
    by (intro idles_start idles_step)
  moreover have "idle_at (?step (?step ?s0)) = Halted" by (simp add: sleep_if_idle_step_def)
  ultimately show ?thesis
    using never_halts_over_work [OF list_queue.array_queue_axioms, of "\<lambda>q. q = []"] by simp
qed

end
