(* ===== verification/Memory.thy ===== *)
theory Memory
  imports Prelude
begin

text \<open>
  Physical memory: \<open>memory.rs\<close>, \<open>allocator.rs\<close> and \<open>alloc_contiguous\<close> of \<open>ac97.rs\<close>. Addresses
  are natural numbers (the code's are 64-bit and only ever added below the end of a region of
  the memory map). The memory map is the bootloader's: a list of regions. The page mapper
  belongs to the \<open>x86_64\<close> crate and is a parameter.

  Every user of frames relies on one interface, the locale \<open>frame_source\<close>: allocation hands out
  the frames of a list, one by one. \<open>BootInfoFrameAllocator\<close> provides it.
\<close>

section \<open>The frame allocator\<close>

datatype region_kind = Usable | Bootloader | Unknown_uefi nat | Unknown_bios nat

record memory_region =
  region_start :: nat
  region_end :: nat
  region_kind :: region_kind

definition page_size :: nat where
  "page_size = 4096"

text \<open>\<open>PhysFrame::containing_address\<close> and \<open>Page::containing_address\<close> align down.\<close>

definition containing_address :: "nat \<Rightarrow> nat" where
  "containing_address a = a - a mod page_size"

definition region_frames :: "memory_region \<Rightarrow> nat list" where
  "region_frames r =
     map (\<lambda>i. containing_address (region_start r + page_size * i))
       [0 ..< (region_end r - region_start r + (page_size - 1)) div page_size]"

definition usable_frames :: "memory_region list \<Rightarrow> nat list" where
  "usable_frames regions = concat (map region_frames (filter (\<lambda>r. region_kind r = Usable) regions))"

record frame_allocator =
  memory_regions :: "memory_region list"
  next_frame :: nat

definition frame_allocator_init :: "memory_region list \<Rightarrow> frame_allocator" where
  "frame_allocator_init regions = \<lparr>memory_regions = regions, next_frame = 0\<rparr>"

definition allocate_frame :: "frame_allocator \<Rightarrow> nat option \<times> frame_allocator" where
  "allocate_frame a =
     (let frames = usable_frames (memory_regions a)
      in (if next_frame a < length frames then Some (frames ! next_frame a) else None,
          a\<lparr>next_frame := next_frame a + 1\<rparr>))"

definition upcoming_frames :: "frame_allocator \<Rightarrow> nat list" where
  "upcoming_frames a = drop (next_frame a) (usable_frames (memory_regions a))"

section \<open>The users of frames\<close>

text \<open>\<open>alloc_contiguous\<close>: at most 4096 frames are drawn, and a frame that does not extend the run starts one.\<close>

definition extend_run :: "(nat \<times> nat) option \<Rightarrow> nat \<Rightarrow> nat \<times> nat" where
  "extend_run run addr =
     (case run of
        Some (s, have) \<Rightarrow> if addr = s + have * page_size then (s, have + 1) else (addr, 1)
      | None \<Rightarrow> (addr, 1))"

fun alloc_run :: "('a \<Rightarrow> nat option \<times> 'a) \<Rightarrow> nat \<Rightarrow> nat \<Rightarrow> (nat \<times> nat) option \<Rightarrow> 'a \<Rightarrow> nat option \<times> 'a" where
  "alloc_run alloc count 0 run a = (None, a)"
| "alloc_run alloc count (Suc n) run a =
     (case alloc a of
        (None, a') \<Rightarrow> (None, a')
      | (Some addr, a') \<Rightarrow>
          (case extend_run run addr of (s, have) \<Rightarrow>
             if have = count then (Some s, a') else alloc_run alloc count n (Some (s, have)) a'))"

definition alloc_contiguous :: "('a \<Rightarrow> nat option \<times> 'a) \<Rightarrow> nat \<Rightarrow> 'a \<Rightarrow> nat option \<times> 'a" where
  "alloc_contiguous alloc count a = alloc_run alloc count 4096 None a"

datatype page_flag = Present | Writable | User_accessible

datatype 'e heap_error = Frame_allocation_failed | Map_failed 'e

definition HEAP_START :: nat where "HEAP_START = 0x444444440000"

definition HEAP_SIZE :: nat where "HEAP_SIZE = 100 * 1024"

text \<open>\<open>Page::range_inclusive\<close> from the page of the heap's first byte to that of its last.\<close>

definition heap_pages :: "nat list" where
  "heap_pages =
     (let first = containing_address HEAP_START; last = containing_address (HEAP_START + HEAP_SIZE - 1)
      in map (\<lambda>i. first + page_size * i) [0 ..< (last - first) div page_size + 1])"

text \<open>
  The mapper is \<open>map_to_with_table_flags\<close> of the paging crate: page, frame, the flags of the leaf entry,
  the flags of the tables above it. The crate's \<open>map_to\<close>, which the heap uses, is the same call with
  the leaf's own present, writable and user bits for the tables.
\<close>

type_synonym ('e, 'm, 'a) map_to =
  "nat \<Rightarrow> nat \<Rightarrow> page_flag list \<Rightarrow> page_flag list \<Rightarrow> 'm \<times> 'a \<Rightarrow> 'e + ('m \<times> 'a)"

fun map_pages :: "('e, 'm, 'a) map_to \<Rightarrow> ('a \<Rightarrow> nat option \<times> 'a) \<Rightarrow> nat list \<Rightarrow> 'm \<times> 'a \<Rightarrow> 'e heap_error + ('m \<times> 'a)" where
  "map_pages map_to alloc [] (m, a) = Inr (m, a)"
| "map_pages map_to alloc (page # pages) (m, a) =
     (case alloc a of
        (None, _) \<Rightarrow> Inl Frame_allocation_failed
      | (Some frame, a') \<Rightarrow>
          (case map_to page frame [Present, Writable] [Present, Writable] (m, a') of
             Inl e \<Rightarrow> Inl (Map_failed e)
           | Inr ma \<Rightarrow> map_pages map_to alloc pages ma))"

text \<open>The heap is handed to the allocator crate only when every page is mapped.\<close>

definition init_heap ::
  "('e, 'm, 'a) map_to \<Rightarrow> ('a \<Rightarrow> nat option \<times> 'a) \<Rightarrow> 'm \<times> 'a \<Rightarrow> 'e heap_error + ('m \<times> 'a) \<times> nat \<times> nat" where
  "init_heap map_to alloc ma =
     (case map_pages map_to alloc heap_pages ma of
        Inl e \<Rightarrow> Inl e
      | Inr ma' \<Rightarrow> Inr (ma', HEAP_START, HEAP_SIZE))"

definition map_user_page ::
  "('e, 'm, 'a) map_to \<Rightarrow> ('a \<Rightarrow> nat option \<times> 'a) \<Rightarrow> nat \<Rightarrow> bool \<Rightarrow> ('m \<times> 'a) option \<Rightarrow> string + ('m \<times> 'a)" where
  "map_user_page map_to alloc va writable mem =
     (case mem of
        None \<Rightarrow> Inl ''memory subsystem not initialized''
      | Some (m, a) \<Rightarrow>
          (case alloc a of
             (None, _) \<Rightarrow> Inl ''out of frames''
           | (Some frame, a') \<Rightarrow>
               (case map_to (containing_address va) frame
                       ([Present, User_accessible] @ (if writable then [Writable] else []))
                       [Present, Writable, User_accessible] (m, a') of
                  Inl e \<Rightarrow> Inl ''map_to failed''
                | Inr ma \<Rightarrow> Inr ma)))"

section \<open>The interface\<close>

definition frame_run :: "nat \<Rightarrow> nat \<Rightarrow> nat list" where
  "frame_run s n = map (\<lambda>i. s + i * page_size) [0 ..< n]"

lemma frame_run_Suc: "frame_run s (Suc n) = frame_run s n @ [s + n * page_size]"
  by (simp add: frame_run_def)

lemma frame_run_length [simp]: "length (frame_run s n) = n"
  by (simp add: frame_run_def)

definition drawn_run :: "(nat \<times> nat) option \<Rightarrow> nat list" where
  "drawn_run run = (case run of None \<Rightarrow> [] | Some (s, have) \<Rightarrow> frame_run s have)"

lemma extend_run_drawn:
  "extend_run run f = (s, have) \<Longrightarrow> \<exists>pre. drawn_run run @ [f] = pre @ frame_run s have"
  by (auto simp: extend_run_def drawn_run_def frame_run_Suc split: option.splits if_splits)
    (auto simp: frame_run_def)

lemma frame_run_nth [simp]: "i < n \<Longrightarrow> frame_run s n ! i = s + i * page_size"
  by (simp add: frame_run_def)

text \<open>A run of consecutive frames that reaches back over a run that breaks would not have broken.\<close>

lemma run_starts_after_break:
  assumes l: "frame_run s have @ f # fs = pre @ frame_run t count @ post"
    and "0 < have" "have < count" "f \<noteq> s + have * page_size"
  shows "have \<le> length pre"
proof (rule ccontr)
  assume "\<not> have \<le> length pre"
  then have p: "length pre < have" "have - length pre < count" using assms(3) by simp_all
  have "f = (frame_run s have @ f # fs) ! have" by (simp add: nth_append)
  also have "\<dots> = t + (have - length pre) * page_size"
    unfolding l using p assms(3) by (simp add: nth_append)
  finally have f: "f = t + (have - length pre) * page_size" .
  have q: "have - 1 - length pre < count" "\<not> have - 1 < length pre" using p by simp_all
  have "s + (have - 1) * page_size = (frame_run s have @ f # fs) ! (have - 1)"
    using assms(2) by (simp add: nth_append)
  also have "\<dots> = t + (have - 1 - length pre) * page_size"
    unfolding l using q by (simp add: nth_append)
  finally have "s + (have - 1) * page_size = t + (have - 1 - length pre) * page_size" .
  moreover have "have - length pre = Suc (have - 1 - length pre)" "have = Suc (have - 1)"
    using p by simp_all
  ultimately show False using f assms(4) by (metis add.assoc add.commute mult_Suc)
qed

lemma extend_run_keeps_window:
  assumes l: "drawn_run run @ f # fs = pre @ frame_run t count @ post"
    and r: "case run of None \<Rightarrow> True | Some (_, have) \<Rightarrow> 0 < have \<and> have < count"
    and e: "extend_run run f = (s, have)"
  shows "\<exists>pre'. frame_run s have @ fs = pre' @ frame_run t count @ post
    \<and> length pre' + length (drawn_run run) + 1 = length pre + have"
proof -
  have one: "frame_run f 1 = [f]" by (simp add: frame_run_def)
  show ?thesis
  proof (cases "\<exists>s0 h0. run = Some (s0, h0) \<and> f = s0 + h0 * page_size")
    case True
    then obtain s0 h0 where *: "run = Some (s0, h0)" "f = s0 + h0 * page_size" by blast
    then have "s = s0" "have = Suc h0" using e by (simp_all add: extend_run_def)
    then show ?thesis using l * by (intro exI [of _ pre]) (simp add: drawn_run_def frame_run_Suc)
  next
    case False
    then have sh: "s = f" "have = 1" using e by (auto simp: extend_run_def split: option.splits if_splits)
    have p: "length (drawn_run run) \<le> length pre"
    proof (cases run)
      case (Some p)
      then obtain s0 h0 where s0: "run = Some (s0, h0)" by (metis surj_pair)
      then show ?thesis
        using run_starts_after_break [of s0 h0 f fs pre t count post] l r False by (simp add: drawn_run_def)
    qed (simp add: drawn_run_def)
    have "f # fs = drop (length (drawn_run run)) (drawn_run run @ f # fs)" by simp
    also have "\<dots> = drop (length (drawn_run run)) pre @ frame_run t count @ post"
      unfolding l using p by simp
    finally show ?thesis
      using sh one p by (intro exI [of _ "drop (length (drawn_run run)) pre"]) simp
  qed
qed

locale frame_source =
  fixes alloc :: "'a \<Rightarrow> nat option \<times> 'a" and upcoming :: "'a \<Rightarrow> nat list"
  assumes alloc_next: "upcoming a = f # fs \<Longrightarrow> \<exists>a'. alloc a = (Some f, a') \<and> upcoming a' = fs"
    and alloc_none: "upcoming a = [] \<Longrightarrow> \<exists>a'. alloc a = (None, a') \<and> upcoming a' = []"
begin

lemma alloc_run_found:
  assumes "alloc_run alloc count n run a = (Some s, a')"
  shows "\<exists>pre. drawn_run run @ upcoming a = pre @ frame_run s count @ upcoming a'
    \<and> length (upcoming a) \<le> n + length (upcoming a')"
  using assms
proof (induction n arbitrary: run a)
  case (Suc n)
  obtain f fs where u: "upcoming a = f # fs"
    using Suc.prems alloc_none [of a] by (cases "upcoming a") auto
  obtain a1 where a1: "alloc a = (Some f, a1)" "upcoming a1 = fs" using alloc_next [OF u] by blast
  obtain s1 h1 where e: "extend_run run f = (s1, h1)" by (metis surj_pair)
  obtain pre where pre: "drawn_run run @ [f] = pre @ frame_run s1 h1"
    using extend_run_drawn [OF e] by blast
  then have all: "drawn_run run @ upcoming a = pre @ frame_run s1 h1 @ upcoming a1"
    using u a1(2) by (metis append.assoc append_Cons append_Nil)
  show ?case
  proof (cases "h1 = count")
    case True
    then show ?thesis using Suc.prems a1 e all u by auto
  next
    case False
    then obtain pre1 where "frame_run s1 h1 @ upcoming a1 = pre1 @ frame_run s count @ upcoming a'"
      "length (upcoming a1) \<le> n + length (upcoming a')"
      using Suc.IH [of "Some (s1, h1)" a1] Suc.prems a1 e by (auto simp: drawn_run_def)
    then show ?thesis using all u a1(2) by (intro exI [of _ "pre @ pre1"]) simp
  qed
qed simp

lemma alloc_run_complete:
  assumes "drawn_run run @ upcoming a = pre @ frame_run t count @ post"
    and "length pre + count \<le> n + length (drawn_run run)"
    and "case run of None \<Rightarrow> True | Some (_, have) \<Rightarrow> 0 < have \<and> have < count" "0 < count"
  shows "fst (alloc_run alloc count n run a) \<noteq> None"
  using assms(1-3)
proof (induction n arbitrary: run a pre)
  case 0
  have "length (drawn_run run) < count"
    using "0.prems"(3) assms(4) by (auto simp: drawn_run_def split: option.splits)
  then show ?case using "0.prems"(2) by simp
next
  case (Suc n)
  have short: "length (drawn_run run) < count"
    using Suc.prems(3) assms(4) by (auto simp: drawn_run_def split: option.splits)
  then have "upcoming a \<noteq> []"
    using arg_cong [OF Suc.prems(1), of length] by auto
  then obtain f fs where u: "upcoming a = f # fs" by (cases "upcoming a") auto
  obtain a1 where a1: "alloc a = (Some f, a1)" "upcoming a1 = fs" using alloc_next [OF u] by blast
  obtain s1 h1 where e: "extend_run run f = (s1, h1)" by (metis surj_pair)
  show ?case
  proof (cases "h1 = count")
    case False
    have h1: "0 < h1 \<and> h1 < count"
      using e short False assms(4)
      by (auto simp: extend_run_def drawn_run_def split: option.splits if_splits)
    obtain pre' where p: "frame_run s1 h1 @ fs = pre' @ frame_run t count @ post"
      "length pre' + length (drawn_run run) + 1 = length pre + h1"
      using extend_run_keeps_window [OF Suc.prems(1) [unfolded u] Suc.prems(3) e] by blast
    have "fst (alloc_run alloc count n (Some (s1, h1)) a1) \<noteq> None"
      by (rule Suc.IH [of _ _ pre']) (use p h1 a1(2) Suc.prems(2) in \<open>simp_all add: drawn_run_def\<close>)
    then show ?thesis using a1(1) e False by simp
  qed (use a1(1) e in simp)
qed

lemma alloc_run_spent:
  "alloc_run alloc count n run a = (None, a') \<Longrightarrow> upcoming a' = drop n (upcoming a)"
proof (induction n arbitrary: run a)
  case (Suc n)
  show ?case
  proof (cases "upcoming a")
    case Nil
    then show ?thesis using alloc_none [of a] Suc.prems by auto
  next
    case (Cons f fs)
    then show ?thesis
      using alloc_next [OF Cons] Suc by (auto split: prod.splits if_splits)
  qed
qed simp

lemma alloc_run_more:
  "alloc_run alloc count n run a = (Some s, a') \<Longrightarrow> n \<le> n' \<Longrightarrow> alloc_run alloc count n' run a = (Some s, a')"
proof (induction n arbitrary: run a n')
  case (Suc n)
  then obtain n1 where n': "n' = Suc n1" "n \<le> n1" by (cases n') auto
  show ?case using Suc.prems(1) Suc.IH [OF _ n'(2)] unfolding n'(1)
    by (auto split: prod.splits option.splits if_splits)
qed simp

lemma alloc_run_first:
  assumes r: "alloc_run alloc count n None a = (Some s, a')" and "0 < count"
  shows "\<exists>pre. upcoming a = pre @ frame_run s count @ upcoming a' \<and> length pre + count \<le> n
    \<and> (\<forall>pre' t post. upcoming a = pre' @ frame_run t count @ post \<longrightarrow> length pre \<le> length pre')"
proof -
  obtain pre where pre: "upcoming a = pre @ frame_run s count @ upcoming a'"
    "length (upcoming a) \<le> n + length (upcoming a')"
    using alloc_run_found [OF r] by (auto simp: drawn_run_def)
  have len: "length (frame_run t count) = count" for t by (simp add: frame_run_def)
  have "length pre \<le> length pre'" if p: "upcoming a = pre' @ frame_run t count @ post" for pre' t post
  proof (rule ccontr)
    assume less: "\<not> length pre \<le> length pre'"
    define n' where "n' = length pre' + count"
    have "fst (alloc_run alloc count n' None a) \<noteq> None"
      using alloc_run_complete [of None a pre' t count post n'] p assms(2) by (simp add: drawn_run_def n'_def)
    then obtain s1 a1 where r1: "alloc_run alloc count n' None a = (Some s1, a1)"
      by (metis not_None_eq prod.collapse)
    have "n' \<le> n" using less pre(2) arg_cong [OF pre(1), of length] len by (simp add: n'_def)
    then have "a1 = a'" using alloc_run_more [OF r1] r by simp
    then have "length (upcoming a) \<le> n' + length (upcoming a')" using alloc_run_found [OF r1] by auto
    then show False using less arg_cong [OF pre(1), of length] len by (simp add: n'_def)
  qed
  moreover have "length pre + count \<le> n" using pre(2) arg_cong [OF pre(1), of length] len by simp
  ultimately show ?thesis using pre(1) by blast
qed

end

lemma drop_Cons_nth: "drop n xs = y # ys \<Longrightarrow> n < length xs \<and> xs ! n = y \<and> drop (Suc n) xs = ys"
proof -
  assume d: "drop n xs = y # ys"
  then have "n < length xs" by (metis drop_all list.distinct(1) not_less)
  then show ?thesis using d Cons_nth_drop_Suc [of n xs] by simp
qed

interpretation boot: frame_source allocate_frame upcoming_frames
proof
  fix a f fs
  assume "upcoming_frames a = f # fs"
  then show "\<exists>a'. allocate_frame a = (Some f, a') \<and> upcoming_frames a' = fs"
    by (auto simp: upcoming_frames_def allocate_frame_def Let_def dest: drop_Cons_nth)
next
  fix a
  assume "upcoming_frames a = []"
  then show "\<exists>a'. allocate_frame a = (None, a') \<and> upcoming_frames a' = []"
    by (simp add: upcoming_frames_def allocate_frame_def Let_def)
qed

section \<open>The heap\<close>

text \<open>
  What the mapper is documented to do: a successful \<open>map_to\<close> adds the one translation, and the
  frames it draws for page tables it draws from the same allocator.
\<close>

definition mapper_ok ::
  "('e, 'm, 'a) map_to \<Rightarrow> ('m \<Rightarrow> nat \<rightharpoonup> nat \<times> page_flag list) \<Rightarrow> ('a \<Rightarrow> nat list) \<Rightarrow> bool" where
  "mapper_ok map_to translate upcoming \<longleftrightarrow>
     (\<forall>page frame flags parents m a m' a'. map_to page frame flags parents (m, a) = Inr (m', a') \<longrightarrow>
        translate m' = (translate m)(page \<mapsto> (frame, flags))
        \<and> (\<exists>k. upcoming a' = drop k (upcoming a)))"

context frame_source
begin

lemma map_pages_frames:
  assumes ok: "mapper_ok map_to translate upcoming"
  shows "map_pages map_to alloc pages (m, a) = Inr (m', a') \<Longrightarrow> distinct (upcoming a) \<Longrightarrow> distinct pages \<Longrightarrow>
    \<exists>fs. length fs = length pages \<and> distinct fs \<and> set fs \<subseteq> set (upcoming a)
      \<and> set fs \<inter> set (upcoming a') = {} \<and> set (upcoming a') \<subseteq> set (upcoming a)
      \<and> (\<forall>i < length pages. translate m' (pages ! i) = Some (fs ! i, [Present, Writable]))
      \<and> (\<forall>p. p \<notin> set pages \<longrightarrow> translate m' p = translate m p)"
proof (induction pages arbitrary: m a)
  case (Cons page pages)
  obtain f fs where u: "upcoming a = f # fs"
    using Cons.prems(1) alloc_none [of a] by (cases "upcoming a") auto
  obtain a1 where a1: "alloc a = (Some f, a1)" "upcoming a1 = fs" using alloc_next [OF u] by blast
  obtain m2 a2 where m2: "map_to page f [Present, Writable] [Present, Writable] (m, a1) = Inr (m2, a2)"
    and rest: "map_pages map_to alloc pages (m2, a2) = Inr (m', a')"
    using Cons.prems(1) a1(1) by (auto split: sum.splits)
  have tr: "translate m2 = (translate m)(page \<mapsto> (f, [Present, Writable]))"
    using ok m2 unfolding mapper_ok_def by blast
  obtain k where k: "upcoming a2 = drop k fs"
    using ok m2 a1(2) unfolding mapper_ok_def by blast
  have sub: "set (upcoming a2) \<subseteq> set fs" unfolding k by (rule set_drop_subset)
  have "distinct (upcoming a2)" using Cons.prems(2) u k by simp
  moreover have "distinct pages" "page \<notin> set pages" using Cons.prems(3) by simp_all
  ultimately obtain gs where gs: "length gs = length pages" "distinct gs" "set gs \<subseteq> set (upcoming a2)"
    "set gs \<inter> set (upcoming a') = {}" "set (upcoming a') \<subseteq> set (upcoming a2)"
    "\<forall>i < length pages. translate m' (pages ! i) = Some (gs ! i, [Present, Writable])"
    "\<forall>p. p \<notin> set pages \<longrightarrow> translate m' p = translate m2 p"
    using Cons.IH [OF rest] by blast
  have f: "f \<notin> set fs" using Cons.prems(2) u by simp
  show ?case
  proof (intro exI [of _ "f # gs"] conjI allI impI)
    fix i
    assume "i < length (page # pages)"
    then show "translate m' ((page # pages) ! i) = Some ((f # gs) ! i, [Present, Writable])"
      using gs(6,7) tr \<open>page \<notin> set pages\<close> by (cases i) simp_all
  qed (use gs f sub u tr in auto)
qed auto

end

lemma heap_pages_eq: "heap_pages = map (\<lambda>i. HEAP_START + page_size * i) [0 ..< 25]"
proof -
  have "containing_address HEAP_START = HEAP_START"
    "(containing_address (HEAP_START + HEAP_SIZE - 1) - HEAP_START) div page_size + 1 = 25"
    by (simp_all add: containing_address_def page_size_def HEAP_START_def HEAP_SIZE_def)
  then show ?thesis by (simp only: heap_pages_def Let_def)
qed

lemma heap_pages_distinct: "distinct heap_pages"
  by (simp add: heap_pages_eq distinct_map inj_on_def page_size_def)

lemma heap_address:
  assumes "HEAP_START \<le> va" "va < HEAP_START + HEAP_SIZE"
  shows "(va - HEAP_START) div page_size < 25
    \<and> containing_address va = heap_pages ! ((va - HEAP_START) div page_size)"
proof -
  define d where "d = va - HEAP_START"
  have va: "va = HEAP_START + d" "d < 25 * 4096"
    using assms by (simp_all add: d_def HEAP_SIZE_def)
  have "containing_address va = HEAP_START + (d - d mod 4096)"
    unfolding va(1) containing_address_def page_size_def HEAP_START_def
    by (simp add: mod_add_eq [symmetric])
  moreover have "d - d mod 4096 = 4096 * (d div 4096)" by (simp add: minus_mod_eq_mult_div)
  moreover have "d div 4096 < 25" using va(2) by (simp add: less_mult_imp_div_less)
  ultimately show ?thesis by (simp add: heap_pages_eq page_size_def flip: d_def)
qed

section \<open>The properties\<close>

text \<open>C31: \<open>alloc_contiguous\<close> finds exactly the first row. An address it returns starts \<open>count\<close> page frames
  in a row, the first such row among the frames the allocator held; it ends within the next 4096 of them,
  and what the allocator hands out from then on are the frames behind the row. If it returns none, no such
  row ends within the next 4096 frames, and these frames are spent.
\<close>

lemma alloc_contiguous_finds_the_run:
  assumes "alloc_contiguous allocate_frame count a = (result, a')" "0 < count"
  shows "case result of
      Some s \<Rightarrow> \<exists>pre. upcoming_frames a = pre @ frame_run s count @ upcoming_frames a'
        \<and> length pre + count \<le> 4096
        \<and> (\<forall>pre' t post. upcoming_frames a = pre' @ frame_run t count @ post \<longrightarrow> length pre \<le> length pre')
    | None \<Rightarrow> \<not> (\<exists>pre t post. upcoming_frames a = pre @ frame_run t count @ post \<and> length pre + count \<le> 4096)
        \<and> upcoming_frames a' = drop 4096 (upcoming_frames a)"
proof (cases result)
  case None
  have "fst (alloc_run allocate_frame count 4096 None a) \<noteq> None"
    if "upcoming_frames a = pre @ frame_run t count @ post" "length pre + count \<le> 4096" for pre t post
    using boot.alloc_run_complete [of None a pre t count post 4096] that assms(2)
    by (simp add: drawn_run_def)
  then show ?thesis
    using assms(1) None boot.alloc_run_spent [of count 4096 None a a'] unfolding alloc_contiguous_def by auto
next
  case (Some s)
  then have r: "alloc_run allocate_frame count 4096 None a = (Some s, a')"
    using assms(1) by (simp add: alloc_contiguous_def)
  show ?thesis
    using boot.alloc_run_first [OF r assms(2)] Some by simp
qed

lemma alloc_run_numeral:
  "alloc_run alloc count (numeral k) run a =
     (case alloc a of
        (None, a') \<Rightarrow> (None, a')
      | (Some addr, a') \<Rightarrow>
          (case extend_run run addr of (s, have) \<Rightarrow>
             if have = count then (Some s, a') else alloc_run alloc count (pred_numeral k) (Some (s, have)) a'))"
  by (simp add: numeral_eq_Suc)

lemma alloc_contiguous_finds_the_run_witness:
  "\<exists>a'. alloc_contiguous allocate_frame 2
       (frame_allocator_init [\<lparr>region_start = 0x1000, region_end = 0x2000, region_kind = Usable\<rparr>,
          \<lparr>region_start = 0x2000, region_end = 0x8000, region_kind = Bootloader\<rparr>,
          \<lparr>region_start = 0x8000, region_end = 0xB000, region_kind = Usable\<rparr>]) = (Some 0x8000, a')
    \<and> (\<exists>pre. [0x1000, 0x8000, 0x9000, 0xA000] = pre @ frame_run 0x8000 2 @ upcoming_frames a'
        \<and> length pre + 2 \<le> 4096)"
proof -
  define a where "a = frame_allocator_init [\<lparr>region_start = 0x1000, region_end = 0x2000, region_kind = Usable\<rparr>,
          \<lparr>region_start = 0x2000, region_end = 0x8000, region_kind = Bootloader\<rparr>,
          \<lparr>region_start = 0x8000, region_end = 0xB000, region_kind = Usable\<rparr>]"
  have u: "usable_frames (memory_regions a) = [0x1000, 0x8000, 0x9000, 0xA000]"
    by (simp add: a_def frame_allocator_init_def usable_frames_def region_frames_def
        containing_address_def page_size_def upt_rec)
  have n: "next_frame a = 0" by (simp add: a_def frame_allocator_init_def)
  obtain a' where r: "alloc_contiguous allocate_frame 2 a = (Some 0x8000, a')"
    using u n by (simp add: alloc_contiguous_def alloc_run_numeral allocate_frame_def extend_run_def page_size_def
        Let_def)
  show ?thesis
    using alloc_contiguous_finds_the_run [OF r] r u n unfolding a_def [symmetric]
    by (auto simp: upcoming_frames_def)
qed

text \<open>The kernel heap is mapped. When \<open>init_heap\<close> succeeds, every address of the heap lies in a
  page mapped present and writable, to a frame of the memory map; different pages have
  different frames, and the allocator will not hand any of them out again.
\<close>

lemma heap_is_mapped:
  assumes "mapper_ok map_to translate upcoming_frames" "distinct (upcoming_frames a)"
    and "init_heap map_to allocate_frame (m, a) = Inr ((m', a'), start, len)"
  shows "\<exists>frame. inj_on frame (set heap_pages)
    \<and> (\<forall>p \<in> set heap_pages. frame p \<in> set (upcoming_frames a) - set (upcoming_frames a'))
    \<and> (\<forall>va. start \<le> va \<and> va < start + len \<longrightarrow>
         translate m' (containing_address va) = Some (frame (containing_address va), [Present, Writable]))"
proof -
  have h: "map_pages map_to allocate_frame heap_pages (m, a) = Inr (m', a')" "start = HEAP_START" "len = HEAP_SIZE"
    using assms(3) by (auto simp: init_heap_def split: sum.splits)
  obtain fs where fs: "length fs = length heap_pages" "distinct fs" "set fs \<subseteq> set (upcoming_frames a)"
    "set fs \<inter> set (upcoming_frames a') = {}"
    "\<forall>i < length heap_pages. translate m' (heap_pages ! i) = Some (fs ! i, [Present, Writable])"
    using boot.map_pages_frames [OF assms(1) h(1) assms(2) heap_pages_distinct] by blast
  define frame where "frame p = fst (the (translate m' p))" for p
  have f: "frame (heap_pages ! i) = fs ! i" if "i < length heap_pages" for i
    using fs(5) that by (simp add: frame_def)
  have "map frame heap_pages = fs" using f fs(1) by (intro nth_equalityI) simp_all
  then have "inj_on frame (set heap_pages)" "frame ` set heap_pages = set fs"
    using fs(2) by (auto simp: distinct_map)
  moreover from this have "frame p \<in> set (upcoming_frames a) - set (upcoming_frames a')" if "p \<in> set heap_pages" for p
    using that fs(3,4) by blast
  moreover have "translate m' (containing_address va) = Some (frame (containing_address va), [Present, Writable])"
    if va: "start \<le> va \<and> va < start + len" for va
  proof -
    obtain i where "i < 25" "containing_address va = heap_pages ! i"
      using heap_address [of va] va unfolding h(2,3) by blast
    moreover have "length heap_pages = 25" unfolding heap_pages_eq by (simp only: length_map length_upt)
    ultimately show ?thesis using f fs(5) by metis
  qed
  ultimately show ?thesis by blast
qed

text \<open>A mapper whose state is its translation, and which needs no frames of its own.\<close>

definition plain_map_to :: "(unit, nat \<rightharpoonup> nat \<times> page_flag list, 'a) map_to" where
  "plain_map_to page frame flags parents ma = Inr ((fst ma)(page \<mapsto> (frame, flags)), snd ma)"

lemma plain_mapper_ok: "mapper_ok plain_map_to (\<lambda>m. m) upcoming"
  by (auto simp: mapper_ok_def plain_map_to_def intro: exI [of _ 0])

context frame_source
begin

lemma plain_map_pages:
  "length pages \<le> length (upcoming a) \<Longrightarrow> \<exists>m' a'. map_pages plain_map_to alloc pages (m, a) = Inr (m', a')"
proof (induction pages arbitrary: m a)
  case (Cons page pages)
  then obtain f fs where u: "upcoming a = f # fs" by (cases "upcoming a") auto
  obtain a1 where a1: "alloc a = (Some f, a1)" "upcoming a1 = fs" using alloc_next [OF u] by blast
  show ?case using Cons.IH [of a1] Cons.prems u a1 by (simp add: plain_map_to_def)
qed simp

end

lemma heap_is_mapped_witness:
  "let a = frame_allocator_init [\<lparr>region_start = 0x100000, region_end = 0x200000, region_kind = Usable\<rparr>]
   in \<exists>m' a' start len frame.
     init_heap plain_map_to allocate_frame (Map.empty, a) = Inr ((m', a'), start, len)
     \<and> inj_on frame (set heap_pages)
     \<and> (\<forall>p \<in> set heap_pages. frame p \<in> set (upcoming_frames a) - set (upcoming_frames a'))
     \<and> (\<forall>va. start \<le> va \<and> va < start + len \<longrightarrow>
          m' (containing_address va) = Some (frame (containing_address va), [Present, Writable]))"
proof -
  define a where "a = frame_allocator_init [\<lparr>region_start = 0x100000, region_end = 0x200000, region_kind = Usable\<rparr>]"
  have u: "upcoming_frames a = map (\<lambda>i. containing_address (0x100000 + 4096 * i)) [0 ..< 256]"
    by (simp add: a_def frame_allocator_init_def upcoming_frames_def usable_frames_def region_frames_def
        page_size_def del: upt_rec_numeral)
  have c: "containing_address (0x100000 + 4096 * i) = 0x100000 + 4096 * i" for i
    by (simp add: containing_address_def page_size_def mod_add_left_eq [symmetric])
  have d: "distinct (upcoming_frames a)" unfolding u c by (simp add: distinct_map inj_on_def)
  have "length heap_pages \<le> length (upcoming_frames a)" unfolding u by (simp add: heap_pages_eq)
  then obtain m' a' where "map_pages plain_map_to allocate_frame heap_pages (Map.empty, a) = Inr (m', a')"
    using boot.plain_map_pages by blast
  then have i: "init_heap plain_map_to allocate_frame (Map.empty, a) = Inr ((m', a'), HEAP_START, HEAP_SIZE)"
    by (simp add: init_heap_def)
  show ?thesis
    using heap_is_mapped [OF plain_mapper_ok d i] i unfolding a_def Let_def by blast
qed

end
