(* ===== verification/Lexer.thy ===== *)
theory Lexer
  imports Types
begin

text \<open>
  The lexer of the score language: \<open>officium-parse/src/lexer.rs\<close>. A source is its bytes. The
  cursor of the code, an index into the bytes, is the list of bytes still to read; one turn of
  the loop is \<open>lex_step\<close>, which returns the tokens and the line so far and the bytes left.

  \<open>from_utf8\<close> and \<open>parse::<f64>\<close> are the standard library's, written out: \<open>utf8_valid\<close> and
  \<open>parse_f64\<close>, which rounds the decimal number exactly.

  Lines are natural numbers (the code's counter is 32 bits wide).
\<close>

section \<open>Tokens\<close>

datatype tok =
  T_Ident string
| T_Num f64
| T_Str string
| T_LBrace
| T_RBrace
| T_LParen
| T_RParen
| T_Eq
| T_At
| T_Arrow
| T_BindArrow
| T_Lambda
| T_Plus
| T_Minus
| T_Star
| T_Slash
| T_Semi
| T_Newline

type_synonym lexed = "(tok \<times> nat) list"

section \<open>Bytes\<close>

definition code :: "char \<Rightarrow> nat" where
  "code c = of_char c"

definition is_digit :: "char \<Rightarrow> bool" where
  "is_digit c = (48 \<le> code c \<and> code c \<le> 57)"

definition is_upper :: "char \<Rightarrow> bool" where
  "is_upper c = (65 \<le> code c \<and> code c \<le> 90)"

definition is_alpha :: "char \<Rightarrow> bool" where
  "is_alpha c = (is_upper c \<or> (97 \<le> code c \<and> code c \<le> 122))"

definition ident_head :: "char \<Rightarrow> bool" where
  "ident_head c = (is_alpha c \<or> c = CHR ''_'')"

definition ident_char :: "char \<Rightarrow> bool" where
  "ident_char c = (is_alpha c \<or> is_digit c \<or> c = CHR ''_'')"

definition rhyme_label :: "string \<Rightarrow> char option" where
  "rhyme_label s = (case s of [c] \<Rightarrow> if is_upper c then Some c else None | _ \<Rightarrow> None)"

definition byte_in :: "nat \<Rightarrow> nat \<Rightarrow> char \<Rightarrow> bool" where
  "byte_in lo hi c = (lo \<le> code c \<and> code c \<le> hi)"

text \<open>\<open>core::str::from_utf8\<close>.\<close>

fun utf8_valid :: "string \<Rightarrow> bool" where
  "utf8_valid [] = True"
| "utf8_valid (a # s) =
     (if code a < 0x80 then utf8_valid s
      else (case s of
        [] \<Rightarrow> False
      | b # s2 \<Rightarrow>
          if byte_in 0xC2 0xDF a then byte_in 0x80 0xBF b \<and> utf8_valid s2
          else (case s2 of
            [] \<Rightarrow> False
          | c # s3 \<Rightarrow>
              if byte_in 0xE0 0xEF a
              then byte_in (if code a = 0xE0 then 0xA0 else 0x80) (if code a = 0xED then 0x9F else 0xBF) b
                   \<and> byte_in 0x80 0xBF c \<and> utf8_valid s3
              else (case s3 of
                [] \<Rightarrow> False
              | d # s4 \<Rightarrow>
                  byte_in 0xF0 0xF4 a
                  \<and> byte_in (if code a = 0xF0 then 0x90 else 0x80) (if code a = 0xF4 then 0x8F else 0xBF) b
                  \<and> byte_in 0x80 0xBF c \<and> byte_in 0x80 0xBF d \<and> utf8_valid s4))))"

section \<open>Numbers\<close>

fun digits_value :: "int \<Rightarrow> string \<Rightarrow> int" where
  "digits_value acc [] = acc"
| "digits_value acc (c # s) = digits_value (10 * acc + (int (code c) - 48)) s"

text \<open>
  \<open>parse::<f64>\<close> of a text that begins with a digit: digits, perhaps a point and digits, perhaps
  an exponent with a sign and at least one digit, and nothing else.
\<close>

definition parse_exponent :: "string \<Rightarrow> int option" where
  "parse_exponent s =
     (let (negative, ds) = (case s of
            c # s' \<Rightarrow> if c = CHR ''-'' then (True, s') else if c = CHR ''+'' then (False, s') else (False, s)
          | [] \<Rightarrow> (False, []))
      in if ds \<noteq> [] \<and> list_all is_digit ds
         then Some (if negative then - digits_value 0 ds else digits_value 0 ds)
         else None)"

definition parse_f64 :: "string \<Rightarrow> f64 option" where
  "parse_f64 s =
     (let whole = takeWhile is_digit s; s1 = dropWhile is_digit s;
          (frac, s2) = (case s1 of
             c # r \<Rightarrow> if c = CHR ''.'' then (takeWhile is_digit r, dropWhile is_digit r) else ([], s1)
           | [] \<Rightarrow> ([], []))
      in if whole = [] \<and> frac = [] then None
         else (case s2 of
           [] \<Rightarrow> Some (f64_dec (digits_value 0 (whole @ frac)) (- int (length frac)))
         | c # r \<Rightarrow>
             if c = CHR ''e'' \<or> c = CHR ''E''
             then map_option (\<lambda>e. f64_dec (digits_value 0 (whole @ frac)) (e - int (length frac))) (parse_exponent r)
             else None))"

text \<open>The bytes the lexer takes for a number: a sign goes on only after an \<open>e\<close>.\<close>

fun number_span :: "char \<Rightarrow> string \<Rightarrow> string \<times> string" where
  "number_span prev [] = ([], [])"
| "number_span prev (c # s) =
     (if is_digit c \<or> c = CHR ''.'' \<or> c = CHR ''e'' \<or> c = CHR ''E''
         \<or> ((c = CHR ''+'' \<or> c = CHR ''-'') \<and> (prev = CHR ''e'' \<or> prev = CHR ''E''))
      then map_prod ((#) c) id (number_span c s)
      else ([], c # s))"

section \<open>The loop\<close>

definition punct :: "char \<Rightarrow> tok option" where
  "punct c = map_of
     [(CHR ''{'', T_LBrace), (CHR ''}'', T_RBrace), (CHR ''('', T_LParen), (CHR '')'', T_RParen),
      (CHR ''='', T_Eq), (CHR ''@'', T_At), (CHR 0x5C, T_Lambda), (CHR ''+'', T_Plus),
      (CHR ''*'', T_Star), (CHR ''/'', T_Slash)] c"

text \<open>Is the current line exactly a rhyme label and its sung text so far?\<close>

definition line_head :: "lexed \<Rightarrow> tok list" where
  "line_head toks = rev (takeWhile (\<lambda>t. t \<noteq> T_Newline) (rev (map fst toks)))"

definition is_sung :: "lexed \<Rightarrow> bool" where
  "is_sung toks = (case line_head toks of
     [T_Ident l, T_Str _] \<Rightarrow> rhyme_label l \<noteq> None
   | _ \<Rightarrow> False)"

definition push_newline :: "lexed \<Rightarrow> nat \<Rightarrow> lexed" where
  "push_newline toks line =
     (if toks = [] \<or> fst (last toks) = T_Newline then toks else toks @ [(T_Newline, line)])"

text \<open>A text between apostrophes, as messages quote it.\<close>

definition apos :: "string \<Rightarrow> string" where
  "apos s = CHR 0x27 # s @ [CHR 0x27]"

type_synonym lex_state = "lexed \<times> nat \<times> string"

fun lex_step :: "lex_state \<Rightarrow> ('k dissonance, lex_state) result" where
  "lex_step (toks, line, []) = Inr (toks, line, [])"
| "lex_step (toks, line, c # s) =
     (if c = CHR 0x0A then Inr (push_newline toks line, line + 1, s)
      else if c = CHR '' '' \<or> c = CHR 0x09 \<or> c = CHR 0x0D then Inr (toks, line, s)
      else if c = CHR '';''
      then if is_sung toks then Inr (toks @ [(T_Semi, line)], line, s)
           else Inr (toks, line, dropWhile (\<lambda>b. b \<noteq> CHR 0x0A) s)
      else (case punct c of
        Some t \<Rightarrow> Inr (toks @ [(t, line)], line, s)
      | None \<Rightarrow>
          if c = CHR ''-''
          then (case s of
                  d # s' \<Rightarrow> if d = CHR ''>'' then Inr (toks @ [(T_Arrow, line)], line, s')
                            else Inr (toks @ [(T_Minus, line)], line, s)
                | [] \<Rightarrow> Inr (toks @ [(T_Minus, line)], line, []))
          else if c = CHR ''<''
          then (case s of
                  d # s' \<Rightarrow> if d = CHR ''-'' then Inr (toks @ [(T_BindArrow, line)], line, s')
                            else Inl (Raise (D_Parse line (''stray '' @ apos ''<'')))
                | [] \<Rightarrow> Inl (Raise (D_Parse line (''stray '' @ apos ''<''))))
          else if c = CHR 0x22
          then (let text = takeWhile (\<lambda>b. b \<noteq> CHR 0x22 \<and> b \<noteq> CHR 0x0A) s;
                    after = dropWhile (\<lambda>b. b \<noteq> CHR 0x22 \<and> b \<noteq> CHR 0x0A) s
                in if after = [] \<or> hd after \<noteq> CHR 0x22
                   then Inl (Raise (D_Parse line ''unterminated string''))
                   else if utf8_valid text then Inr (toks @ [(T_Str text, line)], line, tl after)
                   else Inl (Raise (D_Parse line ''invalid utf-8 in string'')))
          else if is_digit c
          then (case number_span c s of (ds, s') \<Rightarrow>
                  (case parse_f64 (c # ds) of
                     Some n \<Rightarrow> Inr (toks @ [(T_Num n, line)], line, s')
                   | None \<Rightarrow> Inl (Raise (D_Parse line ''malformed number''))))
          else if ident_head c
          then Inr (toks @ [(T_Ident (c # takeWhile ident_char s), line)], line, dropWhile ident_char s)
          else Inl (Raise (D_Parse line ''unexpected character''))))"

lemma number_span_length: "length (snd (number_span prev s)) \<le> length s"
  by (induction prev s rule: number_span.induct) auto

lemma lex_step_shrinks:
  "lex_step (toks, line, c # s) = Inr (toks', line', s') \<Longrightarrow> length s' \<le> length s"
  using number_span_length [of c s]
  by (auto simp: Let_def length_dropWhile_le le_SucI
      intro: order_trans [OF diff_le_self length_dropWhile_le]
      split: if_splits option.splits list.splits prod.splits)

function lex_from :: "lex_state \<Rightarrow> ('k dissonance, lexed) result" where
  "lex_from (toks, line, s) =
     (if s = [] then Inr toks else and_then (lex_step (toks, line, s)) lex_from)"
  by pat_completeness auto
termination
proof (relation "measure (\<lambda>(toks, line, s). length s)", goal_cases)
  case (2 toks line s a)
  then show ?case using lex_step_shrinks by (cases s; cases a) fastforce+
qed simp

declare lex_from.simps [simp del]

definition lex :: "string \<Rightarrow> ('k dissonance, lexed) result" where
  "lex src = lex_from ([], 1, src)"

section \<open>What the lexer makes\<close>

text \<open>The rule a token obeys after the tokens before it.\<close>

definition tok_ok :: "lexed \<Rightarrow> tok \<Rightarrow> bool" where
  "tok_ok before t = (case t of
     T_Newline \<Rightarrow> before \<noteq> [] \<and> fst (last before) \<noteq> T_Newline
   | T_Semi \<Rightarrow> is_sung before
   | T_Ident s \<Rightarrow> s \<noteq> [] \<and> ident_head (hd s) \<and> list_all ident_char s
   | T_Str s \<Rightarrow> utf8_valid s \<and> CHR 0x22 \<notin> set s \<and> CHR 0x0A \<notin> set s
   | _ \<Rightarrow> True)"

definition lexed_ok :: "lexed \<Rightarrow> nat \<Rightarrow> bool" where
  "lexed_ok toks line \<longleftrightarrow>
     (\<forall>i < length toks. tok_ok (take i toks) (fst (toks ! i)))
     \<and> sorted (map snd toks) \<and> (\<forall>t \<in> set toks. 1 \<le> snd t \<and> snd t \<le> line)"

lemma lexed_ok_snoc:
  "lexed_ok (toks @ [(t, line)]) line \<longleftrightarrow> lexed_ok toks line \<and> tok_ok toks t \<and> 1 \<le> line"
  by (auto simp: lexed_ok_def sorted_append nth_append less_Suc_eq split: if_splits)

lemma lexed_ok_Suc: "lexed_ok toks line \<Longrightarrow> lexed_ok toks (line + 1)"
  by (auto simp: lexed_ok_def)

lemma punct_plain: "punct c = Some t \<Longrightarrow> tok_ok toks t"
  by (auto simp: punct_def tok_ok_def split: if_splits)

lemma ident_head_char: "ident_head c \<Longrightarrow> ident_char c"
  by (auto simp: ident_head_def ident_char_def)

lemma ident_tok_ok: "ident_head c \<Longrightarrow> tok_ok toks (T_Ident (c # takeWhile ident_char s))"
  by (auto simp: tok_ok_def ident_head_char list_all_iff dest: set_takeWhileD)

lemma str_tok_ok:
  "utf8_valid (takeWhile (\<lambda>b. b \<noteq> CHR 0x22 \<and> b \<noteq> CHR 0x0A) s) \<Longrightarrow>
   tok_ok toks (T_Str (takeWhile (\<lambda>b. b \<noteq> CHR 0x22 \<and> b \<noteq> CHR 0x0A) s))"
  by (auto simp: tok_ok_def dest: set_takeWhileD)

lemma plain_tok_ok [simp]:
  "tok_ok toks T_Arrow" "tok_ok toks T_Minus" "tok_ok toks T_BindArrow" "tok_ok toks (T_Num n)"
  "tok_ok toks T_Semi = is_sung toks"
  by (simp_all add: tok_ok_def)

lemma push_newline_ok: "lexed_ok toks line \<Longrightarrow> 1 \<le> line \<Longrightarrow> lexed_ok (push_newline toks line) (line + 1)"
proof -
  assume l: "lexed_ok toks line" "1 \<le> line"
  then have "lexed_ok (push_newline toks line) line"
    by (auto simp: push_newline_def lexed_ok_snoc tok_ok_def)
  then show ?thesis by (rule lexed_ok_Suc)
qed

lemma lex_step_ok:
  "lex_step (toks, line, s) = Inr (toks', line', s') \<Longrightarrow> lexed_ok toks line \<Longrightarrow> 1 \<le> line \<Longrightarrow>
   lexed_ok toks' line' \<and> 1 \<le> line'"
  by (cases s)
    (auto simp: lexed_ok_snoc push_newline_ok [simplified] punct_plain ident_tok_ok str_tok_ok Let_def
      split: if_splits option.splits list.splits prod.splits)

lemma lex_from_ok:
  "lex_from (toks, line, s) = (Inr toks' :: ('k dissonance, lexed) result) \<Longrightarrow> lexed_ok toks line \<Longrightarrow> 1 \<le> line \<Longrightarrow>
   \<exists>line'. lexed_ok toks' line'"
proof (induction "length s" arbitrary: toks line s rule: less_induct)
  case less
  show ?case
  proof (cases s)
    case Nil
    then show ?thesis using less.prems by (auto simp: lex_from.simps)
  next
    case (Cons c s1)
    then obtain t l r where st: "lex_step (toks, line, s) = (Inr (t, l, r) :: ('k dissonance, lex_state) result)"
      "lex_from (t, l, r) = (Inr toks' :: ('k dissonance, lexed) result)"
      using less.prems(1) by (subst (asm) lex_from.simps) (auto simp: and_then_Inr_iff)
    have "length r < length s" using lex_step_shrinks st(1) Cons by fastforce
    then show ?thesis using less.hyps [OF _ st(2)] lex_step_ok [OF st(1)] less.prems(2,3) by blast
  qed
qed

section \<open>Spellings\<close>

text \<open>\<open>spells w t\<close>: the word \<open>w\<close>, before a space, is the token \<open>t\<close>.\<close>

fun spells :: "string \<Rightarrow> tok \<Rightarrow> bool" where
  "spells w (T_Ident s) = (w = s \<and> s \<noteq> [] \<and> ident_head (hd s) \<and> list_all ident_char s)"
| "spells w (T_Num n) = (w \<noteq> [] \<and> is_digit (hd w) \<and> number_span (hd w) (tl w) = (tl w, []) \<and> parse_f64 w = Some n)"
| "spells w (T_Str s) = (w = CHR 0x22 # s @ [CHR 0x22] \<and> utf8_valid s \<and> CHR 0x22 \<notin> set s \<and> CHR 0x0A \<notin> set s)"
| "spells w T_LBrace = (w = ''{'')"
| "spells w T_RBrace = (w = ''}'')"
| "spells w T_LParen = (w = ''('')"
| "spells w T_RParen = (w = '')'')"
| "spells w T_Eq = (w = ''='')"
| "spells w T_At = (w = ''@'')"
| "spells w T_Arrow = (w = ''->'')"
| "spells w T_BindArrow = (w = ''<-'')"
| "spells w T_Lambda = (w = [CHR 0x5C])"
| "spells w T_Plus = (w = ''+'')"
| "spells w T_Minus = (w = ''-'')"
| "spells w T_Star = (w = ''*'')"
| "spells w T_Slash = (w = ''/'')"
| "spells w T_Semi = False"
| "spells w T_Newline = False"

lemma number_span_space:
  "number_span c s = (s, []) \<Longrightarrow> number_span c (s @ CHR '' '' # r) = (s, CHR '' '' # r)"
proof (induction c s rule: number_span.induct)
  case (1 prev)
  show ?case by (simp add: is_digit_def code_def)
next
  case (2 prev c s)
  show ?case
  proof (cases "is_digit c \<or> c = CHR ''.'' \<or> c = CHR ''e'' \<or> c = CHR ''E''
         \<or> ((c = CHR ''+'' \<or> c = CHR ''-'') \<and> (prev = CHR ''e'' \<or> prev = CHR ''E''))")
    case True
    have "number_span prev (c # s) = map_prod ((#) c) id (number_span c s)"
      using True by (simp only: number_span.simps if_True)
    then have "number_span c s = (s, [])"
      using "2.prems" by (cases "number_span c s") simp
    with "2.IH" [OF True] have "number_span c (s @ CHR '' '' # r) = (s, CHR '' '' # r)" by blast
    then show ?thesis using True by (simp only: append_Cons number_span.simps if_True map_prod_simp id_apply)
  next
    case False
    then have "number_span prev (c # s) = ([], c # s)" by (simp only: number_span.simps if_False)
    then show ?thesis using "2.prems" by simp
  qed
qed

lemma takeWhile_stop: "list_all P s \<Longrightarrow> \<not> P c \<Longrightarrow> takeWhile P (s @ c # r) = s \<and> dropWhile P (s @ c # r) = c # r"
  by (induction s) auto

lemma space_not_ident [simp]: "\<not> ident_char CHR '' ''" "\<not> ident_char CHR 0x0A"
  by (simp_all add: ident_char_def is_alpha_def is_upper_def is_digit_def code_def)

definition special :: "char list" where
  "special = ''{}()=@+*/; -<'' @ [CHR 0x5C, CHR 0x0A, CHR 0x09, CHR 0x0D, CHR 0x22]"

lemma special_class: "list_all (\<lambda>c. \<not> is_digit c \<and> \<not> ident_head c) special"
  by (simp add: special_def is_digit_def ident_head_def is_alpha_def is_upper_def code_def)

lemma not_special:
  assumes "c \<notin> set special"
  shows "c \<noteq> CHR 0x0A" "c \<noteq> CHR '' ''" "c \<noteq> CHR 0x09" "c \<noteq> CHR 0x0D" "c \<noteq> CHR '';''"
    "c \<noteq> CHR ''-''" "c \<noteq> CHR ''<''" "c \<noteq> CHR 0x22" "punct c = None"
  using assms by (auto simp: special_def punct_def)

lemma digit_class: "is_digit c \<Longrightarrow> c \<notin> set special"
  using special_class by (auto simp: list_all_iff)

lemma ident_class: "ident_head c \<Longrightarrow> c \<notin> set special"
  using special_class by (auto simp: list_all_iff)

lemma ident_not_digit: "ident_head c \<Longrightarrow> \<not> is_digit c"
  by (auto simp: ident_head_def is_alpha_def is_upper_def is_digit_def code_def)

lemma lex_step_word:
  assumes "spells w t"
  shows "lex_step (toks, line, w @ CHR '' '' # r) = Inr (toks @ [(t, line)], line, CHR '' '' # r)"
proof (cases t)
  case (T_Ident s)
  then obtain c s' where w: "w = c # s'" "s = w" "ident_head c" "list_all ident_char s'"
    using assms by (cases w) auto
  have tw: "takeWhile ident_char (s' @ CHR '' '' # r) = s'" "dropWhile ident_char (s' @ CHR '' '' # r) = CHR '' '' # r"
    using takeWhile_stop [OF w(4), of "CHR '' ''" r] by simp_all
  show ?thesis using T_Ident w tw not_special [OF ident_class [OF w(3)]] ident_not_digit [OF w(3)] by simp
next
  case (T_Num n)
  then obtain c s' where w: "w = c # s'" "is_digit c" "number_span c s' = (s', [])" "parse_f64 w = Some n"
    using assms by (cases w) auto
  show ?thesis using T_Num w(1,2,4) number_span_space [OF w(3)] not_special [OF digit_class [OF w(2)]] by simp
next
  case (T_Str s)
  then have w: "w = CHR 0x22 # s @ [CHR 0x22]" "utf8_valid s" "list_all (\<lambda>b. b \<noteq> CHR 0x22 \<and> b \<noteq> CHR 0x0A) s"
    using assms by (auto simp: list_all_iff)
  have tw: "takeWhile (\<lambda>b. b \<noteq> CHR 0x22 \<and> b \<noteq> CHR 0x0A) (s @ CHR 0x22 # CHR '' '' # r) = s"
    "dropWhile (\<lambda>b. b \<noteq> CHR 0x22 \<and> b \<noteq> CHR 0x0A) (s @ CHR 0x22 # CHR '' '' # r) = CHR 0x22 # CHR '' '' # r"
    using takeWhile_stop [OF w(3), of "CHR 0x22" "CHR '' '' # r"] by simp_all
  show ?thesis using T_Str w(1,2) tw by (simp add: punct_def)
qed (use assms in \<open>simp_all add: punct_def\<close>)

lemma lex_from_space: "lex_from (toks, line, CHR '' '' # r) = lex_from (toks, line, r)"
  by (simp add: lex_from.simps [of _ _ "CHR '' '' # r"])

lemma lex_from_word:
  "spells w t \<Longrightarrow> lex_from (toks, line, w @ CHR '' '' # r) = lex_from (toks @ [(t, line)], line, r)"
  by (simp add: lex_from.simps [of _ _ "w @ CHR '' '' # r"] lex_step_word lex_from_space)

text \<open>Words in a line, lines in a text; the tokens of a text, line by line.\<close>

definition spaced :: "string list \<Rightarrow> string" where
  "spaced ws = concat (map (\<lambda>w. w @ '' '') ws)"

definition text_of :: "string list list \<Rightarrow> string" where
  "text_of lines = concat (map (\<lambda>ws. spaced ws @ [CHR 0x0A]) lines)"

fun numbered :: "nat \<Rightarrow> tok list list \<Rightarrow> lexed" where
  "numbered line [] = []"
| "numbered line (ts # rest) =
     (if ts = [] then [] else map (\<lambda>t. (t, line)) (ts @ [T_Newline])) @ numbered (line + 1) rest"

lemma lex_from_words:
  "list_all2 spells ws ts \<Longrightarrow>
   lex_from (toks, line, spaced ws @ r) = lex_from (toks @ map (\<lambda>t. (t, line)) ts, line, r)"
proof (induction ws ts arbitrary: toks rule: list_all2_induct)
  case (Cons w ws t ts)
  then show ?case by (simp add: spaced_def lex_from_word)
qed (simp add: spaced_def)

lemma lex_from_newline: "lex_from (toks, line, CHR 0x0A # r) = lex_from (push_newline toks line, line + 1, r)"
  by (simp add: lex_from.simps [of _ _ "CHR 0x0A # r"])

lemma spells_not_newline: "spells w t \<Longrightarrow> t \<noteq> T_Newline"
  by auto

lemma lex_from_lines:
  "list_all2 (list_all2 spells) lines tss \<Longrightarrow> toks = [] \<or> fst (last toks) = T_Newline \<Longrightarrow>
   lex_from (toks, line, text_of lines) = (Inr (toks @ numbered line tss) :: ('k dissonance, lexed) result)"
proof (induction lines tss arbitrary: toks line rule: list_all2_induct)
  case Nil
  then show ?case by (simp add: text_of_def lex_from.simps)
next
  case (Cons ws lines ts tss)
  have step: "(lex_from (toks, line, text_of (ws # lines)) :: ('k dissonance, lexed) result) =
      lex_from (push_newline (toks @ map (\<lambda>t. (t, line)) ts) line, line + 1, text_of lines)"
    using lex_from_words [OF Cons.hyps(1), of toks line "CHR 0x0A # text_of lines"] by (simp add: text_of_def lex_from_newline)
  show ?case
  proof (cases "ts = []")
    case True
    then show ?thesis
      using step Cons.IH [OF Cons.prems, of "line + 1"] Cons.prems by (simp add: push_newline_def)
  next
    case False
    then have "last ts \<noteq> T_Newline"
      using Cons.hyps(1) by (metis last_in_set list_all2_conv_all_nth in_set_conv_nth spells_not_newline)
    then have "push_newline (toks @ map (\<lambda>t. (t, line)) ts) line = toks @ map (\<lambda>t. (t, line)) (ts @ [T_Newline])"
      using False by (simp add: push_newline_def last_map)
    then show ?thesis
      using step False Cons.IH [of "toks @ map (\<lambda>t. (t, line)) (ts @ [T_Newline])" "line + 1"] by simp
  qed
qed

section \<open>The properties\<close>

text \<open>Spelling and lexing are inverse. A text of words, each the spelling of a token and
  followed by a space, line after line, is lexed into exactly those tokens, with their line
  numbers, and one newline token after each line that has any.\<close>

lemma lex_reads_what_is_spelled:
  assumes "list_all2 (list_all2 spells) lines tss"
  shows "lex (text_of lines) = Inr (numbered 1 tss)"
  using lex_from_lines [OF assms, of "[]" 1] by (simp add: lex_def)

lemma lex_reads_what_is_spelled_witness:
  "lex (text_of [[''x'', ''<-'', ''arg''], [], [''amen'', CHR 0x22 # ''a b'' @ [CHR 0x22], ''3.5e1'']])
     = Inr (numbered 1 [[T_Ident ''x'', T_BindArrow, T_Ident ''arg''], [],
         [T_Ident ''amen'', T_Str ''a b'', T_Num (f64_dec 35 0)]])"
proof (rule lex_reads_what_is_spelled)
  have "parse_f64 ''3.5e1'' = Some (f64_dec 35 0)"
    by (simp add: parse_f64_def parse_exponent_def is_digit_def code_def)
  then show "list_all2 (list_all2 spells)
      [[''x'', ''<-'', ''arg''], [], [''amen'', CHR 0x22 # ''a b'' @ [CHR 0x22], ''3.5e1'']]
      [[T_Ident ''x'', T_BindArrow, T_Ident ''arg''], [],
       [T_Ident ''amen'', T_Str ''a b'', T_Num (f64_dec 35 0)]]"
    by (simp add: ident_head_def ident_char_def is_alpha_def is_upper_def is_digit_def code_def)
qed

text \<open>What the lexer returns is well formed: newline tokens separate non-empty lines, a
  separator stands only after a rhyme label and its sung text, an identifier has the letters
  of one, a string is valid and holds no quote or newline, and the line numbers start at one
  and never go down.\<close>

lemma lexed_is_well_formed:
  assumes "lex src = (Inr toks :: ('k dissonance, lexed) result)"
  shows "(\<forall>i < length toks. tok_ok (take i toks) (fst (toks ! i)))
    \<and> sorted (map snd toks) \<and> (\<forall>t \<in> set toks. 1 \<le> snd t)"
  using lex_from_ok [OF assms [unfolded lex_def]] by (auto simp: lexed_ok_def)

lemma lexed_is_well_formed_witness:
  "\<exists>toks. lex ''A'' = (Inr toks :: (unit dissonance, lexed) result) \<and> toks = [(T_Ident ''A'', 1)]
    \<and> (\<forall>i < length toks. tok_ok (take i toks) (fst (toks ! i)))"
proof -
  have l: "lex ''A'' = (Inr [(T_Ident ''A'', 1)] :: (unit dissonance, lexed) result)"
    by (simp add: lex_def lex_from.simps punct_def ident_head_def is_alpha_def is_upper_def is_digit_def code_def)
  then show ?thesis using lexed_is_well_formed [OF l] by blast
qed

end
