(* ===== verification/Parser.thy ===== *)
theory Parser
  imports Lexer Env
begin

text \<open>
  The recursive-descent parser of the score language: \<open>officium-parse/src/parser.rs\<close>, from
  tokens to fugues, verses and Core expressions.

  The cursor into the token vector is the list of tokens still to read together with the line
  of the last one read, which is all the code ever looks back at (in \<open>err\<close>, past the end).
  The functions of the expression grammar call each other, and each is total: an atom reads a
  token at least, and every other call between two atoms goes down one level of the grammar.
\<close>

section \<open>The cursor\<close>

record parser =
  toks :: lexed
  last_line :: "nat option"
  paren_depth :: nat
  expr_depth :: nat

text \<open>Every error of the parser is a \<open>Dissonance::Parse\<close>: its line and its message.\<close>

type_synonym parse_error = "nat \<times> string"
type_synonym 'a parsed = "parse_error + 'a \<times> parser"

definition MAX_EXPR_DEPTH :: nat where
  "MAX_EXPR_DEPTH = 96"

definition perr :: "parser \<Rightarrow> string \<Rightarrow> parse_error" where
  "perr p msg =
     (case toks p of (_, l) # _ \<Rightarrow> l | [] \<Rightarrow> (case last_line p of Some l \<Rightarrow> l | None \<Rightarrow> 1), msg)"

text \<open>\<open>self.pos += 1\<close>.\<close>

definition advance_tok :: "parser \<Rightarrow> parser" where
  "advance_tok p = (case toks p of [] \<Rightarrow> p | (_, l) # ts \<Rightarrow> p\<lparr>toks := ts, last_line := Some l\<rparr>)"

fun past_newlines :: "nat option \<Rightarrow> lexed \<Rightarrow> nat option \<times> lexed" where
  "past_newlines ll ((T_Newline, l) # ts) = past_newlines (Some l) ts"
| "past_newlines ll ts = (ll, ts)"

definition skip_newlines :: "parser \<Rightarrow> parser" where
  "skip_newlines p =
     (case past_newlines (last_line p) (toks p) of (ll, ts) \<Rightarrow> p\<lparr>toks := ts, last_line := ll\<rparr>)"

definition peek :: "parser \<Rightarrow> tok option \<times> parser" where
  "peek p =
     (let p' = (if 0 < paren_depth p then skip_newlines p else p)
      in (case toks p' of [] \<Rightarrow> None | (t, _) # _ \<Rightarrow> Some t, p'))"

definition next_tok :: "parser \<Rightarrow> tok option \<times> parser" where
  "next_tok p = (case peek p of (None, p') \<Rightarrow> (None, p') | (Some t, p') \<Rightarrow> (Some t, advance_tok p'))"

definition eat :: "tok \<Rightarrow> parser \<Rightarrow> bool \<times> parser" where
  "eat want p = (case peek p of (t, p') \<Rightarrow> if t = Some want then (True, advance_tok p') else (False, p'))"

definition expect :: "tok \<Rightarrow> string \<Rightarrow> parser \<Rightarrow> parse_error + parser" where
  "expect want what p = (case eat want p of (b, p') \<Rightarrow> if b then Inr p' else Inl (perr p' what))"

definition ident :: "string \<Rightarrow> parser \<Rightarrow> string parsed" where
  "ident what p = (case next_tok p of
     (Some (T_Ident s), p') \<Rightarrow> Inr (s, p')
   | (_, p') \<Rightarrow> Inl (perr p' what))"

definition keyword :: "string \<Rightarrow> parser \<Rightarrow> bool \<times> parser" where
  "keyword kw p =
     (case peek p of (t, p') \<Rightarrow> if t = Some (T_Ident kw) then (True, advance_tok p') else (False, p'))"

definition name_arg :: "string \<Rightarrow> parser \<Rightarrow> string parsed" where
  "name_arg what p = (case next_tok p of
     (Some (T_Str s), p') \<Rightarrow> Inr (s, p')
   | (Some (T_Ident s), p') \<Rightarrow> Inr (s, p')
   | (_, p') \<Rightarrow> Inl (perr p' what))"

section \<open>Expressions\<close>

definition call2 :: "string \<Rightarrow> expr \<Rightarrow> expr \<Rightarrow> expr" where
  "call2 name a b = EApp (EApp (EVar name) a) b"

definition reserved :: "string set" where
  "reserved = {''tunc'', ''aliter'', ''amen'', ''nihil'', ''clama'', ''perage'', ''si'', ''pone'', ''mitte'',
     ''fuga'', ''versus'', ''in'', ''pedale'', ''subiectum'', ''reale'', ''tonale'', ''contra''}"

definition starts_atom :: "parser \<Rightarrow> bool \<times> parser" where
  "starts_atom p = (case peek p of (t, p') \<Rightarrow>
     ((case t of
         Some (T_Num _) \<Rightarrow> True
       | Some (T_Str _) \<Rightarrow> True
       | Some T_LParen \<Rightarrow> True
       | Some T_Lambda \<Rightarrow> True
       | Some (T_Ident s) \<Rightarrow> s \<notin> reserved
       | _ \<Rightarrow> False), p'))"

definition additive_op :: "tok option \<Rightarrow> string option" where
  "additive_op t = (case t of Some T_Plus \<Rightarrow> Some ''add'' | Some T_Minus \<Rightarrow> Some ''sub'' | _ \<Rightarrow> None)"

definition multiplicative_op :: "tok option \<Rightarrow> string option" where
  "multiplicative_op t = (case t of Some T_Star \<Rightarrow> Some ''mul'' | Some T_Slash \<Rightarrow> Some ''div'' | _ \<Rightarrow> None)"

text \<open>An identifier in an atom's place: what it stands for, or the parser of its argument.\<close>

datatype atom_word = Word_is expr | Word_name | Word_resolve | Word_of "expr \<Rightarrow> expr"

definition atom_word :: "string \<Rightarrow> atom_word" where
  "atom_word s =
     (if s = ''arg'' then Word_is EArg
      else if s = ''lege'' then Word_is ELege
      else if s = ''verum'' then Word_is (ELit (VBool True))
      else if s = ''falsum'' then Word_is (ELit (VBool False))
      else if s = ''ask'' then Word_name
      else if s = ''resolve'' then Word_resolve
      else if s = ''pure'' then Word_of (EPure Dorian)
      else if s = ''leva'' then Word_of ELift
      else if s = ''pone'' then Word_of EPone
      else Word_is (EVar s))"

text \<open>The message for a missing parameter quotes the backslash before it.\<close>

definition after_lambda :: string where
  "after_lambda = ''expected a parameter after '' @ apos [CHR 0x5C]"

function (domintros)
  parse_expr :: "parser \<Rightarrow> expr parsed"
  and additive :: "parser \<Rightarrow> expr parsed"
  and additive_loop :: "expr \<Rightarrow> parser \<Rightarrow> expr parsed"
  and multiplicative :: "parser \<Rightarrow> expr parsed"
  and multiplicative_loop :: "expr \<Rightarrow> parser \<Rightarrow> expr parsed"
  and application :: "parser \<Rightarrow> expr parsed"
  and application_loop :: "expr \<Rightarrow> parser \<Rightarrow> expr parsed"
  and atom :: "parser \<Rightarrow> expr parsed" where
  "parse_expr p =
     (if MAX_EXPR_DEPTH < expr_depth p + 1
      then Inl (perr p ''expression nests too deeply'')
      else and_then (additive (p\<lparr>expr_depth := expr_depth p + 1\<rparr>))
             (\<lambda>(e, p'). Inr (e, p'\<lparr>expr_depth := expr_depth p' - 1\<rparr>)))"
| "additive p = and_then (multiplicative p) (\<lambda>(lhs, p'). additive_loop lhs p')"
| "additive_loop lhs p =
     (case peek p of (t, p') \<Rightarrow>
       (case additive_op t of
          None \<Rightarrow> Inr (lhs, p')
        | Some name \<Rightarrow>
            and_then (multiplicative (advance_tok p')) (\<lambda>(rhs, p''). additive_loop (call2 name lhs rhs) p'')))"
| "multiplicative p = and_then (application p) (\<lambda>(lhs, p'). multiplicative_loop lhs p')"
| "multiplicative_loop lhs p =
     (case peek p of (t, p') \<Rightarrow>
       (case multiplicative_op t of
          None \<Rightarrow> Inr (lhs, p')
        | Some name \<Rightarrow>
            and_then (application (advance_tok p')) (\<lambda>(rhs, p''). multiplicative_loop (call2 name lhs rhs) p'')))"
| "application p = and_then (atom p) (\<lambda>(e, p'). application_loop e p')"
| "application_loop e p =
     (case starts_atom p of (b, p') \<Rightarrow>
        if b then and_then (atom p') (\<lambda>(a, p''). application_loop (EApp e a) p'') else Inr (e, p'))"
| "atom p =
     (case peek p of (t, p') \<Rightarrow>
       (case t of
          Some (T_Num n) \<Rightarrow> Inr (ELit (VNum n), advance_tok p')
        | Some (T_Str s) \<Rightarrow> Inr (ELit (VStr s), advance_tok p')
        | Some T_LParen \<Rightarrow>
            and_then (parse_expr ((advance_tok p')\<lparr>paren_depth := paren_depth p' + 1\<rparr>))
              (\<lambda>(e, p1). and_then (expect T_RParen (''expected '' @ apos '')'') (p1\<lparr>paren_depth := paren_depth p1 - 1\<rparr>))
                (\<lambda>p2. Inr (e, p2)))
        | Some T_Lambda \<Rightarrow>
            and_then (ident after_lambda (advance_tok p')) (\<lambda>(param, p1).
              and_then (expect T_Arrow (''expected '' @ apos ''->'' @ '' in lambda'') p1) (\<lambda>p2.
                and_then (parse_expr p2) (\<lambda>(body, p3). Inr (ELam param body, p3))))
        | Some T_Minus \<Rightarrow>
            and_then (atom (advance_tok p')) (\<lambda>(e, p1). Inr (call2 ''sub'' (ELit (VNum f64_zero)) e, p1))
        | Some (T_Ident s) \<Rightarrow>
            (case atom_word s of
               Word_is e \<Rightarrow> Inr (e, advance_tok p')
             | Word_name \<Rightarrow>
                 and_then (name_arg (''expected a name after '' @ apos ''ask'') (advance_tok p'))
                   (\<lambda>(name, p1). Inr (EAsk name, p1))
             | Word_resolve \<Rightarrow>
                 and_then (name_arg (''expected a name after '' @ apos ''resolve'') (advance_tok p'))
                   (\<lambda>(name, p1). and_then (atom p1) (\<lambda>(genus, p2). Inr (EResolve name genus, p2)))
             | Word_of f \<Rightarrow> and_then (atom (advance_tok p')) (\<lambda>(e, p1). Inr (f e, p1)))
        | _ \<Rightarrow> Inl (perr p' ''expected an expression'')))"
  by pat_completeness auto

section \<open>Reading shortens the tokens\<close>

text \<open>
  \<open>keeps\<close>: no more tokens, and the depths unchanged; \<open>takes\<close>: at least one token less.
  \<open>good R r\<close>: a result that is a value was read along \<open>R\<close>.
\<close>

definition keeps :: "parser \<Rightarrow> parser \<Rightarrow> bool" where
  "keeps p q \<longleftrightarrow> length (toks q) \<le> length (toks p) \<and> paren_depth q = paren_depth p \<and> expr_depth q = expr_depth p"

definition takes :: "parser \<Rightarrow> parser \<Rightarrow> bool" where
  "takes p q \<longleftrightarrow> length (toks q) < length (toks p) \<and> paren_depth q = paren_depth p \<and> expr_depth q = expr_depth p"

definition good :: "(parser \<Rightarrow> bool) \<Rightarrow> 'a parsed \<Rightarrow> bool" where
  "good R r = (case r of Inl _ \<Rightarrow> True | Inr (_, q) \<Rightarrow> R q)"

lemma keeps_refl [simp]: "keeps p p"
  by (simp add: keeps_def)

lemma takes_keeps: "takes p q \<Longrightarrow> keeps p q"
  by (simp add: takes_def keeps_def)

lemma keeps_trans: "keeps p q \<Longrightarrow> keeps q r \<Longrightarrow> keeps p r"
  by (simp add: keeps_def)

lemma takes_keeps_trans: "takes p q \<Longrightarrow> keeps q r \<Longrightarrow> takes p r"
  by (simp add: takes_def keeps_def)

lemma keeps_takes_trans: "keeps p q \<Longrightarrow> takes q r \<Longrightarrow> takes p r"
  by (simp add: takes_def keeps_def)

lemma good_Inr [simp]: "good R (Inr (x, q)) = R q"
  by (simp add: good_def)

lemma good_Inl [simp]: "good R (Inl e)"
  by (simp add: good_def)

lemma good_and_then:
  "good R r \<Longrightarrow> (\<And>x q. r = Inr (x, q) \<Longrightarrow> R q \<Longrightarrow> good S (f (x, q))) \<Longrightarrow> good S (and_then r f)"
  by (cases r) auto

lemma good_mono: "good R r \<Longrightarrow> (\<And>q. R q \<Longrightarrow> S q) \<Longrightarrow> good S r"
  by (auto simp: good_def split: sum.splits prod.splits)

lemma past_newlines_length: "past_newlines ll ts = (ll', ts') \<Longrightarrow> length ts' \<le> length ts"
  by (induction ll ts rule: past_newlines.induct) (auto split: tok.splits)

lemma skip_newlines_keeps: "keeps p (skip_newlines p)"
  using past_newlines_length [of "last_line p" "toks p"]
  by (auto simp: skip_newlines_def keeps_def split: prod.splits)

lemma peek_keeps: "peek p = (t, q) \<Longrightarrow> keeps p q"
  using skip_newlines_keeps [of p] by (auto simp: peek_def Let_def split: if_splits)

lemma peek_first: "peek p = (t, q) \<Longrightarrow> t = (case toks q of [] \<Rightarrow> None | (u, _) # _ \<Rightarrow> Some u)"
  by (auto simp: peek_def Let_def)

lemma peek_takes: "peek p = (Some t, q) \<Longrightarrow> takes p (advance_tok q)"
  using peek_keeps [of p "Some t" q] peek_first [of p "Some t" q]
  by (auto simp: advance_tok_def keeps_def takes_def split: list.splits prod.splits)

lemma next_tok_takes: "next_tok p = (Some t, q) \<Longrightarrow> takes p q"
  by (auto simp: next_tok_def dest: peek_takes split: prod.splits option.splits)

lemma eat_takes: "eat t p = (True, q) \<Longrightarrow> takes p q"
  by (auto simp: eat_def dest: peek_takes split: prod.splits if_splits)

lemma eat_keeps: "eat t p = (b, q) \<Longrightarrow> keeps p q"
  by (auto simp: eat_def dest: peek_keeps peek_takes takes_keeps split: prod.splits if_splits)

lemma keyword_takes: "keyword kw p = (True, q) \<Longrightarrow> takes p q"
  by (auto simp: keyword_def dest: peek_takes split: prod.splits if_splits)

lemma keyword_keeps: "keyword kw p = (b, q) \<Longrightarrow> keeps p q"
  by (auto simp: keyword_def dest: peek_keeps peek_takes takes_keeps split: prod.splits if_splits)

lemma expect_takes: "expect t what p = Inr q \<Longrightarrow> takes p q"
  by (auto simp: expect_def dest: eat_takes split: prod.splits if_splits)

lemma good_expect:
  "(\<And>q. expect t what p = Inr q \<Longrightarrow> takes p q \<Longrightarrow> good S (f q)) \<Longrightarrow> good S (and_then (expect t what p) f)"
  using expect_takes [of t what p] by (cases "expect t what p") auto

lemma ident_good: "good (takes p) (ident what p)"
  by (auto simp: ident_def dest: next_tok_takes split: prod.splits option.splits tok.splits)

lemma name_arg_good: "good (takes p) (name_arg what p)"
  by (auto simp: name_arg_def dest: next_tok_takes split: prod.splits option.splits tok.splits)

lemma starts_atom_keeps: "starts_atom p = (b, q) \<Longrightarrow> keeps p q"
  by (auto simp: starts_atom_def dest: peek_keeps split: prod.splits)

lemma takes_expr_depth: "takes (p\<lparr>expr_depth := Suc n\<rparr>) q \<Longrightarrow> n = expr_depth p \<Longrightarrow> takes p (q\<lparr>expr_depth := expr_depth q - Suc 0\<rparr>)"
  by (simp add: takes_def)

lemma takes_paren_depth:
  "takes p p' \<Longrightarrow> takes (p'\<lparr>paren_depth := Suc (paren_depth p')\<rparr>) q \<Longrightarrow>
   takes p (q\<lparr>paren_depth := paren_depth q - Suc 0\<rparr>)"
  by (simp add: takes_def)

text \<open>The cases of the expression grammar, for whatever its functions are.\<close>

lemma good_read: "takes p q \<Longrightarrow> good (takes q) r \<Longrightarrow> good (takes p) r"
  by (cases r) (auto simp: takes_def)

lemma good_then:
  "good (takes p) r \<Longrightarrow> (\<And>x q. r = Inr (x, q) \<Longrightarrow> good (keeps q) (f x q)) \<Longrightarrow>
   good (takes p) (and_then r (\<lambda>(x, q). f x q))"
  by (cases r) (force elim: good_mono intro: takes_keeps_trans)+

lemma good_again:
  "keeps p q \<Longrightarrow> good (takes q) r \<Longrightarrow> (\<And>x q'. r = Inr (x, q') \<Longrightarrow> good (keeps q') (f x q')) \<Longrightarrow>
   good (keeps p) (and_then r (\<lambda>(x, q'). f x q'))"
  by (rule good_mono [OF good_then]) (auto intro: keeps_trans takes_keeps)

lemma op_not_None: "additive_op None = None" "multiplicative_op None = None"
  by (simp_all add: additive_op_def multiplicative_op_def)

lemma good_operator:
  assumes "peek p = (t, q)" "t \<noteq> None"
    and "good (takes (advance_tok q)) r"
    and "\<And>x q'. r = Inr (x, q') \<Longrightarrow> good (keeps q') (f x q')"
  shows "good (keeps p) (and_then r (\<lambda>(x, q'). f x q'))"
proof -
  obtain u where "t = Some u" using assms(2) by (cases t) auto
  then have "keeps p (advance_tok q)" using assms(1) by (auto intro: takes_keeps peek_takes)
  then show ?thesis by (rule good_again [OF _ assms(3,4)])
qed

lemma parse_expr_step:
  assumes "good (takes (p\<lparr>expr_depth := expr_depth p + 1\<rparr>)) r"
  shows "good (takes p) (and_then r (\<lambda>(e, q). Inr (e, q\<lparr>expr_depth := expr_depth q - 1\<rparr>)))"
  using assms by (cases r) (auto simp: takes_def)

lemma paren_step:
  assumes "peek p = (Some t, q)"
    and "good (takes ((advance_tok q)\<lparr>paren_depth := paren_depth q + 1\<rparr>)) r"
  shows "good (takes p) (and_then r (\<lambda>(e, p1).
    and_then (expect T_RParen w (p1\<lparr>paren_depth := paren_depth p1 - 1\<rparr>)) (\<lambda>p2. Inr (e, p2))))"
proof -
  have t: "takes p (advance_tok q)" and k: "keeps p q" by (rule peek_takes [OF assms(1)], rule peek_keeps [OF assms(1)])
  show ?thesis
  proof (cases r)
    case (Inr ep)
    obtain e p1 where ep: "ep = (e, p1)" by (metis surj_pair)
    then have "takes p (p1\<lparr>paren_depth := paren_depth p1 - 1\<rparr>)"
      using assms(2) t k Inr by (simp add: takes_def keeps_def)
    then show ?thesis
      unfolding Inr ep by (auto intro!: good_expect simp: takes_def)
  qed simp
qed

lemma lambda_step:
  assumes "peek p = (Some t, q)"
    and "\<And>param p1 p2. ident w (advance_tok q) = Inr (param, p1) \<Longrightarrow> expect T_Arrow w' p1 = Inr p2 \<Longrightarrow>
      good (takes p2) (r p2)"
  shows "good (takes p) (and_then (ident w (advance_tok q)) (\<lambda>(param, p1).
    and_then (expect T_Arrow w' p1) (\<lambda>p2. and_then (r p2) (\<lambda>(body, p3). Inr (ELam param body, p3)))))"
proof (rule good_read [OF peek_takes [OF assms(1)]], rule good_then [OF ident_good])
  fix param p1
  assume i: "ident w (advance_tok q) = Inr (param, p1)"
  show "good (keeps p1) (and_then (expect T_Arrow w' p1) (\<lambda>p2. and_then (r p2) (\<lambda>(body, p3). Inr (ELam param body, p3))))"
  proof (rule good_expect)
    fix p2
    assume e: "expect T_Arrow w' p1 = Inr p2" "takes p1 p2"
    then show "good (keeps p1) (and_then (r p2) (\<lambda>(body, p3). Inr (ELam param body, p3)))"
      by (intro good_again [OF _ assms(2) [OF i e(1)]]) (auto intro: takes_keeps)
  qed
qed

lemma grammar_shortens:
  shows "parse_expr_additive_additive_loop_multiplicative_multiplicative_loop_application_application_loop_atom_dom (Inl (Inl (Inl p1))) \<Longrightarrow> good (takes p1) (parse_expr p1)"
    and "parse_expr_additive_additive_loop_multiplicative_multiplicative_loop_application_application_loop_atom_dom (Inl (Inl (Inr p2))) \<Longrightarrow> good (takes p2) (additive p2)"
    and "parse_expr_additive_additive_loop_multiplicative_multiplicative_loop_application_application_loop_atom_dom (Inl (Inr (Inl (e3, p3)))) \<Longrightarrow> good (keeps p3) (additive_loop e3 p3)"
    and "parse_expr_additive_additive_loop_multiplicative_multiplicative_loop_application_application_loop_atom_dom (Inl (Inr (Inr p4))) \<Longrightarrow> good (takes p4) (multiplicative p4)"
    and "parse_expr_additive_additive_loop_multiplicative_multiplicative_loop_application_application_loop_atom_dom (Inr (Inl (Inl (e5, p5)))) \<Longrightarrow> good (keeps p5) (multiplicative_loop e5 p5)"
    and "parse_expr_additive_additive_loop_multiplicative_multiplicative_loop_application_application_loop_atom_dom (Inr (Inl (Inr p6))) \<Longrightarrow> good (takes p6) (application p6)"
    and "parse_expr_additive_additive_loop_multiplicative_multiplicative_loop_application_application_loop_atom_dom (Inr (Inr (Inl (e7, p7)))) \<Longrightarrow> good (keeps p7) (application_loop e7 p7)"
    and "parse_expr_additive_additive_loop_multiplicative_multiplicative_loop_application_application_loop_atom_dom (Inr (Inr (Inr p8))) \<Longrightarrow> good (takes p8) (atom p8)"
proof (induction p1 and p2 and e3 p3 and p4 and e5 p5 and p6 and e7 p7 and p8 rule: parse_expr_additive_additive_loop_multiplicative_multiplicative_loop_application_application_loop_atom.pinduct)
  case (1 p)
  then show ?case using parse_expr_step [of p "additive (p\<lparr>expr_depth := expr_depth p + 1\<rparr>)"] by (auto simp: parse_expr.psimps)
next
  case (2 p)
  then show ?case unfolding additive.psimps[OF 2(1)] by (intro good_then) auto
next
  case (3 lhs p)
  obtain t q where q: "peek p = (t, q)" by (metis surj_pair)
  show ?case
  proof (cases "additive_op t")
    case None
    then show ?thesis using q peek_keeps [OF q] by (simp add: additive_loop.psimps [OF 3(1)])
  next
    case (Some name)
    then have "t \<noteq> None" using op_not_None by (cases t) auto
    then show ?thesis using 3(2,3) q Some by (simp add: additive_loop.psimps [OF 3(1)]) (rule good_operator [OF q], auto)
  qed
next
  case (4 p)
  then show ?case unfolding multiplicative.psimps[OF 4(1)] by (intro good_then) auto
next
  case (5 lhs p)
  obtain t q where q: "peek p = (t, q)" by (metis surj_pair)
  show ?case
  proof (cases "multiplicative_op t")
    case None
    then show ?thesis using q peek_keeps [OF q] by (simp add: multiplicative_loop.psimps [OF 5(1)])
  next
    case (Some name)
    then have "t \<noteq> None" using op_not_None by (cases t) auto
    then show ?thesis using 5(2,3) q Some by (simp add: multiplicative_loop.psimps [OF 5(1)]) (rule good_operator [OF q], auto)
  qed
next
  case (6 p)
  then show ?case unfolding application.psimps[OF 6(1)] by (intro good_then) auto
next
  case (7 e p)
  obtain b q where q: "starts_atom p = (b, q)" by (metis surj_pair)
  show ?case using 7(2,3) q starts_atom_keeps [OF q]
    by (auto simp: application_loop.psimps [OF 7(1)] intro!: good_again)
next
  case (8 p)
  obtain t q where q: "peek p = (t, q)" by (metis surj_pair)
  show ?case
  proof (cases t)
    case (Some u)
    note q = q [unfolded Some]
    show ?thesis
    proof (cases u)
      case (T_Ident s)
      note r = good_read [OF peek_takes [OF q]]
      show ?thesis
      proof (cases "atom_word s")
        case Word_name
        then show ?thesis using q T_Ident by (simp add: atom.psimps [OF 8(1)]) (auto intro!: r good_then [OF name_arg_good])
      next
        case Word_resolve
        then show ?thesis using q T_Ident 8(2) 
           by (simp add: atom.psimps [OF 8(1)]) (auto intro!: r good_then [OF name_arg_good] good_again [OF keeps_refl])
      next
        case (Word_of f)
        then show ?thesis using q T_Ident 8(3) by (simp add: atom.psimps [OF 8(1)]) (auto intro!: r good_then)
      qed (use q peek_takes [OF q] T_Ident in \<open>simp add: atom.psimps [OF 8(1)]\<close>)
    next
      case T_LParen
      then have "good (takes ((advance_tok q)\<lparr>paren_depth := paren_depth q + 1\<rparr>))
          (parse_expr ((advance_tok q)\<lparr>paren_depth := paren_depth q + 1\<rparr>))"
        using 8(4) q by auto
      from paren_step [OF q this] show ?thesis using q T_LParen by (simp add: atom.psimps [OF 8(1)])
    next
      case T_Lambda
      then show ?thesis using 8(5) q by (simp add: atom.psimps [OF 8(1)]) (rule lambda_step, auto)
    next
      case T_Minus
      then show ?thesis using 8(6) q peek_takes [OF q] by (auto simp add: atom.psimps [OF 8(1)]  intro!: good_then elim: good_read)
    qed (use q peek_takes [OF q] in \<open>simp_all add: atom.psimps [OF 8(1)]\<close>)
  qed (use q in \<open>simp add: atom.psimps [OF 8(1)]\<close>)
qed

lemma good_takes: "good (takes p) r \<Longrightarrow> r = Inr (x, q) \<Longrightarrow> length (toks q) < length (toks p)"
  by (auto simp: takes_def)

lemma peek_length:
  "(t, q) = peek p \<Longrightarrow> length (toks q) \<le> length (toks p)
    \<and> (t \<noteq> None \<longrightarrow> length (toks (advance_tok q)) < length (toks p))"
  using peek_keeps [of p t q] peek_takes [of p "the t" q] by (auto simp: keeps_def takes_def)

lemma op_Some: "additive_op t = Some w \<Longrightarrow> t \<noteq> None" "multiplicative_op t = Some w \<Longrightarrow> t \<noteq> None"
  by (auto simp: additive_op_def multiplicative_op_def split: option.splits)

lemma reads_length:
  "ident w p = Inr (x, q) \<Longrightarrow> length (toks q) < length (toks p)"
  "name_arg w p = Inr (x, q) \<Longrightarrow> length (toks q) < length (toks p)"
  "expect t w p = Inr q \<Longrightarrow> length (toks q) < length (toks p)"
  "(b, q) = starts_atom p \<Longrightarrow> length (toks q) \<le> length (toks p)"
  using good_takes [OF ident_good [of p w]] good_takes [OF name_arg_good [of p w]] expect_takes [of t w p q]
    starts_atom_keeps [of p b q]
  by (auto simp: takes_def keeps_def)

lemma grammar_terminates: "All parse_expr_additive_additive_loop_multiplicative_multiplicative_loop_application_application_loop_atom_dom"
proof (rule "parse_expr_additive_additive_loop_multiplicative_multiplicative_loop_application_application_loop_atom.termination" [of "measures
    [\<lambda>x. case x of Inl (Inl (Inl p)) \<Rightarrow> length (toks p) | Inl (Inl (Inr p)) \<Rightarrow> length (toks p)
       | Inl (Inr (Inl (_, p))) \<Rightarrow> length (toks p) | Inl (Inr (Inr p)) \<Rightarrow> length (toks p)
       | Inr (Inl (Inl (_, p))) \<Rightarrow> length (toks p) | Inr (Inl (Inr p)) \<Rightarrow> length (toks p)
       | Inr (Inr (Inl (_, p))) \<Rightarrow> length (toks p) | Inr (Inr (Inr p)) \<Rightarrow> length (toks p),
     \<lambda>x. case x of Inl (Inl (Inl p)) \<Rightarrow> 7 | Inl (Inl (Inr p)) \<Rightarrow> 6 | Inl (Inr (Inl _)) \<Rightarrow> 5
       | Inl (Inr (Inr p)) \<Rightarrow> 4 | Inr (Inl (Inl _)) \<Rightarrow> 3 | Inr (Inl (Inr p)) \<Rightarrow> 2
       | Inr (Inr (Inl _)) \<Rightarrow> 1 | Inr (Inr (Inr p)) \<Rightarrow> 0]"], goal_cases)

qed (auto dest: good_takes [OF grammar_shortens(4)] good_takes [OF grammar_shortens(6)]
    good_takes [OF grammar_shortens(8)] dest!: peek_length op_Some reads_length)

termination parse_expr
  by (rule grammar_terminates)

lemmas grammar_good = grammar_shortens [OF spec [OF grammar_terminates]]

declare parse_expr.simps [simp del] additive.simps [simp del] additive_loop.simps [simp del]
  multiplicative.simps [simp del] multiplicative_loop.simps [simp del] application.simps [simp del]
  application_loop.simps [simp del] atom.simps [simp del]

lemma parse_expr_length: "parse_expr p = Inr (e, q) \<Longrightarrow> length (toks q) < length (toks p)"
  by (rule good_takes [OF grammar_good(1)])

section \<open>Statements\<close>

definition close_stmts :: "parser \<Rightarrow> parse_error + parser" where
  "close_stmts p = expect T_RBrace (''expected '' @ apos ''}'' @ '' after the cadence'') (skip_newlines p)"

text \<open>A cadence with its operand: \<open>amen e\<close>, \<open>clama e\<close>, \<open>perage e\<close>.\<close>

definition cadence :: "(expr \<Rightarrow> expr) \<Rightarrow> parser \<Rightarrow> expr parsed" where
  "cadence f p =
     and_then (parse_expr p) (\<lambda>(e, p1). and_then (close_stmts p1) (\<lambda>p2. Inr (f e, p2)))"

text \<open>
  The head of a statement that goes on: the value and the name it binds. \<open>pone\<close> and \<open>mitte\<close>
  bind the name \<open>_\<close>.
\<close>

definition bind_head :: "parser \<Rightarrow> (expr \<times> string) parsed" where
  "bind_head p =
     (case keyword ''pone'' p of (b, p1) \<Rightarrow>
        if b then and_then (parse_expr p1) (\<lambda>(e, p2). Inr ((EPone e, ''_''), p2))
        else (case keyword ''mitte'' p1 of (b, p1) \<Rightarrow>
          if b then and_then (parse_expr p1) (\<lambda>(e, p2). Inr ((EMitte e, ''_''), p2))
          else and_then (ident ''expected a statement or cadence'' p1) (\<lambda>(name, p2).
                 and_then (expect T_BindArrow (''expected '' @ apos ''<-'' @ '' after binder'') p2) (\<lambda>p3.
                   and_then (parse_expr p3) (\<lambda>(rhs, p4). Inr ((rhs, name), p4))))))"

text \<open>What may begin a statement list, in the order the code tries it.\<close>

datatype stmt_kind = Amen | Nihil | Clama | Perage | Si | Goes_on

fun try_keywords :: "(string \<times> stmt_kind) list \<Rightarrow> parser \<Rightarrow> stmt_kind \<times> parser" where
  "try_keywords [] p = (Goes_on, p)"
| "try_keywords ((kw, k) # kws) p =
     (case keyword kw p of (b, p1) \<Rightarrow> if b then (k, p1) else try_keywords kws p1)"

definition stmt_start :: "parser \<Rightarrow> stmt_kind \<times> parser" where
  "stmt_start p =
     try_keywords [(''amen'', Amen), (''nihil'', Nihil), (''clama'', Clama), (''perage'', Perage), (''si'', Si)] p"

text \<open>\<open>si\<close>'s condition up to the brace of its first arm; the words between the arms.\<close>

definition si_head :: "parser \<Rightarrow> expr parsed" where
  "si_head p =
     and_then (parse_expr p) (\<lambda>(cond, p1).
       (case keyword ''tunc'' p1 of (b, p2) \<Rightarrow>
          if \<not> b then Inl (perr p2 (''expected '' @ apos ''tunc'' @ '' after si-condition''))
          else and_then (expect T_LBrace (''expected '' @ apos ''{'' @ '' after tunc'') (skip_newlines p2))
                 (\<lambda>p3. Inr (cond, p3))))"

definition si_else :: "parser \<Rightarrow> parse_error + parser" where
  "si_else p =
     (case keyword ''aliter'' (skip_newlines p) of (b, p1) \<Rightarrow>
        if \<not> b then Inl (perr p1 (''expected '' @ apos ''aliter'' @ '' after tunc-block''))
        else expect T_LBrace (''expected '' @ apos ''{'' @ '' after aliter'') (skip_newlines p1))"

lemma keyword_length: "keyword kw p = (True, q) \<Longrightarrow> takes p q"
  by (rule keyword_takes)

lemma skip_newlines_length: "length (toks (skip_newlines p)) \<le> length (toks p)"
  using skip_newlines_keeps [of p] by (simp add: keeps_def)

lemma try_keywords_keeps: "try_keywords kws p = (k, q) \<Longrightarrow> keeps p q"
proof (induction kws p rule: try_keywords.induct)
  case (2 kw k kws p)
  then show ?case by (auto dest: keyword_keeps intro: keeps_trans split: prod.splits if_splits)
qed simp

lemma close_stmts_takes: "close_stmts p = Inr q \<Longrightarrow> takes p q"
  unfolding close_stmts_def using skip_newlines_keeps [of p] by (blast dest: expect_takes intro: keeps_takes_trans)

lemma parse_expr_takes: "parse_expr p = Inr (e, q) \<Longrightarrow> takes p q"
  using grammar_good(1) [of p] by simp

lemma cadence_takes: "cadence f p = Inr (e, q) \<Longrightarrow> takes p q"
  by (auto simp: cadence_def and_then_Inr_iff dest!: parse_expr_takes close_stmts_takes
      intro: takes_keeps_trans takes_keeps)

lemma ident_takes: "ident w p = Inr (s, q) \<Longrightarrow> takes p q"
  using ident_good [of p w] by simp

lemma bind_head_takes: "bind_head p = Inr (e, q) \<Longrightarrow> takes p q"
  by (auto simp: bind_head_def and_then_Inr_iff
      dest!: parse_expr_takes ident_takes expect_takes keyword_keeps split: prod.splits if_splits)
    (auto simp: takes_def keeps_def)

lemma skip_keyword_expect:
  assumes "keyword kw p = (b, q)" "expect t w (skip_newlines q) = Inr r"
  shows "takes p r"
  using keyword_keeps [OF assms(1)] skip_newlines_keeps [of q] expect_takes [OF assms(2)]
  by (simp add: takes_def keeps_def)

lemma si_head_takes:
  assumes "si_head p = Inr (e, q)"
  shows "takes p q"
proof -
  obtain c p1 where 1: "parse_expr p = Inr (c, p1)" using assms by (auto simp: si_head_def and_then_Inr_iff)
  obtain b p2 where 2: "keyword ''tunc'' p1 = (b, p2)" by (metis surj_pair)
  have "takes p1 q"
    using assms 1 2 skip_keyword_expect [OF 2] by (auto simp: si_head_def and_then_Inr_iff split: if_splits)
  then show ?thesis using parse_expr_takes [OF 1] by (blast intro: takes_keeps_trans takes_keeps)
qed

lemma si_else_takes:
  assumes "si_else p = Inr q"
  shows "takes p q"
proof -
  obtain b p2 where 2: "keyword ''aliter'' (skip_newlines p) = (b, p2)" by (metis surj_pair)
  have "takes (skip_newlines p) q"
    using assms skip_keyword_expect [OF 2] 2 by (auto simp: si_else_def split: if_splits)
  then show ?thesis using skip_newlines_keeps by (blast intro: keeps_takes_trans)
qed

function (domintros) stmts :: "mode \<Rightarrow> parser \<Rightarrow> expr parsed" where
  "stmts mode p =
     (case stmt_start (skip_newlines p) of (k, p1) \<Rightarrow>
       (case k of
          Amen \<Rightarrow> cadence (EReturn mode) p1
        | Nihil \<Rightarrow> and_then (close_stmts p1) (\<lambda>p2. Inr (ENihil, p2))
        | Clama \<Rightarrow> cadence EClama p1
        | Perage \<Rightarrow> cadence EPerage p1
        | Si \<Rightarrow>
            and_then (si_head p1) (\<lambda>(cond, p2).
              and_then (stmts mode p2) (\<lambda>(then_e, p3).
                and_then (si_else p3) (\<lambda>p4.
                  and_then (stmts mode p4) (\<lambda>(else_e, p5).
                    and_then (close_stmts p5) (\<lambda>p6. Inr (EIf cond then_e else_e, p6))))))
        | Goes_on \<Rightarrow>
            and_then (bind_head p1) (\<lambda>(mx, p2).
              and_then (stmts mode p2) (\<lambda>(rest, p3). Inr (EBind mode (fst mx) (snd mx) rest, p3)))))"
  by pat_completeness auto

lemma stmt_start_keeps: "stmt_start (skip_newlines p) = (k, q) \<Longrightarrow> keeps p q"
  unfolding stmt_start_def using try_keywords_keeps skip_newlines_keeps by (blast intro: keeps_trans)

lemma stmts_shortens: "stmts_dom (mode, p) \<Longrightarrow> stmts mode p = Inr (e, q) \<Longrightarrow> takes p q"
proof (induction mode p arbitrary: e q rule: stmts.pinduct)
  case (1 mode p)
  obtain k p1 where k: "stmt_start (skip_newlines p) = (k, p1)" by (metis surj_pair)
  note r = "1.prems" [unfolded stmts.psimps [OF "1.hyps"] k]
  have "takes p1 q"
  proof (cases k)
    case Nihil
    then show ?thesis using r by (auto simp: and_then_Inr_iff dest: close_stmts_takes)
  next
    case Si
    obtain c p2 where 2: "si_head p1 = Inr (c, p2)" using r Si by (auto simp: and_then_Inr_iff)
    obtain t p3 where 3: "stmts mode p2 = Inr (t, p3)" using r Si 2 by (auto simp: and_then_Inr_iff)
    obtain p4 where 4: "si_else p3 = Inr p4" using r Si 2 3 by (auto simp: and_then_Inr_iff)
    obtain u p5 where 5: "stmts mode p4 = Inr (u, p5)" using r Si 2 3 4 by (auto simp: and_then_Inr_iff)
    have 6: "close_stmts p5 = Inr q" using r Si 2 3 4 5 by (auto simp: and_then_Inr_iff)
    note t = si_head_takes [OF 2] "1.IH"(1) [OF k [symmetric] Si 2 refl 3] si_else_takes [OF 4]
      "1.IH"(2) [OF k [symmetric] Si 2 refl 3 refl 4 5] close_stmts_takes [OF 6]
    then show ?thesis by (simp add: takes_def)
  next
    case Goes_on
    obtain mx p2 where 2: "bind_head p1 = Inr (mx, p2)" using r Goes_on by (auto simp: and_then_Inr_iff)
    obtain t p3 where 3: "stmts mode p2 = Inr (t, p3)" "q = p3" using r Goes_on 2 by (auto simp: and_then_Inr_iff)
    note t = bind_head_takes [OF 2] "1.IH"(3) [OF k [symmetric] Goes_on 2 refl 3(1)]
    then show ?thesis using 3(2) by (simp add: takes_def)
  qed (use r in \<open>auto dest: cadence_takes\<close>)
  then show ?case using stmt_start_keeps [OF k] by (blast intro: keeps_takes_trans)
qed

lemma takes_length: "takes p q \<Longrightarrow> length (toks q) < length (toks p)"
  by (simp add: takes_def)

lemma keeps_length: "keeps p q \<Longrightarrow> length (toks q) \<le> length (toks p)"
  by (simp add: keeps_def)

lemma stmts_terminates: "All stmts_dom"
proof (rule "stmts.termination" [of "measure (\<lambda>(_, p). length (toks p))"], goal_cases)
  case (2 mode p k p1 cp cond p2)
  show ?case
    using keeps_length [OF stmt_start_keeps [OF 2(1) [symmetric]]] takes_length [OF si_head_takes] 2(3,4) by fastforce
next
  case (3 mode p k p1 cp cond p2 tp then_e p3 p4)
  have "length (toks p1) \<le> length (toks p)" by (rule keeps_length [OF stmt_start_keeps [OF 3(1) [symmetric]]])
  moreover have "length (toks p2) < length (toks p1)" using takes_length [OF si_head_takes] 3(3,4) by fastforce
  moreover have "length (toks p3) < length (toks p2)" using takes_length [OF stmts_shortens] 3(5,6,8) by fastforce
  moreover have "length (toks p4) < length (toks p3)" by (rule takes_length [OF si_else_takes [OF 3(7)]])
  ultimately show ?case by simp
next
  case (4 mode p k p1 cp mx p2)
  then show ?case
    using keeps_length [OF stmt_start_keeps [OF 4(1) [symmetric]]] takes_length [OF bind_head_takes] by (cases mx) fastforce
qed simp

termination stmts
  by (rule stmts_terminates)

declare stmts.simps [simp del]

section \<open>Fugues\<close>

definition final_token_of :: "string \<Rightarrow> (final \<times> bool) option" where
  "final_token_of s = map_of
     [(''Re'', (Re, False)), (''Mi'', (Mi, False)), (''Fa'', (Fa, False)), (''Sol'', (Sol, False)),
      (''re'', (Re, True)), (''mi'', (Mi, True)), (''fa'', (Fa, True)), (''sol'', (Sol, True))] s"

definition final_and_mode :: "parser \<Rightarrow> (final \<times> mode) parsed" where
  "final_and_mode p =
     and_then (ident ''expected a final (Re/Mi/Fa/Sol, lowercase = plagal)'' p) (\<lambda>(name, p1).
       (case final_token_of name of
          Some (f, plagal) \<Rightarrow> Inr ((f, from_final f plagal), p1)
        | None \<Rightarrow> Inl (perr p1 ''unknown final (want Re/Mi/Fa/Sol or re/mi/fa/sol)'')))"

definition literal :: "parser \<Rightarrow> val parsed" where
  "literal p =
     (case next_tok p of
        (Some (T_Num n), p1) \<Rightarrow> Inr (VNum n, p1)
      | (Some T_Minus, p1) \<Rightarrow>
          (case next_tok p1 of
             (Some (T_Num n), p2) \<Rightarrow> Inr (VNum (f64_neg n), p2)
           | (_, p2) \<Rightarrow> Inl (perr p2 (''expected a number after '' @ apos ''-'')))
      | (Some (T_Str s), p1) \<Rightarrow> Inr (VStr s, p1)
      | (Some (T_Ident s), p1) \<Rightarrow>
          if s = ''verum'' then Inr (VBool True, p1)
          else if s = ''falsum'' then Inr (VBool False, p1)
          else Inl (perr p1 ''expected a literal'')
      | (_, p1) \<Rightarrow> Inl (perr p1 ''expected a literal''))"

text \<open>The header and body of an overload: \<open>name @ genus = e\<close>.\<close>

definition overload :: "parser \<Rightarrow> ((sym \<times> genus) \<times> expr) parsed" where
  "overload p =
     and_then (ident ''expected overload name'' p) (\<lambda>(name, p1).
       and_then (expect T_At (''expected '' @ apos ''@'' @ '' before genus'') p1) (\<lambda>p2.
         and_then (ident ''expected genus'' p2) (\<lambda>(genus, p3).
           and_then (expect T_Eq (''expected '' @ apos ''='' @ '' after overload header'') p3) (\<lambda>p4.
             and_then (parse_expr p4) (\<lambda>(e, p5). Inr (((name, genus), e), p5))))))"

definition pedal :: "parser \<Rightarrow> (sym \<times> val) parsed" where
  "pedal p =
     and_then (ident ''expected pedal name'' p) (\<lambda>(name, p1).
       and_then (expect T_Eq (''expected '' @ apos ''='' @ '' after pedal name'') p1) (\<lambda>p2.
         and_then (literal p2) (\<lambda>(v, p3). Inr ((name, v), p3))))"

definition subject :: "parser \<Rightarrow> (sym \<times> sym \<times> expr) parsed" where
  "subject p =
     and_then (ident ''expected subject name'' p) (\<lambda>(name, p1).
       and_then (expect T_LParen (''expected '' @ apos ''('' @ '' after subject name'') p1) (\<lambda>p2.
         and_then (ident ''expected subject parameter'' (p2\<lparr>paren_depth := paren_depth p2 + 1\<rparr>)) (\<lambda>(param, p3).
           and_then (expect T_RParen (''expected '' @ apos '')'' @ '' after subject parameter'')
                      (p3\<lparr>paren_depth := paren_depth p3 - 1\<rparr>)) (\<lambda>p4.
             and_then (expect T_Eq (''expected '' @ apos ''='' @ '' after subject header'') p4) (\<lambda>p5.
               and_then (parse_expr p5) (\<lambda>(body, p6). Inr ((name, param, body), p6)))))))"

definition fugue_item :: "fugue \<Rightarrow> parser \<Rightarrow> fugue parsed" where
  "fugue_item f p =
     (case keyword ''pedale'' p of (b, p) \<Rightarrow>
      if b then and_then (pedal p) (\<lambda>(x, p'). Inr (f\<lparr>fug_pedals := fug_pedals f @ [x]\<rparr>, p'))
      else case keyword ''subiectum'' p of (b, p) \<Rightarrow>
      if b then and_then (subject p) (\<lambda>(x, p'). Inr (f\<lparr>fug_subject := Some x\<rparr>, p'))
      else case keyword ''reale'' p of (b, p) \<Rightarrow>
      if b then and_then (overload p) (\<lambda>(x, p'). Inr (f\<lparr>fug_real := fug_real f @ [x]\<rparr>, p'))
      else case keyword ''tonale'' p of (b, p) \<Rightarrow>
      if b then and_then (overload p) (\<lambda>(x, p'). Inr (f\<lparr>fug_tonal := fug_tonal f @ [x]\<rparr>, p'))
      else case keyword ''contra'' p of (b, p) \<Rightarrow>
      if b then and_then (parse_expr p) (\<lambda>(x, p'). Inr (f\<lparr>fug_contra := fug_contra f @ [x]\<rparr>, p'))
      else Inl (perr p (''expected pedale/subiectum/reale/tonale/contra or '' @ apos ''}'' @ '' in fugue'')))"

lemma name_takes: "ident w p = Inr (s, q) \<Longrightarrow> takes p q"
  by (rule ident_takes)

lemma literal_takes: "literal p = Inr (v, q) \<Longrightarrow> takes p q"
  by (auto simp: literal_def split: prod.splits option.splits tok.splits if_splits dest!: next_tok_takes)
    (auto simp: takes_def)

lemma overload_takes: "overload p = Inr (x, q) \<Longrightarrow> takes p q"
  by (auto simp: overload_def and_then_Inr_iff dest!: ident_takes expect_takes parse_expr_takes)
    (auto simp: takes_def)

lemma pedal_takes: "pedal p = Inr (x, q) \<Longrightarrow> takes p q"
  by (auto simp: pedal_def and_then_Inr_iff dest!: ident_takes expect_takes literal_takes)
    (auto simp: takes_def)

lemma subject_takes: "subject p = Inr (x, q) \<Longrightarrow> takes p q"
  by (auto simp: subject_def and_then_Inr_iff dest!: ident_takes expect_takes parse_expr_takes)
    (auto simp: takes_def)

lemma fugue_item_takes: "fugue_item f p = Inr (x, q) \<Longrightarrow> takes p q"
  by (auto simp: fugue_item_def and_then_Inr_iff split: prod.splits if_splits
      dest!: pedal_takes subject_takes overload_takes parse_expr_takes keyword_keeps)
    (auto simp: takes_def keeps_def)

function fugue_loop :: "fugue \<Rightarrow> parser \<Rightarrow> fugue parsed" where
  "fugue_loop f p =
     (case eat T_RBrace (skip_newlines p) of (b, p1) \<Rightarrow>
        if b then Inr (f, p1) else and_then (fugue_item f p1) (\<lambda>(f', p2). fugue_loop f' p2))"
  by pat_completeness auto
termination
proof (relation "measure (\<lambda>(_, p). length (toks p))", goal_cases)
  case (2 f p b p1 x f' p2)
  then have "takes p1 p2" using fugue_item_takes by fastforce
  then show ?case
    using skip_newlines_length [of p] keeps_length [OF eat_keeps [OF 2(1) [symmetric]]] takes_length by fastforce
qed simp

declare fugue_loop.simps [simp del]

text \<open>What a fugue and a verse begin with, up to the opening brace.\<close>

definition header :: "string \<Rightarrow> parser \<Rightarrow> (string \<times> final \<times> mode) parsed" where
  "header what p =
     and_then (ident (''expected '' @ what @ '' name'') p) (\<lambda>(name, p1).
       (case keyword ''in'' p1 of (b, p2) \<Rightarrow>
          if \<not> b then Inl (perr p2 (''expected '' @ apos ''in'' @ '' after '' @ what @ '' name''))
          else and_then (final_and_mode p2) (\<lambda>(fm, p3).
            and_then (expect T_LBrace (''expected '' @ apos ''{'' @ '' opening the '' @ what) (skip_newlines p3))
              (\<lambda>p4. Inr ((name, fm), p4)))))"

definition parse_fugue :: "parser \<Rightarrow> fugue parsed" where
  "parse_fugue p =
     and_then (header ''fugue'' p) (\<lambda>(h, p1). fugue_loop (fugue_new (fst h) (fst (snd h))) p1)"

section \<open>Verses\<close>

text \<open>
  The walk of \<open>liturgical_strip\<close> over the tokens of a verse: at the start of a line, a rhyme
  label, its text and the separator are taken out; the rest stays. It ends before the brace
  that closes the verse.
\<close>

definition take_semi :: "char \<Rightarrow> string \<Rightarrow> nat \<Rightarrow> lexed \<Rightarrow> parse_error + (char \<times> string) \<times> lexed" where
  "take_semi c sung line ts = (case ts of
     (T_Semi, _) # rest \<Rightarrow> Inr ((c, sung), rest)
   | _ \<Rightarrow> Inl (line, ''expected '' @ apos '';'' @ '' after the sung text''))"

definition sung_head :: "bool \<Rightarrow> lexed \<Rightarrow> (parse_error + (char \<times> string) \<times> lexed) option" where
  "sung_head start ts = (case ts of
     (T_Ident lab, _) # (T_Str sung, line) # us \<Rightarrow>
       if start then map_option (\<lambda>c. take_semi c sung line us) (rhyme_label lab) else None
   | _ \<Rightarrow> None)"

definition depth_after :: "nat \<Rightarrow> tok \<Rightarrow> nat" where
  "depth_after depth t =
     (if t = T_LBrace then depth + 1 else if t = T_RBrace then depth - 1 else depth)"

lemma take_semi_length: "take_semi c sung line ts = Inr (x, us) \<Longrightarrow> length us < length ts"
  by (cases ts) (auto simp: take_semi_def split: prod.split_asm tok.split_asm)

lemma sung_head_length: "sung_head b ts = Some (Inr (x, us)) \<Longrightarrow> length us < length ts"
  unfolding sung_head_def
  by (auto split: list.split_asm prod.split_asm tok.split_asm if_split_asm dest!: take_semi_length)

function strip_lines :: "nat \<Rightarrow> bool \<Rightarrow> lexed \<Rightarrow> parse_error + (char \<times> string) list \<times> lexed" where
  "strip_lines depth start [] = Inr ([], [])"
| "strip_lines depth start ((t, l) # ts) =
     (if t = T_RBrace \<and> depth = 1 then Inr ([], (t, l) # ts)
      else (case sung_head start ((t, l) # ts) of
        Some (Inl e) \<Rightarrow> Inl e
      | Some (Inr (x, us)) \<Rightarrow> and_then (strip_lines depth False us) (\<lambda>(rs, vs). Inr (x # rs, vs))
      | None \<Rightarrow>
          and_then (strip_lines (depth_after depth t) (t = T_Newline) ts) (\<lambda>(rs, vs). Inr (rs, (t, l) # vs))))"
  by pat_completeness auto
termination
proof (relation "measure (\<lambda>(_, _, ts). length ts)", goal_cases)
  case (3 depth start t l ts r b x us)
  then have "length us < length ((t, l) # ts)" by (intro sung_head_length [of start _ x]) (simp only:)
  then show ?case by simp
qed simp_all

definition opens_sung :: "lexed \<Rightarrow> bool" where
  "opens_sung ts = (case ts of
     (T_Ident l, _) # (T_Str _, _) # _ \<Rightarrow> rhyme_label l \<noteq> None
   | _ \<Rightarrow> False)"

text \<open>The rhyme scheme's rules: eight lines, a volta couplet, every rhyme answered.\<close>

definition scheme_error :: "(char \<times> string) list \<Rightarrow> string option" where
  "scheme_error rhymes =
     (if length rhymes \<noteq> 8
      then Some (''a verse is sung in eight lines (this one has '' @ show_nat (length rhymes) @ '')'')
      else if fst (rhymes ! 6) \<noteq> fst (rhymes ! 7)
      then Some ''the volta couplet must rhyme (lines 7 and 8 share a label)''
      else map_option (\<lambda>(l, _). ''rhyme '' @ apos [l] @ '' is never answered'')
             (find (\<lambda>(l, _). length (filter (\<lambda>(m, _). m = l) rhymes) < 2) rhymes))"

definition liturgical_strip :: "parser \<Rightarrow> (char \<times> string) list parsed" where
  "liturgical_strip p =
     (let newlines = takeWhile (\<lambda>t. fst t = T_Newline) (toks p);
          body = dropWhile (\<lambda>t. fst t = T_Newline) (toks p)
      in if \<not> opens_sung body then Inr ([], p)
         else and_then (strip_lines 1 True body) (\<lambda>(rhymes, body').
           let p' = p\<lparr>toks := newlines @ body'\<rparr>
           in case scheme_error rhymes of
                Some msg \<Rightarrow> Inl (case toks p' of (_, l) # _ \<Rightarrow> l | [] \<Rightarrow> 1, msg)
              | None \<Rightarrow> Inr (rhymes, p')))"

definition parse_versus :: "parser \<Rightarrow> versus parsed" where
  "parse_versus p =
     and_then (header ''verse'' p) (\<lambda>(h, p1).
       and_then (liturgical_strip p1) (\<lambda>(rhymes, p2).
         and_then (stmts (snd (snd h)) p2) (\<lambda>(body, p3).
           Inr (\<lparr>ver_name = fst h, ver_mode = snd (snd h), ver_body = body, ver_rhymes = rhymes\<rparr>, p3))))"

section \<open>Programs\<close>

lemma strip_lines_length: "strip_lines d b ts = Inr (rs, us) \<Longrightarrow> length us \<le> length ts"
proof (induction d b ts arbitrary: rs us rule: strip_lines.induct)
  case (2 depth start t l ts)
  show ?case
  proof (cases "t = T_RBrace \<and> depth = 1")
    case True
    then show ?thesis using "2.prems" by simp
  next
    case False
    note r = "2.prems" [unfolded strip_lines.simps(2) if_not_P [OF False]]
    show ?thesis
    proof (cases "sung_head start ((t, l) # ts)")
      case None
      then obtain vs where "strip_lines (depth_after depth t) (t = T_Newline) ts = Inr (rs, vs)" "us = (t, l) # vs"
        using r by (auto simp only: and_then_Inr_iff option.case prod.case)
      then show ?thesis using "2.IH"(1) [OF False None] by simp
    next
      case (Some h)
      then obtain x ws where h: "h = Inr (x, ws)" using r by (cases h) (auto simp only: option.case sum.case)
      then obtain rs' where "strip_lines depth False ws = Inr (rs', us)"
        using r Some by (auto simp only: and_then_Inr_iff option.case sum.case prod.case)
      then show ?thesis
        using "2.IH"(2) [OF False Some h refl] sung_head_length [of start "(t, l) # ts" x ws] Some h by fastforce
    qed
  qed
qed simp

lemma liturgical_strip_keeps: "liturgical_strip p = Inr (rs, q) \<Longrightarrow> keeps p q"
proof -
  assume l: "liturgical_strip p = Inr (rs, q)"
  have "length (toks p) = length (takeWhile (\<lambda>t. fst t = T_Newline) (toks p))
      + length (dropWhile (\<lambda>t. fst t = T_Newline) (toks p))"
    by (metis length_append takeWhile_dropWhile_id)
  then show ?thesis
    using l by (auto simp: liturgical_strip_def Let_def keeps_def and_then_Inr_iff
        dest!: strip_lines_length split: if_splits option.splits)
qed

lemma final_and_mode_takes: "final_and_mode p = Inr (fm, q) \<Longrightarrow> takes p q"
  by (auto simp: final_and_mode_def and_then_Inr_iff dest!: ident_takes split: option.splits)

lemma fugue_loop_takes: "fugue_loop f p = Inr (g, q) \<Longrightarrow> takes p q"
proof (induction f p rule: fugue_loop.induct)
  case (1 f p)
  obtain b p1 where e: "eat T_RBrace (skip_newlines p) = (b, p1)" by (metis surj_pair)
  have k: "keeps p p1" using skip_newlines_keeps eat_keeps [OF e] by (rule keeps_trans)
  show ?case
  proof (cases b)
    case True
    then show ?thesis
      using "1.prems" e eat_takes [of T_RBrace "skip_newlines p" p1] skip_newlines_keeps [of p]
      by (auto simp: fugue_loop.simps [of f p] intro: keeps_takes_trans)
  next
    case False
    then obtain f' p2 where i: "fugue_item f p1 = Inr (f', p2)" "fugue_loop f' p2 = Inr (g, q)"
      using "1.prems" e by (auto simp: fugue_loop.simps [of f p] and_then_Inr_iff)
    have "takes p2 q" using "1.IH" [OF e [symmetric] False i(1) refl i(2)] .
    then show ?thesis using k fugue_item_takes [OF i(1)] by (simp add: takes_def keeps_def)
  qed
qed

lemma expect_skip_takes: "expect t w (skip_newlines p) = Inr q \<Longrightarrow> takes p q"
  using skip_newlines_keeps [of p] expect_takes [of t w "skip_newlines p" q] by (blast intro: keeps_takes_trans)

lemma header_takes:
  assumes "header what p = Inr (h, q)"
  shows "takes p q"
proof -
  obtain name p1 where 1: "ident (''expected '' @ what @ '' name'') p = Inr (name, p1)"
    using assms by (auto simp: header_def and_then_Inr_iff)
  obtain b p2 where 2: "keyword ''in'' p1 = (b, p2)" by (metis surj_pair)
  then obtain fm p3 where 3: "final_and_mode p2 = Inr (fm, p3)"
    using assms 1 by (auto simp: header_def and_then_Inr_iff split: if_splits)
  have 4: "expect T_LBrace (''expected '' @ apos ''{'' @ '' opening the '' @ what) (skip_newlines p3) = Inr q"
    using assms 1 2 3 by (auto simp: header_def and_then_Inr_iff split: if_splits)
  show ?thesis
    using ident_takes [OF 1] keyword_keeps [OF 2] final_and_mode_takes [OF 3] expect_skip_takes [OF 4]
    by (simp add: takes_def keeps_def)
qed

lemma parse_fugue_takes: "parse_fugue p = Inr (f, q) \<Longrightarrow> takes p q"
  by (auto simp: parse_fugue_def and_then_Inr_iff dest!: header_takes fugue_loop_takes) (auto simp: takes_def)

lemma stmts_takes: "stmts mode p = Inr (e, q) \<Longrightarrow> takes p q"
  by (rule stmts_shortens [OF spec [OF stmts_terminates]])

lemma parse_versus_takes: "parse_versus p = Inr (v, q) \<Longrightarrow> takes p q"
  by (auto simp: parse_versus_def and_then_Inr_iff dest!: header_takes liturgical_strip_keeps stmts_takes)
    (auto simp: takes_def keeps_def)

function program_loop :: "program \<Rightarrow> parser \<Rightarrow> program parsed" where
  "program_loop prog p =
     (case peek (skip_newlines p) of (t, p1) \<Rightarrow>
        if t = None then Inr (prog, p1)
        else (case keyword ''fuga'' p1 of (b, p2) \<Rightarrow>
          if b then and_then (parse_fugue p2) (\<lambda>(f, p3).
                 program_loop (prog\<lparr>prog_fugues := prog_fugues prog @ [f]\<rparr>) p3)
          else (case keyword ''versus'' p2 of (b', p3) \<Rightarrow>
            if b' then and_then (parse_versus p3) (\<lambda>(v, p4).
                   program_loop (prog\<lparr>prog_verses := prog_verses prog @ [v]\<rparr>) p4)
            else Inl (perr p3 (''expected '' @ apos ''fuga'' @ '' or '' @ apos ''versus'')))))"
  by pat_completeness auto
termination
proof (relation "measure (\<lambda>(_, p). length (toks p))", goal_cases)
  case (2 prog p t p1 b p2 x f p3)
  then have "takes p2 p3" using parse_fugue_takes by fastforce
  moreover have "keeps p p2"
    using skip_newlines_keeps peek_keeps [OF 2(1) [symmetric]] keyword_keeps [OF 2(3) [symmetric]]
    by (blast intro: keeps_trans)
  ultimately show ?case by (simp add: takes_def keeps_def)
next
  case (3 prog p t p1 b p2 b' p3 x v p4)
  then have "takes p3 p4" using parse_versus_takes by fastforce
  moreover have "keeps p p3"
    using skip_newlines_keeps peek_keeps [OF 3(1) [symmetric]] keyword_keeps [OF 3(3) [symmetric]]
      keyword_keeps [OF 3(5) [symmetric]]
    by (blast intro: keeps_trans)
  ultimately show ?case by (simp add: takes_def keeps_def)
qed simp

declare program_loop.simps [simp del]

definition parser_new :: "lexed \<Rightarrow> parser" where
  "parser_new ts = \<lparr>toks = ts, last_line = None, paren_depth = 0, expr_depth = 0\<rparr>"

definition parse :: "string \<Rightarrow> ('k dissonance, program) result" where
  "parse src =
     and_then (lex src) (\<lambda>ts.
       (case program_loop program_default (parser_new ts) of
          Inl (line, msg) \<Rightarrow> Inl (Raise (D_Parse line msg))
        | Inr (prog, _) \<Rightarrow> Inr prog))"

end
