(* ===== verification/Printing.thy ===== *)
theory Printing
  imports Parser
begin

text \<open>
  A printer for the plain form of the score language, and the proof that the parser is its
  inverse. The printer writes lines of tokens, with every compound expression in parentheses;
  together with the lexer's \<open>spells\<close> this says that any spelling of a printed program is parsed
  back into that program.
\<close>

section \<open>Expressions\<close>

definition plain_name :: "string \<Rightarrow> bool" where
  "plain_name s \<longleftrightarrow> s \<notin> reserved \<and> atom_word s = Word_is (EVar s)"

fun print_expr :: "expr \<Rightarrow> tok list" where
  "print_expr (EVar s) = [T_Ident s]"
| "print_expr (ELit (VNum n)) = [T_Num n]"
| "print_expr (ELit (VStr s)) = [T_Str s]"
| "print_expr (ELit (VBool b)) = [T_Ident (if b then ''verum'' else ''falsum'')]"
| "print_expr EArg = [T_Ident ''arg'']"
| "print_expr ELege = [T_Ident ''lege'']"
| "print_expr (ELam x e) = T_LParen # T_Lambda # T_Ident x # T_Arrow # print_expr e @ [T_RParen]"
| "print_expr (EApp f a) = T_LParen # print_expr f @ print_expr a @ [T_RParen]"
| "print_expr (EAsk s) = [T_LParen, T_Ident ''ask'', T_Str s, T_RParen]"
| "print_expr (EResolve s e) = T_LParen # T_Ident ''resolve'' # T_Str s # print_expr e @ [T_RParen]"
| "print_expr (EPure m e) = T_LParen # T_Ident ''pure'' # print_expr e @ [T_RParen]"
| "print_expr (ELift e) = T_LParen # T_Ident ''leva'' # print_expr e @ [T_RParen]"
| "print_expr (EPone e) = T_LParen # T_Ident ''pone'' # print_expr e @ [T_RParen]"
| "print_expr _ = []"

text \<open>What an expression of the plain form can be, and how deep its parentheses nest.\<close>

fun printable :: "expr \<Rightarrow> bool" where
  "printable (EVar s) = plain_name s"
| "printable (ELit (VNum _)) = True"
| "printable (ELit (VStr _)) = True"
| "printable (ELit (VBool _)) = True"
| "printable EArg = True"
| "printable ELege = True"
| "printable (ELam _ e) = printable e"
| "printable (EApp f a) = (printable f \<and> printable a)"
| "printable (EAsk _) = True"
| "printable (EResolve _ e) = printable e"
| "printable (EPure m e) = (m = Dorian \<and> printable e)"
| "printable (ELift e) = printable e"
| "printable (EPone e) = printable e"
| "printable _ = False"

fun nest :: "expr \<Rightarrow> nat" where
  "nest (ELam _ e) = 2 + nest e"
| "nest (EApp f a) = 1 + max (nest f) (nest a)"
| "nest (EAsk _) = 1"
| "nest (EResolve _ e) = 1 + nest e"
| "nest (EPure _ e) = 1 + nest e"
| "nest (ELift e) = 1 + nest e"
| "nest (EPone e) = 1 + nest e"
| "nest _ = 0"

section \<open>The parser over a view of the tokens\<close>

definition view :: "parser \<Rightarrow> tok list" where
  "view p = map fst (toks p)"

definition yields_tok :: "parser \<Rightarrow> tok list \<Rightarrow> 'a \<Rightarrow> 'a parsed \<Rightarrow> bool" where
  "yields_tok p us x r \<longleftrightarrow>
     (\<exists>q. r = Inr (x, q) \<and> view q = us \<and> paren_depth q = paren_depth p \<and> expr_depth q = expr_depth p)"

lemma yields_tokI:
  "view q = us \<Longrightarrow> paren_depth q = paren_depth p \<Longrightarrow> expr_depth q = expr_depth p \<Longrightarrow> yields_tok p us x (Inr (x, q))"
  by (simp add: yields_tok_def)

lemma yields_tok_and_then:
  "yields_tok p us x r \<Longrightarrow>
   (\<And>q. view q = us \<Longrightarrow> paren_depth q = paren_depth p \<Longrightarrow> expr_depth q = expr_depth p \<Longrightarrow>
      yields_tok q vs y (f (x, q))) \<Longrightarrow>
   yields_tok p vs y (and_then r f)"
  by (auto simp: yields_tok_def)

lemma advance_view [simp]:
  "view (advance_tok p) = tl (view p)"
  "paren_depth (advance_tok p) = paren_depth p" "expr_depth (advance_tok p) = expr_depth p"
  by (auto simp: advance_tok_def view_def split: list.splits prod.splits)

lemma view_paren [simp]: "view (p\<lparr>paren_depth := n\<rparr>) = view p" "view (p\<lparr>expr_depth := n\<rparr>) = view p"
  by (simp_all add: view_def)

lemma skip_newlines_view: "view p = t # us \<Longrightarrow> t \<noteq> T_Newline \<Longrightarrow> skip_newlines p = p"
proof -
  assume v: "view p = t # us" "t \<noteq> T_Newline"
  then obtain l ts where "toks p = (t, l) # ts" by (auto simp: view_def)
  moreover have "past_newlines (last_line p) ((t, l) # ts) = (last_line p, (t, l) # ts)"
    using v(2) by (cases t) simp_all
  ultimately show ?thesis by (simp add: skip_newlines_def)
qed

lemma peek_view:
  assumes "view p = t # us" "t \<noteq> T_Newline \<or> paren_depth p = 0"
  shows "peek p = (Some t, p)"
proof -
  obtain l ts where "toks p = (t, l) # ts" using assms(1) by (auto simp: view_def)
  then show ?thesis using assms skip_newlines_view [OF assms(1)] by (auto simp: peek_def Let_def)
qed

lemma next_tok_view: "view p = t # us \<Longrightarrow> t \<noteq> T_Newline \<Longrightarrow> next_tok p = (Some t, advance_tok p)"
  by (simp add: next_tok_def peek_view)

lemma eat_view: "view p = t # us \<Longrightarrow> t \<noteq> T_Newline \<Longrightarrow> eat want p = (if t = want then (True, advance_tok p) else (False, p))"
  by (simp add: eat_def peek_view)

lemma expect_view: "view p = t # us \<Longrightarrow> t \<noteq> T_Newline \<Longrightarrow> expect t what p = Inr (advance_tok p)"
  by (simp add: expect_def eat_view)

lemma ident_view: "view p = T_Ident s # us \<Longrightarrow> ident what p = Inr (s, advance_tok p)"
  by (simp add: ident_def next_tok_view)

lemma keyword_view:
  "view p = t # us \<Longrightarrow> t \<noteq> T_Newline \<or> paren_depth p = 0 \<Longrightarrow>
   keyword kw p = (if t = T_Ident kw then (True, advance_tok p) else (False, p))"
  by (auto simp: keyword_def peek_view)

text \<open>Tokens that end an expression.\<close>

definition ends_expr :: "tok \<Rightarrow> parser \<Rightarrow> bool" where
  "ends_expr t p \<longleftrightarrow>
     (t = T_Newline \<and> paren_depth p = 0) \<or> t \<in> {T_RParen, T_RBrace, T_LBrace}
     \<or> (\<exists>s. t = T_Ident s \<and> s \<in> reserved)"

lemma loops_end:
  assumes "view p = t # us" "ends_expr t p"
  shows "additive_loop e p = Inr (e, p)" "multiplicative_loop e p = Inr (e, p)" "application_loop e p = Inr (e, p)"
proof -
  have pk: "peek p = (Some t, p)" using assms by (intro peek_view) (auto simp: ends_expr_def)
  then show "additive_loop e p = Inr (e, p)" "multiplicative_loop e p = Inr (e, p)" "application_loop e p = Inr (e, p)"
    using assms(2)
    by (auto simp: additive_loop.simps [of e p] multiplicative_loop.simps [of e p] application_loop.simps [of e p]
        additive_op_def multiplicative_op_def starts_atom_def ends_expr_def)
qed

lemma parse_expr_of_application:
  assumes "yields_tok (p\<lparr>expr_depth := Suc (expr_depth p)\<rparr>) (t # us) e (application (p\<lparr>expr_depth := Suc (expr_depth p)\<rparr>))"
    and "ends_expr t p" "expr_depth p < MAX_EXPR_DEPTH"
  shows "yields_tok p (t # us) e (parse_expr p)"
proof -
  obtain q where q: "application (p\<lparr>expr_depth := Suc (expr_depth p)\<rparr>) = Inr (e, q)" "view q = t # us"
    "paren_depth q = paren_depth p" "expr_depth q = Suc (expr_depth p)"
    using assms(1) by (auto simp: yields_tok_def)
  have "ends_expr t q" using assms(2) q(3) by (simp add: ends_expr_def)
  note l = loops_end [OF q(2) this]
  show ?thesis
    using q l assms(3)
    by (simp add: parse_expr.simps [of p] additive.simps multiplicative.simps yields_tok_def)
qed

lemma parse_expr_of_atom:
  assumes "yields_tok (p\<lparr>expr_depth := Suc (expr_depth p)\<rparr>) (t # us) e (atom (p\<lparr>expr_depth := Suc (expr_depth p)\<rparr>))"
    and "ends_expr t p" "expr_depth p < MAX_EXPR_DEPTH"
  shows "yields_tok p (t # us) e (parse_expr p)"
proof (rule parse_expr_of_application [OF _ assms(2,3)])
  obtain q where q: "atom (p\<lparr>expr_depth := Suc (expr_depth p)\<rparr>) = Inr (e, q)" "view q = t # us"
    "paren_depth q = paren_depth p" "expr_depth q = Suc (expr_depth p)"
    using assms(1) by (auto simp: yields_tok_def)
  have "ends_expr t q" using assms(2) q(3) by (simp add: ends_expr_def)
  note l = loops_end [OF q(2) this]
  show "yields_tok (p\<lparr>expr_depth := Suc (expr_depth p)\<rparr>) (t # us) e (application (p\<lparr>expr_depth := Suc (expr_depth p)\<rparr>))"
    using q l by (simp add: application.simps yields_tok_def)
qed

text \<open>An atom, by its first token.\<close>

lemma atom_paren:
  assumes "view p = T_LParen # vs"
    and "\<And>q. view q = vs \<Longrightarrow> paren_depth q = Suc (paren_depth p) \<Longrightarrow> expr_depth q = expr_depth p \<Longrightarrow>
      yields_tok q (T_RParen # us) e (parse_expr q)"
  shows "yields_tok p us e (atom p)"
proof -
  let ?q = "(advance_tok p)\<lparr>paren_depth := paren_depth p + 1\<rparr>"
  have "yields_tok ?q (T_RParen # us) e (parse_expr ?q)" using assms(1) by (intro assms(2)) simp_all
  then obtain r where r: "parse_expr ?q = Inr (e, r)" "view r = T_RParen # us"
    "paren_depth r = Suc (paren_depth p)" "expr_depth r = expr_depth p"
    by (auto simp: yields_tok_def)
  then have "expect T_RParen (''expected '' @ apos '')'') (r\<lparr>paren_depth := paren_depth r - 1\<rparr>)
      = Inr (advance_tok (r\<lparr>paren_depth := paren_depth r - 1\<rparr>))"
    by (intro expect_view) simp_all
  then show ?thesis using r assms(1) by (simp add: atom.simps [of p] peek_view yields_tok_def)
qed

lemma atom_lambda:
  assumes "view p = T_Lambda # T_Ident x # T_Arrow # vs"
    and "\<And>q. view q = vs \<Longrightarrow> paren_depth q = paren_depth p \<Longrightarrow> expr_depth q = expr_depth p \<Longrightarrow>
      yields_tok q us e (parse_expr q)"
  shows "yields_tok p us (ELam x e) (atom p)"
proof -
  let ?q = "advance_tok (advance_tok (advance_tok p))"
  have "yields_tok ?q us e (parse_expr ?q)" using assms(1) by (intro assms(2)) simp_all
  moreover have "ident after_lambda (advance_tok p) = Inr (x, advance_tok (advance_tok p))"
    using assms(1) by (intro ident_view [of _ _ "T_Arrow # vs"]) simp
  moreover have "expect T_Arrow w (advance_tok (advance_tok p)) = Inr ?q" for w
    using assms(1) by (intro expect_view [of _ _ vs]) simp_all
  ultimately show ?thesis using assms(1) by (auto simp: atom.simps [of p] peek_view yields_tok_def)
qed

lemma atom_ident:
  assumes "view p = T_Ident s # us"
  shows "atom_word s = Word_is e \<Longrightarrow> yields_tok p us e (atom p)"
    and "atom_word s = Word_name \<Longrightarrow> us = T_Str n # vs \<Longrightarrow> yields_tok p vs (EAsk n) (atom p)"
    and "atom_word s = Word_resolve \<Longrightarrow> us = T_Str n # vs \<Longrightarrow>
      (\<And>q. view q = vs \<Longrightarrow> paren_depth q = paren_depth p \<Longrightarrow> expr_depth q = expr_depth p \<Longrightarrow> yields_tok q ws e (atom q)) \<Longrightarrow>
      yields_tok p ws (EResolve n e) (atom p)"
    and "atom_word s = Word_of f \<Longrightarrow>
      (\<And>q. view q = us \<Longrightarrow> paren_depth q = paren_depth p \<Longrightarrow> expr_depth q = expr_depth p \<Longrightarrow> yields_tok q ws e (atom q)) \<Longrightarrow>
      yields_tok p ws (f e) (atom p)"
proof -
  have pk: "peek p = (Some (T_Ident s), p)" using assms by (simp add: peek_view)
  show "atom_word s = Word_is e \<Longrightarrow> yields_tok p us e (atom p)"
    using assms pk by (simp add: atom.simps [of p] yields_tok_def)
  have na: "us = T_Str n # vs \<Longrightarrow> name_arg w (advance_tok p) = Inr (n, advance_tok (advance_tok p))" for w
    using assms by (simp add: name_arg_def next_tok_view [of _ _ vs])
  then show "atom_word s = Word_name \<Longrightarrow> us = T_Str n # vs \<Longrightarrow> yields_tok p vs (EAsk n) (atom p)"
    using assms pk by (simp add: atom.simps [of p] yields_tok_def)
  show "yields_tok p ws (EResolve n e) (atom p)"
    if "atom_word s = Word_resolve" "us = T_Str n # vs"
      "\<And>q. view q = vs \<Longrightarrow> paren_depth q = paren_depth p \<Longrightarrow> expr_depth q = expr_depth p \<Longrightarrow> yields_tok q ws e (atom q)"
    using assms pk na that(1,2) that(3) [of "advance_tok (advance_tok p)"]
    by (auto simp: atom.simps [of p] yields_tok_def)
  show "yields_tok p ws (f e) (atom p)"
    if "atom_word s = Word_of f"
      "\<And>q. view q = us \<Longrightarrow> paren_depth q = paren_depth p \<Longrightarrow> expr_depth q = expr_depth p \<Longrightarrow> yields_tok q ws e (atom q)"
    using assms pk that(1) that(2) [of "advance_tok p"] by (auto simp: atom.simps [of p] yields_tok_def)
qed

lemma words:
  "atom_word ''arg'' = Word_is EArg" "atom_word ''lege'' = Word_is ELege"
  "atom_word ''verum'' = Word_is (ELit (VBool True))" "atom_word ''falsum'' = Word_is (ELit (VBool False))"
  "atom_word ''ask'' = Word_name" "atom_word ''resolve'' = Word_resolve"
  "atom_word ''pure'' = Word_of (EPure Dorian)" "atom_word ''leva'' = Word_of ELift" "atom_word ''pone'' = Word_of EPone"
  by (simp_all add: atom_word_def)

lemma print_expr_starts:
  "printable e \<Longrightarrow> \<exists>t ts. print_expr e = t # ts \<and> t \<noteq> T_Newline \<and>
     (case t of T_Num _ \<Rightarrow> True | T_Str _ \<Rightarrow> True | T_LParen \<Rightarrow> True | T_Ident s \<Rightarrow> s \<notin> reserved | _ \<Rightarrow> False)"
  by (induction e rule: print_expr.induct) (auto simp: plain_name_def reserved_def)

lemma starts_atom_view:
  assumes "printable e" "view p = print_expr e @ us"
  shows "starts_atom p = (True, p)"
proof -
  obtain t ts where t: "print_expr e = t # ts" "t \<noteq> T_Newline"
    "case t of T_Num _ \<Rightarrow> True | T_Str _ \<Rightarrow> True | T_LParen \<Rightarrow> True | T_Ident s \<Rightarrow> s \<notin> reserved | _ \<Rightarrow> False"
    using print_expr_starts [OF assms(1)] by blast
  have "peek p = (Some t, p)" using assms(2) t(1,2) by (intro peek_view [of _ _ "ts @ us"]) simp_all
  then show ?thesis using t(3) by (auto simp: starts_atom_def split: tok.splits)
qed

lemma ends_paren [simp]: "ends_expr T_RParen p"
  by (simp add: ends_expr_def)

text \<open>A parenthesised body that is read as one atom.\<close>

lemma paren_of_atom:
  assumes "view p = T_LParen # vs" "expr_depth p < MAX_EXPR_DEPTH"
    and "\<And>q. view q = vs \<Longrightarrow> expr_depth q = Suc (expr_depth p) \<Longrightarrow> yields_tok q (T_RParen # us) e (atom q)"
  shows "yields_tok p us e (atom p)"
  using assms by (intro atom_paren [OF assms(1)] parse_expr_of_atom) simp_all

lemma application_of_two:
  assumes "printable a" "view p = print_expr f @ print_expr a @ T_RParen # us"
    and "\<And>vs. view p = print_expr f @ vs \<Longrightarrow> yields_tok p vs f (atom p)"
    and "\<And>q vs. view q = print_expr a @ vs \<Longrightarrow> expr_depth q = expr_depth p \<Longrightarrow> yields_tok q vs a (atom q)"
  shows "yields_tok p (T_RParen # us) (EApp f a) (application p)"
proof -
  obtain q where q: "atom p = Inr (f, q)" "view q = print_expr a @ T_RParen # us"
    "paren_depth q = paren_depth p" "expr_depth q = expr_depth p"
    using assms(3) [OF assms(2)] by (auto simp: yields_tok_def)
  obtain r where r: "atom q = Inr (a, r)" "view r = T_RParen # us"
    "paren_depth r = paren_depth p" "expr_depth r = expr_depth p"
    using assms(4) [OF q(2,4)] q(3,4) by (auto simp: yields_tok_def)
  have "application_loop f q = Inr (EApp f a, r)"
    using starts_atom_view [OF assms(1) q(2)] r(1) loops_end(3) [OF r(2) ends_paren]
    by (simp add: application_loop.simps [of f q])
  then show ?thesis using q r by (simp add: application.simps [of p] yields_tok_def)
qed

lemma atom_reads_print:
  "printable e \<Longrightarrow> expr_depth p + nest e \<le> MAX_EXPR_DEPTH \<Longrightarrow> view p = print_expr e @ us \<Longrightarrow>
   yields_tok p us e (atom p)"
proof (induction e arbitrary: p us rule: print_expr.induct)
  case (1 s)
  then show ?case by (intro atom_ident(1) [of p s us]) (simp_all add: plain_name_def)
next
  case (2 n)
  then show ?case by (simp add: atom.simps [of p] peek_view yields_tok_def)
next
  case (3 s)
  then show ?case by (simp add: atom.simps [of p] peek_view yields_tok_def)
next
  case (4 b)
  then show ?case by (cases b) (auto intro: atom_ident(1) simp: words)
next
  case 5
  then show ?case by (auto intro: atom_ident(1) simp: words)
next
  case 6
  then show ?case by (auto intro: atom_ident(1) simp: words)
next
  case (7 x e)
  show ?case
  proof (rule paren_of_atom)
    fix q
    assume q: "view q = T_Lambda # T_Ident x # T_Arrow # print_expr e @ T_RParen # us" "expr_depth q = Suc (expr_depth p)"
    show "yields_tok q (T_RParen # us) (ELam x e) (atom q)"
      using 7 q(2) by (intro atom_lambda [OF q(1)] parse_expr_of_atom "7.IH") simp_all
  qed (use 7 in simp_all)
next
  case (8 f a)
  show ?case
  proof (rule atom_paren)
    fix q
    assume q: "view q = print_expr f @ print_expr a @ T_RParen # us" "expr_depth q = expr_depth p"
    show "yields_tok q (T_RParen # us) (EApp f a) (parse_expr q)"
      using 8 q by (intro parse_expr_of_application application_of_two) simp_all
  qed (use 8 in simp)
next
  case (9 s)
  show ?case
  proof (rule paren_of_atom)
    fix q
    assume "view q = [T_Ident ''ask'', T_Str s] @ T_RParen # us"
    then show "yields_tok q (T_RParen # us) (EAsk s) (atom q)" by (auto intro!: atom_ident(2) simp: words)
  qed (use 9 in simp_all)
next
  case (10 s e)
  show ?case
  proof (rule paren_of_atom)
    fix q
    assume q: "view q = T_Ident ''resolve'' # T_Str s # print_expr e @ T_RParen # us" "expr_depth q = Suc (expr_depth p)"
    show "yields_tok q (T_RParen # us) (EResolve s e) (atom q)"
      using 10 q(2) by (intro atom_ident(3) [OF q(1) words(6) refl] "10.IH") simp_all
  qed (use 10 in simp_all)
next
  case (11 m e)
  show ?case
  proof (rule paren_of_atom)
    fix q
    assume q: "view q = T_Ident ''pure'' # print_expr e @ T_RParen # us" "expr_depth q = Suc (expr_depth p)"
    then have "yields_tok q (T_RParen # us) (EPure Dorian e) (atom q)"
      using 11 q(2) by (intro atom_ident(4) [OF q(1) words(7)] "11.IH") simp_all
    then show "yields_tok q (T_RParen # us) (EPure m e) (atom q)" using "11.prems"(1) by simp
  qed (use 11 in simp_all)
next
  case (12 e)
  show ?case
  proof (rule paren_of_atom)
    fix q
    assume q: "view q = T_Ident ''leva'' # print_expr e @ T_RParen # us" "expr_depth q = Suc (expr_depth p)"
    then show "yields_tok q (T_RParen # us) (ELift e) (atom q)"
      using 12 q(2) by (intro atom_ident(4) [OF q(1) words(8)] "12.IH") simp_all
  qed (use 12 in simp_all)
next
  case (13 e)
  show ?case
  proof (rule paren_of_atom)
    fix q
    assume q: "view q = T_Ident ''pone'' # print_expr e @ T_RParen # us" "expr_depth q = Suc (expr_depth p)"
    then show "yields_tok q (T_RParen # us) (EPone e) (atom q)"
      using 13 q(2) by (intro atom_ident(4) [OF q(1) words(9)] "13.IH") simp_all
  qed (use 13 in simp_all)
qed simp_all

lemma parse_expr_reads_print:
  assumes "printable e" "nest e < MAX_EXPR_DEPTH" "expr_depth p = 0" "view p = print_expr e @ t # us" "ends_expr t p"
  shows "yields_tok p (t # us) e (parse_expr p)"
  using assms by (intro parse_expr_of_atom atom_reads_print) simp_all

section \<open>Statements\<close>

definition ok_expr :: "expr \<Rightarrow> bool" where
  "ok_expr e \<longleftrightarrow> printable e \<and> nest e < MAX_EXPR_DEPTH"

definition ok_binder :: "string \<Rightarrow> bool" where
  "ok_binder x \<longleftrightarrow> x \<notin> {''amen'', ''nihil'', ''clama'', ''perage'', ''si'', ''pone'', ''mitte''}"

text \<open>A statement that goes on: what it binds and to which name.\<close>

fun print_bind :: "expr \<Rightarrow> string \<Rightarrow> tok list" where
  "print_bind (EMitte e) x = T_Ident ''mitte'' # print_expr e"
| "print_bind (EPone e) x =
     (if x = ''_'' then T_Ident ''pone'' # print_expr e else [T_Ident x, T_BindArrow] @ print_expr (EPone e))"
| "print_bind v x = [T_Ident x, T_BindArrow] @ print_expr v"

fun ok_bind :: "expr \<Rightarrow> string \<Rightarrow> bool" where
  "ok_bind (EMitte e) x = (x = ''_'' \<and> ok_expr e)"
| "ok_bind (EPone e) x = (if x = ''_'' then ok_expr e else ok_binder x \<and> ok_expr (EPone e))"
| "ok_bind v x = (ok_binder x \<and> ok_expr v)"

fun print_stmts :: "expr \<Rightarrow> tok list list" where
  "print_stmts (EReturn m e) = [T_Ident ''amen'' # print_expr e, [T_RBrace]]"
| "print_stmts ENihil = [[T_Ident ''nihil''], [T_RBrace]]"
| "print_stmts (EClama e) = [T_Ident ''clama'' # print_expr e, [T_RBrace]]"
| "print_stmts (EPerage e) = [T_Ident ''perage'' # print_expr e, [T_RBrace]]"
| "print_stmts (EIf c t u) =
     (T_Ident ''si'' # print_expr c @ [T_Ident ''tunc'', T_LBrace]) # print_stmts t
       @ [T_Ident ''aliter'', T_LBrace] # print_stmts u @ [[T_RBrace]]"
| "print_stmts (EBind m v x k) = print_bind v x # print_stmts k"
| "print_stmts _ = []"

fun ok_stmts :: "mode \<Rightarrow> expr \<Rightarrow> bool" where
  "ok_stmts mode (EReturn m e) = (m = mode \<and> ok_expr e)"
| "ok_stmts mode ENihil = True"
| "ok_stmts mode (EClama e) = ok_expr e"
| "ok_stmts mode (EPerage e) = ok_expr e"
| "ok_stmts mode (EIf c t u) = (ok_expr c \<and> ok_stmts mode t \<and> ok_stmts mode u)"
| "ok_stmts mode (EBind m v x k) = (m = mode \<and> ok_bind v x \<and> ok_stmts mode k)"
| "ok_stmts mode _ = False"

text \<open>Lines as the lexer gives them: each ends with a newline token.\<close>

definition flat :: "tok list list \<Rightarrow> tok list" where
  "flat lines = concat (map (\<lambda>ts. ts @ [T_Newline]) lines)"

lemma flat_simps [simp]: "flat [] = []" "flat (ts # lines) = ts @ T_Newline # flat lines"
  "flat (xs @ ys) = flat xs @ flat ys"
  by (simp_all add: flat_def)

definition on_line :: "parser \<Rightarrow> tok list \<Rightarrow> bool" where
  "on_line p us \<longleftrightarrow> paren_depth p = 0 \<and> expr_depth p = 0 \<and> dropWhile ((=) T_Newline) (view p) = us"

lemma past_newlines_view:
  "past_newlines ll ts = (ll', us) \<Longrightarrow> map fst us = dropWhile ((=) T_Newline) (map fst ts)"
  by (induction ll ts rule: past_newlines.induct) auto

lemma skip_newlines_line:
  "on_line p us \<Longrightarrow> view (skip_newlines p) = us \<and> paren_depth (skip_newlines p) = 0 \<and> expr_depth (skip_newlines p) = 0"
  by (auto simp: on_line_def skip_newlines_def view_def dest: past_newlines_view split: prod.splits)

text \<open>A result that leaves the cursor before \<open>us\<close>, or a newline before it, at depth zero.\<close>

definition gets :: "'a \<Rightarrow> tok list \<Rightarrow> 'a parsed \<Rightarrow> bool" where
  "gets x us r \<longleftrightarrow> (\<exists>q. r = Inr (x, q) \<and> view q = us \<and> paren_depth q = 0 \<and> expr_depth q = 0)"

lemma gets_parse_expr:
  assumes "ok_expr e" "view p = print_expr e @ t # us" "paren_depth p = 0" "expr_depth p = 0"
    and "t = T_Newline \<or> (\<exists>s. t = T_Ident s \<and> s \<in> reserved)"
  shows "gets e (t # us) (parse_expr p)"
  using parse_expr_reads_print [of e p t us] assms
  by (auto simp: ok_expr_def yields_tok_def gets_def ends_expr_def)

lemma gets_close_stmts:
  assumes "view p = T_Newline # T_RBrace # us" "paren_depth p = 0" "expr_depth p = 0"
  shows "\<exists>q. close_stmts p = Inr q \<and> view q = us \<and> paren_depth q = 0 \<and> expr_depth q = 0"
proof -
  have "on_line p (T_RBrace # us)" using assms by (simp add: on_line_def)
  from skip_newlines_line [OF this] show ?thesis by (simp add: close_stmts_def expect_view)
qed

lemma gets_cadence:
  assumes "ok_expr e" "view p = print_expr e @ T_Newline # T_RBrace # us" "paren_depth p = 0" "expr_depth p = 0"
  shows "gets (f e) us (cadence f p)"
  using gets_parse_expr [OF assms] gets_close_stmts by (fastforce simp: gets_def cadence_def)

definition start_kind :: "string \<Rightarrow> stmt_kind" where
  "start_kind s =
     (if s = ''amen'' then Amen else if s = ''nihil'' then Nihil else if s = ''clama'' then Clama
      else if s = ''perage'' then Perage else if s = ''si'' then Si else Goes_on)"

lemma stmt_start_view:
  assumes "view p = T_Ident s # us"
  shows "stmt_start p = (start_kind s, if start_kind s = Goes_on then p else advance_tok p)"
  using keyword_view [OF assms] by (simp add: stmt_start_def start_kind_def)

lemma gets_and_then:
  "gets x us r \<Longrightarrow> (\<And>q. view q = us \<Longrightarrow> paren_depth q = 0 \<Longrightarrow> expr_depth q = 0 \<Longrightarrow> gets y vs (f (x, q))) \<Longrightarrow>
   gets y vs (and_then r f)"
  by (auto simp: gets_def)

lemma getsI: "view q = us \<Longrightarrow> paren_depth q = 0 \<Longrightarrow> expr_depth q = 0 \<Longrightarrow> gets x us (Inr (x, q))"
  by (simp add: gets_def)

lemma gets_bind_binder:
  assumes "view p = T_Ident x # T_BindArrow # print_expr v @ T_Newline # us" "paren_depth p = 0" "expr_depth p = 0"
    and "ok_binder x" "ok_expr v"
  shows "gets (v, x) (T_Newline # us) (bind_head p)"
proof -
  note k = keyword_view [OF assms(1), of "''pone''"] keyword_view [OF assms(1), of "''mitte''"]
  have e: "expect T_BindArrow w (advance_tok p) = Inr (advance_tok (advance_tok p))" for w
    using assms(1) by (simp add: expect_view)
  have "gets v (T_Newline # us) (parse_expr (advance_tok (advance_tok p)))"
    using assms by (intro gets_parse_expr) simp_all
  then show ?thesis
    using k e assms(4) ident_view [OF assms(1)] by (auto simp: bind_head_def ok_binder_def gets_def)
qed

lemma gets_bind_keyword:
  assumes "view p = T_Ident s # print_expr e @ T_Newline # us" "paren_depth p = 0" "expr_depth p = 0" "ok_expr e"
  shows "s = ''pone'' \<Longrightarrow> gets (EPone e, ''_'') (T_Newline # us) (bind_head p)"
    and "s = ''mitte'' \<Longrightarrow> gets (EMitte e, ''_'') (T_Newline # us) (bind_head p)"
proof -
  note k = keyword_view [OF assms(1), of "''pone''"] keyword_view [OF assms(1), of "''mitte''"]
  have e: "gets e (T_Newline # us) (parse_expr (advance_tok p))"
    using assms by (intro gets_parse_expr) simp_all
  show "s = ''pone'' \<Longrightarrow> gets (EPone e, ''_'') (T_Newline # us) (bind_head p)"
    "s = ''mitte'' \<Longrightarrow> gets (EMitte e, ''_'') (T_Newline # us) (bind_head p)"
    using k e by (auto simp: bind_head_def gets_def)
qed

lemma gets_bind_head:
  assumes "ok_bind v x" "view p = print_bind v x @ T_Newline # us" "paren_depth p = 0" "expr_depth p = 0"
  shows "gets (v, x) (T_Newline # us) (bind_head p)"
proof (cases "\<exists>e. v = EMitte e \<or> v = EPone e \<and> x = ''_''")
  case True
  then show ?thesis using assms gets_bind_keyword by fastforce
next
  case False
  then have "print_bind v x = [T_Ident x, T_BindArrow] @ print_expr v" "ok_binder x" "ok_expr v"
    using assms(1) by (cases v; auto)+
  then show ?thesis using assms by (intro gets_bind_binder) simp_all
qed

lemma binder_goes_on: "ok_binder x \<Longrightarrow> start_kind x = Goes_on"
  by (simp add: ok_binder_def start_kind_def)

lemma kind_pone_mitte: "start_kind ''pone'' = Goes_on" "start_kind ''mitte'' = Goes_on"
  by (simp_all add: start_kind_def)

lemma print_bind_start:
  assumes "ok_bind v x"
  shows "\<exists>s ts. print_bind v x = T_Ident s # ts \<and> start_kind s = Goes_on"
proof (cases "\<exists>e. v = EMitte e \<or> v = EPone e \<and> x = ''_''")
  case True
  then show ?thesis using kind_pone_mitte by fastforce
next
  case False
  then have "print_bind v x = [T_Ident x, T_BindArrow] @ print_expr v" "ok_binder x"
    using assms by (cases v; auto)+
  then show ?thesis using binder_goes_on by simp
qed

lemma gets_si_head:
  assumes "ok_expr c" "view p = print_expr c @ T_Ident ''tunc'' # T_LBrace # us" "paren_depth p = 0" "expr_depth p = 0"
  shows "gets c us (si_head p)"
  unfolding si_head_def
proof (rule gets_and_then)
  show "gets c (T_Ident ''tunc'' # T_LBrace # us) (parse_expr p)"
    using assms by (intro gets_parse_expr) (simp_all add: reserved_def)
next
  fix q
  assume q: "view q = T_Ident ''tunc'' # T_LBrace # us" "paren_depth q = 0" "expr_depth q = 0"
  have "skip_newlines (advance_tok q) = advance_tok q" using q by (intro skip_newlines_view [of _ T_LBrace us]) simp_all
  moreover have "expect T_LBrace w (advance_tok q) = Inr (advance_tok (advance_tok q))" for w
    using q by (simp add: expect_view)
  ultimately show "gets c us (case (c, q) of (cond, p1) \<Rightarrow>
       (case keyword ''tunc'' p1 of (b, p2) \<Rightarrow>
          if \<not> b then Inl (perr p2 (''expected '' @ apos ''tunc'' @ '' after si-condition''))
          else and_then (expect T_LBrace (''expected '' @ apos ''{'' @ '' after tunc'') (skip_newlines p2))
                 (\<lambda>p3. Inr (cond, p3))))"
    using q keyword_view [OF q(1), of "''tunc''"] by (simp add: gets_def)
qed

lemma gets_si_else:
  assumes "view p = T_Newline # T_Ident ''aliter'' # T_LBrace # us" "paren_depth p = 0" "expr_depth p = 0"
  shows "\<exists>q. si_else p = Inr q \<and> view q = us \<and> paren_depth q = 0 \<and> expr_depth q = 0"
proof -
  let ?p = "skip_newlines p"
  have "on_line p (T_Ident ''aliter'' # T_LBrace # us)" using assms by (simp add: on_line_def)
  from skip_newlines_line [OF this]
  have v: "view ?p = T_Ident ''aliter'' # T_LBrace # us" "paren_depth ?p = 0" "expr_depth ?p = 0" by simp_all
  have "skip_newlines (advance_tok ?p) = advance_tok ?p" using v by (intro skip_newlines_view [of _ T_LBrace us]) simp_all
  moreover have "expect T_LBrace w (advance_tok ?p) = Inr (advance_tok (advance_tok ?p))" for w
    using v by (simp add: expect_view)
  ultimately show ?thesis
    using v keyword_view [OF v(1), of "''aliter''"] by (simp add: si_else_def)
qed

lemma on_lineI: "paren_depth p = 0 \<Longrightarrow> expr_depth p = 0 \<Longrightarrow> view p = T_Newline # us \<Longrightarrow> us = t # ts \<Longrightarrow> t \<noteq> T_Newline \<Longrightarrow> on_line p us"
  by (simp add: on_line_def)

lemma print_stmts_start:
  "ok_stmts mode e \<Longrightarrow> \<exists>s ts lines. print_stmts e = (T_Ident s # ts) # lines"
  using print_bind_start by (cases e) fastforce+

lemma line_of_stmts:
  assumes "ok_stmts mode e" "view p = T_Newline # flat (print_stmts e) @ us \<or> view p = flat (print_stmts e) @ us"
    "paren_depth p = 0" "expr_depth p = 0"
  shows "on_line p (flat (print_stmts e) @ us)"
  using print_stmts_start [OF assms(1)] assms(2-4) by (auto simp: on_line_def)

lemma stmts_reads_print:
  "ok_stmts mode e \<Longrightarrow> on_line p (flat (print_stmts e) @ us) \<Longrightarrow> gets e (T_Newline # us) (stmts mode p)"
proof (induction e arbitrary: p us rule: print_stmts.induct)
  case (1 m e)
  let ?p = "skip_newlines p"
  have v: "view ?p = T_Ident ''amen'' # print_expr e @ T_Newline # T_RBrace # T_Newline # us"
    "paren_depth ?p = 0" "expr_depth ?p = 0"
    using skip_newlines_line [OF "1.prems"(2)] by simp_all
  have "gets (EReturn m e) (T_Newline # us) (cadence (EReturn m) (advance_tok ?p))"
    using v "1.prems"(1) by (intro gets_cadence) simp_all
  then show ?case
    using stmt_start_view [OF v(1)] "1.prems"(1) by (simp add: stmts.simps [of mode p] start_kind_def)
next
  case 2
  let ?p = "skip_newlines p"
  have v: "view ?p = T_Ident ''nihil'' # T_Newline # T_RBrace # T_Newline # us" "paren_depth ?p = 0" "expr_depth ?p = 0"
    using skip_newlines_line [OF "2.prems"(2)] by simp_all
  obtain q where "close_stmts (advance_tok ?p) = Inr q" "view q = T_Newline # us" "paren_depth q = 0" "expr_depth q = 0"
    using gets_close_stmts [of "advance_tok ?p" "T_Newline # us"] v by auto
  then show ?case
    using stmt_start_view [OF v(1)] by (simp add: stmts.simps [of mode p] start_kind_def gets_def)
next
  case (3 e)
  let ?p = "skip_newlines p"
  have v: "view ?p = T_Ident ''clama'' # print_expr e @ T_Newline # T_RBrace # T_Newline # us"
    "paren_depth ?p = 0" "expr_depth ?p = 0"
    using skip_newlines_line [OF "3.prems"(2)] by simp_all
  have "gets (EClama e) (T_Newline # us) (cadence EClama (advance_tok ?p))"
    using v "3.prems"(1) by (intro gets_cadence) simp_all
  then show ?case
    using stmt_start_view [OF v(1)] by (simp add: stmts.simps [of mode p] start_kind_def)
next
  case (4 e)
  let ?p = "skip_newlines p"
  have v: "view ?p = T_Ident ''perage'' # print_expr e @ T_Newline # T_RBrace # T_Newline # us"
    "paren_depth ?p = 0" "expr_depth ?p = 0"
    using skip_newlines_line [OF "4.prems"(2)] by simp_all
  have "gets (EPerage e) (T_Newline # us) (cadence EPerage (advance_tok ?p))"
    using v "4.prems"(1) by (intro gets_cadence) simp_all
  then show ?case
    using stmt_start_view [OF v(1)] by (simp add: stmts.simps [of mode p] start_kind_def)
next
  case (5 c t u)
  let ?p = "skip_newlines p"
  let ?else = "T_Ident ''aliter'' # T_LBrace # T_Newline # flat (print_stmts u) @ T_RBrace # T_Newline # us"
  have v: "view ?p = T_Ident ''si'' # print_expr c @ T_Ident ''tunc'' # T_LBrace # T_Newline # flat (print_stmts t) @ ?else"
    "paren_depth ?p = 0" "expr_depth ?p = 0"
    using skip_newlines_line [OF "5.prems"(2)] by simp_all
  have ok: "ok_expr c" "ok_stmts mode t" "ok_stmts mode u" using "5.prems"(1) by simp_all
  obtain p2 where 2: "si_head (advance_tok ?p) = Inr (c, p2)" "view p2 = T_Newline # flat (print_stmts t) @ ?else"
    "paren_depth p2 = 0" "expr_depth p2 = 0"
    using gets_si_head [OF ok(1), of "advance_tok ?p"] v by (auto simp: gets_def)
  obtain p3 where 3: "stmts mode p2 = Inr (t, p3)" "view p3 = T_Newline # ?else" "paren_depth p3 = 0" "expr_depth p3 = 0"
    using "5.IH"(1) [OF ok(2) line_of_stmts [OF ok(2)]] 2 by (auto simp: gets_def)
  obtain p4 where 4: "si_else p3 = Inr p4" "view p4 = T_Newline # flat (print_stmts u) @ T_RBrace # T_Newline # us"
    "paren_depth p4 = 0" "expr_depth p4 = 0"
    using gets_si_else [OF 3(2-4)] by blast
  obtain p5 where 5: "stmts mode p4 = Inr (u, p5)" "view p5 = T_Newline # T_RBrace # T_Newline # us"
    "paren_depth p5 = 0" "expr_depth p5 = 0"
    using "5.IH"(2) [OF ok(3) line_of_stmts [OF ok(3)]] 4 by (auto simp: gets_def)
  obtain p6 where 6: "close_stmts p5 = Inr p6" "view p6 = T_Newline # us" "paren_depth p6 = 0" "expr_depth p6 = 0"
    using gets_close_stmts [OF 5(2-4)] by blast
  show ?case
    using stmt_start_view [OF v(1)] 2(1) 3(1) 4(1) 5(1) 6
    by (simp add: stmts.simps [of mode p] start_kind_def gets_def)
next
  case (6 m v x k)
  let ?p = "skip_newlines p"
  have ok: "m = mode" "ok_bind v x" "ok_stmts mode k" using "6.prems"(1) by simp_all
  obtain s ts where s: "print_bind v x = T_Ident s # ts" "start_kind s = Goes_on"
    using print_bind_start [OF ok(2)] by blast
  have v: "view ?p = print_bind v x @ T_Newline # flat (print_stmts k) @ us" "paren_depth ?p = 0" "expr_depth ?p = 0"
    using skip_newlines_line [OF "6.prems"(2)] by simp_all
  have start: "stmt_start ?p = (Goes_on, ?p)"
    using stmt_start_view [of ?p s "ts @ T_Newline # flat (print_stmts k) @ us"] v(1) s by simp
  obtain p2 where 2: "bind_head ?p = Inr ((v, x), p2)" "view p2 = T_Newline # flat (print_stmts k) @ us"
    "paren_depth p2 = 0" "expr_depth p2 = 0"
    using gets_bind_head [OF ok(2) v] by (auto simp: gets_def)
  obtain p3 where 3: "stmts mode p2 = Inr (k, p3)" "view p3 = T_Newline # us" "paren_depth p3 = 0" "expr_depth p3 = 0"
    using "6.IH" [OF ok(3) line_of_stmts [OF ok(3)]] 2 by (auto simp: gets_def)
  show ?case using start 2(1) 3 ok(1) by (simp add: stmts.simps [of mode p] gets_def)
qed simp_all

section \<open>Fugues\<close>

definition final_word :: "final \<Rightarrow> bool \<Rightarrow> string" where
  "final_word f plagal = (case f of
     Re \<Rightarrow> if plagal then ''re'' else ''Re''
   | Mi \<Rightarrow> if plagal then ''mi'' else ''Mi''
   | Fa \<Rightarrow> if plagal then ''fa'' else ''Fa''
   | Sol \<Rightarrow> if plagal then ''sol'' else ''Sol'')"

lemma final_token_of_word: "final_token_of (final_word f b) = Some (f, b)"
  by (cases f; cases b) (simp_all add: final_token_of_def final_word_def)

definition negative :: "f64 \<Rightarrow> bool" where
  "negative n = (case n of FNaN \<Rightarrow> False | FInf s \<Rightarrow> s | FFin s _ _ \<Rightarrow> s)"

fun print_literal :: "val \<Rightarrow> tok list" where
  "print_literal (VNum n) = (if negative n then [T_Minus, T_Num (f64_neg n)] else [T_Num n])"
| "print_literal (VStr s) = [T_Str s]"
| "print_literal (VBool b) = [T_Ident (if b then ''verum'' else ''falsum'')]"
| "print_literal _ = []"

definition is_literal :: "val \<Rightarrow> bool" where
  "is_literal v \<longleftrightarrow> (\<exists>n. v = VNum n) \<or> (\<exists>s. v = VStr s) \<or> (\<exists>b. v = VBool b)"

text \<open>The entries of a fugue, one by one.\<close>

datatype item =
  Pedal sym val
| Subject sym sym expr
| Real sym genus expr
| Tonal sym genus expr
| Contra expr

fun add_item :: "item \<Rightarrow> fugue \<Rightarrow> fugue" where
  "add_item (Pedal n v) f = f\<lparr>fug_pedals := fug_pedals f @ [(n, v)]\<rparr>"
| "add_item (Subject n x e) f = f\<lparr>fug_subject := Some (n, x, e)\<rparr>"
| "add_item (Real n g e) f = f\<lparr>fug_real := fug_real f @ [((n, g), e)]\<rparr>"
| "add_item (Tonal n g e) f = f\<lparr>fug_tonal := fug_tonal f @ [((n, g), e)]\<rparr>"
| "add_item (Contra e) f = f\<lparr>fug_contra := fug_contra f @ [e]\<rparr>"

fun print_item :: "item \<Rightarrow> tok list" where
  "print_item (Pedal n v) = T_Ident ''pedale'' # T_Ident n # T_Eq # print_literal v"
| "print_item (Subject n x e) =
     T_Ident ''subiectum'' # T_Ident n # T_LParen # T_Ident x # T_RParen # T_Eq # print_expr e"
| "print_item (Real n g e) = T_Ident ''reale'' # T_Ident n # T_At # T_Ident g # T_Eq # print_expr e"
| "print_item (Tonal n g e) = T_Ident ''tonale'' # T_Ident n # T_At # T_Ident g # T_Eq # print_expr e"
| "print_item (Contra e) = T_Ident ''contra'' # print_expr e"

fun ok_item :: "item \<Rightarrow> bool" where
  "ok_item (Pedal _ v) = is_literal v"
| "ok_item (Subject _ _ e) = ok_expr e"
| "ok_item (Real _ _ e) = ok_expr e"
| "ok_item (Tonal _ _ e) = ok_expr e"
| "ok_item (Contra e) = ok_expr e"

definition items_of :: "fugue \<Rightarrow> item list" where
  "items_of f =
     map (\<lambda>(n, v). Pedal n v) (fug_pedals f)
     @ (case fug_subject f of None \<Rightarrow> [] | Some (n, x, e) \<Rightarrow> [Subject n x e])
     @ map (\<lambda>((n, g), e). Real n g e) (fug_real f)
     @ map (\<lambda>((n, g), e). Tonal n g e) (fug_tonal f)
     @ map Contra (fug_contra f)"

lemma f64_neg_neg: "f64_neg (f64_neg n) = n"
  by (cases n) simp_all

lemma gets_literal:
  assumes "is_literal v" "view p = print_literal v @ t # us" "paren_depth p = 0" "expr_depth p = 0"
  shows "gets v (t # us) (literal p)"
  using assms
  by (auto simp: is_literal_def literal_def next_tok_view gets_def f64_neg_neg split: if_splits)

lemma gets_pedal:
  assumes "is_literal v" "view p = T_Ident n # T_Eq # print_literal v @ T_Newline # us" "paren_depth p = 0" "expr_depth p = 0"
  shows "gets (n, v) (T_Newline # us) (pedal p)"
proof -
  have "gets v (T_Newline # us) (literal (advance_tok (advance_tok p)))"
    using assms by (intro gets_literal) simp_all
  moreover have "expect T_Eq w (advance_tok p) = Inr (advance_tok (advance_tok p))" for w
    using assms(2) by (simp add: expect_view)
  ultimately show ?thesis using ident_view [OF assms(2)] by (auto simp: pedal_def gets_def)
qed

lemma gets_overload:
  assumes "ok_expr e" "view p = T_Ident n # T_At # T_Ident g # T_Eq # print_expr e @ T_Newline # us"
    "paren_depth p = 0" "expr_depth p = 0"
  shows "gets ((n, g), e) (T_Newline # us) (overload p)"
proof -
  let ?a = "advance_tok"
  have "gets e (T_Newline # us) (parse_expr (?a (?a (?a (?a p)))))"
    using assms by (intro gets_parse_expr) simp_all
  moreover have "expect T_At w (?a p) = Inr (?a (?a p))" "expect T_Eq w (?a (?a (?a p))) = Inr (?a (?a (?a (?a p))))" for w
    using assms(2) by (simp_all add: expect_view)
  moreover have "ident w (?a (?a p)) = Inr (g, ?a (?a (?a p)))" for w using assms(2) by (simp add: ident_view)
  ultimately show ?thesis using ident_view [OF assms(2)] by (auto simp: overload_def gets_def)
qed

lemma gets_subject:
  assumes "ok_expr e" "view p = T_Ident n # T_LParen # T_Ident x # T_RParen # T_Eq # print_expr e @ T_Newline # us"
    "paren_depth p = 0" "expr_depth p = 0"
  shows "gets (n, x, e) (T_Newline # us) (subject p)"
proof -
  let ?a = "advance_tok"
  let ?q = "(?a (?a p))\<lparr>paren_depth := paren_depth (?a (?a p)) + 1\<rparr>"
  let ?r = "(?a ?q)\<lparr>paren_depth := paren_depth (?a ?q) - 1\<rparr>"
  have "gets e (T_Newline # us) (parse_expr (?a (?a ?r)))"
    using assms by (intro gets_parse_expr) simp_all
  moreover have "expect T_LParen w (?a p) = Inr (?a (?a p))" "expect T_RParen w ?r = Inr (?a ?r)"
    "expect T_Eq w (?a ?r) = Inr (?a (?a ?r))" for w
    using assms(2) by (simp_all add: expect_view)
  moreover have "ident w ?q = Inr (x, ?a ?q)" for w using assms(2) by (simp add: ident_view)
  ultimately show ?thesis using ident_view [OF assms(2)] by (auto simp: subject_def gets_def)
qed

lemma gets_item:
  assumes "ok_item it" "view p = print_item it @ T_Newline # us" "paren_depth p = 0" "expr_depth p = 0"
  shows "gets (add_item it f) (T_Newline # us) (fugue_item f p)"
proof (cases it)
  case (Pedal n v)
  note v = assms(2) [unfolded Pedal print_item.simps append_Cons]
  have "gets (n, v) (T_Newline # us) (pedal (advance_tok p))"
    using assms Pedal by (intro gets_pedal) simp_all
  then show ?thesis using Pedal keyword_view [OF v] by (auto simp: fugue_item_def gets_def)
next
  case (Subject n x e)
  note v = assms(2) [unfolded Subject print_item.simps append_Cons]
  have "gets (n, x, e) (T_Newline # us) (subject (advance_tok p))"
    using assms Subject by (intro gets_subject) simp_all
  then show ?thesis using Subject keyword_view [OF v] by (auto simp: fugue_item_def gets_def)
next
  case (Real n g e)
  note v = assms(2) [unfolded Real print_item.simps append_Cons]
  have "gets ((n, g), e) (T_Newline # us) (overload (advance_tok p))"
    using assms Real by (intro gets_overload) simp_all
  then show ?thesis using Real keyword_view [OF v] by (auto simp: fugue_item_def gets_def)
next
  case (Tonal n g e)
  note v = assms(2) [unfolded Tonal print_item.simps append_Cons]
  have "gets ((n, g), e) (T_Newline # us) (overload (advance_tok p))"
    using assms Tonal by (intro gets_overload) simp_all
  then show ?thesis using Tonal keyword_view [OF v] by (auto simp: fugue_item_def gets_def)
next
  case (Contra e)
  note v = assms(2) [unfolded Contra print_item.simps append_Cons]
  have "gets e (T_Newline # us) (parse_expr (advance_tok p))"
    using assms Contra by (intro gets_parse_expr) simp_all
  then show ?thesis using Contra keyword_view [OF v] by (auto simp: fugue_item_def gets_def)
qed

lemma print_item_start: "\<exists>s ts. print_item it = T_Ident s # ts"
  by (cases it) simp_all

lemma line_after_newline:
  "view p = T_Newline # us \<Longrightarrow> paren_depth p = 0 \<Longrightarrow> expr_depth p = 0 \<Longrightarrow>
   us = [] \<or> hd us \<noteq> T_Newline \<Longrightarrow> on_line p us"
  by (cases us) (simp_all add: on_line_def)

lemma fugue_loop_reads_items:
  "list_all ok_item items \<Longrightarrow> on_line p (flat (map print_item items) @ T_RBrace # us) \<Longrightarrow>
   gets (foldl (\<lambda>f it. add_item it f) f items) us (fugue_loop f p)"
proof (induction items arbitrary: f p)
  case Nil
  let ?p = "skip_newlines p"
  have v: "view ?p = T_RBrace # us" "paren_depth ?p = 0" "expr_depth ?p = 0"
    using skip_newlines_line [OF Nil.prems(2)] by simp_all
  then show ?case by (simp add: fugue_loop.simps [of f p] eat_view [OF v(1)] gets_def)
next
  case (Cons it items)
  let ?p = "skip_newlines p"
  let ?rest = "flat (map print_item items) @ T_RBrace # us"
  have v: "view ?p = print_item it @ T_Newline # ?rest" "paren_depth ?p = 0" "expr_depth ?p = 0"
    using skip_newlines_line [OF Cons.prems(2)] by simp_all
  obtain s ts where s: "print_item it = T_Ident s # ts" using print_item_start by blast
  have e: "eat T_RBrace ?p = (False, ?p)"
    using eat_view [of ?p "T_Ident s" "ts @ T_Newline # ?rest"] v(1) s by simp
  obtain q where q: "fugue_item f ?p = Inr (add_item it f, q)" "view q = T_Newline # ?rest"
    "paren_depth q = 0" "expr_depth q = 0"
    using gets_item [OF _ v, of f] Cons.prems(1) by (auto simp: gets_def)
  have "hd ?rest \<noteq> T_Newline"
  proof (cases items)
    case (Cons it2 items2)
    then show ?thesis using print_item_start [of it2] by auto
  qed simp
  then have "on_line q ?rest" using q by (intro line_after_newline) simp_all
  then have "gets (foldl (\<lambda>f it. add_item it f) (add_item it f) items) us (fugue_loop (add_item it f) q)"
    using Cons.IH Cons.prems(1) by simp
  then show ?case using e q(1) by (simp add: fugue_loop.simps [of f p])
qed

lemma add_items_of:
  "foldl (\<lambda>f it. add_item it f) (fugue_new (fug_name f) (fug_final f)) (items_of f) = f"
proof -
  have p: "foldl (\<lambda>f it. add_item it f) g (map (\<lambda>(n, v). Pedal n v) xs) = g\<lparr>fug_pedals := fug_pedals g @ xs\<rparr>" for g xs
    by (induction xs arbitrary: g) auto
  have r: "foldl (\<lambda>f it. add_item it f) g (map (\<lambda>((n, a), e). Real n a e) xs) = g\<lparr>fug_real := fug_real g @ xs\<rparr>" for g xs
    by (induction xs arbitrary: g) auto
  have t: "foldl (\<lambda>f it. add_item it f) g (map (\<lambda>((n, a), e). Tonal n a e) xs) = g\<lparr>fug_tonal := fug_tonal g @ xs\<rparr>" for g xs
    by (induction xs arbitrary: g) auto
  have c: "foldl (\<lambda>f it. add_item it f) g (map Contra xs) = g\<lparr>fug_contra := fug_contra g @ xs\<rparr>" for g xs
    by (induction xs arbitrary: g) auto
  show ?thesis
    unfolding items_of_def by (cases "fug_subject f") (auto simp: p r t c fugue_new_def split: prod.splits)
qed

definition print_header :: "string \<Rightarrow> string \<Rightarrow> final \<Rightarrow> bool \<Rightarrow> tok list" where
  "print_header kw name f plagal =
     [T_Ident kw, T_Ident name, T_Ident ''in'', T_Ident (final_word f plagal), T_LBrace]"

lemma gets_header:
  assumes "view p = tl (print_header kw name f plagal) @ us" "paren_depth p = 0" "expr_depth p = 0"
  shows "gets (name, f, from_final f plagal) us (header what p)"
proof -
  let ?a = "advance_tok"
  have v: "view p = T_Ident name # T_Ident ''in'' # T_Ident (final_word f plagal) # T_LBrace # us"
    using assms(1) by (simp add: print_header_def)
  have k: "keyword ''in'' (?a p) = (True, ?a (?a p))"
    using v keyword_view [of "?a p" "T_Ident ''in''" "T_Ident (final_word f plagal) # T_LBrace # us" "''in''"] by simp
  have m: "final_and_mode (?a (?a p)) = Inr ((f, from_final f plagal), ?a (?a (?a p)))"
    using v ident_view [of "?a (?a p)" "final_word f plagal" "T_LBrace # us"]
    by (simp add: final_and_mode_def final_token_of_word)
  have n: "skip_newlines (?a (?a (?a p))) = ?a (?a (?a p))"
    using v by (intro skip_newlines_view [of _ T_LBrace us]) simp_all
  have e: "expect T_LBrace w (?a (?a (?a p))) = Inr (?a (?a (?a (?a p))))" for w
    using v by (simp add: expect_view)
  show ?thesis using v k m n e ident_view [OF v] assms(2,3) by (simp add: header_def gets_def)
qed

definition print_fugue :: "fugue \<Rightarrow> tok list list" where
  "print_fugue f = print_header ''fuga'' (fug_name f) (fug_final f) False # map print_item (items_of f) @ [[T_RBrace]]"

definition ok_fugue :: "fugue \<Rightarrow> bool" where
  "ok_fugue f \<longleftrightarrow> list_all ok_item (items_of f)"

lemma gets_fugue:
  assumes "ok_fugue f" "view p = tl (flat (print_fugue f) @ us)" "paren_depth p = 0" "expr_depth p = 0"
  shows "gets f (T_Newline # us) (parse_fugue p)"
proof -
  let ?rest = "flat (map print_item (items_of f)) @ T_RBrace # T_Newline # us"
  have v: "view p = tl (print_header ''fuga'' (fug_name f) (fug_final f) False) @ T_Newline # ?rest"
    using assms(2) by (simp add: print_fugue_def print_header_def)
  obtain q where q: "header ''fugue'' p = Inr ((fug_name f, fug_final f, from_final (fug_final f) False), q)"
    "view q = T_Newline # ?rest" "paren_depth q = 0" "expr_depth q = 0"
    using gets_header [OF v assms(3,4), of "''fugue''"] by (auto simp: gets_def)
  have "hd ?rest \<noteq> T_Newline"
  proof (cases "items_of f")
    case (Cons it items)
    then show ?thesis using print_item_start [of it] by auto
  qed simp
  then have "on_line q ?rest" using q by (intro line_after_newline) simp_all
  then have "gets f (T_Newline # us) (fugue_loop (fugue_new (fug_name f) (fug_final f)) q)"
    using fugue_loop_reads_items [of "items_of f" q "T_Newline # us" "fugue_new (fug_name f) (fug_final f)"] assms(1)
    unfolding add_items_of ok_fugue_def by simp
  then show ?thesis using q(1) by (simp add: parse_fugue_def)
qed

section \<open>Verses and programs\<close>

definition print_versus :: "versus \<Rightarrow> tok list list" where
  "print_versus v =
     print_header ''versus'' (ver_name v) (final_of (ver_mode v)) (is_plagal (ver_mode v)) # print_stmts (ver_body v)"

text \<open>The plain form has no rhymes.\<close>

definition ok_versus :: "versus \<Rightarrow> bool" where
  "ok_versus v \<longleftrightarrow> ver_rhymes v = [] \<and> ok_stmts (ver_mode v) (ver_body v)"

definition print_program :: "program \<Rightarrow> tok list list" where
  "print_program prog = concat (map print_fugue (prog_fugues prog)) @ concat (map print_versus (prog_verses prog))"

definition ok_program :: "program \<Rightarrow> bool" where
  "ok_program prog \<longleftrightarrow> list_all ok_fugue (prog_fugues prog) \<and> list_all ok_versus (prog_verses prog)"

lemma append_Cons_nonempty: "\<exists>t ts. xs @ y # ys = t # ts"
  by (cases xs) auto

lemma print_stmts_plain:
  assumes "ok_stmts mode e"
  shows "\<exists>s t ts. flat (print_stmts e) = T_Ident s # t # ts \<and> (rhyme_label s = None \<or> (\<forall>w. t \<noteq> T_Str w))"
proof (cases e)
  case (EBind m v x k)
  show ?thesis
  proof (cases "\<exists>e. v = EMitte e \<or> v = EPone e \<and> x = ''_''")
    case True
    then obtain s e' where "print_bind v x = T_Ident s # print_expr e'" "printable e'" "rhyme_label s = None"
      using assms EBind by (auto simp: rhyme_label_def ok_expr_def)
    then show ?thesis using EBind print_expr_starts [of e'] by auto
  next
    case False
    then have "print_bind v x = [T_Ident x, T_BindArrow] @ print_expr v" using assms EBind by (cases v; auto)
    then show ?thesis using EBind by simp
  qed
qed (use assms in \<open>auto simp: rhyme_label_def ok_expr_def append_Cons_nonempty\<close>)

lemma opens_sung_view: "map fst ts = T_Ident s # t # us \<Longrightarrow> opens_sung ts \<Longrightarrow> rhyme_label s \<noteq> None \<and> (\<exists>w. t = T_Str w)"
  by (auto simp: opens_sung_def Cons_eq_map_conv split: list.splits tok.splits)

lemma gets_liturgical_plain:
  assumes "ok_stmts mode e" "view p = T_Newline # flat (print_stmts e) @ us" "paren_depth p = 0" "expr_depth p = 0"
  shows "liturgical_strip p = Inr ([], p)"
proof -
  obtain s t ts where s: "flat (print_stmts e) = T_Ident s # t # ts" "rhyme_label s = None \<or> (\<forall>w. t \<noteq> T_Str w)"
    using print_stmts_plain [OF assms(1)] by blast
  have "map fst (dropWhile (\<lambda>t. fst t = T_Newline) (toks p)) = dropWhile (\<lambda>t. t = T_Newline) (view p)"
    by (simp add: view_def dropWhile_map comp_def)
  also have "\<dots> = T_Ident s # t # ts @ us" using assms(2) s(1) by simp
  finally have eq: "map fst (dropWhile (\<lambda>t. fst t = T_Newline) (toks p)) = T_Ident s # t # ts @ us" .
  have "\<not> opens_sung (dropWhile (\<lambda>t. fst t = T_Newline) (toks p))"
  proof
    assume "opens_sung (dropWhile (\<lambda>t. fst t = T_Newline) (toks p))"
    from opens_sung_view [OF eq this] show False using s(2) by auto
  qed
  then show ?thesis by (simp add: liturgical_strip_def Let_def)
qed

lemma gets_versus:
  assumes "ok_versus v" "view p = tl (flat (print_versus v) @ us)" "paren_depth p = 0" "expr_depth p = 0"
  shows "gets v (T_Newline # us) (parse_versus p)"
proof -
  have ok: "ver_rhymes v = []" "ok_stmts (ver_mode v) (ver_body v)" using assms(1) by (simp_all add: ok_versus_def)
  have vw: "view p = tl (print_header ''versus'' (ver_name v) (final_of (ver_mode v)) (is_plagal (ver_mode v)))
      @ T_Newline # flat (print_stmts (ver_body v)) @ us"
    using assms(2) by (simp add: print_versus_def print_header_def)
  obtain q where q: "header ''verse'' p = Inr ((ver_name v, final_of (ver_mode v), ver_mode v), q)"
    "view q = T_Newline # flat (print_stmts (ver_body v)) @ us" "paren_depth q = 0" "expr_depth q = 0"
    using gets_header [OF vw assms(3,4), of "''verse''"] by (auto simp: gets_def)
  have "gets (ver_body v) (T_Newline # us) (stmts (ver_mode v) q)"
    using stmts_reads_print [OF ok(2)] line_of_stmts [OF ok(2) _ q(3,4)] q(2) by blast
  then show ?thesis
    using q(1) gets_liturgical_plain [OF ok(2) q(2-4)] ok(1) by (auto simp: parse_versus_def gets_def)
qed

lemma program_lines_start:
  "flat (print_fugue f) = T_Ident ''fuga'' # tl (flat (print_fugue f))"
  "flat (print_versus v) = T_Ident ''versus'' # tl (flat (print_versus v))"
  by (simp_all add: print_fugue_def print_versus_def print_header_def)

lemma skip_tl: "on_line p (t # us) \<Longrightarrow> t \<noteq> T_Newline \<Longrightarrow>
    view (skip_newlines p) = t # us \<and> peek (skip_newlines p) = (Some t, skip_newlines p)
    \<and> paren_depth (skip_newlines p) = 0 \<and> expr_depth (skip_newlines p) = 0"
  using skip_newlines_line [of p "t # us"] peek_view [of "skip_newlines p" t us] by simp

lemma program_loop_fugue:
  assumes "ok_fugue f" "on_line p (flat (print_fugue f) @ us)"
  shows "\<exists>q. program_loop prog p = program_loop (prog\<lparr>prog_fugues := prog_fugues prog @ [f]\<rparr>) q
    \<and> view q = T_Newline # us \<and> paren_depth q = 0 \<and> expr_depth q = 0"
proof -
  let ?p = "skip_newlines p"
  have ol: "on_line p (T_Ident ''fuga'' # tl (flat (print_fugue f)) @ us)"
    using assms(2) by (subst (asm) program_lines_start) simp
  note s = skip_tl [OF ol]
  have k: "keyword ''fuga'' ?p = (True, advance_tok ?p)" using s keyword_view by fastforce
  have "gets f (T_Newline # us) (parse_fugue (advance_tok ?p))"
    using s by (intro gets_fugue [OF assms(1)]) (simp_all add: print_fugue_def print_header_def)
  then show ?thesis using s k by (auto simp: program_loop.simps [of prog p] gets_def)
qed

lemma program_loop_versus:
  assumes "ok_versus v" "on_line p (flat (print_versus v) @ us)"
  shows "\<exists>q. program_loop prog p = program_loop (prog\<lparr>prog_verses := prog_verses prog @ [v]\<rparr>) q
    \<and> view q = T_Newline # us \<and> paren_depth q = 0 \<and> expr_depth q = 0"
proof -
  let ?p = "skip_newlines p"
  have ol: "on_line p (T_Ident ''versus'' # tl (flat (print_versus v)) @ us)"
    using assms(2) by (subst (asm) program_lines_start) simp
  note s = skip_tl [OF ol]
  have k: "keyword ''fuga'' ?p = (False, ?p)" "keyword ''versus'' ?p = (True, advance_tok ?p)"
    using s keyword_view by fastforce+
  have "gets v (T_Newline # us) (parse_versus (advance_tok ?p))"
    using s by (intro gets_versus [OF assms(1)]) (simp_all add: print_versus_def print_header_def)
  then show ?thesis using s k by (auto simp: program_loop.simps [of prog p] gets_def)
qed

lemma print_program_starts:
  "flat (concat (map print_fugue fs) @ concat (map print_versus vs)) = [] \<or>
   hd (flat (concat (map print_fugue fs) @ concat (map print_versus vs))) \<noteq> T_Newline"
proof (cases fs)
  case Nil
  show ?thesis
  proof (cases vs)
    case (Cons v vs')
    then show ?thesis using Nil program_lines_start(2) [of v] by (cases "flat (print_versus v)") auto
  qed (simp add: Nil)
next
  case (Cons f fs')
  then show ?thesis using program_lines_start(1) [of f] by (cases "flat (print_fugue f)") auto
qed

lemma program_loop_end:
  assumes "on_line p []"
  shows "\<exists>q. program_loop prog p = Inr (prog, q)"
proof -
  have "view (skip_newlines p) = []" "paren_depth (skip_newlines p) = 0"
    using skip_newlines_line [OF assms] by simp_all
  then have "peek (skip_newlines p) = (None, skip_newlines p)"
    by (auto simp: peek_def Let_def view_def split: list.splits)
  then show ?thesis by (simp add: program_loop.simps [of prog p])
qed

lemma program_loop_verses:
  "list_all ok_versus vs \<Longrightarrow> on_line p (flat (concat (map print_versus vs))) \<Longrightarrow>
   \<exists>q. program_loop prog p = Inr (prog\<lparr>prog_verses := prog_verses prog @ vs\<rparr>, q)"
proof (induction vs arbitrary: prog p)
  case Nil
  then show ?case using program_loop_end [of p prog] by simp
next
  case (Cons v vs)
  obtain q where q: "program_loop prog p = program_loop (prog\<lparr>prog_verses := prog_verses prog @ [v]\<rparr>) q"
    "view q = T_Newline # flat (concat (map print_versus vs))" "paren_depth q = 0" "expr_depth q = 0"
    using program_loop_versus [of v p "flat (concat (map print_versus vs))" prog] Cons.prems by auto
  have "on_line q (flat (concat (map print_versus vs)))"
    using line_after_newline [OF q(2-4)] print_program_starts [of "[]" vs] by simp
  then show ?case
    using Cons.IH [of q "prog\<lparr>prog_verses := prog_verses prog @ [v]\<rparr>"] Cons.prems(1) q(1) by simp
qed

lemma program_loop_reads_print:
  "list_all ok_fugue fs \<Longrightarrow> list_all ok_versus vs \<Longrightarrow>
   on_line p (flat (concat (map print_fugue fs) @ concat (map print_versus vs))) \<Longrightarrow>
   \<exists>q. program_loop prog p =
     Inr (prog\<lparr>prog_fugues := prog_fugues prog @ fs, prog_verses := prog_verses prog @ vs\<rparr>, q)"
proof (induction fs arbitrary: prog p)
  case Nil
  then show ?case using program_loop_verses [of vs p prog] by simp
next
  case (Cons f fs)
  let ?rest = "flat (concat (map print_fugue fs) @ concat (map print_versus vs))"
  obtain q where q: "program_loop prog p = program_loop (prog\<lparr>prog_fugues := prog_fugues prog @ [f]\<rparr>) q"
    "view q = T_Newline # ?rest" "paren_depth q = 0" "expr_depth q = 0"
    using program_loop_fugue [of f p ?rest prog] Cons.prems by auto
  have "on_line q ?rest" using line_after_newline [OF q(2-4)] print_program_starts by blast
  then show ?case
    using Cons.IH [of q "prog\<lparr>prog_fugues := prog_fugues prog @ [f]\<rparr>"] Cons.prems(1,2) q(1) by simp
qed

lemma map_fst_numbered: "[] \<notin> set tss \<Longrightarrow> map fst (numbered n tss) = flat tss"
  by (induction tss arbitrary: n) (auto simp: comp_def)

lemma print_lines_nonempty:
  assumes "ok_program prog"
  shows "[] \<notin> set (print_program prog)"
proof -
  have e: "[] \<notin> set (print_stmts e)" if "ok_stmts mode e" for mode e
    using that
  proof (induction e rule: print_stmts.induct)
    case (6 m v x k)
    then show ?case using print_bind_start [of v x] by auto
  qed auto
  have "[] \<notin> set (print_fugue f)" for f
  proof -
    have "[] \<noteq> print_item it" for it using print_item_start [of it] by auto
    then show ?thesis by (auto simp: print_fugue_def print_header_def)
  qed
  moreover have "[] \<notin> set (print_versus v)" if "v \<in> set (prog_verses prog)" for v
    using e [of "ver_mode v" "ver_body v"] assms that
    by (auto simp: print_versus_def print_header_def ok_program_def ok_versus_def list_all_iff)
  ultimately show ?thesis by (auto simp: print_program_def)
qed

section \<open>What the nesting guard does not see\<close>

text \<open>
  The guard of \<open>expr\<close> counts parentheses and lambdas; an atom that calls itself (a sign, \<open>pure\<close>,
  \<open>leva\<close>, \<open>pone\<close>, \<open>resolve\<close>) is not counted, so a run of signs of any length is accepted.
\<close>

definition negated :: "expr \<Rightarrow> expr" where
  "negated e = call2 ''sub'' (ELit (VNum f64_zero)) e"

lemma signs_are_not_counted:
  "view p = replicate n T_Minus @ T_Num x # us \<Longrightarrow>
   yields_tok p us ((negated ^^ n) (ELit (VNum x))) (atom p)"
proof (induction n arbitrary: p)
  case 0
  then show ?case by (simp add: atom.simps [of p] peek_view yields_tok_def)
next
  case (Suc n)
  then have "yields_tok (advance_tok p) us ((negated ^^ n) (ELit (VNum x))) (atom (advance_tok p))"
    by (intro Suc.IH) simp
  then show ?case
    using Suc.prems negated_def [of "(negated ^^ n) (ELit (VNum x))"]
    by (auto simp: atom.simps [of p] peek_view yields_tok_def)
qed

section \<open>The property\<close>

text \<open>C5: Printing and parsing are inverse. A program of the plain form, printed as lines of
  tokens and spelled in any way the lexer reads, is parsed back into exactly that program:
  every fugue with its pedals, subject, overloads and counterpoints, and every verse with its
  mode and its Core expression.\<close>

lemma parse_reads_what_is_printed:
  assumes "ok_program prog" "list_all2 (list_all2 spells) lines (print_program prog)"
  shows "parse (text_of lines) = (Inr prog :: ('k dissonance, program) result)"
proof -
  let ?ts = "numbered 1 (print_program prog)"
  have l: "lex (text_of lines) = (Inr ?ts :: ('k dissonance, lexed) result)" unfolding lex_def using lex_from_lines [OF assms(2), of "[]" 1] by simp
  have v: "view (parser_new ?ts) = flat (print_program prog)"
    using map_fst_numbered [OF print_lines_nonempty [OF assms(1)]] by (simp add: view_def parser_new_def)
  have "on_line (parser_new ?ts) (flat (print_program prog))"
  proof -
    have "dropWhile ((=) T_Newline) (flat (print_program prog)) = flat (print_program prog)"
      using print_program_starts [of "prog_fugues prog" "prog_verses prog"]
      by (cases "flat (print_program prog)") (auto simp: print_program_def)
    then show ?thesis using v by (simp add: on_line_def parser_new_def)
  qed
  then obtain q where "program_loop program_default (parser_new ?ts) = Inr (prog, q)"
    using program_loop_reads_print [of "prog_fugues prog" "prog_verses prog" "parser_new ?ts" program_default] assms(1)
    by (auto simp: ok_program_def print_program_def program_default_def)
  then show ?thesis using l by (simp add: parse_def)
qed

definition small_score :: program where
  "small_score =
     \<lparr>prog_fugues = [\<lparr>fug_name = ''Motus'', fug_final = Re, fug_pedals = [(''G'', VNum (f64_dec 2 0))],
        fug_subject = None, fug_real = [((''vis'', ''Terra''), ELam ''r'' (EVar ''r''))], fug_tonal = [], fug_contra = []\<rparr>],
      prog_verses = [\<lparr>ver_name = ''prima'', ver_mode = Lydian,
        ver_body = EBind Lydian (EPone EArg) ''_'' (EReturn Lydian (EApp (EVar ''f'') ELege)), ver_rhymes = []\<rparr>]\<rparr>"

definition small_text :: "string list list" where
  "small_text =
     [[''fuga'', ''Motus'', ''in'', ''Re'', ''{''],
      [''pedale'', ''G'', ''='', ''2''],
      [''reale'', ''vis'', ''@'', ''Terra'', ''='', ''('', [CHR 0x5C], ''r'', ''->'', ''r'', '')''],
      [''}''],
      [''versus'', ''prima'', ''in'', ''Fa'', ''{''],
      [''pone'', ''arg''],
      [''amen'', ''('', ''f'', ''lege'', '')''],
      [''}'']]"

lemma parse_reads_what_is_printed_witness:
  "parse (text_of small_text) = (Inr small_score :: (unit dissonance, program) result)"
proof (rule parse_reads_what_is_printed)
  show "ok_program small_score"
    by (simp add: small_score_def ok_program_def ok_fugue_def items_of_def is_literal_def ok_versus_def ok_expr_def
        plain_name_def reserved_def atom_word_def MAX_EXPR_DEPTH_def)
  have n: "parse_f64 ''2'' = Some (f64_dec 2 0)" by (simp add: parse_f64_def is_digit_def code_def)
  have neg: "\<not> negative (f64_dec 2 0)"
    by (simp add: f64_dec_def round_ratio_def negative_def Let_def split: f64.splits)
  have p: "print_program small_score =
      [[T_Ident ''fuga'', T_Ident ''Motus'', T_Ident ''in'', T_Ident ''Re'', T_LBrace],
       [T_Ident ''pedale'', T_Ident ''G'', T_Eq, T_Num (f64_dec 2 0)],
       [T_Ident ''reale'', T_Ident ''vis'', T_At, T_Ident ''Terra'', T_Eq, T_LParen, T_Lambda, T_Ident ''r'',
        T_Arrow, T_Ident ''r'', T_RParen],
       [T_RBrace],
       [T_Ident ''versus'', T_Ident ''prima'', T_Ident ''in'', T_Ident ''Fa'', T_LBrace],
       [T_Ident ''pone'', T_Ident ''arg''],
       [T_Ident ''amen'', T_LParen, T_Ident ''f'', T_Ident ''lege'', T_RParen],
       [T_RBrace]]"
    using neg by (simp add: small_score_def print_program_def print_fugue_def print_versus_def print_header_def
        items_of_def final_word_def is_plagal_def)
  show "list_all2 (list_all2 spells) small_text (print_program small_score)"
    using n unfolding p small_text_def
    by (simp add: ident_head_def ident_char_def is_alpha_def is_upper_def is_digit_def code_def)
qed

end
