(* ===== verification/Unify.thy ===== *)
theory Unify
  imports Prelude
begin

text \<open>
  Types and unification of the static checker: \<open>officium-core/src/check.rs\<close>, its types, the
  substitution, \<open>shallow\<close>, \<open>occurs\<close> and \<open>unify\<close>.

  The substitution is the checker's vector: entry \<open>i\<close> is what variable \<open>i\<close> was bound to, and a
  variable past the end is a panic. The three functions follow bindings for as long as there are
  any, so their values are options: \<open>None\<close> is a chase that never ends. The invariant \<open>subst_wf\<close>
  (every variable in range, no cycle) rules out both, and \<open>unify\<close> keeps it. What unification
  means is said with the solutions of a substitution: assignments of types to variables
  under which every binding is an equation.
\<close>

section \<open>Types\<close>

datatype ctype =
  Ty_Var nat
| Ty_Num
| Ty_Str
| Ty_Bool
| Ty_Unit
| Ty_Genus
| Ty_Corpus
| Ty_Field
| Ty_Plan
| Ty_Cmd
| Ty_Fun ctype ctype

fun hint :: "ctype \<Rightarrow> string" where
  "hint (Ty_Var _) = ''?''"
| "hint Ty_Num = ''num''"
| "hint Ty_Str = ''str''"
| "hint Ty_Bool = ''bool''"
| "hint Ty_Unit = ''unit''"
| "hint Ty_Genus = ''genus''"
| "hint Ty_Corpus = ''record''"
| "hint Ty_Field = ''field''"
| "hint Ty_Plan = ''plan''"
| "hint Ty_Cmd = ''cmd''"
| "hint (Ty_Fun _ _) = ''closure''"

definition fun2 :: "ctype \<Rightarrow> ctype \<Rightarrow> ctype \<Rightarrow> ctype" where
  "fun2 a b r = Ty_Fun a (Ty_Fun b r)"

text \<open>Why two types do not unify; \<open>None\<close> in the middle is a panic.\<close>

datatype mismatch = Types string string | Infinite

type_synonym subst = "ctype option list"

type_synonym 'a chase = "('a option) option"

section \<open>Unification\<close>

partial_function (option) shallow :: "subst \<Rightarrow> ctype \<Rightarrow> ctype chase" where
  "shallow s t =
     (case t of
        Ty_Var i \<Rightarrow>
          (if i < length s
           then (case s ! i of Some t' \<Rightarrow> shallow s t' | None \<Rightarrow> Some (Some (Ty_Var i)))
           else Some None)
      | _ \<Rightarrow> Some (Some t))"

partial_function (option) occurs :: "subst \<Rightarrow> nat \<Rightarrow> ctype \<Rightarrow> bool chase" where
  "occurs s v t =
     Option.bind (shallow s t) (\<lambda>t'. case t' of
        None \<Rightarrow> Some None
      | Some t'' \<Rightarrow> (case t'' of
            Ty_Var i \<Rightarrow> Some (Some (i = v))
          | Ty_Fun a r \<Rightarrow>
              Option.bind (occurs s v a) (\<lambda>x. case x of
                None \<Rightarrow> Some None
              | Some b \<Rightarrow> if b then Some (Some True) else occurs s v r)
          | _ \<Rightarrow> Some (Some False)))"

text \<open>The result of \<open>unify\<close>: a panic (\<open>None\<close>), the new substitution, or the mismatch.\<close>

type_synonym unified = "(mismatch + subst) chase"

definition bind_var :: "subst \<Rightarrow> nat \<Rightarrow> ctype \<Rightarrow> unified" where
  "bind_var s i t =
     Option.bind (occurs s i t) (\<lambda>x. Some (case x of
        None \<Rightarrow> None
      | Some b \<Rightarrow> Some (if b then Inl Infinite else Inr (s[i := Some t]))))"

partial_function (option) unify :: "subst \<Rightarrow> ctype \<Rightarrow> ctype \<Rightarrow> unified" where
  "unify s a b =
     Option.bind (shallow s a) (\<lambda>x. Option.bind (shallow s b) (\<lambda>y.
       case (x, y) of
         (Some a', Some b') \<Rightarrow>
           (case (a', b') of
              (Ty_Var i, _) \<Rightarrow> if b' = Ty_Var i then Some (Some (Inr s)) else bind_var s i b'
            | (_, Ty_Var i) \<Rightarrow> bind_var s i a'
            | (Ty_Fun a1 r1, Ty_Fun a2 r2) \<Rightarrow>
                Option.bind (unify s a1 a2) (\<lambda>z. case z of
                  Some (Inr s') \<Rightarrow> unify s' r1 r2
                | _ \<Rightarrow> Some z)
            | _ \<Rightarrow> if a' = b' then Some (Some (Inr s)) else Some (Some (Inl (Types (hint a') (hint b')))))
       | _ \<Rightarrow> Some None))"

section \<open>Solutions\<close>

fun vars_of :: "ctype \<Rightarrow> nat set" where
  "vars_of (Ty_Var i) = {i}"
| "vars_of (Ty_Fun a r) = vars_of a \<union> vars_of r"
| "vars_of _ = {}"

fun inst :: "(nat \<Rightarrow> ctype) \<Rightarrow> ctype \<Rightarrow> ctype" where
  "inst \<theta> (Ty_Var i) = \<theta> i"
| "inst \<theta> (Ty_Fun a r) = Ty_Fun (inst \<theta> a) (inst \<theta> r)"
| "inst \<theta> t = t"

definition bound_to :: "subst \<Rightarrow> nat \<Rightarrow> ctype option" where
  "bound_to s i = (if i < length s then s ! i else None)"

definition solves :: "(nat \<Rightarrow> ctype) \<Rightarrow> subst \<Rightarrow> bool" where
  "solves \<theta> s \<longleftrightarrow> (\<forall>i t. bound_to s i = Some t \<longrightarrow> \<theta> i = inst \<theta> t)"

text \<open>The solution that leaves the unbound variables as they are.\<close>

definition canonical :: "(nat \<Rightarrow> ctype) \<Rightarrow> subst \<Rightarrow> bool" where
  "canonical \<theta> s \<longleftrightarrow> (\<forall>i. \<theta> i = (case bound_to s i of Some t \<Rightarrow> inst \<theta> t | None \<Rightarrow> Ty_Var i))"

definition ranked :: "subst \<Rightarrow> (nat \<Rightarrow> nat) \<Rightarrow> bool" where
  "ranked s rank \<longleftrightarrow> (\<forall>i t. bound_to s i = Some t \<longrightarrow> (\<forall>j \<in> vars_of t. rank j < rank i))"

definition in_range :: "subst \<Rightarrow> ctype \<Rightarrow> bool" where
  "in_range s t \<longleftrightarrow> (\<forall>i \<in> vars_of t. i < length s)"

definition subst_wf :: "subst \<Rightarrow> bool" where
  "subst_wf s \<longleftrightarrow> (\<forall>i t. bound_to s i = Some t \<longrightarrow> in_range s t) \<and> (\<exists>rank. ranked s rank)"

lemma canonical_solves: "canonical \<theta> s \<Longrightarrow> solves \<theta> s"
  unfolding canonical_def solves_def by (metis option.simps(5))

lemma finite_vars [simp]: "finite (vars_of t)"
  by (induction t) auto

lemma inst_cong: "(\<And>i. i \<in> vars_of t \<Longrightarrow> \<theta> i = \<theta>' i) \<Longrightarrow> inst \<theta> t = inst \<theta>' t"
  by (induction t) auto

lemma vars_inst: "vars_of (inst \<theta> t) = (\<Union>i \<in> vars_of t. vars_of (\<theta> i))"
  by (induction t) auto

lemma inst_inst: "inst \<theta> (inst \<theta>' t) = inst (\<lambda>i. inst \<theta> (\<theta>' i)) t"
  by (induction t) auto

lemma size_inst_var: "i \<in> vars_of t \<Longrightarrow> size (\<theta> i) \<le> size (inst \<theta> t)"
  by (induction t) auto

text \<open>A ranked substitution has its canonical solution: follow the bindings, rank by rank.\<close>

primrec follow :: "subst \<Rightarrow> nat \<Rightarrow> nat \<Rightarrow> ctype" where
  "follow s 0 i = Ty_Var i"
| "follow s (Suc n) i = (case bound_to s i of Some t \<Rightarrow> inst (follow s n) t | None \<Rightarrow> Ty_Var i)"

lemma follow_stable: "ranked s rank \<Longrightarrow> rank i < n \<Longrightarrow> rank i < m \<Longrightarrow> follow s n i = follow s m i"
proof (induction n arbitrary: i m)
  case (Suc n)
  obtain k where m: "m = Suc k" using Suc.prems(3) by (cases m) auto
  show ?case
  proof (cases "bound_to s i")
    case (Some t)
    have "follow s n j = follow s k j" if "j \<in> vars_of t" for j
    proof -
      have "rank j < rank i" using Suc.prems(1) Some that by (auto simp: ranked_def)
      then show ?thesis using Suc.IH [of j k] Suc.prems m by simp
    qed
    then show ?thesis using Some m by (auto intro: inst_cong)
  qed (simp add: m)
qed simp

lemma canonical_exists:
  assumes "subst_wf s"
  shows "\<exists>\<theta>. canonical \<theta> s"
proof -
  obtain rank where r: "ranked s rank" using assms by (auto simp: subst_wf_def)
  define \<theta> where "\<theta> i = follow s (Suc (rank i)) i" for i
  have "\<theta> i = (case bound_to s i of Some t \<Rightarrow> inst \<theta> t | None \<Rightarrow> Ty_Var i)" for i
  proof (cases "bound_to s i")
    case (Some t)
    have "follow s (rank i) j = \<theta> j" if "j \<in> vars_of t" for j
      using r Some that follow_stable [OF r, of j "rank i" "Suc (rank j)"] by (auto simp: \<theta>_def ranked_def)
    then show ?thesis using Some by (auto simp: \<theta>_def intro: inst_cong)
  qed (simp add: \<theta>_def)
  then show ?thesis by (auto simp: canonical_def)
qed

text \<open>Every solution is an instance of the canonical one.\<close>

lemma solves_canonical:
  assumes "subst_wf s" "solves \<theta> s" "canonical \<chi> s"
  shows "inst \<theta> (inst \<chi> t) = inst \<theta> t"
proof -
  obtain rank where r: "ranked s rank" using assms(1) by (auto simp: subst_wf_def)
  have "inst \<theta> (\<chi> i) = \<theta> i" for i
  proof (induction "rank i" arbitrary: i rule: less_induct)
    case less
    show ?case
    proof (cases "bound_to s i")
      case None
      then have "\<chi> i = Ty_Var i" using assms(3) unfolding canonical_def by (metis option.simps(4))
      then show ?thesis by simp
    next
      case (Some t)
      then have "\<chi> i = inst \<chi> t" using assms(3) unfolding canonical_def by (metis option.simps(5))
      moreover have "inst (\<lambda>j. inst \<theta> (\<chi> j)) t = inst \<theta> t"
        using less r Some by (intro inst_cong) (auto simp: ranked_def)
      ultimately show ?thesis using assms(2) Some by (simp add: inst_inst solves_def)
    qed
  qed
  then show ?thesis by (simp add: inst_inst)
qed

lemma canonical_unbound:
  assumes "subst_wf s" "canonical \<chi> s" "i \<in> vars_of (inst \<chi> t)"
  shows "bound_to s i = None"
proof -
  obtain rank where r: "ranked s rank" using assms(1) by (auto simp: subst_wf_def)
  have "\<forall>i \<in> vars_of (\<chi> j). bound_to s i = None" for j
  proof (induction "rank j" arbitrary: j rule: less_induct)
    case less
    show ?case
    proof (cases "bound_to s j")
      case None
      then have "\<chi> j = Ty_Var j" using assms(2) unfolding canonical_def by (metis option.simps(4))
      then show ?thesis using None by simp
    next
      case (Some t)
      then have "\<chi> j = inst \<chi> t" using assms(2) unfolding canonical_def by (metis option.simps(5))
      then show ?thesis using less r Some by (auto simp: vars_inst ranked_def)
    qed
  qed
  then show ?thesis using assms(3) by (auto simp: vars_inst)
qed

section \<open>Chasing bindings\<close>

lemma shallow_returns:
  assumes "subst_wf s" "in_range s t"
  shows "\<exists>t'. shallow s t = Some (Some t') \<and> in_range s t'
    \<and> (\<forall>i. t' = Ty_Var i \<longrightarrow> bound_to s i = None) \<and> (\<forall>\<theta>. solves \<theta> s \<longrightarrow> inst \<theta> t' = inst \<theta> t)"
proof -
  obtain rank where r: "ranked s rank" using assms(1) by (auto simp: subst_wf_def)
  have var: "\<exists>t'. shallow s (Ty_Var i) = Some (Some t') \<and> in_range s t'
      \<and> (\<forall>i. t' = Ty_Var i \<longrightarrow> bound_to s i = None) \<and> (\<forall>\<theta>. solves \<theta> s \<longrightarrow> inst \<theta> t' = \<theta> i)"
    if "i < length s" for i
    using that
  proof (induction "rank i" arbitrary: i rule: less_induct)
    case less
    show ?case
    proof (cases "s ! i")
      case None
      then have "shallow s (Ty_Var i) = Some (Some (Ty_Var i))"
        using less.prems by (simp add: shallow.simps [of s "Ty_Var i"])
      then show ?thesis using None less.prems by (simp add: in_range_def bound_to_def)
    next
      case (Some u)
      then have b: "bound_to s i = Some u" using less.prems by (simp add: bound_to_def)
      have u: "in_range s u" using assms(1) b by (auto simp: subst_wf_def)
      have st: "shallow s (Ty_Var i) = shallow s u"
        using less.prems Some by (simp add: shallow.simps [of s "Ty_Var i"])
      have sol: "\<theta> i = inst \<theta> u" if "solves \<theta> s" for \<theta> using that b by (simp add: solves_def)
      show ?thesis
      proof (cases "\<exists>j. u = Ty_Var j")
        case True
        then obtain j where j: "u = Ty_Var j" by blast
        have "rank j < rank i" "j < length s" using r b u j by (auto simp: ranked_def in_range_def)
        then obtain t' where t': "shallow s u = Some (Some t')" "in_range s t'"
            "\<forall>k. t' = Ty_Var k \<longrightarrow> bound_to s k = None" "\<forall>\<theta>. solves \<theta> s \<longrightarrow> inst \<theta> t' = \<theta> j"
          using less.hyps [of j] j by auto
        have "inst \<theta> t' = \<theta> i" if "solves \<theta> s" for \<theta>
          using t'(4) sol [OF that] that j by simp
        then show ?thesis using t' st by auto
      next
        case False
        then have "shallow s u = Some (Some u)" by (subst shallow.simps) (simp split: ctype.split)
        then show ?thesis using st u False sol by auto
      qed
    qed
  qed
  show ?thesis
  proof (cases "\<exists>i. t = Ty_Var i")
    case True
    then show ?thesis using var assms(2) by (auto simp: in_range_def)
  next
    case False
    then have "shallow s t = Some (Some t)" by (subst shallow.simps) (simp split: ctype.split)
    then show ?thesis using assms(2) False by auto
  qed
qed

text \<open>\<open>occurs\<close> decides whether the variable is in the type the substitution stands for.\<close>

lemma occurs_returns:
  assumes "subst_wf s" "canonical \<chi> s" "in_range s t"
  shows "occurs s v t = Some (Some (v \<in> vars_of (inst \<chi> t)))"
  using assms(3)
proof (induction "size (inst \<chi> t)" arbitrary: t rule: less_induct)
  case less
  obtain t' where t': "shallow s t = Some (Some t')" "in_range s t'"
      "\<And>i. t' = Ty_Var i \<Longrightarrow> bound_to s i = None" "\<And>\<theta>. solves \<theta> s \<Longrightarrow> inst \<theta> t' = inst \<theta> t"
    using shallow_returns [OF assms(1) less.prems] by blast
  have \<chi>: "inst \<chi> t = inst \<chi> t'" using t'(4) canonical_solves [OF assms(2)] by simp
  show ?case
  proof (cases t')
    case (Ty_Var i)
    then have "\<chi> i = Ty_Var i" using t'(3) assms(2) unfolding canonical_def by (metis option.simps(4))
    then show ?thesis using Ty_Var t'(1) \<chi> by (subst occurs.simps) auto
  next
    case (Ty_Fun a r)
    then have "occurs s v a = Some (Some (v \<in> vars_of (inst \<chi> a)))"
        "occurs s v r = Some (Some (v \<in> vars_of (inst \<chi> r)))"
      using less.hyps [of a] less.hyps [of r] t'(2) \<chi> by (auto simp: in_range_def)
    then show ?thesis using Ty_Fun t'(1) \<chi> by (subst occurs.simps) auto
  qed (use t'(1) \<chi> in \<open>subst occurs.simps, simp\<close>)+
qed

section \<open>Binding a variable\<close>

lemma bound_to_update:
  "i < length s \<Longrightarrow> bound_to (s[i := Some t]) j = (if j = i then Some t else bound_to s j)"
  by (auto simp: bound_to_def)

lemma solves_update:
  assumes "i < length s" "bound_to s i = None"
  shows "solves \<theta> (s[i := Some t]) \<longleftrightarrow> solves \<theta> s \<and> \<theta> i = inst \<theta> t"
  using assms by (auto simp: solves_def bound_to_update)

text \<open>
  A new binding of a variable that is not in the type keeps the substitution acyclic: the
  variables that lead to the new one are ranked above every variable of the type.
\<close>

lemma subst_wf_update:
  assumes "subst_wf s" "canonical \<chi> s" "i < length s" "bound_to s i = None"
    "in_range s t" "i \<notin> vars_of (inst \<chi> t)"
  shows "subst_wf (s[i := Some t])"
proof -
  obtain rank where r: "ranked s rank" using assms(1) by (auto simp: subst_wf_def)
  define m where "m = Suc (Max (insert 0 (rank ` vars_of t)))"
  have m: "rank k < m" if "k \<in> vars_of t" for k
    using that by (auto simp: m_def less_Suc_eq_le intro!: Max_ge)
  define rank' where "rank' j = (if i \<in> vars_of (\<chi> j) then rank j + m else rank j)" for j
  have "ranked (s[i := Some t]) rank'"
    unfolding ranked_def
  proof (intro allI impI ballI)
    fix j u k assume b: "bound_to (s[i := Some t]) j = Some u" and k: "k \<in> vars_of u"
    show "rank' k < rank' j"
    proof (cases "j = i")
      case True
      have "\<chi> i = Ty_Var i" using assms(2,4) unfolding canonical_def by (metis option.simps(4))
      moreover have "i \<notin> vars_of (\<chi> k)" "rank k < m"
        using b k True assms(3,6) m by (auto simp: bound_to_update vars_inst)
      ultimately show ?thesis using True by (simp add: rank'_def)
    next
      case False
      then have u: "bound_to s j = Some u" using b assms(3) by (simp add: bound_to_update)
      then have "\<chi> j = inst \<chi> u" using assms(2) unfolding canonical_def by (metis option.simps(5))
      then have "i \<in> vars_of (\<chi> k) \<Longrightarrow> i \<in> vars_of (\<chi> j)" using k by (auto simp: vars_inst)
      moreover have "rank k < rank j" using r u k by (auto simp: ranked_def)
      ultimately show ?thesis by (auto simp: rank'_def)
    qed
  qed
  moreover have "in_range (s[i := Some t]) u" if "bound_to (s[i := Some t]) j = Some u" for j u
    using that assms(1,3,5) by (auto simp: bound_to_update subst_wf_def in_range_def split: if_splits)
  ultimately show ?thesis by (auto simp: subst_wf_def)
qed

section \<open>Unification returns the most general unifier\<close>

definition unbound :: "subst \<Rightarrow> nat" where
  "unbound s = card {i. i < length s \<and> s ! i = None}"

text \<open>What the result of \<open>unify s a b\<close> promises.\<close>

definition unified_ok :: "subst \<Rightarrow> ctype \<Rightarrow> ctype \<Rightarrow> mismatch + subst \<Rightarrow> bool" where
  "unified_ok s a b z \<longleftrightarrow> (case z of
     Inr s' \<Rightarrow> subst_wf s' \<and> length s' = length s \<and> (s' = s \<or> unbound s' < unbound s)
       \<and> (\<forall>\<theta>. solves \<theta> s' \<longleftrightarrow> solves \<theta> s \<and> inst \<theta> a = inst \<theta> b)
   | Inl _ \<Rightarrow> \<forall>\<theta>. solves \<theta> s \<longrightarrow> inst \<theta> a \<noteq> inst \<theta> b)"

lemma unbound_update: "i < length s \<Longrightarrow> bound_to s i = None \<Longrightarrow> unbound (s[i := Some t]) < unbound s"
  unfolding unbound_def by (rule psubset_card_mono) (auto simp: bound_to_def nth_list_update split: if_splits)

lemma size_inst_strict: "i \<in> vars_of u \<Longrightarrow> u \<noteq> Ty_Var i \<Longrightarrow> size (\<theta> i) < size (inst \<theta> u)"
  by (cases u) (auto dest!: size_inst_var [of _ _ \<theta>] simp: less_Suc_eq_le le_add1 le_add2 intro: le_trans)

lemma unified_ok_sym: "unified_ok s a b z \<Longrightarrow> unified_ok s b a z"
  by (auto simp: unified_ok_def eq_commute split: sum.splits)

lemma unified_ok_inst:
  assumes "unified_ok s a' b' z"
    "\<And>\<theta>. solves \<theta> s \<Longrightarrow> inst \<theta> a' = inst \<theta> a" "\<And>\<theta>. solves \<theta> s \<Longrightarrow> inst \<theta> b' = inst \<theta> b"
  shows "unified_ok s a b z"
  using assms by (auto simp: unified_ok_def split: sum.splits)

lemma bind_var_returns:
  assumes "subst_wf s" "i < length s" "bound_to s i = None" "in_range s t"
    "t \<noteq> Ty_Var i" "\<And>j. t = Ty_Var j \<Longrightarrow> bound_to s j = None"
  shows "\<exists>z. bind_var s i t = Some (Some z) \<and> unified_ok s (Ty_Var i) t z"
proof -
  obtain \<chi> where \<chi>: "canonical \<chi> s" using canonical_exists [OF assms(1)] by blast
  note occ = occurs_returns [OF assms(1) \<chi> assms(4), of i]
  show ?thesis
  proof (cases "i \<in> vars_of (inst \<chi> t)")
    case False
    then have "unified_ok s (Ty_Var i) t (Inr (s[i := Some t]))"
      using assms subst_wf_update [OF assms(1) \<chi>] unbound_update
      by (auto simp: unified_ok_def solves_update)
    then show ?thesis using occ False by (simp add: bind_var_def)
  next
    case True
    have "inst \<chi> t \<noteq> Ty_Var i"
    proof
      assume v: "inst \<chi> t = Ty_Var i"
      then obtain j where j: "t = Ty_Var j" by (cases t) auto
      then have "\<chi> j = Ty_Var j" using assms(6) \<chi> unfolding canonical_def by (metis option.simps(4))
      then show False using v j assms(5) by simp
    qed
    then have "\<theta> i \<noteq> inst \<theta> t" if "solves \<theta> s" for \<theta>
      using size_inst_strict [OF True, of \<theta>] solves_canonical [OF assms(1) that \<chi>, of t] by auto
    then have "unified_ok s (Ty_Var i) t (Inl Infinite)" by (simp add: unified_ok_def)
    then show ?thesis using occ True by (simp add: bind_var_def)
  qed
qed

lemma size_inst_fun [simp]:
  "size (inst \<theta> a) < size (inst \<theta> (Ty_Fun a r))" "size (inst \<theta> r) < size (inst \<theta> (Ty_Fun a r))"
  by simp_all

lemma unify_fun:
  assumes "unify s a1 a2 = Some (Some z)" "unified_ok s a1 a2 z"
    "\<And>s'. z = Inr s' \<Longrightarrow> \<exists>w. unify s' r1 r2 = Some (Some w) \<and> unified_ok s' r1 r2 w"
    "shallow s a = Some (Some (Ty_Fun a1 r1))" "shallow s b = Some (Some (Ty_Fun a2 r2))"
  shows "\<exists>w. unify s a b = Some (Some w) \<and> unified_ok s (Ty_Fun a1 r1) (Ty_Fun a2 r2) w"
proof (cases z)
  case (Inl m)
  then have "unify s a b = Some (Some (Inl m))" using assms(1,4,5) by (subst unify.simps) simp
  then show ?thesis using assms(2) Inl by (auto simp: unified_ok_def)
next
  case (Inr s')
  then obtain w where w: "unify s' r1 r2 = Some (Some w)" "unified_ok s' r1 r2 w" using assms(3) by blast
  have "unify s a b = Some (Some w)" using assms(1,4,5) Inr w(1) by (subst unify.simps) simp
  moreover have "unified_ok s (Ty_Fun a1 r1) (Ty_Fun a2 r2) w"
    using assms(2) w(2) Inr by (auto simp: unified_ok_def split: sum.splits)
  ultimately show ?thesis by blast
qed

lemma unify_returns:
  assumes "subst_wf s" "in_range s a" "in_range s b"
  shows "\<exists>z. unify s a b = Some (Some z) \<and> unified_ok s a b z"
  using assms
proof (induction "unbound s" arbitrary: s a b rule: less_induct)
  case outer: less
  obtain \<chi> where \<chi>: "canonical \<chi> s" using canonical_exists [OF outer.prems(1)] by blast
  show ?case
    using outer.prems(2,3)
  proof (induction "size (inst \<chi> a) + size (inst \<chi> b)" arbitrary: a b rule: less_induct)
    case inner: less
    note wf = outer.prems(1)
    obtain a' where a': "shallow s a = Some (Some a')" "in_range s a'"
        "\<And>i. a' = Ty_Var i \<Longrightarrow> bound_to s i = None" "\<And>\<theta>. solves \<theta> s \<Longrightarrow> inst \<theta> a' = inst \<theta> a"
      using shallow_returns [OF wf inner.prems(1)] by blast
    obtain b' where b': "shallow s b = Some (Some b')" "in_range s b'"
        "\<And>i. b' = Ty_Var i \<Longrightarrow> bound_to s i = None" "\<And>\<theta>. solves \<theta> s \<Longrightarrow> inst \<theta> b' = inst \<theta> b"
      using shallow_returns [OF wf inner.prems(2)] by blast
    have *: "\<exists>z. unify s a b = Some (Some z) \<and> unified_ok s a' b' z"
    proof (cases "\<exists>a1 r1 a2 r2. a' = Ty_Fun a1 r1 \<and> b' = Ty_Fun a2 r2")
      case True
      then obtain a1 r1 a2 r2 where f: "a' = Ty_Fun a1 r1" "b' = Ty_Fun a2 r2" by blast
      have sz: "inst \<chi> a = Ty_Fun (inst \<chi> a1) (inst \<chi> r1)" "inst \<chi> b = Ty_Fun (inst \<chi> a2) (inst \<chi> r2)"
        using a'(4) b'(4) canonical_solves [OF \<chi>] f by (metis inst.simps(2))+
      have ir: "in_range s a1" "in_range s r1" "in_range s a2" "in_range s r2"
        using a'(2) b'(2) f by (auto simp: in_range_def)
      obtain z where z: "unify s a1 a2 = Some (Some z)" "unified_ok s a1 a2 z"
        using inner.hyps [of a1 a2] sz ir by auto
      have "\<exists>w. unify s' r1 r2 = Some (Some w) \<and> unified_ok s' r1 r2 w" if s': "z = Inr s'" for s'
      proof (cases "s' = s")
        case True
        then show ?thesis using inner.hyps [of r1 r2] sz ir by auto
      next
        case False
        then have "unbound s' < unbound s" "subst_wf s'" "length s' = length s"
          using z(2) s' by (auto simp: unified_ok_def)
        then show ?thesis using outer.hyps [of s' r1 r2] ir by (auto simp: in_range_def)
      qed
      then show ?thesis using unify_fun [OF z] a'(1) b'(1) f by simp
    next
      case nofun: False
      show ?thesis
      proof (cases "\<exists>i. a' = Ty_Var i")
        case True
        then obtain i where i: "a' = Ty_Var i" by blast
        then have ub: "i < length s" "bound_to s i = None" using a' by (auto simp: in_range_def)
        show ?thesis
        proof (cases "b' = Ty_Var i")
          case True
          then have "unify s a b = Some (Some (Inr s))" using a'(1) b'(1) i by (subst unify.simps) simp
          then show ?thesis using True i wf by (auto simp: unified_ok_def)
        next
          case False
          then have "unify s a b = bind_var s i b'" using a'(1) b'(1) i by (subst unify.simps) simp
          then show ?thesis using bind_var_returns [OF wf ub b'(2) False b'(3)] i by simp
        qed
      next
        case nova: False
        show ?thesis
        proof (cases "\<exists>i. b' = Ty_Var i")
          case True
          then obtain i where i: "b' = Ty_Var i" by blast
          then have ub: "i < length s" "bound_to s i = None" using b' by (auto simp: in_range_def)
          have "unify s a b = bind_var s i a'"
            using a'(1) b'(1) i nova by (subst unify.simps) (auto split: ctype.split)
          then show ?thesis
            using bind_var_returns [OF wf ub a'(2) _ a'(3)] i nova unified_ok_sym by auto
        next
          case False
          have "unify s a b = Some (Some (if a' = b' then Inr s else Inl (Types (hint a') (hint b'))))"
            using a'(1) b'(1) nova False nofun by (subst unify.simps) (auto split: ctype.split)
          moreover have "inst \<theta> a' = inst \<theta> b' \<Longrightarrow> a' = b'" for \<theta>
            using nova False nofun by (cases a'; cases b') auto
          ultimately show ?thesis using wf by (auto simp: unified_ok_def)
        qed
      qed
    qed
    then show ?case using unified_ok_inst a'(4) b'(4) by blast
  qed
qed

text \<open>A list of variables none of which is bound, as \<open>fresh\<close> makes them.\<close>

lemma no_bindings:
  assumes "\<And>t. Some t \<notin> set s"
  shows "bound_to s i = None" "subst_wf s" "solves \<theta> s"
proof -
  show b: "bound_to s i = None" for i
    using assms by (cases "s ! i") (auto simp: bound_to_def dest: nth_mem)
  show "subst_wf s" "solves \<theta> s" by (simp_all add: b subst_wf_def ranked_def solves_def)
qed

section \<open>Properties\<close>

text \<open>C6: unification is complete and keeps the substitution: on an acyclic substitution and types
  whose variables it knows, \<open>unify\<close> returns (no endless chase of bindings, no index out of
  range). If it succeeds, the new substitution is acyclic again, has the same variables, and its
  solutions are exactly the old solutions that make the two types equal; if it reports a clash or
  an infinite type, no solution makes them equal.\<close>

theorem unify_most_general:
  assumes "subst_wf s" "in_range s a" "in_range s b"
  shows "(\<exists>s'. unify s a b = Some (Some (Inr s')) \<and> subst_wf s' \<and> length s' = length s
       \<and> (\<forall>\<theta>. solves \<theta> s' \<longleftrightarrow> solves \<theta> s \<and> inst \<theta> a = inst \<theta> b))
     \<or> (\<exists>m. unify s a b = Some (Some (Inl m)) \<and> \<not> (\<exists>\<theta>. solves \<theta> s \<and> inst \<theta> a = inst \<theta> b))"
proof -
  obtain z where "unify s a b = Some (Some z)" "unified_ok s a b z"
    using unify_returns [OF assms] by blast
  then show ?thesis by (cases z) (auto simp: unified_ok_def)
qed

theorem unify_most_general_witness:
  "\<exists>s'. unify [None, None] (Ty_Fun (Ty_Var 0) Ty_Num) (Ty_Fun Ty_Bool (Ty_Var 1)) = Some (Some (Inr s'))
     \<and> subst_wf s'"
proof -
  let ?\<theta> = "\<lambda>i. if i = 0 then Ty_Bool else Ty_Num"
  have "subst_wf [None, None]" "solves ?\<theta> [None, None]"
    using no_bindings [of "[None, None]"] by auto
  then show ?thesis
    using unify_most_general [of "[None, None]" "Ty_Fun (Ty_Var 0) Ty_Num" "Ty_Fun Ty_Bool (Ty_Var 1)"]
    by (auto simp: in_range_def dest!: spec [of _ ?\<theta>])
qed

end
