(* ===== verification/Check.thy ===== *)
theory Check
  imports Unify Builtins
begin

text \<open>
  The static checker: \<open>officium-core/src/check.rs\<close> over the unification of \<open>Unify\<close>.

  A step of the checker takes the checker's state and ends with an error (or the panic) or with
  a value and the new state. Inference follows overloads at their \<open>resolve\<close> site, so its recursion
  is not on the expression alone and need not end: \<open>infer\<close> is a partial function, and
  \<open>None\<close> is a call that never returns. The lexical scope \<open>gamma\<close> is kept newest binding first
  (the source pushes at the end and searches from the end); a step that fails leaves it unused.
\<close>

section \<open>Errors\<close>

text \<open>\<open>Clash\<close>: its first two constructors are those of \<open>mismatch\<close>.\<close>

datatype clash = Clash mismatch | Unbound sym | Illegal mode op_kind

fun op_name :: "op_kind \<Rightarrow> string" where
  "op_name Op_Nihil = ''Nihil''"
| "op_name Op_Clama = ''Clama''"
| "op_name Op_Recipe = ''Recipe''"
| "op_name Op_Lege = ''Lege''"
| "op_name Op_Pone = ''Pone''"
| "op_name Op_Mitte = ''Mitte''"
| "op_name Op_Perage = ''Perage''"
| "op_name Op_Lift = ''Lift''"

fun mode_name :: "mode \<Rightarrow> string" where
  "mode_name Dorian = ''Dorian''"
| "mode_name Hypodorian = ''Hypodorian''"
| "mode_name Phrygian = ''Phrygian''"
| "mode_name Hypophrygian = ''Hypophrygian''"
| "mode_name Lydian = ''Lydian''"
| "mode_name Hypolydian = ''Hypolydian''"
| "mode_name Mixolydian = ''Mixolydian''"
| "mode_name Hypomixolydian = ''Hypomixolydian''"

fun describe :: "clash \<Rightarrow> string" where
  "describe (Clash (Types want got)) = ''type clash: want '' @ want @ '', got '' @ got"
| "describe (Clash Infinite) = ''infinite type (the stretto swallows itself)''"
| "describe (Unbound n) = ''unbound name '' @ CHR 0x27 # n @ [CHR 0x27]"
| "describe (Illegal m opk) = ''op '' @ op_name opk @ '' is illegal in '' @ mode_name m"

section \<open>The checker\<close>

record pred =
  pred_ty :: ctype
  pred_allowed :: "string list"
  pred_want :: string

record checker =
  chk_subst :: subst
  chk_preds :: "pred list"
  chk_arg :: ctype
  chk_state :: ctype
  chk_throw :: ctype
  chk_result :: ctype

type_synonym gamma = "(sym \<times> ctype) list"
type_synonym ('e, 'a) step = "('e, 'a \<times> checker) result option"

definition go :: "'a \<Rightarrow> checker \<Rightarrow> ('e, 'a) step" where
  "go a c = Some (Inr (a, c))"

definition refuse :: "'e \<Rightarrow> ('e, 'a) step" where
  "refuse e = Some (Inl (Raise e))"

text \<open>The \<open>?\<close> operator, and a loop whose body may fail.\<close>

definition then_c :: "('e, 'a) step \<Rightarrow> ('a \<Rightarrow> checker \<Rightarrow> ('e, 'b) step) \<Rightarrow> ('e, 'b) step" where
  "then_c r f = Option.bind r (\<lambda>x. case x of Inl e \<Rightarrow> Some (Inl e) | Inr (a, c) \<Rightarrow> f a c)"

primrec each_c :: "('x \<Rightarrow> checker \<Rightarrow> ('e, unit) step) \<Rightarrow> 'x list \<Rightarrow> checker \<Rightarrow> ('e, unit) step" where
  "each_c f [] c = go () c"
| "each_c f (x # xs) c = then_c (f x c) (\<lambda>_ c. each_c f xs c)"

lemma then_c_simps [simp]:
  "then_c (go a c) f = f a c" "then_c (Some (Inl e)) f = Some (Inl e)" "then_c None f = None"
  "then_c (refuse x) f = refuse x"
  by (simp_all add: then_c_def go_def refuse_def)

lemma then_c_go: "then_c r f = Some (Inr z) \<longleftrightarrow> (\<exists>a c. r = go a c \<and> f a c = Some (Inr z))"
  by (cases r) (auto simp: then_c_def go_def split: sum.splits)

lemma then_c_mono [partial_function_mono]:
  assumes "mono_option F" "\<And>a c. mono_option (\<lambda>f. G f a c)"
  shows "mono_option (\<lambda>f. then_c (F f) (\<lambda>a c. G f a c))"
  unfolding then_c_def
proof (intro bind_mono assms)
  fix y :: "'c exn + 'd \<times> checker"
  show "mono_option (\<lambda>f. case y of Inl e \<Rightarrow> Some (Inl e) | Inr (a, c) \<Rightarrow> G f a c)"
    using assms(2) by (cases y) (auto intro: option.const_mono)
qed

lemma each_c_mono [partial_function_mono]:
  assumes "\<And>x c. mono_option (\<lambda>f. B f x c)"
  shows "mono_option (\<lambda>f. each_c (\<lambda>x c. B f x c) xs c)"
  by (induction xs arbitrary: c) (simp_all add: option.const_mono then_c_mono assms)

definition fresh :: "checker \<Rightarrow> ctype \<times> checker" where
  "fresh c = (Ty_Var (length (chk_subst c)), c\<lparr>chk_subst := chk_subst c @ [None]\<rparr>)"

definition new_var :: "checker \<Rightarrow> ('e, ctype) step" where
  "new_var c = (let (a, c) = fresh c in go a c)"

definition checker_new :: checker where
  "checker_new =
     (let c = \<lparr>chk_subst = [], chk_preds = [], chk_arg = Ty_Unit, chk_state = Ty_Unit,
               chk_throw = Ty_Unit, chk_result = Ty_Unit\<rparr>;
          (a, c) = fresh c; c = c\<lparr>chk_arg := a\<rparr>;
          (s, c) = fresh c; c = c\<lparr>chk_state := s\<rparr>;
          (t, c) = fresh c; c = c\<lparr>chk_throw := t\<rparr>;
          (r, c) = fresh c
      in c\<lparr>chk_result := r\<rparr>)"

definition unify_c :: "ctype \<Rightarrow> ctype \<Rightarrow> checker \<Rightarrow> (clash, unit) step" where
  "unify_c a b c =
     Option.bind (unify (chk_subst c) a b) (\<lambda>z. Some (case z of
        None \<Rightarrow> Inl Panicked
      | Some (Inl m) \<Rightarrow> Inl (Raise (Clash m))
      | Some (Inr s) \<Rightarrow> Inr ((), c\<lparr>chk_subst := s\<rparr>)))"

definition check_mode :: "mode \<Rightarrow> op_kind \<Rightarrow> checker \<Rightarrow> (clash, unit) step" where
  "check_mode m opk c = (if allows m opk then go () c else refuse (Illegal m opk))"

definition is_var :: "ctype \<Rightarrow> bool" where
  "is_var t = (case t of Ty_Var _ \<Rightarrow> True | _ \<Rightarrow> False)"

definition check_pred :: "pred \<Rightarrow> checker \<Rightarrow> (clash, unit) step" where
  "check_pred p c =
     Option.bind (shallow (chk_subst c) (pred_ty p)) (\<lambda>x. case x of
        None \<Rightarrow> Some (Inl Panicked)
      | Some t \<Rightarrow>
          (if is_var t then go () c
           else if hint t \<notin> set (pred_allowed p) then refuse (Clash (Types (pred_want p) (hint t)))
           else go () c))"

definition check_preds :: "checker \<Rightarrow> (clash, unit) step" where
  "check_preds c = each_c check_pred (chk_preds c) c"

definition push_pred :: "ctype \<Rightarrow> string list \<Rightarrow> string \<Rightarrow> checker \<Rightarrow> checker" where
  "push_pred t allowed want c =
     c\<lparr>chk_preds := chk_preds c @ [\<lparr>pred_ty = t, pred_allowed = allowed, pred_want = want\<rparr>]\<rparr>"

section \<open>Names\<close>

fun type_of_value :: "val \<Rightarrow> ctype" where
  "type_of_value VUnit = Ty_Unit"
| "type_of_value (VNum _) = Ty_Num"
| "type_of_value (VBool _) = Ty_Bool"
| "type_of_value (VGenus _) = Ty_Genus"
| "type_of_value (VStr _) = Ty_Str"
| "type_of_value (VCmd _) = Ty_Cmd"
| "type_of_value (VPlan _) = Ty_Plan"
| "type_of_value (VField _) = Ty_Field"
| "type_of_value (VRecord _) = Ty_Corpus"
| "type_of_value (VClosure _ _ _) = Ty_Unit"
| "type_of_value (VBuiltin _ _) = Ty_Unit"

primrec pedal_in :: "fugue list \<Rightarrow> sym \<Rightarrow> ctype option" where
  "pedal_in [] name = None"
| "pedal_in (f # fs) name =
     (case find (\<lambda>(n, _). n = name) (fug_pedals f) of
        Some (_, v) \<Rightarrow> Some (type_of_value v)
      | None \<Rightarrow> pedal_in fs name)"

definition pedal :: "program \<Rightarrow> sym \<Rightarrow> ctype option" where
  "pedal P name = pedal_in (prog_fugues P) name"

definition builtin :: "sym \<Rightarrow> checker \<Rightarrow> ctype option \<times> checker" where
  "builtin name c =
     (if name \<in> set [''add'', ''sub'', ''mul'', ''div''] then (Some (fun2 Ty_Num Ty_Num Ty_Num), c)
      else if name \<in> set [''le'', ''lt''] then (Some (fun2 Ty_Num Ty_Num Ty_Bool), c)
      else if name = ''eq'' then (let (a, c) = fresh c in (Some (fun2 a a Ty_Bool), c))
      else if name = ''not'' then (Some (Ty_Fun Ty_Bool Ty_Bool), c)
      else if name \<in> set [''dist'', ''mass'', ''outgassing''] then (Some (Ty_Fun Ty_Corpus Ty_Num), c)
      else if name = ''genus'' then (Some (Ty_Fun Ty_Corpus Ty_Genus), c)
      else if name = ''safe'' then (Some (fun2 Ty_Corpus Ty_Num Ty_Bool), c)
      else if name = ''solve'' then
        (let (a, c) = fresh c in (Some (fun2 (Ty_Fun a Ty_Num) a Ty_Num), c))
      else if name = ''deflect'' then (Some (Ty_Fun Ty_Num Ty_Field), c)
      else if name \<in> set [''target'', ''dv_of'', ''at''] then (Some (Ty_Fun Ty_Field Ty_Num), c)
      else if name = ''cmd'' then (Some (fun2 Ty_Num Ty_Num (Ty_Fun Ty_Num Ty_Cmd)), c)
      else if name = ''plan_of'' then (Some (Ty_Fun Ty_Field Ty_Plan), c)
      else if name = ''corpus'' then
        (let (g, c) = fresh c
         in (Some (fun2 Ty_Num g (fun2 Ty_Num Ty_Num Ty_Corpus)),
             push_pred g [''genus'', ''str''] ''genus'' c))
      else (None, c))"

definition lookup :: "program \<Rightarrow> gamma \<Rightarrow> sym \<Rightarrow> checker \<Rightarrow> (clash, ctype) step" where
  "lookup P g name c =
     (case find (\<lambda>(n, _). n = name) g of
        Some (_, t) \<Rightarrow> go t c
      | None \<Rightarrow>
          (case builtin name c of
             (Some t, c) \<Rightarrow> go t c
           | (None, c) \<Rightarrow>
               (case pedal P name of Some t \<Rightarrow> go t c | None \<Rightarrow> refuse (Unbound name))))"

section \<open>Inference\<close>

text \<open>\<open>infer_stmt\<close>, over the inference it calls: the type sung on the line, the type bound.\<close>

definition infer_stmt ::
  "(expr \<Rightarrow> checker \<Rightarrow> (clash, ctype) step) \<Rightarrow> mode \<Rightarrow> expr \<Rightarrow> checker
   \<Rightarrow> (clash, ctype \<times> ctype) step" where
  "infer_stmt rec md m c = (case m of
     EPone e \<Rightarrow>
       then_c (check_mode md Op_Pone c) (\<lambda>_ c.
       then_c (rec e c) (\<lambda>te c.
       then_c (unify_c te (chk_state c) c) (\<lambda>_ c. go (te, Ty_Unit) c)))
   | EMitte e \<Rightarrow>
       then_c (check_mode md Op_Mitte c) (\<lambda>_ c.
       then_c (rec e c) (\<lambda>te c. go (te, Ty_Unit) (push_pred te [''cmd'', ''plan''] ''cmd'' c)))
   | other \<Rightarrow> then_c (rec other c) (\<lambda>t c. go (t, t) c))"

lemma infer_stmt_mono [partial_function_mono]:
  assumes "\<And>e c. mono_option (\<lambda>f. rec f e c)"
  shows "mono_option (\<lambda>f. infer_stmt (\<lambda>e c. rec f e c) md m c)"
  unfolding infer_stmt_def
  by (cases m) (simp_all, (intro then_c_mono option.const_mono assms)+)

text \<open>Every answer a \<open>resolve\<close> can find, real before tonal, in the order of the fugues.\<close>

definition answers :: "program \<Rightarrow> ((sym \<times> genus) \<times> expr) list" where
  "answers P = concat (map (\<lambda>f. fug_real f @ fug_tonal f) (prog_fugues P))"

text \<open>The arms of \<open>infer\<close>, over the recursive calls they make, and the knot.\<close>

definition infer_arm ::
  "(mode \<Rightarrow> checker \<Rightarrow> gamma \<Rightarrow> expr \<Rightarrow> (clash, ctype) step)
   \<Rightarrow> program \<Rightarrow> mode \<Rightarrow> checker \<Rightarrow> gamma \<Rightarrow> expr \<Rightarrow> (clash, ctype) step" where
  "infer_arm rec P md c g e = (case e of
     ELit v \<Rightarrow> go (type_of_value v) c
   | EVar name \<Rightarrow> lookup P g name c
   | ELam x body \<Rightarrow>
       then_c (new_var c) (\<lambda>a c.
       then_c (rec md c ((x, a) # g) body) (\<lambda>r c. go (Ty_Fun a r) c))
   | EApp f a \<Rightarrow>
       then_c (rec md c g f) (\<lambda>tf c.
       then_c (rec md c g a) (\<lambda>ta c.
       then_c (new_var c) (\<lambda>r c.
       then_c (unify_c tf (Ty_Fun ta r) c) (\<lambda>_ c. go r c))))
   | EIf b t e2 \<Rightarrow>
       then_c (rec md c g b) (\<lambda>tc c.
       then_c (unify_c tc Ty_Bool c) (\<lambda>_ c.
       then_c (rec md c g t) (\<lambda>tt c.
       then_c (rec md c g e2) (\<lambda>te c.
       then_c (unify_c tt te c) (\<lambda>_ c. go tt c)))))
   | EFix f \<Rightarrow>
       then_c (rec md c g f) (\<lambda>tf c.
       then_c (new_var c) (\<lambda>a c.
       then_c (unify_c tf (Ty_Fun a a) c) (\<lambda>_ c. go a c)))
   | EPure _ e2 \<Rightarrow> rec md c g e2
   | ELift e2 \<Rightarrow>
       then_c (check_mode md Op_Lift c) (\<lambda>_ c. rec (from_final (final_of md) False) c g e2)
   | EReturn _ e2 \<Rightarrow>
       then_c (rec md c g e2) (\<lambda>t c.
       then_c (unify_c t (chk_result c) c) (\<lambda>_ c. new_var c))
   | EBind _ m x k \<Rightarrow>
       then_c (infer_stmt (\<lambda>e c. rec md c g e) md m c) (\<lambda>lb c.
         rec md c ((x, snd lb) # g) k)
   | EArg \<Rightarrow> go (chk_arg c) c
   | EAsk name \<Rightarrow> (case pedal P name of Some t \<Rightarrow> go t c | None \<Rightarrow> refuse (Unbound name))
   | EResolve name genus_expr \<Rightarrow>
       then_c (rec md c g genus_expr) (\<lambda>tg c.
       then_c (unify_c tg Ty_Genus c) (\<lambda>_ c.
       then_c (new_var c) (\<lambda>r c.
       then_c (each_c (\<lambda>answer c.
             if fst (fst answer) = name then
               then_c (rec md c g (snd answer)) (\<lambda>t c. unify_c t r c)
             else go () c) (answers P) c) (\<lambda>_ c. go r c))))
   | ENihil \<Rightarrow> then_c (check_mode md Op_Nihil c) (\<lambda>_ c. new_var c)
   | EClama e2 \<Rightarrow>
       then_c (check_mode md Op_Clama c) (\<lambda>_ c.
       then_c (rec md c g e2) (\<lambda>t c.
       then_c (unify_c t (chk_throw c) c) (\<lambda>_ c. new_var c)))
   | ERecipe body x handler \<Rightarrow>
       then_c (check_mode md Op_Recipe c) (\<lambda>_ c.
       then_c (rec md c g body) (\<lambda>tb c.
       then_c (rec md c ((x, chk_throw c) # g) handler) (\<lambda>th c.
       then_c (unify_c tb th c) (\<lambda>_ c. go tb c))))
   | ELege \<Rightarrow> then_c (check_mode md Op_Lege c) (\<lambda>_ c. go (chk_state c) c)
   | EPone e2 \<Rightarrow>
       then_c (check_mode md Op_Pone c) (\<lambda>_ c.
       then_c (rec md c g e2) (\<lambda>t c.
       then_c (unify_c t (chk_state c) c) (\<lambda>_ c. go Ty_Unit c)))
   | EMitte e2 \<Rightarrow>
       then_c (check_mode md Op_Mitte c) (\<lambda>_ c.
       then_c (rec md c g e2) (\<lambda>t c.
         go Ty_Unit (push_pred t [''cmd'', ''plan''] ''cmd'' c)))
   | EPerage e2 \<Rightarrow>
       then_c (check_mode md Op_Perage c) (\<lambda>_ c.
       then_c (rec md c g e2) (\<lambda>t c.
       then_c (unify_c t Ty_Plan c) (\<lambda>_ c.
       then_c (unify_c Ty_Unit (chk_result c) c) (\<lambda>_ c. new_var c)))))"

lemma infer_arm_mono [partial_function_mono]:
  assumes "\<And>md c g e. mono_option (\<lambda>f. rec f md c g e)"
  shows "mono_option (\<lambda>f. infer_arm (\<lambda>md c g e. rec f md c g e) P md c g e)"
  unfolding infer_arm_def
  by (cases e) (simp_all, (intro then_c_mono each_c_mono infer_stmt_mono if_mono option.const_mono assms)+)

partial_function (option) infer :: "program \<Rightarrow> mode \<Rightarrow> checker \<Rightarrow> gamma \<Rightarrow> expr \<Rightarrow> (clash, ctype) step" where
  "infer P md c g e = infer_arm (\<lambda>md c g e. infer P md c g e) P md c g e"

section \<open>Verses\<close>

definition map_err :: "('e \<Rightarrow> 'f) \<Rightarrow> 'e exn + 'a \<Rightarrow> 'f exn + 'a" where
  "map_err f r = (case r of
     Inl (Raise e) \<Rightarrow> Inl (Raise (f e))
   | Inl Panicked \<Rightarrow> Inl Panicked
   | Inr a \<Rightarrow> Inr a)"

definition map_err_c :: "('e \<Rightarrow> 'f) \<Rightarrow> ('e, 'a) step \<Rightarrow> ('f, 'a) step" where
  "map_err_c f r = map_option (map_err f) r"

text \<open>The walk along the top-level binds of a sung verse, the types of its lines so far in \<open>ls\<close>.\<close>

fun spine :: "program \<Rightarrow> mode \<Rightarrow> gamma \<Rightarrow> ctype list \<Rightarrow> expr \<Rightarrow> checker \<Rightarrow> (clash, ctype list) step" where
  "spine P md g ls (EBind b m x k) c =
     then_c (infer_stmt (\<lambda>e c. infer P md c g e) md m c) (\<lambda>lb c.
       spine P md ((x, snd lb) # g) (ls @ [fst lb]) k c)"
| "spine P md g ls terminal c = then_c (infer P md c g terminal) (\<lambda>_ c. go ls c)"

definition sung_lines :: "nat \<Rightarrow> ctype list \<Rightarrow> ctype \<Rightarrow> ctype list" where
  "sung_lines n ls result =
     map (\<lambda>k. if 7 \<le> k \<or> length ls < k then result else ls ! (k - 1)) [1..<n + 1]"

definition rhyme_clash :: "nat \<Rightarrow> nat \<Rightarrow> char \<Rightarrow> clash \<Rightarrow> string" where
  "rhyme_clash i j label e =
     ''lines '' @ show_nat (i + 1) @ '' and '' @ show_nat (j + 1) @ '' rhyme on '' @ [CHR 0x27, label, CHR 0x27]
     @ '' but do not unify '' @ [CHR 0xE2, CHR 0x80, CHR 0x94] @ '' '' @ describe e"

definition rhyme_lines :: "(char \<times> string) list \<Rightarrow> ctype list \<Rightarrow> checker \<Rightarrow> (string, unit) step" where
  "rhyme_lines rhymes sung c =
     each_c (\<lambda>i c.
       each_c (\<lambda>j c.
         if fst (rhymes ! i) \<noteq> fst (rhymes ! j) then go () c
         else map_err_c (rhyme_clash i j (fst (rhymes ! i))) (unify_c (sung ! i) (sung ! j) c))
         [i + 1..<length rhymes] c)
       [0..<length rhymes] c"

definition check_lines :: "program \<Rightarrow> versus \<Rightarrow> checker \<Rightarrow> (string, unit) step" where
  "check_lines P v c =
     (if ver_rhymes v = [] then
        then_c (map_err_c describe (infer P (ver_mode v) c [] (ver_body v))) (\<lambda>_ c. go () c)
      else
        then_c (map_err_c describe (spine P (ver_mode v) [] [] (ver_body v) c)) (\<lambda>ls c.
          rhyme_lines (ver_rhymes v) (sung_lines (length (ver_rhymes v)) ls (chk_result c)) c))"

definition check_versus :: "program \<Rightarrow> versus \<Rightarrow> ('k dissonance, unit) result option" where
  "check_versus P v =
     map_option (\<lambda>r. and_then (map_err (D_Discors (ver_name v)) r) (\<lambda>_. Inr ()))
       (then_c (check_lines P v checker_new) (\<lambda>_ c. map_err_c describe (check_preds c)))"

primrec check_verses :: "program \<Rightarrow> versus list \<Rightarrow> ('k dissonance, unit) result option" where
  "check_verses P [] = Some (Inr ())"
| "check_verses P (v # vs) =
     Option.bind (check_versus P v) (\<lambda>r. case r of
       Inl e \<Rightarrow> Some (Inl e)
     | Inr _ \<Rightarrow> check_verses P vs)"

definition check_program :: "program \<Rightarrow> ('k dissonance, unit) result option" where
  "check_program P = check_verses P (prog_verses P)"

end
