(* ===== verification/Principal.thy ===== *)
theory Principal
  imports Typing
begin

text \<open>
  Inference finds every typing: if the rules of \<open>Typing\<close> give an expression a type under a solution of the
  checker's substitution, \<open>infer\<close> returns, without an error, a type that stands for it under a
  solution that agrees with the old one on the old variables. With soundness: a verse passes the
  checker exactly when it has a typing.
\<close>

section \<open>Later checkers\<close>

definition fine :: "(nat \<Rightarrow> ctype) \<Rightarrow> checker \<Rightarrow> bool" where
  "fine \<theta> c \<longleftrightarrow> chk_wf c \<and> models \<theta> c"

definition later :: "(nat \<Rightarrow> ctype) \<Rightarrow> checker \<Rightarrow> (nat \<Rightarrow> ctype) \<Rightarrow> checker \<Rightarrow> bool" where
  "later \<theta> c \<theta>' c' \<longleftrightarrow>
     fine \<theta> c \<and> grows c c' \<and> models \<theta>' c' \<and> (\<forall>i < length (chk_subst c). \<theta>' i = \<theta> i)"

definition denotes :: "(nat \<Rightarrow> ctype) \<Rightarrow> checker \<Rightarrow> ctype \<Rightarrow> ctype \<Rightarrow> bool" where
  "denotes \<theta> c t u \<longleftrightarrow> knows c t \<and> inst \<theta> t = u"

definition ready :: "verse_types \<Rightarrow> gamma \<Rightarrow> (nat \<Rightarrow> ctype) \<Rightarrow> checker \<Rightarrow> gamma \<Rightarrow> bool" where
  "ready V G \<theta> c g \<longleftrightarrow> fine \<theta> c \<and> knows_all c g \<and> voices_of \<theta> c = V \<and> inst_all \<theta> g = G"

lemma later_refl: "fine \<theta> c \<Longrightarrow> later \<theta> c \<theta> c"
  by (simp add: later_def fine_def grows_refl)

lemma later_fine: "later \<theta> c \<theta>' c' \<Longrightarrow> fine \<theta>' c'"
  by (auto simp: later_def fine_def dest: grows_wf)

lemma later_trans: "later \<theta> c \<theta>' c' \<Longrightarrow> later \<theta>' c' \<theta>'' c'' \<Longrightarrow> later \<theta> c \<theta>'' c''"
  by (auto simp: later_def intro: grows_trans) (simp add: grows_def)

lemma later_inst: "later \<theta> c \<theta>' c' \<Longrightarrow> knows c t \<Longrightarrow> inst \<theta>' t = inst \<theta> t"
  by (auto simp: later_def knows_def in_range_def intro: inst_cong)

lemma denotes_later: "denotes \<theta> c t u \<Longrightarrow> later \<theta> c \<theta>' c' \<Longrightarrow> denotes \<theta>' c' t u"
  by (auto simp: denotes_def later_inst later_def grows_knows)

lemma ready_later: "ready V G \<theta> c g \<Longrightarrow> later \<theta> c \<theta>' c' \<Longrightarrow> ready V G \<theta>' c' g"
proof -
  assume r: "ready V G \<theta> c g" and l: "later \<theta> c \<theta>' c'"
  have "voices_of \<theta>' c' = voices_of \<theta> c"
    using r l by (auto simp: later_def fine_def ready_def voices_of_def wf_knows grows_def later_inst [OF l])
  moreover have "inst_all \<theta>' g = inst_all \<theta> g"
    using r by (fastforce simp: inst_all_def ready_def knows_all_def later_inst [OF l])
  ultimately show ?thesis using r l by (auto simp: ready_def later_fine later_def grows_knows_all)
qed

lemma ready_fine: "ready V G \<theta> c g \<Longrightarrow> fine \<theta> c"
  by (simp add: ready_def)

lemma ready_Cons: "ready V G \<theta> c g \<Longrightarrow> denotes \<theta> c t u \<Longrightarrow> ready V ((x, u) # G) \<theta> c ((x, t) # g)"
  by (auto simp: ready_def denotes_def)

lemma ready_voices:
  "ready V G \<theta> c g \<Longrightarrow> denotes \<theta> c (chk_arg c) (vt_arg V)"
  "ready V G \<theta> c g \<Longrightarrow> denotes \<theta> c (chk_state c) (vt_state V)"
  "ready V G \<theta> c g \<Longrightarrow> denotes \<theta> c (chk_throw c) (vt_throw V)"
  "ready V G \<theta> c g \<Longrightarrow> denotes \<theta> c (chk_result c) (vt_result V)"
  by (auto simp: ready_def denotes_def fine_def wf_knows)

lemma denotes_closed: "vars_of t = {} \<Longrightarrow> denotes \<theta> c t t"
  by (simp add: denotes_def knows_closed inst_closed)

lemma denotes_Fun: "denotes \<theta> c a u \<Longrightarrow> denotes \<theta> c r w \<Longrightarrow> denotes \<theta> c (Ty_Fun a r) (Ty_Fun u w)"
  by (simp add: denotes_def)

section \<open>Steps that find\<close>

definition finds ::
  "(nat \<Rightarrow> ctype) \<Rightarrow> checker \<Rightarrow> ('e, 'a) step \<Rightarrow> ('a \<Rightarrow> checker \<Rightarrow> (nat \<Rightarrow> ctype) \<Rightarrow> bool) \<Rightarrow> bool" where
  "finds \<theta> c r Q \<longleftrightarrow> (\<exists>a c' \<theta>'. r = go a c' \<and> later \<theta> c \<theta>' c' \<and> Q a c' \<theta>')"

lemma finds_go: "fine \<theta> c \<Longrightarrow> Q a c \<theta> \<Longrightarrow> finds \<theta> c (go a c) Q"
  unfolding finds_def using later_refl by blast

lemma finds_at: "later \<theta> c \<theta>' c' \<Longrightarrow> Q a c' \<theta>' \<Longrightarrow> finds \<theta> c (go a c') Q"
  unfolding finds_def by blast

lemma finds_then:
  "finds \<theta> c r Q \<Longrightarrow> (\<And>a c' \<theta>'. later \<theta> c \<theta>' c' \<Longrightarrow> Q a c' \<theta>' \<Longrightarrow> finds \<theta>' c' (f a c') R)
   \<Longrightarrow> finds \<theta> c (then_c r f) R"
  unfolding finds_def by (metis later_trans then_c_simps(1))

lemma finds_conseq:
  "finds \<theta> c r Q \<Longrightarrow> (\<And>a c' \<theta>'. later \<theta> c \<theta>' c' \<Longrightarrow> Q a c' \<theta>' \<Longrightarrow> R a c' \<theta>') \<Longrightarrow> finds \<theta> c r R"
  unfolding finds_def by metis

lemma finds_each:
  assumes "fine \<theta> c"
    "\<And>x \<theta>' c'. x \<in> set xs \<Longrightarrow> later \<theta> c \<theta>' c' \<Longrightarrow> finds \<theta>' c' (f x c') (\<lambda>_ _ _. True)"
  shows "finds \<theta> c (each_c f xs c) (\<lambda>_ _ _. True)"
  using assms
proof (induction xs arbitrary: \<theta> c)
  case (Cons x xs)
  have "finds \<theta> c (f x c) (\<lambda>_ _ _. True)" using Cons.prems by (simp add: later_refl)
  then show ?case
    unfolding each_c.simps
    by (rule finds_then) (use Cons in \<open>blast intro: later_fine later_trans list.set_intros\<close>)
qed (simp add: finds_go)

lemma later_fresh:
  assumes "fine \<theta> c"
  shows "\<exists>\<theta>'. later \<theta> c \<theta>' (snd (fresh c)) \<and> denotes \<theta>' (snd (fresh c)) (fst (fresh c)) u"
proof -
  let ?n = "length (chk_subst c)"
  let ?t = "\<theta>(?n := u)"
  have k: "inst ?t t = inst \<theta> t" if "in_range (chk_subst c) t" for t
    using that by (auto simp: in_range_def intro!: inst_cong)
  have wf: "chk_wf c" "models \<theta> c" using assms by (auto simp: fine_def)
  have "solves ?t (chk_subst c @ [None])"
    using wf k unfolding solves_def bound_to_append chk_wf_def subst_wf_def models_def
    by (auto simp: bound_to_def)
  moreover have "fits (pred_allowed p) (inst ?t (pred_ty p))" if "p \<in> set (chk_preds c)" for p
    using wf k that by (auto simp: models_def chk_wf_def knows_def)
  ultimately have "later \<theta> c ?t (snd (fresh c))"
    using assms fresh_grows [OF wf(1)] by (auto simp: later_def fresh_eq models_def)
  then show ?thesis using knows_fresh [of c] by (auto simp: denotes_def fresh_eq intro!: exI [of _ ?t])
qed

lemma finds_new_var: "fine \<theta> c \<Longrightarrow> finds \<theta> c (new_var c) (\<lambda>t c' \<theta>'. denotes \<theta>' c' t u)"
  using later_fresh [of \<theta> c u] by (auto simp: finds_def new_var_def split_beta)

lemma finds_unify:
  assumes "fine \<theta> c" "denotes \<theta> c a u" "denotes \<theta> c b u"
  shows "finds \<theta> c (unify_c a b c) (\<lambda>_ _ _. True)"
proof -
  have k: "in_range (chk_subst c) a" "in_range (chk_subst c) b" "subst_wf (chk_subst c)" "models \<theta> c" "chk_wf c"
    using assms by (auto simp: fine_def denotes_def knows_def chk_wf_def)
  obtain z where z: "unify (chk_subst c) a b = Some (Some z)" "unified_ok (chk_subst c) a b z"
    using unify_returns [OF k(3,1,2)] by blast
  have eq: "solves \<theta> (chk_subst c) \<and> inst \<theta> a = inst \<theta> b" using assms k(4) by (simp add: denotes_def models_def)
  then obtain s where s: "z = Inr s" using z(2) by (cases z) (auto simp: unified_ok_def)
  then have u: "unify_c a b c = go () (c\<lparr>chk_subst := s\<rparr>)" using z(1) by (simp add: unify_c_def go_def)
  have "grows c (c\<lparr>chk_subst := s\<rparr>)"
    using sound_unify [OF k(5)] assms u by (auto simp: sound_def denotes_def)
  moreover have "models \<theta> (c\<lparr>chk_subst := s\<rparr>)"
    using z(2) s eq k(4) by (auto simp: unified_ok_def models_def)
  ultimately show ?thesis using u assms(1) by (auto simp: finds_def later_def)
qed

lemma finds_mode: "fine \<theta> c \<Longrightarrow> allows md opk \<Longrightarrow> finds \<theta> c (check_mode md opk c) (\<lambda>_ _ _. True)"
  by (simp add: check_mode_def finds_go)

lemma later_push: "fine \<theta> c \<Longrightarrow> denotes \<theta> c t u \<Longrightarrow> fits al u \<Longrightarrow> later \<theta> c \<theta> (push_pred t al w c)"
  by (auto simp: later_def fine_def denotes_def push_pred_grows)

lemma finds_push:
  "fine \<theta> c \<Longrightarrow> denotes \<theta> c t u \<Longrightarrow> fits al u \<Longrightarrow> Q a (push_pred t al w c) \<theta>
   \<Longrightarrow> finds \<theta> c (go a (push_pred t al w c)) Q"
  unfolding finds_def using later_push by blast

section \<open>Inference is complete\<close>

definition complete ::
  "program \<Rightarrow> verse_types \<Rightarrow> mode \<Rightarrow> gamma \<Rightarrow> expr \<Rightarrow> ctype \<Rightarrow> bool" where
  "complete P V md G e u \<longleftrightarrow>
     (\<forall>\<theta> c g. ready V G \<theta> c g \<longrightarrow> finds \<theta> c (infer P md c g e) (\<lambda>t c' \<theta>'. denotes \<theta>' c' t u))"

definition stmt_complete ::
  "program \<Rightarrow> verse_types \<Rightarrow> mode \<Rightarrow> gamma \<Rightarrow> expr \<Rightarrow> ctype \<Rightarrow> ctype \<Rightarrow> bool" where
  "stmt_complete P V md G m line bound \<longleftrightarrow>
     (\<forall>\<theta> c g. ready V G \<theta> c g \<longrightarrow> finds \<theta> c (infer_stmt (\<lambda>e c. infer P md c g e) md m c)
        (\<lambda>lb c' \<theta>'. denotes \<theta>' c' (fst lb) line \<and> denotes \<theta>' c' (snd lb) bound))"

lemma completeD:
  "complete P V md G e u \<Longrightarrow> ready V G \<theta> c g
   \<Longrightarrow> finds \<theta> c (infer P md c g e) (\<lambda>t c' \<theta>'. denotes \<theta>' c' t u)"
  by (simp add: complete_def)

lemma completeI:
  "(\<And>\<theta> c g. ready V G \<theta> c g
     \<Longrightarrow> finds \<theta> c (infer_arm (\<lambda>md c g e. infer P md c g e) P md c g e) (\<lambda>t c' \<theta>'. denotes \<theta>' c' t u))
   \<Longrightarrow> complete P V md G e u"
  unfolding complete_def by (subst infer.simps) simp

lemma finds_lookup_local:
  assumes "ready V G \<theta> c g" "map_of G name = Some u"
  shows "finds \<theta> c (lookup P g name c) (\<lambda>t c' \<theta>'. denotes \<theta>' c' t u)"
proof -
  obtain t where "map_of g name = Some t" "inst \<theta> t = u" "knows c t"
    using assms knows_all_map_of [of c g name] by (auto simp: ready_def map_of_inst_all)
  then show ?thesis using assms(1) by (auto simp: lookup_def find_pair denotes_def ready_fine intro: finds_go)
qed

lemma ready_None: "ready V G \<theta> c g \<Longrightarrow> map_of G name = None \<Longrightarrow> map_of g name = None"
  by (auto simp: ready_def map_of_inst_all)

lemma finds_lookup_builtin:
  assumes "ready V G \<theta> c g" "map_of G name = None" "builtin_type name u"
  shows "finds \<theta> c (lookup P g name c) (\<lambda>t c' \<theta>'. denotes \<theta>' c' t u)"
proof -
  obtain a where a: "scheme name a = Some u" "name = ''corpus'' \<Longrightarrow> fits [''genus'', ''str''] a"
    using assms(3) by (auto simp: builtin_type_def)
  obtain \<theta>' where \<theta>': "later \<theta> c \<theta>' (snd (fresh c))" "denotes \<theta>' (snd (fresh c)) (fst (fresh c)) a"
    using later_fresh [OF ready_fine [OF assms(1)]] by blast
  have u: "inst \<theta>' t = u" if "scheme name (fst (fresh c)) = Some t" for t
    using scheme_inst [of \<theta>' name "fst (fresh c)"] that \<theta>'(2) a(1) by (simp add: denotes_def)
  have k: "knows (snd (fresh c)) t" if "vars_of t = vars_of (fst (fresh c))" for t
    using knows_fresh [of c] that by (simp add: knows_def in_range_def)
  note lk = lookup_def find_pair ready_None [OF assms(1,2)]
  show ?thesis
  proof (cases rule: builtin_cases [of name c])
    case none
    then show ?thesis using a(1) scheme_None [of name a Ty_Unit] by simp
  next
    case (simple t)
    then show ?thesis
      using a(1) by (auto simp: lk denotes_closed ready_fine [OF assms(1)] intro!: finds_go)
  next
    case (generic t)
    then show ?thesis using \<theta>'(1) u k by (auto simp: lk denotes_def intro!: finds_at)
  next
    case (corpus t)
    then have "later \<theta> c \<theta>' (push_pred (fst (fresh c)) [''genus'', ''str''] ''genus'' (snd (fresh c)))"
      using later_push [OF later_fine [OF \<theta>'(1)] \<theta>'(2)] a(2) \<theta>'(1) later_trans by blast
    moreover have "denotes \<theta>' (snd (fresh c)) t u" using corpus(2,3) u k by (simp add: denotes_def)
    ultimately show ?thesis by (auto simp: lk corpus(4) denotes_def intro!: finds_at)
  qed
qed

lemma finds_lookup_pedal:
  assumes "ready V G \<theta> c g" "map_of G name = None" "scheme name Ty_Unit = None" "pedal P name = Some u"
  shows "finds \<theta> c (lookup P g name c) (\<lambda>t c' \<theta>'. denotes \<theta>' c' t u)"
proof -
  have "builtin name c = (None, c)"
    using assms(3) scheme_None [of name "fst (fresh c)" Ty_Unit] by (cases rule: builtin_cases [of name c]) auto
  then show ?thesis
    using assms ready_None [OF assms(1,2)] pedal_closed [OF assms(4)]
    by (auto simp: lookup_def find_pair denotes_closed ready_fine intro!: finds_go)
qed

lemma finds_last_var: "ready V G \<theta> c g \<Longrightarrow> finds \<theta> c (new_var c) (\<lambda>t c' \<theta>'. denotes \<theta>' c' t u)"
  by (rule finds_new_var [OF ready_fine])

lemma closed_types:
  "denotes \<theta> c Ty_Num Ty_Num" "denotes \<theta> c Ty_Bool Ty_Bool" "denotes \<theta> c Ty_Unit Ty_Unit"
  "denotes \<theta> c Ty_Genus Ty_Genus" "denotes \<theta> c Ty_Plan Ty_Plan"
  by (simp_all add: denotes_closed)

lemmas found = ready_later ready_fine ready_Cons ready_voices denotes_later closed_types denotes_Fun later_fine

lemma stmt_completeD:
  "stmt_complete P V md G m line bound \<Longrightarrow> ready V G \<theta> c g
   \<Longrightarrow> finds \<theta> c (infer_stmt (\<lambda>e c. infer P md c g e) md m c)
        (\<lambda>lb c' \<theta>'. denotes \<theta>' c' (fst lb) line \<and> denotes \<theta>' c' (snd lb) bound)"
  by (simp add: stmt_complete_def)

lemma stmt_completeI:
  "(\<And>\<theta> c g. ready V G \<theta> c g \<Longrightarrow> finds \<theta> c (infer_stmt (\<lambda>e c. infer P md c g e) md m c)
      (\<lambda>lb c' \<theta>'. denotes \<theta>' c' (fst lb) line \<and> denotes \<theta>' c' (snd lb) bound))
   \<Longrightarrow> stmt_complete P V md G m line bound"
  by (simp add: stmt_complete_def)

lemma complete_answers:
  assumes "\<And>n g overload. ((n, g), overload) \<in> set (answers P) \<Longrightarrow> n = name \<Longrightarrow> complete P V md G overload u"
    "ready V G \<theta> c g" "denotes \<theta> c r u"
  shows "finds \<theta> c (each_c (\<lambda>answer c.
      if fst (fst answer) = name then
        then_c (infer P md c g (snd answer)) (\<lambda>t c. unify_c t r c)
      else go () c) (answers P) c) (\<lambda>_ _ _. True)"
proof (rule finds_each [OF ready_fine [OF assms(2)]])
  fix x \<theta>' c' assume x: "x \<in> set (answers P)" and l: "later \<theta> c \<theta>' c'"
  show "finds \<theta>' c' (if fst (fst x) = name then
      then_c (infer P md c' g (snd x)) (\<lambda>t c. unify_c t r c) else go () c') (\<lambda>_ _ _. True)"
  proof (cases "fst (fst x) = name")
    case True
    then have "complete P V md G (snd x) u" using x assms(1) [of name "snd (fst x)" "snd x"] by (metis prod.collapse)
    then have "finds \<theta>' c' (then_c (infer P md c' g (snd x)) (\<lambda>t c. unify_c t r c)) (\<lambda>_ _ _. True)"
      by (intro finds_then [OF completeD] finds_unify; (assumption | use assms l in \<open>blast intro: found\<close>))
    then show ?thesis using True by simp
  qed (use l in \<open>simp add: finds_go later_fine\<close>)
qed

lemma typed_complete:
  shows "typed P V md G e u \<Longrightarrow> complete P V md G e u"
    and "sings P V md G m line bound \<Longrightarrow> stmt_complete P V md G m line bound"
proof (induction rule: typed_sings.inducts)
  case (T_Lit md G v)
  show ?case
    by (rule completeI) (auto simp: infer_arm_def denotes_closed ready_fine intro!: finds_go)
next
  case (T_Local G name t md)
  then show ?case by (intro completeI) (simp add: infer_arm_def finds_lookup_local)
next
  case (T_Builtin G name t md)
  then show ?case by (intro completeI) (simp add: infer_arm_def finds_lookup_builtin)
next
  case (T_Pedal G name t md)
  then show ?case by (intro completeI) (simp add: infer_arm_def finds_lookup_pedal)
next
  case (T_Lam md x a G body r)
  show ?case
    by (rule completeI, unfold infer_arm_def expr.case,
        intro finds_then [OF finds_new_var [where u = a]] finds_then [OF completeD [OF T_Lam(2)]] finds_go;
        use T_Lam in \<open>blast intro: found\<close>)
next
  case (T_App md G f a r e)
  show ?case
    by (rule completeI, unfold infer_arm_def expr.case,
        intro finds_then [OF completeD [OF T_App(2)]] finds_then [OF completeD [OF T_App(4)]] finds_then [OF finds_new_var [where u = r]] finds_then [OF finds_unify] finds_go;
        use T_App in \<open>blast intro: found\<close>)
next
  case (T_If md G b e1 t e2)
  show ?case
    by (rule completeI, unfold infer_arm_def expr.case,
        intro finds_then [OF completeD [OF T_If(2)]] finds_then [OF finds_unify] finds_then [OF completeD [OF T_If(4)]] finds_then [OF completeD [OF T_If(6)]] finds_then [OF finds_unify] finds_go;
        use T_If in \<open>blast intro: found\<close>)
next
  case (T_Fix md G f a)
  show ?case
    by (rule completeI, unfold infer_arm_def expr.case,
        intro finds_then [OF completeD [OF T_Fix(2)]] finds_then [OF finds_new_var [where u = a]] finds_then [OF finds_unify] finds_go;
        use T_Fix in \<open>blast intro: found\<close>)
next
  case (T_Pure md G e t m2)
  show ?case
    by (rule completeI, unfold infer_arm_def expr.case,
        intro completeD [OF T_Pure(2)];
        use T_Pure in \<open>blast intro: found\<close>)
next
  case (T_Lift md G e t)
  show ?case
    by (rule completeI, unfold infer_arm_def expr.case,
        intro finds_then [OF finds_mode] completeD [OF T_Lift(3)];
        use T_Lift in \<open>blast intro: found\<close>)
next
  case (T_Return md G e m2 t)
  show ?case
    by (rule completeI, unfold infer_arm_def expr.case,
        intro finds_then [OF completeD [OF T_Return(2)]] finds_then [OF finds_unify] finds_new_var;
        use T_Return in \<open>blast intro: found\<close>)
next
  case (T_Bind md G m line bound x k t m2)
  show ?case
    by (rule completeI, unfold infer_arm_def expr.case,
        intro finds_then [OF stmt_completeD [OF T_Bind(2)]] completeD [OF T_Bind(4)];
        use T_Bind in \<open>blast intro: found\<close>)
next
  case (T_Arg md G)
  show ?case
    by (rule completeI, unfold infer_arm_def expr.case,
        intro finds_go;
        use T_Arg in \<open>blast intro: found\<close>)
next
  case (T_Resolve md G e name t)
  show ?case
    by (rule completeI, unfold infer_arm_def expr.case,
        intro finds_then [OF completeD [OF T_Resolve(2)]] finds_then [OF finds_unify] finds_then [OF finds_new_var [where u = t]] finds_then [OF complete_answers [OF T_Resolve(4)]] finds_go;
        (blast intro: found)?)
next
  case (T_Nihil md G t)
  show ?case
    by (rule completeI, unfold infer_arm_def expr.case,
        intro finds_then [OF finds_mode] finds_new_var;
        use T_Nihil in \<open>blast intro: found\<close>)
next
  case (T_Clama md G e t)
  show ?case
    by (rule completeI, unfold infer_arm_def expr.case,
        intro finds_then [OF finds_mode] finds_then [OF completeD [OF T_Clama(3)]] finds_then [OF finds_unify] finds_new_var;
        use T_Clama in \<open>blast intro: found\<close>)
next
  case (T_Recipe md G body t x handler)
  show ?case
    by (rule completeI, unfold infer_arm_def expr.case,
        intro finds_then [OF finds_mode] finds_then [OF completeD [OF T_Recipe(3)]] finds_then [OF completeD [OF T_Recipe(5)]] finds_then [OF finds_unify] finds_go;
        use T_Recipe in \<open>blast intro: found\<close>)
next
  case (T_Lege md G)
  show ?case
    by (rule completeI, unfold infer_arm_def expr.case,
        intro finds_then [OF finds_mode] finds_go;
        use T_Lege in \<open>blast intro: found\<close>)
next
  case (T_Pone md G e)
  show ?case
    by (rule completeI, unfold infer_arm_def expr.case,
        intro finds_then [OF finds_mode] finds_then [OF completeD [OF T_Pone(3)]] finds_then [OF finds_unify] finds_go;
        use T_Pone in \<open>blast intro: found\<close>)
next
  case (T_Mitte md G e t)
  show ?case
    by (rule completeI, unfold infer_arm_def expr.case,
        intro finds_then [OF finds_mode] finds_then [OF completeD [OF T_Mitte.IH(2)]] finds_push;
        use T_Mitte in \<open>blast intro: found\<close>)
next
  case (T_Perage md G e t)
  have r: "denotes \<theta> c (chk_result c) Ty_Unit" if "ready V G \<theta> c g" for \<theta> c g
    using ready_voices(4) [OF that] T_Perage by simp
  show ?case
    by (rule completeI, unfold infer_arm_def expr.case,
        intro finds_then [OF finds_mode] finds_then [OF completeD [OF T_Perage.IH(2)]] finds_then [OF finds_unify] finds_new_var;
        (rule T_Perage.hyps | blast intro: found r)?)
next
  case (T_Ask name t md G)
  then show ?case
    using pedal_closed [of P name t]
    by (intro completeI) (auto simp: infer_arm_def denotes_closed ready_fine intro!: finds_go)
next
  case (S_Pone md G e)
  show ?case
    by (rule stmt_completeI, unfold infer_stmt_def expr.case,
        intro finds_then [OF finds_mode] finds_then [OF completeD [OF S_Pone(3)]] finds_then [OF finds_unify] finds_go conjI,
        unfold fst_conv snd_conv; (rule S_Pone.hyps | use S_Pone in \<open>blast intro: found\<close>))
next
  case (S_Mitte md G e t)
  show ?case
    by (rule stmt_completeI, unfold infer_stmt_def expr.case,
        intro finds_then [OF finds_mode] finds_then [OF completeD [OF S_Mitte.IH(2)]] finds_push conjI,
        unfold fst_conv snd_conv; (use S_Mitte in \<open>blast intro: found later_push\<close>)?)
next
  case (S_Other md G e t)
  have "finds \<theta> c (then_c (infer P md c g e) (\<lambda>t c. go (t, t) c))
      (\<lambda>lb c' \<theta>'. denotes \<theta>' c' (fst lb) t \<and> denotes \<theta>' c' (snd lb) t)" if "ready V G \<theta> c g" for \<theta> c g
    by (intro finds_then [OF completeD [OF S_Other(2)]] finds_go conjI, unfold fst_conv snd_conv; use that in \<open>blast intro: found\<close>)
  then show ?case
    using S_Other(3) unfolding stmt_complete_def infer_stmt_def by (cases e) simp_all
qed

end
