(* ===== verification/Checked.thy ===== *)
theory Checked
  imports Principal
begin

text \<open>
  The checker of a verse: \<open>check_versus\<close> passes exactly the well sung verses, those with a
  typing under which their rhyming lines have one type; it never panics, and its only error is a
  \<open>Discors\<close> that names the verse.
\<close>

section \<open>Well sung verses\<close>

inductive spined :: "program \<Rightarrow> verse_types \<Rightarrow> mode \<Rightarrow> gamma \<Rightarrow> expr \<Rightarrow> ctype list \<Rightarrow> bool" for P V md where
  Sp_Bind: "sings P V md G m line bound \<Longrightarrow> spined P V md ((x, bound) # G) k lines
    \<Longrightarrow> spined P V md G (EBind b m x k) (line # lines)"
| Sp_End: "typed P V md G e t \<Longrightarrow> \<not> (\<exists>b m x k. e = EBind b m x k) \<Longrightarrow> spined P V md G e []"

definition rhymed :: "(char \<times> string) list \<Rightarrow> ctype list \<Rightarrow> bool" where
  "rhymed rhymes tys \<longleftrightarrow>
     (\<forall>i j. i < j \<longrightarrow> j < length rhymes \<longrightarrow> fst (rhymes ! i) = fst (rhymes ! j) \<longrightarrow> tys ! i = tys ! j)"

definition well_sung :: "program \<Rightarrow> versus \<Rightarrow> bool" where
  "well_sung P v \<longleftrightarrow> (\<exists>V.
     if ver_rhymes v = [] then \<exists>t. typed P V (ver_mode v) [] (ver_body v) t
     else \<exists>lines. spined P V (ver_mode v) [] (ver_body v) lines
       \<and> rhymed (ver_rhymes v) (sung_lines (length (ver_rhymes v)) lines (vt_result V)))"

section \<open>The spine\<close>

lemma spine_end:
  "\<not> (\<exists>b m x k. e = EBind b m x k) \<Longrightarrow> spine P md g ls e c = then_c (infer P md c g e) (\<lambda>_ c. go ls c)"
  by (cases e) auto

definition spine_has :: "program \<Rightarrow> mode \<Rightarrow> gamma \<Rightarrow> expr \<Rightarrow> ctype list \<Rightarrow> checker \<Rightarrow> bool" where
  "spine_has P md g e lines c \<longleftrightarrow> (\<forall>t \<in> set lines. knows c t)
     \<and> (\<forall>\<theta>. models \<theta> c \<longrightarrow> spined P (voices_of \<theta> c) md (inst_all \<theta> g) e (map (inst \<theta>) lines))"

lemma infer_stmt_sound:
  "chk_wf c \<Longrightarrow> knows_all c g
   \<Longrightarrow> sound c (infer_stmt (\<lambda>e c. infer P md c g e) md m c) (sung P md g m)"
  by (rule stmt_sound [OF infer_sound])

lemma spine_has_Bind:
  "sung P md g m lb c \<Longrightarrow> spine_has P md ((x, snd lb) # g) k lines c
   \<Longrightarrow> spine_has P md g (EBind b m x k) (fst lb # lines) c"
  unfolding spine_has_def sung_def by (auto intro: Sp_Bind)

lemma spine_has_End:
  "has P md g e t c \<Longrightarrow> \<not> (\<exists>b m x k. e = EBind b m x k) \<Longrightarrow> spine_has P md g e [] c"
  unfolding spine_has_def has_def by (auto intro: Sp_End)

lemma spine_sound:
  assumes "chk_wf c" "knows_all c g"
  shows "sound c (spine P md g ls e c) (\<lambda>ls' c'. \<exists>lines. ls' = ls @ lines \<and> spine_has P md g e lines c')"
  using assms
proof (induction e arbitrary: g ls c rule: measure_induct_rule [where f = size])
  case (less e)
  show ?case
  proof (cases "\<exists>b m x k. e = EBind b m x k")
    case True
    then obtain b m x k where e: "e = EBind b m x k" by blast
    have "sound c' (spine P md ((x, snd lb) # g) (ls @ [fst lb]) k c')
        (\<lambda>ls' c'. \<exists>lines. ls' = ls @ lines \<and> spine_has P md g e lines c')"
      if "grows c c'" "sung P md g m lb c'" for lb c'
    proof (rule sound_conseq [OF less.IH])
      show "size k < size e" using e by simp
      show "chk_wf c'" "knows_all c' ((x, snd lb) # g)"
        using that less.prems by (auto intro: grows_wf grows_knows_all sung_knows)
      show "\<exists>lines. ls' = ls @ lines \<and> spine_has P md g e lines c''"
        if "grows c' c''" "\<exists>lines. ls' = (ls @ [fst lb]) @ lines \<and> spine_has P md ((x, snd lb) # g) k lines c''"
        for ls' c''
        using that \<open>sung P md g m lb c'\<close> sung_mono spine_has_Bind unfolding e
        by (metis append.assoc append_Cons append_Nil)
    qed
    then show ?thesis
      unfolding e spine.simps by (intro sound_then [OF infer_stmt_sound] less.prems) (simp add: e)
  next
    case False
    then show ?thesis
      unfolding spine_end [OF False]
      by (intro sound_then [OF infer_sound] sound_go less.prems) (auto intro: grows_wf spine_has_End)
  qed
qed

lemma spine_complete:
  assumes "spined P V md G e lines" "ready V G \<theta> c g"
  shows "finds \<theta> c (spine P md g ls e c)
     (\<lambda>ls' c' \<theta>'. \<exists>ts. ls' = ls @ ts \<and> list_all2 (denotes \<theta>' c') ts lines)"
  using assms
proof (induction arbitrary: \<theta> c g ls rule: spined.induct)
  case (Sp_Bind G m line bound x k lines b)
  have "finds \<theta>' c' (spine P md ((x, snd lb) # g) (ls @ [fst lb]) k c')
      (\<lambda>ls' c' \<theta>'. \<exists>ts. ls' = ls @ ts \<and> list_all2 (denotes \<theta>' c') ts (line # lines))"
    if l: "later \<theta> c \<theta>' c'" and d: "denotes \<theta>' c' (fst lb) line \<and> denotes \<theta>' c' (snd lb) bound" for lb \<theta>' c'
  proof (rule finds_conseq [OF Sp_Bind.IH])
    show "ready V ((x, bound) # G) \<theta>' c' ((x, snd lb) # g)"
      using l d Sp_Bind.prems by (blast intro: found)
    show "\<exists>ts. ls' = ls @ ts \<and> list_all2 (denotes \<theta>'' c'') ts (line # lines)"
      if l2: "later \<theta>' c' \<theta>'' c''" and ts: "\<exists>ts. ls' = (ls @ [fst lb]) @ ts \<and> list_all2 (denotes \<theta>'' c'') ts lines"
      for ls' c'' \<theta>''
    proof -
      obtain ts where "ls' = ls @ (fst lb # ts)" "list_all2 (denotes \<theta>'' c'') (fst lb # ts) (line # lines)"
        using ts d denotes_later [OF _ l2] by auto
      then show ?thesis by blast
    qed
  qed
  then show ?case
    unfolding spine.simps
    by (intro finds_then [OF stmt_completeD [OF typed_complete(2) [OF Sp_Bind.hyps(1)] Sp_Bind.prems]])
next
  case (Sp_End G e t)
  show ?case
    unfolding spine_end [OF Sp_End.hyps(2)]
    by (intro finds_then [OF completeD [OF typed_complete(1) [OF Sp_End.hyps(1)] Sp_End.prems]] finds_go)
      (auto intro: later_fine)
qed

section \<open>Rhymes\<close>

lemma map_err_c_go [simp]: "map_err_c f (go a c) = go a c"
  by (simp add: map_err_c_def map_err_def go_def)

lemma map_err_c_go_iff: "map_err_c f r = go a c \<longleftrightarrow> r = go a c"
proof (cases r)
  case (Some y)
  then show ?thesis
  proof (cases y)
    case (Inl e)
    then show ?thesis using Some by (cases e) (auto simp: map_err_c_def map_err_def go_def)
  qed (auto simp: Some map_err_c_def map_err_def go_def)
qed (simp add: map_err_c_def go_def)

lemma map_err_c_panic: "map_err_c f r = Some (Inl Panicked) \<longleftrightarrow> r = Some (Inl Panicked)"
proof (cases r)
  case (Some y)
  then show ?thesis
  proof (cases y)
    case (Inl e)
    then show ?thesis using Some by (cases e) (auto simp: map_err_c_def map_err_def)
  qed (auto simp: Some map_err_c_def map_err_def)
qed (simp add: map_err_c_def)

lemma sound_map_err: "sound c r Q \<Longrightarrow> sound c (map_err_c f r) Q"
  unfolding sound_def map_err_c_go_iff map_err_c_panic .

lemma finds_map_err: "finds \<theta> c r Q \<Longrightarrow> finds \<theta> c (map_err_c f r) Q"
  unfolding finds_def map_err_c_go_iff .

definition equal_rhymes :: "(char \<times> string) list \<Rightarrow> ctype list \<Rightarrow> checker \<Rightarrow> nat \<Rightarrow> nat \<Rightarrow> bool" where
  "equal_rhymes rhymes tys c i j \<longleftrightarrow>
     fst (rhymes ! i) = fst (rhymes ! j) \<longrightarrow> equal_in c (tys ! i) (tys ! j)"

lemma rhyme_lines_sound:
  assumes "chk_wf c" "length tys = length rhymes" "\<forall>t \<in> set tys. knows c t"
  shows "sound c (rhyme_lines rhymes tys c)
    (\<lambda>_ c'. \<forall>i \<in> {0..<length rhymes}. \<forall>j \<in> {i + 1..<length rhymes}. equal_rhymes rhymes tys c' i j)"
proof -
  let ?f = "\<lambda>i j c. if fst (rhymes ! i) \<noteq> fst (rhymes ! j) then go () c
     else map_err_c (rhyme_clash i j (fst (rhymes ! i))) (unify_c (tys ! i) (tys ! j) c)"
  have mono: "equal_rhymes rhymes tys c' i j \<Longrightarrow> grows c' c'' \<Longrightarrow> equal_rhymes rhymes tys c'' i j" for i j c' c''
    by (auto simp: equal_rhymes_def equal_in_mono)
  have one: "sound c' (?f i j c') (\<lambda>_ c''. equal_rhymes rhymes tys c'' i j)"
    if "grows c c'" "i < length rhymes" "j < length rhymes" for i j c'
  proof (cases "fst (rhymes ! i) = fst (rhymes ! j)")
    case True
    have "knows c' (tys ! i)" "knows c' (tys ! j)" using that assms by (auto intro: grows_knows)
    then show ?thesis
      using True sound_unify [OF grows_wf [OF that(1)]] by (auto simp: equal_rhymes_def intro!: sound_map_err)
  qed (use grows_wf [OF that(1)] in \<open>auto simp: equal_rhymes_def intro: sound_go\<close>)
  have row: "sound c' (each_c (?f i) [i + 1..<length rhymes] c')
      (\<lambda>_ c''. \<forall>j \<in> set [i + 1..<length rhymes]. equal_rhymes rhymes tys c'' i j)"
    if g: "grows c c'" and i: "i < length rhymes" for i c'
  proof (rule sound_each [where Q = "\<lambda>j c. equal_rhymes rhymes tys c i j"])
    show "chk_wf c'" using g by (rule grows_wf)
    show "sound c'' (?f i j c'') (\<lambda>_ c''. equal_rhymes rhymes tys c'' i j)"
      if "j \<in> set [i + 1..<length rhymes]" "grows c' c''" for j c''
      by (rule one [OF grows_trans [OF g that(2)] i]) (use that(1) in simp)
  qed (rule mono)
  have "sound c (each_c (\<lambda>i c. each_c (?f i) [i + 1..<length rhymes] c) [0..<length rhymes] c)
      (\<lambda>_ c'. \<forall>i \<in> set [0..<length rhymes]. \<forall>j \<in> set [i + 1..<length rhymes]. equal_rhymes rhymes tys c' i j)"
  proof (rule sound_each [where Q = "\<lambda>i c. \<forall>j \<in> set [i + 1..<length rhymes]. equal_rhymes rhymes tys c i j"])
    show "chk_wf c" by fact
    show "sound c' (each_c (?f i) [i + 1..<length rhymes] c')
        (\<lambda>_ c''. \<forall>j \<in> set [i + 1..<length rhymes]. equal_rhymes rhymes tys c'' i j)"
      if "i \<in> set [0..<length rhymes]" "grows c c'" for i c'
      by (rule row [OF that(2)]) (use that(1) in simp)
  qed (use mono in blast)
  then show ?thesis by (simp add: rhyme_lines_def)
qed

lemma rhyme_lines_complete:
  assumes "fine \<theta> c" "list_all2 (denotes \<theta> c) tys us" "length tys = length rhymes" "rhymed rhymes us"
  shows "finds \<theta> c (rhyme_lines rhymes tys c) (\<lambda>_ _ _. True)"
  unfolding rhyme_lines_def
proof (intro finds_each assms(1))
  fix i \<theta>' c' assume i: "i \<in> set [0..<length rhymes]" and l: "later \<theta> c \<theta>' c'"
  show "fine \<theta>' c'" using l by (rule later_fine)
  fix j \<theta>'' c'' assume j: "j \<in> set [i + 1..<length rhymes]" and l2: "later \<theta>' c' \<theta>'' c''"
  note l3 = later_trans [OF l l2]
  show "finds \<theta>'' c'' (if fst (rhymes ! i) \<noteq> fst (rhymes ! j) then go () c''
      else map_err_c (rhyme_clash i j (fst (rhymes ! i))) (unify_c (tys ! i) (tys ! j) c'')) (\<lambda>_ _ _. True)"
  proof (cases "fst (rhymes ! i) = fst (rhymes ! j)")
    case True
    then have "us ! i = us ! j" using assms(4) i j by (auto simp: rhymed_def)
    then have "denotes \<theta>'' c'' (tys ! i) (us ! i)" "denotes \<theta>'' c'' (tys ! j) (us ! i)"
      using denotes_later [OF list_all2_nthD [OF assms(2)] l3, of i] denotes_later [OF list_all2_nthD [OF assms(2)] l3, of j] i j assms(3)
      by auto
    then show ?thesis using True finds_map_err [OF finds_unify [OF later_fine [OF l3]]] by simp
  qed (use later_fine [OF l3] in \<open>simp add: finds_go\<close>)
qed

section \<open>Deferred choices\<close>

lemma fits_instance:
  assumes "fits al (inst \<theta> u)"
  shows "is_var u \<or> hint u \<in> set al"
  using assms by (cases u) (auto simp: fits_def is_var_def)

text \<open>A choice is made at the end: it fits when some solution fits.\<close>

lemma check_pred_step:
  assumes "chk_wf c" "knows c (pred_ty p)"
  obtains t where "shallow (chk_subst c) (pred_ty p) = Some (Some t)"
    "\<And>\<theta>. solves \<theta> (chk_subst c) \<Longrightarrow> inst \<theta> t = inst \<theta> (pred_ty p)"
    "is_var t \<Longrightarrow> \<exists>i. t = Ty_Var i \<and> bound_to (chk_subst c) i = None"
    "check_pred p c = (if is_var t \<or> hint t \<in> set (pred_allowed p) then go () c
       else refuse (Clash (Types (pred_want p) (hint t))))"
proof -
  obtain t where t: "shallow (chk_subst c) (pred_ty p) = Some (Some t)"
      "\<And>i. t = Ty_Var i \<Longrightarrow> bound_to (chk_subst c) i = None"
      "\<And>\<theta>. solves \<theta> (chk_subst c) \<Longrightarrow> inst \<theta> t = inst \<theta> (pred_ty p)"
    using shallow_returns [of "chk_subst c" "pred_ty p"] assms by (auto simp: chk_wf_def knows_def)
  show thesis
    by (rule that [OF t(1,3)]) (use t(2) in \<open>auto simp: check_pred_def t(1) is_var_def split: ctype.splits\<close>)
qed

lemma each_go: "(\<And>x. x \<in> set xs \<Longrightarrow> f x c = go () c) \<Longrightarrow> each_c f xs c = go () c"
  by (induction xs) auto

lemma each_refuse:
  "(\<And>x. x \<in> set xs \<Longrightarrow> f x c = go () c \<or> (\<exists>e. f x c = refuse e)) \<Longrightarrow> x \<in> set xs \<Longrightarrow> f x c = refuse e
   \<Longrightarrow> \<exists>e. each_c f xs c = refuse e"
proof (induction xs)
  case (Cons y xs)
  then consider "f y c = go () c" "x \<in> set xs" | e where "f y c = refuse e" by force
  then show ?case by cases (use Cons in auto)
qed simp

lemma check_preds_iff:
  assumes "chk_wf c"
  shows "check_preds c = go () c \<and> (\<exists>\<theta>. models \<theta> c) \<or> (\<exists>e. check_preds c = refuse e) \<and> \<not> (\<exists>\<theta>. models \<theta> c)"
proof -
  obtain \<chi> where \<chi>: "canonical \<chi> (chk_subst c)"
    using canonical_exists assms by (auto simp: chk_wf_def)
  have kn: "knows c (pred_ty p)" if "p \<in> set (chk_preds c)" for p using assms that by (simp add: chk_wf_def)
  have step: "check_pred p c = go () c \<or> (\<exists>e. check_pred p c = refuse e)"
    if "p \<in> set (chk_preds c)" for p
    using check_pred_step [OF assms kn [OF that]] by metis
  show ?thesis
  proof (cases "\<forall>p \<in> set (chk_preds c). check_pred p c = go () c")
    case True
    have "fits (pred_allowed p) (inst \<chi> (pred_ty p))" if p: "p \<in> set (chk_preds c)" for p
    proof (rule check_pred_step [OF assms kn [OF p]])
      fix t assume t: "\<And>\<theta>. solves \<theta> (chk_subst c) \<Longrightarrow> inst \<theta> t = inst \<theta> (pred_ty p)"
        "is_var t \<Longrightarrow> \<exists>i. t = Ty_Var i \<and> bound_to (chk_subst c) i = None"
        "check_pred p c = (if is_var t \<or> hint t \<in> set (pred_allowed p) then go () c
           else refuse (Clash (Types (pred_want p) (hint t))))"
      have \<chi>t: "inst \<chi> t = inst \<chi> (pred_ty p)" using t(1) canonical_solves [OF \<chi>] by simp
      show ?thesis
      proof (cases "is_var t")
        case True
        then obtain i where "t = Ty_Var i" "bound_to (chk_subst c) i = None" using t(2) by blast
        then have "inst \<chi> t = Ty_Var i" using \<chi> unfolding canonical_def by (metis inst.simps(1) option.simps(4))
        then show ?thesis using \<chi>t by (simp add: fits_def is_var_def)
      next
        case False
        then have "hint t \<in> set (pred_allowed p)" using True p t(3) by (auto simp: go_def refuse_def split: if_splits)
        moreover have "hint (inst \<chi> t) = hint t" using False by (cases t) (auto simp: is_var_def)
        ultimately show ?thesis using \<chi>t by (simp add: fits_def)
      qed
    qed
    then have "models \<chi> c" using canonical_solves [OF \<chi>] by (simp add: models_def)
    moreover have "check_preds c = go () c" using True by (simp add: check_preds_def each_go)
    ultimately show ?thesis by blast
  next
    case False
    then obtain p where p: "p \<in> set (chk_preds c)" "check_pred p c \<noteq> go () c" by blast
    then obtain e where e: "check_pred p c = refuse e" using step by blast
    have "\<exists>e. check_preds c = refuse e"
      unfolding check_preds_def using each_refuse [of "chk_preds c" check_pred c p e] step p(1) e by blast
    moreover have "\<not> models \<theta> c" for \<theta>
    proof (rule check_pred_step [OF assms kn [OF p(1)]])
      fix t assume t: "\<And>\<theta>. solves \<theta> (chk_subst c) \<Longrightarrow> inst \<theta> t = inst \<theta> (pred_ty p)"
        "check_pred p c = (if is_var t \<or> hint t \<in> set (pred_allowed p) then go () c
           else refuse (Clash (Types (pred_want p) (hint t))))"
      have n: "\<not> (is_var t \<or> hint t \<in> set (pred_allowed p))" using t(2) p(2) by auto
      show "\<not> models \<theta> c"
      proof
        assume m: "models \<theta> c"
        then have "fits (pred_allowed p) (inst \<theta> t)" using t(1) p(1) by (auto simp: models_def)
        then show False using n fits_instance by blast
      qed
    qed
    ultimately show ?thesis by blast
  qed
qed

section \<open>A verse\<close>

lemma sung_lines_length [simp]: "length (sung_lines n ls r) = n"
  by (simp add: sung_lines_def)

lemma sung_lines_nth:
  "i < n \<Longrightarrow> sung_lines n ls r ! i = (if 6 \<le> i \<or> length ls \<le> i then r else ls ! i)"
  unfolding sung_lines_def by (auto simp del: upt_Suc)

lemma sung_lines_inst: "map (inst \<theta>) (sung_lines n ls r) = sung_lines n (map (inst \<theta>) ls) (inst \<theta> r)"
  by (rule nth_equalityI) (auto simp: sung_lines_nth)

lemma sung_lines_known:
  "(\<forall>t \<in> set ls. knows c t) \<Longrightarrow> knows c r \<Longrightarrow> \<forall>t \<in> set (sung_lines n ls r). knows c t"
  by (simp add: all_set_conv_all_nth sung_lines_nth)

lemma sung_lines_denote:
  "list_all2 (denotes \<theta> c) ts lines \<Longrightarrow> denotes \<theta> c r w
   \<Longrightarrow> list_all2 (denotes \<theta> c) (sung_lines n ts r) (sung_lines n lines w)"
  by (auto simp: list_all2_conv_all_nth sung_lines_nth)

lemma checker_new_eq:
  "checker_new = \<lparr>chk_subst = [None, None, None, None], chk_preds = [],
     chk_arg = Ty_Var 0, chk_state = Ty_Var 1, chk_throw = Ty_Var 2, chk_result = Ty_Var 3\<rparr>"
  by (simp add: checker_new_def fresh_def)

lemma checker_new_wf: "chk_wf checker_new"
  by (auto simp: checker_new_eq chk_wf_def knows_def in_range_def intro: no_bindings)

lemma ready_new: "\<exists>\<theta>. ready V [] \<theta> checker_new []"
proof -
  let ?\<theta> = "\<lambda>i. [vt_arg V, vt_state V, vt_throw V, vt_result V] ! i"
  have "solves ?\<theta> (chk_subst checker_new)" by (rule no_bindings) (auto simp: checker_new_eq)
  then have "ready V [] ?\<theta> checker_new []"
    using checker_new_wf
    by (simp add: ready_def fine_def models_def checker_new_eq knows_all_def voices_of_def inst_all_def)
  then show ?thesis by blast
qed

lemma check_lines_sound:
  "sound checker_new (check_lines P v checker_new) (\<lambda>_ c. \<forall>\<theta>. models \<theta> c \<longrightarrow> well_sung P v)"
proof (cases "ver_rhymes v = []")
  case True
  have k: "knows_all checker_new []" by (simp add: knows_all_def)
  show ?thesis
    unfolding check_lines_def if_P [OF True]
    by (intro sound_then [OF sound_map_err [OF infer_sound [OF checker_new_wf k]]] sound_go)
      (auto simp: True well_sung_def has_def inst_all_def intro: grows_wf)
next
  case False
  let ?n = "length (ver_rhymes v)"
  have k: "knows_all checker_new []" by (simp add: knows_all_def)
  have "sound c (rhyme_lines (ver_rhymes v) (sung_lines ?n ls (chk_result c)) c)
      (\<lambda>_ c'. \<forall>\<theta>. models \<theta> c' \<longrightarrow> well_sung P v)"
    if g: "grows checker_new c" and sp: "spine_has P (ver_mode v) [] (ver_body v) ls c" for ls c
  proof (rule sound_conseq [OF rhyme_lines_sound [OF grows_wf [OF g]]])
    show "\<forall>t \<in> set (sung_lines ?n ls (chk_result c)). knows c t"
      using sp wf_knows(4) [OF grows_wf [OF g]] by (intro sung_lines_known) (auto simp: spine_has_def)
    fix u c' assume g2: "grows c c'"
      and eq: "\<forall>i \<in> {0..<?n}. \<forall>j \<in> {i + 1..<?n}. equal_rhymes (ver_rhymes v) (sung_lines ?n ls (chk_result c)) c' i j"
    show "\<forall>\<theta>. models \<theta> c' \<longrightarrow> well_sung P v"
    proof (intro allI impI)
      fix \<theta> assume m: "models \<theta> c'"
      have "inst \<theta> (sung_lines ?n ls (chk_result c) ! i) = inst \<theta> (sung_lines ?n ls (chk_result c) ! j)"
        if "i < j" "j < ?n" "fst (ver_rhymes v ! i) = fst (ver_rhymes v ! j)" for i j
        using eq m that by (simp add: equal_rhymes_def equal_in_def)
      then have "rhymed (ver_rhymes v) (map (inst \<theta>) (sung_lines ?n ls (chk_result c)))"
        by (simp add: rhymed_def)
      then have "rhymed (ver_rhymes v) (sung_lines ?n (map (inst \<theta>) ls) (inst \<theta> (chk_result c)))"
        by (simp add: sung_lines_inst)
      moreover have "spined P (voices_of \<theta> c) (ver_mode v) [] (ver_body v) (map (inst \<theta>) ls)"
        using sp grows_models [OF g2 m] by (simp add: spine_has_def inst_all_def)
      ultimately show "well_sung P v"
        unfolding well_sung_def using False by (auto intro!: exI [of _ "voices_of \<theta> c"])
    qed
  qed simp
  then show ?thesis
    unfolding check_lines_def if_not_P [OF False]
    by (intro sound_then [OF sound_map_err [OF spine_sound [OF checker_new_wf k]]]) auto
qed

lemma check_lines_complete:
  assumes "well_sung P v"
  shows "\<exists>\<theta>. finds \<theta> checker_new (check_lines P v checker_new) (\<lambda>_ _ _. True)"
proof -
  obtain V where V: "if ver_rhymes v = [] then \<exists>t. typed P V (ver_mode v) [] (ver_body v) t
     else \<exists>lines. spined P V (ver_mode v) [] (ver_body v) lines
       \<and> rhymed (ver_rhymes v) (sung_lines (length (ver_rhymes v)) lines (vt_result V))"
    using assms by (auto simp: well_sung_def)
  obtain \<theta> where r: "ready V [] \<theta> checker_new []" using ready_new by blast
  show ?thesis
  proof (cases "ver_rhymes v = []")
    case True
    then obtain t where "typed P V (ver_mode v) [] (ver_body v) t" using V by auto
    then have "finds \<theta> checker_new (check_lines P v checker_new) (\<lambda>_ _ _. True)"
      unfolding check_lines_def if_P [OF True]
      by (intro finds_then [OF finds_map_err [OF completeD [OF typed_complete(1) r]]] finds_go later_fine) auto
    then show ?thesis by blast
  next
    case False
    then obtain lines where l: "spined P V (ver_mode v) [] (ver_body v) lines"
        "rhymed (ver_rhymes v) (sung_lines (length (ver_rhymes v)) lines (vt_result V))"
      using V by auto
    have "finds \<theta>' c (rhyme_lines (ver_rhymes v) (sung_lines (length (ver_rhymes v)) ls (chk_result c)) c) (\<lambda>_ _ _. True)"
      if la: "later \<theta> checker_new \<theta>' c" and ts: "\<exists>ts. ls = [] @ ts \<and> list_all2 (denotes \<theta>' c) ts lines" for ls c \<theta>'
      by (rule rhyme_lines_complete [OF later_fine [OF la] sung_lines_denote _ l(2)])
        (use ts ready_voices(4) [OF ready_later [OF r la]] in auto)
    then have "finds \<theta> checker_new (check_lines P v checker_new) (\<lambda>_ _ _. True)"
      unfolding check_lines_def if_not_P [OF False]
      by (intro finds_then [OF finds_map_err [OF spine_complete [OF l(1) r]]])
    then show ?thesis by blast
  qed
qed

section \<open>The checker decides\<close>

lemma map_err_c_refuse [simp]: "map_err_c f (refuse e) = refuse (f e)"
  by (simp add: map_err_c_def map_err_def refuse_def)

lemma check_versus_cases:
  obtains (diverges) "check_lines P v checker_new = None" "(check_versus P v :: ('k dissonance, unit) result option) = None"
  | (lines) m where "check_lines P v checker_new = refuse m"
      "(check_versus P v :: ('k dissonance, unit) result option) = Some (Inl (Raise (D_Discors (ver_name v) m)))"
  | (choice) c m where "check_lines P v checker_new = go () c" "chk_wf c" "\<not> (\<exists>\<theta>. models \<theta> c)"
      "(check_versus P v :: ('k dissonance, unit) result option) = Some (Inl (Raise (D_Discors (ver_name v) m)))"
  | (passes) c \<theta> where "check_lines P v checker_new = go () c" "models \<theta> c"
      "(check_versus P v :: ('k dissonance, unit) result option) = Some (Inr ())"
proof (cases "check_lines P v checker_new")
  case None
  then show thesis using diverges by (simp add: check_versus_def)
next
  case (Some y)
  show thesis
  proof (cases y)
    case (Inl e)
    then obtain m where "e = Raise m" using check_lines_sound [of P v] Some by (cases e) (auto simp: sound_def)
    then show thesis using lines [of m] Some Inl by (simp add: check_versus_def refuse_def map_err_def)
  next
    case (Inr z)
    then obtain c where c: "check_lines P v checker_new = go () c" using Some by (cases z) (auto simp: go_def)
    then have wf: "chk_wf c" using check_lines_sound [of P v] by (auto simp: sound_def intro: grows_wf)
    have eq: "check_versus P v
        = map_option (\<lambda>r. and_then (map_err (D_Discors (ver_name v)) r) (\<lambda>_. Inr ())) (map_err_c describe (check_preds c))"
      by (simp add: check_versus_def c)
    show thesis
    proof (cases "\<exists>\<theta>. models \<theta> c")
      case True
      then have "check_preds c = go () c" using check_preds_iff [OF wf] by blast
      then show thesis using passes [OF c] True eq by (auto simp: go_def map_err_def map_err_c_def)
    next
      case False
      then obtain e where "check_preds c = refuse e" using check_preds_iff [OF wf] by blast
      then show thesis using choice [OF c wf False] eq by (simp add: refuse_def map_err_def map_err_c_def)
    qed
  qed
qed

lemma check_versus_decides:
  "(check_versus P v :: ('k dissonance, unit) result option) = Some (Inr ()) \<longleftrightarrow> well_sung P v"
proof -
  have "\<exists>c \<theta>. check_lines P v checker_new = go () c \<and> models \<theta> c" if "well_sung P v"
    using check_lines_complete [OF that] later_fine unfolding finds_def fine_def by fastforce
  moreover have "well_sung P v" if "check_lines P v checker_new = go () c" "models \<theta> c" for c \<theta>
    using that check_lines_sound [of P v] by (auto simp: sound_def)
  ultimately show ?thesis
    by (cases rule: check_versus_cases [of P v, where 'k = 'k]) (auto simp: go_def refuse_def)
qed

lemma check_versus_errors:
  "(check_versus P v :: ('k dissonance, unit) result option) = Some (Inl e) \<Longrightarrow> \<exists>m. e = Raise (D_Discors (ver_name v) m)"
  by (cases rule: check_versus_cases [of P v, where 'k = 'k]) auto

end
