(* ===== verification/Check_Total.thy ===== *)
theory Check_Total
  imports Checked
begin

text \<open>
  When the checker returns: on every program whose overloads do not resolve each other in a
  circle. When it comes to a verse that resolves an overload that resolves itself, it does not. With what a
  checked program may do: the operations and the names of its verses and of the overloads they
  reach, and the properties of the checker as a whole.
\<close>

section \<open>The checker returns\<close>

text \<open>The overload names an expression resolves, and programs whose overloads resolve downwards only.\<close>

fun resolved :: "expr \<Rightarrow> sym set" where
  "resolved (ELam x b) = resolved b"
| "resolved (EApp f a) = resolved f \<union> resolved a"
| "resolved (EIf b t e) = resolved b \<union> resolved t \<union> resolved e"
| "resolved (EFix f) = resolved f"
| "resolved (EPure m e) = resolved e"
| "resolved (EReturn m e) = resolved e"
| "resolved (EBind b m x k) = resolved m \<union> resolved k"
| "resolved (EResolve n e) = insert n (resolved e)"
| "resolved (EClama e) = resolved e"
| "resolved (ERecipe b x h) = resolved b \<union> resolved h"
| "resolved (EPone e) = resolved e"
| "resolved (EMitte e) = resolved e"
| "resolved (EPerage e) = resolved e"
| "resolved (ELift e) = resolved e"
| "resolved _ = {}"

definition levels :: "program \<Rightarrow> (sym \<Rightarrow> nat) \<Rightarrow> bool" where
  "levels P lvl \<longleftrightarrow> list_all (\<lambda>((n, _), overload). \<forall>k \<in> resolved overload. lvl k < lvl n) (answers P)"

definition total :: "checker \<Rightarrow> ('e, 'a) step \<Rightarrow> ('a \<Rightarrow> checker \<Rightarrow> bool) \<Rightarrow> bool" where
  "total c r Q \<longleftrightarrow> sound c r Q \<and> r \<noteq> None"

lemma total_then:
  assumes "total c r Q" "\<And>a c'. grows c c' \<Longrightarrow> Q a c' \<Longrightarrow> total c' (f a c') R"
  shows "total c (then_c r f) R"
proof -
  obtain y where y: "r = Some y" using assms(1) by (auto simp: total_def)
  have "then_c r f \<noteq> None"
  proof (cases y)
    case (Inr z)
    then obtain a c' where "r = go a c'" using y by (cases z) (auto simp: go_def)
    then show ?thesis using assms by (auto simp: total_def sound_def)
  qed (simp add: y)
  then show ?thesis using assms by (auto simp: total_def intro: sound_then)
qed

lemma total_go: "chk_wf c \<Longrightarrow> Q a c \<Longrightarrow> total c (go a c) Q"
  by (simp add: total_def sound_go) (simp add: go_def)

lemma total_refuse: "total c (refuse e) Q"
  by (simp add: total_def sound_refuse) (simp add: refuse_def)

lemma total_sound: "sound c r Q \<Longrightarrow> r \<noteq> None \<Longrightarrow> total c r Q"
  by (simp add: total_def)

lemma total_new_var: "chk_wf c \<Longrightarrow> total c (new_var c) (\<lambda>t c'. knows c' t)"
  by (rule total_sound [OF sound_new_var]) (auto simp: new_var_eq go_def)

lemma total_mode: "chk_wf c \<Longrightarrow> total c (check_mode md opk c) (\<lambda>_ _. True)"
  by (simp add: check_mode_def total_go total_refuse)

lemma total_unify: "chk_wf c \<Longrightarrow> knows c a \<Longrightarrow> knows c b \<Longrightarrow> total c (unify_c a b c) (\<lambda>_ _. True)"
proof (rule total_sound [OF sound_conseq [OF sound_unify]])
  assume "chk_wf c" "knows c a" "knows c b"
  then obtain z where "unify (chk_subst c) a b = Some (Some z)"
    using unify_returns [of "chk_subst c" a b] by (auto simp: chk_wf_def knows_def)
  then show "unify_c a b c \<noteq> None" by (simp add: unify_c_def)
qed auto

lemma total_push:
  "chk_wf c \<Longrightarrow> knows c t \<Longrightarrow> Q a (push_pred t al w c) \<Longrightarrow> total c (go a (push_pred t al w c)) Q"
  by (rule total_sound [OF sound_push]) (simp_all add: go_def)

lemma total_each:
  "chk_wf c \<Longrightarrow> (\<And>x c'. x \<in> set xs \<Longrightarrow> grows c c' \<Longrightarrow> total c' (f x c') (\<lambda>_ _. True))
   \<Longrightarrow> total c (each_c f xs c) (\<lambda>_ _. True)"
proof (induction xs arbitrary: c)
  case (Cons x xs)
  have "total c (f x c) (\<lambda>_ _. True)" using Cons.prems by (simp add: grows_refl)
  then show ?case
    unfolding each_c.simps by (rule total_then) (use Cons in \<open>auto intro: grows_wf grows_trans\<close>)
qed (simp add: total_go)

lemma total_lookup:
  assumes "chk_wf c" "knows_all c g"
  shows "total c (lookup P g name c) (\<lambda>t c'. knows c' t)"
proof (rule total_sound [OF sound_conseq [OF sound_lookup [OF assms]]])
  show "lookup P g name c \<noteq> None"
    by (auto simp: lookup_def go_def refuse_def split: option.split prod.split)
qed (rule has_knows)

lemma finite_resolved [simp]: "finite (resolved e)"
  by (induction e rule: resolved.induct) auto

lemma stmt_total:
  assumes sub: "\<And>m' c'. size m' \<le> size m \<Longrightarrow> resolved m' \<subseteq> resolved m \<Longrightarrow> chk_wf c' \<Longrightarrow> knows_all c' g
      \<Longrightarrow> total c' (rec m' c') (\<lambda>t c'. knows c' t)"
    and wf: "chk_wf c" "knows_all c g"
  shows "total c (infer_stmt rec md m c) (\<lambda>lb c'. knows c' (snd lb))"
proof -
  have other: "total c (then_c (rec m c) (\<lambda>t c. go (t, t) c)) (\<lambda>lb c'. knows c' (snd lb))"
    by (intro total_then [OF sub] total_go wf) (auto intro: grows_wf)
  show ?thesis
  proof (cases m)
    case (EPone m')
    show ?thesis
      unfolding infer_stmt_def EPone expr.case
      by (intro total_then [OF total_mode] total_then [OF sub] total_then [OF total_unify] total_go;
          (simp add: EPone; fail | fastforce intro: wf grows_wf grows_knows_all wf_knows [OF grows_wf]))
  next
    case (EMitte m')
    show ?thesis
      unfolding infer_stmt_def EMitte expr.case
      by (intro total_then [OF total_mode] total_then [OF sub] total_push;
          (simp add: EMitte; fail | fastforce intro: wf grows_wf grows_knows_all wf_knows [OF grows_wf]))
  qed (use other in \<open>simp_all add: infer_stmt_def\<close>)
qed

lemma infer_total:
  assumes "\<And>e' md c g. size e' < size e \<Longrightarrow> resolved e' \<subseteq> resolved e \<Longrightarrow> chk_wf c \<Longrightarrow> knows_all c g
      \<Longrightarrow> total c (infer P md c g e') (\<lambda>t c'. knows c' t)"
    and ans: "\<And>n ge x md c g. e = EResolve n ge \<Longrightarrow> x \<in> set (answers P) \<Longrightarrow> fst (fst x) = n
      \<Longrightarrow> chk_wf c \<Longrightarrow> knows_all c g \<Longrightarrow> total c (infer P md c g (snd x)) (\<lambda>t c'. knows c' t)"
    and wf: "chk_wf c" "knows_all c g"
  shows "total c (infer P md c g e) (\<lambda>t c'. knows c' t)"
proof -
  note IH = assms(1)
  have stmt: "total c' (infer_stmt (\<lambda>e c. infer P md c g e) md m c') (\<lambda>lb c'. knows c' (snd lb))"
    if "size m < size e" "resolved m \<subseteq> resolved e" "chk_wf c'" "knows_all c' g" for m c'
    by (rule stmt_total [OF _ that(3,4)], rule IH) (use that(1,2) in auto)
  show ?thesis
  proof (cases e)
  case (ELam x body)
  show ?thesis
    unfolding ELam
    by (subst infer.simps, unfold infer_arm_def expr.case, intro total_then [OF total_new_var] total_then [OF IH] total_go;
        (simp add: ELam; fail | fastforce intro: wf grows_wf grows_knows grows_knows_all wf_knows [OF grows_wf] simp: ELam))
next
  case (EApp f a)
  show ?thesis
    unfolding EApp
    by (subst infer.simps, unfold infer_arm_def expr.case, intro total_then [OF IH] total_then [OF total_new_var] total_then [OF total_unify] total_go;
        (simp add: EApp; fail | fastforce intro: wf grows_wf grows_knows grows_knows_all wf_knows [OF grows_wf] simp: EApp))
next
  case (EIf b e1 e2)
  show ?thesis
    unfolding EIf
    by (subst infer.simps, unfold infer_arm_def expr.case, intro total_then [OF IH] total_then [OF total_unify] total_go;
        (simp add: EIf; fail | fastforce intro: wf grows_wf grows_knows grows_knows_all wf_knows [OF grows_wf] simp: EIf))
next
  case (EFix f)
  show ?thesis
    unfolding EFix
    by (subst infer.simps, unfold infer_arm_def expr.case, intro total_then [OF IH] total_then [OF total_new_var] total_then [OF total_unify] total_go;
        (simp add: EFix; fail | fastforce intro: wf grows_wf grows_knows grows_knows_all wf_knows [OF grows_wf] simp: EFix))
next
  case (EReturn m2 e2)
  show ?thesis
    unfolding EReturn
    by (subst infer.simps, unfold infer_arm_def expr.case, intro total_then [OF IH] total_then [OF total_unify] total_new_var;
        (simp add: EReturn; fail | fastforce intro: wf grows_wf grows_knows grows_knows_all wf_knows [OF grows_wf] simp: EReturn))
next
  case (EClama e2)
  show ?thesis
    unfolding EClama
    by (subst infer.simps, unfold infer_arm_def expr.case, intro total_then [OF total_mode] total_then [OF IH] total_then [OF total_unify] total_new_var;
        (simp add: EClama; fail | fastforce intro: wf grows_wf grows_knows grows_knows_all wf_knows [OF grows_wf] simp: EClama))
next
  case (ERecipe body x handler)
  show ?thesis
    unfolding ERecipe
    by (subst infer.simps, unfold infer_arm_def expr.case, intro total_then [OF total_mode] total_then [OF IH] total_then [OF total_unify] total_go;
        (simp add: ERecipe; fail | fastforce intro: wf grows_wf grows_knows grows_knows_all wf_knows [OF grows_wf] simp: ERecipe))
next
  case (EPone e2)
  show ?thesis
    unfolding EPone
    by (subst infer.simps, unfold infer_arm_def expr.case, intro total_then [OF total_mode] total_then [OF IH] total_then [OF total_unify] total_go;
        (simp add: EPone; fail | fastforce intro: wf grows_wf grows_knows grows_knows_all wf_knows [OF grows_wf] simp: EPone))
next
  case (EMitte e2)
  show ?thesis
    unfolding EMitte
    by (subst infer.simps, unfold infer_arm_def expr.case, intro total_then [OF total_mode] total_then [OF IH] total_push;
        (simp add: EMitte; fail | fastforce intro: wf grows_wf grows_knows grows_knows_all wf_knows [OF grows_wf] simp: EMitte))
next
  case (EPerage e2)
  show ?thesis
    unfolding EPerage
    by (subst infer.simps, unfold infer_arm_def expr.case, intro total_then [OF total_mode] total_then [OF IH] total_then [OF total_unify] total_new_var;
        (simp add: EPerage; fail | fastforce intro: wf grows_wf grows_knows grows_knows_all wf_knows [OF grows_wf] simp: EPerage))
next
  case (EPure m2 e2)
  show ?thesis
    unfolding EPure
    by (subst infer.simps, unfold infer_arm_def expr.case, intro IH;
        (simp add: EPure; fail | fastforce intro: wf grows_wf grows_knows grows_knows_all wf_knows [OF grows_wf] simp: EPure))
next
  case (ELift e2)
  show ?thesis
    unfolding ELift
    by (subst infer.simps, unfold infer_arm_def expr.case, intro total_then [OF total_mode] IH;
        (simp add: ELift; fail | fastforce intro: wf grows_wf grows_knows grows_knows_all wf_knows [OF grows_wf] simp: ELift))
next
  case (EBind m2 m x k)
  show ?thesis
    unfolding EBind
    by (subst infer.simps, unfold infer_arm_def expr.case, intro total_then [OF stmt] IH;
        (simp add: EBind; fail | fastforce intro: wf grows_wf grows_knows grows_knows_all wf_knows [OF grows_wf] simp: EBind))
next
  case (EResolve n ge)
  have one: "total c' (if fst (fst x) = n then then_c (infer P md c' g (snd x)) (\<lambda>t c. unify_c t r c) else go () c') (\<lambda>_ _. True)"
    if "chk_wf c'" "knows_all c' g" "knows c' r" "x \<in> set (answers P)" for x c' r
  proof (cases "fst (fst x) = n")
    case True
    have "total c' (then_c (infer P md c' g (snd x)) (\<lambda>t c. unify_c t r c)) (\<lambda>_ _. True)"
      using that by (intro total_then [OF ans [OF EResolve _ True]] total_unify) (auto intro: grows_wf grows_knows)
    then show ?thesis using True by simp
  qed (simp add: total_go that)
  have all: "total c' (each_c (\<lambda>x c. if fst (fst x) = n then then_c (infer P md c g (snd x)) (\<lambda>t c. unify_c t r c) else go () c)
      (answers P) c') (\<lambda>_ _. True)" if "chk_wf c'" "knows_all c' g" "knows c' r" for c' r
    by (rule total_each [OF that(1)]) (use one that in \<open>blast intro: grows_wf grows_knows_all grows_knows\<close>)
  show ?thesis
    unfolding EResolve
    by (subst infer.simps, unfold infer_arm_def expr.case, intro total_then [OF IH] total_then [OF total_unify] total_then [OF total_new_var] total_then [OF all] total_go;
        (simp add: EResolve; fail | fastforce intro: wf grows_wf grows_knows grows_knows_all simp: EResolve))
next
  case (EVar name)
  then show ?thesis by (subst infer.simps) (simp add: infer_arm_def total_lookup wf)
next
  case (EAsk name)
  then show ?thesis
    using wf pedal_closed [of P name]
    by (subst infer.simps) (auto simp: infer_arm_def knows_closed intro: total_go total_refuse split: option.split)
next
  case ENihil
  show ?thesis
    unfolding ENihil
    by (subst infer.simps, unfold infer_arm_def expr.case, intro total_then [OF total_mode] total_new_var; (blast intro: wf grows_wf)?)
next
  case ELege
  show ?thesis
    unfolding ELege
    by (subst infer.simps, unfold infer_arm_def expr.case, intro total_then [OF total_mode] total_go; (blast intro: wf grows_wf wf_knows [OF grows_wf])?)
qed (subst infer.simps, simp add: infer_arm_def knows_closed total_go wf wf_knows)+
qed

lemma infer_returns:
  assumes "levels P lvl" "\<forall>k \<in> resolved e. lvl k < n" "chk_wf c" "knows_all c g"
  shows "total c (infer P md c g e) (\<lambda>t c'. knows c' t)"
  using assms(2-)
proof (induction n arbitrary: e md c g rule: less_induct)
  case outer: (less n)
  show ?case
    using outer.prems
  proof (induction e arbitrary: md c g rule: measure_induct_rule [where f = size])
    case (less e)
    show ?case
    proof (rule infer_total [OF _ _ less.prems(2,3)])
      fix e' md c g assume "size e' < size e" "resolved e' \<subseteq> resolved e" "chk_wf c" "knows_all c g"
      then show "total c (infer P md c g e') (\<lambda>t c'. knows c' t)" using less by blast
    next
      fix m ge x md c g assume e: "e = EResolve m ge" "x \<in> set (answers P)" "fst (fst x) = m" "chk_wf c" "knows_all c g"
      then have "\<forall>k \<in> resolved (snd x). lvl k < lvl m" "lvl m < n"
        using assms(1) less.prems(1) by (auto simp: levels_def list_all_iff)
      then show "total c (infer P md c g (snd x)) (\<lambda>t c'. knows c' t)" using outer.IH e by blast
    qed
  qed
qed

lemma spine_total:
  assumes "levels P lvl" "\<forall>k \<in> resolved e. lvl k < n" "chk_wf c" "knows_all c g"
  shows "spine P md g ls e c \<noteq> None"
  using assms(2-)
proof (induction e arbitrary: g ls c rule: measure_induct_rule [where f = size])
  case (less e)
  show ?case
  proof (cases "\<exists>b m x k. e = EBind b m x k")
    case True
    then obtain b m x k where e: "e = EBind b m x k" by blast
    have "total c (infer_stmt (\<lambda>e c. infer P md c g e) md m c) (\<lambda>lb c'. knows c' (snd lb))"
      by (rule stmt_total [OF _ less.prems(2,3)], rule infer_returns [OF assms(1), of _ n])
        (use less.prems(1) e in auto)
    then have "infer_stmt (\<lambda>e c. infer P md c g e) md m c \<noteq> None" by (simp add: total_def)
    then obtain y where y: "infer_stmt (\<lambda>e c. infer P md c g e) md m c = Some y" by blast
    show ?thesis
    proof (cases y)
      case (Inr z)
      then obtain lb c' where z: "infer_stmt (\<lambda>e c. infer P md c g e) md m c = go lb c'"
        using y by (cases z) (auto simp: go_def)
      then have "grows c c'" "sung P md g m lb c'"
        using infer_stmt_sound [OF less.prems(2,3), of P md m] unfolding sound_def by blast+
      note gs = this
      have "spine P md ((x, snd lb) # g) (ls @ [fst lb]) k c' \<noteq> None"
      proof (rule less.IH)
        show "size k < size e" "\<forall>j \<in> resolved k. lvl j < n" using less.prems(1) e by auto
        show "chk_wf c'" "knows_all c' ((x, snd lb) # g)"
          using gs less.prems by (auto intro: grows_wf grows_knows_all sung_knows)
      qed
      then show ?thesis using z e by simp
    qed (use y e in simp)
  next
    case False
    then show ?thesis
      using infer_returns [OF assms(1) less.prems(1,2,3), of md]
      by (cases "infer P md c g e") (auto simp: spine_end total_def then_c_def go_def split: sum.split)
  qed
qed

lemma total_map_err: "total c r Q \<Longrightarrow> total c (map_err_c f r) Q"
  using sound_map_err [of c r Q f] by (auto simp: total_def) (simp add: map_err_c_def)

lemma rhyme_lines_total:
  assumes "chk_wf c" "length tys = length rhymes" "\<forall>t \<in> set tys. knows c t"
  shows "total c (rhyme_lines rhymes tys c) (\<lambda>_ _. True)"
  unfolding rhyme_lines_def
proof (intro total_each assms(1))
  fix i c' assume i: "i \<in> set [0..<length rhymes]" and g: "grows c c'"
  show "chk_wf c'" using g by (rule grows_wf)
  fix j c'' assume j: "j \<in> set [i + 1..<length rhymes]" and g2: "grows c' c''"
  have "knows c'' (tys ! i)" "knows c'' (tys ! j)" "chk_wf c''"
    using i j assms(2,3) grows_trans [OF g g2] by (auto intro: grows_knows grows_wf)
  then show "total c'' (if fst (rhymes ! i) \<noteq> fst (rhymes ! j) then go () c''
      else map_err_c (rhyme_clash i j (fst (rhymes ! i))) (unify_c (tys ! i) (tys ! j) c'')) (\<lambda>_ _. True)"
    by (auto intro: total_go total_map_err total_unify)
qed

lemma check_lines_returns:
  assumes "levels P lvl"
  shows "check_lines P v checker_new \<noteq> None"
proof -
  have wf: "chk_wf checker_new" "knows_all checker_new []" by (simp_all add: checker_new_wf knows_all_def)
  obtain n where n: "\<forall>k \<in> resolved (ver_body v). lvl k < n"
    using finite_nat_set_iff_bounded [of "lvl ` resolved (ver_body v)"] finite_resolved by auto
  show ?thesis
  proof (cases "ver_rhymes v = []")
    case True
    then show ?thesis
      using infer_returns [OF assms n wf, of "ver_mode v"]
      by (auto simp: check_lines_def total_def then_c_def go_def map_err_c_def split: sum.split option.split)
  next
    case False
    let ?n = "length (ver_rhymes v)"
    have "total c (rhyme_lines (ver_rhymes v) (sung_lines ?n ls (chk_result c)) c) (\<lambda>_ _. True)"
      if "grows checker_new c" "\<exists>lines. ls = [] @ lines \<and> spine_has P (ver_mode v) [] (ver_body v) lines c" for ls c
      using that wf_knows(4) [OF grows_wf] by (intro rhyme_lines_total sung_lines_known) (auto intro: grows_wf simp: spine_has_def)
    then have "total checker_new (check_lines P v checker_new) (\<lambda>_ _. True)"
      unfolding check_lines_def if_not_P [OF False]
      by (intro total_then [OF total_map_err [OF total_sound [OF spine_sound [OF wf] spine_total [OF assms n wf]]]])
    then show ?thesis by (simp add: total_def)
  qed
qed

section \<open>What a checked verse may do\<close>

text \<open>The operations of an expression are legal in its mode; a lifted body runs in the authentic mode.\<close>

fun legal :: "mode \<Rightarrow> expr \<Rightarrow> bool" where
  "legal md (ELam x b) = legal md b"
| "legal md (EApp f a) = (legal md f \<and> legal md a)"
| "legal md (EIf b t e) = (legal md b \<and> legal md t \<and> legal md e)"
| "legal md (EFix f) = legal md f"
| "legal md (EPure m e) = legal md e"
| "legal md (EReturn m e) = legal md e"
| "legal md (EBind b m x k) = (legal md m \<and> legal md k)"
| "legal md (EResolve n e) = legal md e"
| "legal md ENihil = allows md Op_Nihil"
| "legal md (EClama e) = (allows md Op_Clama \<and> legal md e)"
| "legal md (ERecipe b x h) = (allows md Op_Recipe \<and> legal md b \<and> legal md h)"
| "legal md ELege = allows md Op_Lege"
| "legal md (EPone e) = (allows md Op_Pone \<and> legal md e)"
| "legal md (EMitte e) = (allows md Op_Mitte \<and> legal md e)"
| "legal md (EPerage e) = (allows md Op_Perage \<and> legal md e)"
| "legal md (ELift e) = (allows md Op_Lift \<and> legal (from_final (final_of md) False) e)"
| "legal md _ = True"

text \<open>Every name is a variable in scope, a builtin the machine knows, or a pedal.\<close>

fun named :: "program \<Rightarrow> sym set \<Rightarrow> expr \<Rightarrow> bool" where
  "named P xs (EVar n) = (n \<in> xs \<or> arity n \<noteq> None \<or> pedal P n \<noteq> None)"
| "named P xs (EAsk n) = (pedal P n \<noteq> None)"
| "named P xs (ELam x b) = named P (insert x xs) b"
| "named P xs (EApp f a) = (named P xs f \<and> named P xs a)"
| "named P xs (EIf b t e) = (named P xs b \<and> named P xs t \<and> named P xs e)"
| "named P xs (EFix f) = named P xs f"
| "named P xs (EPure m e) = named P xs e"
| "named P xs (EReturn m e) = named P xs e"
| "named P xs (EBind b m x k) = (named P xs m \<and> named P (insert x xs) k)"
| "named P xs (EResolve n e) = named P xs e"
| "named P xs (EClama e) = named P xs e"
| "named P xs (ERecipe b x h) = (named P xs b \<and> named P (insert x xs) h)"
| "named P xs (EPone e) = named P xs e"
| "named P xs (EMitte e) = named P xs e"
| "named P xs (EPerage e) = named P xs e"
| "named P xs (ELift e) = named P xs e"
| "named P xs _ = True"

primrec arrows :: "ctype \<Rightarrow> nat" where
  "arrows (Ty_Var i) = 0"
| "arrows Ty_Num = 0"
| "arrows Ty_Str = 0"
| "arrows Ty_Bool = 0"
| "arrows Ty_Unit = 0"
| "arrows Ty_Genus = 0"
| "arrows Ty_Corpus = 0"
| "arrows Ty_Field = 0"
| "arrows Ty_Plan = 0"
| "arrows Ty_Cmd = 0"
| "arrows (Ty_Fun a r) = Suc (arrows r)"

lemma builtin_scheme: "fst (builtin name c) = scheme name (fst (fresh c))"
proof (cases rule: builtin_cases [of name c])
  case none
  then show ?thesis using scheme_None [of name "fst (fresh c)" Ty_Unit] by simp
qed auto

lemma scheme_arity: "map_option arrows (scheme name (Ty_Var i)) = arity name"
  by (simp add: scheme_def arity_def fun2_def)

lemma typed_uses:
  shows "typed P V md G e t \<Longrightarrow> legal md e \<and> named P (fst ` set G) e"
    and "sings P V md G m line bound \<Longrightarrow> legal md m \<and> named P (fst ` set G) m"
proof (induction rule: typed_sings.inducts)
  case (T_Local G name t md)
  then show ?case by (force dest: map_of_SomeD)
next
  case (T_Builtin G name t md)
  then obtain a where "scheme name a \<noteq> None" by (auto simp: builtin_type_def)
  then have "scheme name (Ty_Var 0) \<noteq> None" using scheme_None [of name a "Ty_Var 0"] by simp
  then show ?case using scheme_arity [of name 0] by auto
qed (auto simp: insert_commute)

text \<open>
  What the machine may come to from an expression in a mode and a scope: its parts, each in its own mode and
  scope, and, at a \<open>resolve\<close>, every answer of the program for the name.
\<close>

type_synonym site = "mode \<times> sym set \<times> expr"

fun expr_parts :: "program \<Rightarrow> site \<Rightarrow> site set" where
  "expr_parts P (md, xs, ELam x b) = {(md, insert x xs, b)}"
| "expr_parts P (md, xs, EApp f a) = {(md, xs, f), (md, xs, a)}"
| "expr_parts P (md, xs, EIf b t e) = {(md, xs, b), (md, xs, t), (md, xs, e)}"
| "expr_parts P (md, xs, EFix f) = {(md, xs, f)}"
| "expr_parts P (md, xs, EPure m e) = {(md, xs, e)}"
| "expr_parts P (md, xs, EReturn m e) = {(md, xs, e)}"
| "expr_parts P (md, xs, EBind b m x k) = {(md, xs, m), (md, insert x xs, k)}"
| "expr_parts P (md, xs, EResolve n e) =
     insert (md, xs, e) {(md, xs, overload) |g overload. ((n, g), overload) \<in> set (answers P)}"
| "expr_parts P (md, xs, EClama e) = {(md, xs, e)}"
| "expr_parts P (md, xs, ERecipe b x h) = {(md, xs, b), (md, insert x xs, h)}"
| "expr_parts P (md, xs, EPone e) = {(md, xs, e)}"
| "expr_parts P (md, xs, EMitte e) = {(md, xs, e)}"
| "expr_parts P (md, xs, EPerage e) = {(md, xs, e)}"
| "expr_parts P (md, xs, ELift e) = {(from_final (final_of md) False, xs, e)}"
| "expr_parts P (md, xs, _) = {}"

inductive reaches :: "program \<Rightarrow> site \<Rightarrow> site \<Rightarrow> bool" for P where
  Reach_here: "reaches P s s"
| Reach_part: "s' \<in> expr_parts P s \<Longrightarrow> reaches P s' s'' \<Longrightarrow> reaches P s s''"

definition typable :: "program \<Rightarrow> verse_types \<Rightarrow> site \<Rightarrow> bool" where
  "typable P V = (\<lambda>(md, xs, e). \<exists>G t. typed P V md G e t \<and> fst ` set G = xs)"

inductive_cases typed_elims:
  "typed P V md G (ELam x b) t" "typed P V md G (EApp f a) t" "typed P V md G (EIf b e1 e2) t"
  "typed P V md G (EFix f) t" "typed P V md G (EPure m e) t" "typed P V md G (EReturn m e) t"
  "typed P V md G (EBind b m x k) t" "typed P V md G (EResolve n e) t" "typed P V md G (EClama e) t"
  "typed P V md G (ERecipe b x h) t" "typed P V md G (EPone e) t" "typed P V md G (EMitte e) t"
  "typed P V md G (EPerage e) t" "typed P V md G (ELift e) t"

lemma sings_typed: "sings P V md G m line bound \<Longrightarrow> \<exists>t. typed P V md G m t"
  by (erule sings.cases) (blast intro: T_Pone T_Mitte)+

lemma spined_typed: "spined P V md G e lines \<Longrightarrow> \<exists>t. typed P V md G e t"
  by (induction rule: spined.induct) (auto intro: T_Bind)

lemma typableI: "typed P V md G e t \<Longrightarrow> typable P V (md, fst ` set G, e)"
  by (auto simp: typable_def)

lemma typable_bound: "typed P V md ((x, a) # G) e t \<Longrightarrow> typable P V (md, insert x (fst ` set G), e)"
  using typableI [of P V md "(x, a) # G"] by simp

lemma expr_parts_typable: "typed P V md G e t \<Longrightarrow> s \<in> expr_parts P (md, fst ` set G, e) \<Longrightarrow> typable P V s"
  by (cases e) (auto elim!: typed_elims intro: typableI typable_bound dest: sings_typed)

lemma reaches_typable: "reaches P s s' \<Longrightarrow> typable P V s \<Longrightarrow> typable P V s'"
proof (induction rule: reaches.induct)
  case (Reach_part s' s s'')
  obtain md xs e where s: "s = (md, xs, e)" by (cases s)
  then obtain G t where "typed P V md G e t" "fst ` set G = xs" using Reach_part.prems by (auto simp: typable_def)
  then have "typable P V s'" using expr_parts_typable [of P V md G e t s'] Reach_part.hyps(1) s by simp
  then show ?case by (rule Reach_part.IH)
qed

lemma check_verses_iff:
  "(check_verses P vs :: ('k dissonance, unit) result option) = Some (Inr ()) \<longleftrightarrow> list_all (well_sung P) vs"
proof (induction vs)
  case (Cons v vs)
  then show ?case
    using check_versus_decides [of P v, where 'k = 'k]
    by (cases "check_versus P v :: ('k dissonance, unit) result option") (auto split: sum.splits)
qed simp

lemma check_verses_errors:
  "(check_verses P vs :: ('k dissonance, unit) result option) = Some (Inl e)
   \<Longrightarrow> \<exists>v \<in> set vs. \<exists>m. e = Raise (D_Discors (ver_name v) m)"
proof (induction vs)
  case (Cons v vs)
  then show ?case
    using check_versus_errors [where 'k = 'k, of P v e]
    by (cases "check_versus P v :: ('k dissonance, unit) result option") (auto split: sum.splits)
qed simp

lemma check_verses_return:
  assumes "levels P lvl"
  shows "(check_verses P vs :: ('k dissonance, unit) result option) \<noteq> None"
proof (induction vs)
  case (Cons v vs)
  have "(check_versus P v :: ('k dissonance, unit) result option) \<noteq> None"
    using check_lines_returns [OF assms, of v] by (cases rule: check_versus_cases [of P v, where 'k = 'k]) auto
  then show ?case using Cons by (auto split: sum.splits)
qed simp

text \<open>
  The recursion of \<open>infer\<close> through an overload that resolves its own name has no end: at every
  depth the checker is ready to type the genus, and goes on to the answer.
\<close>

lemma infer_arm_le:
  assumes "\<And>md c g e y. rec md c g e = Some y \<Longrightarrow> infer P md c g e = Some y"
    "infer_arm rec P md c g e = Some y"
  shows "infer P md c g e = Some y"
proof -
  have "option_ord (infer_arm rec P md c g e) (infer_arm (infer P) P md c g e)"
  proof -
    have "mono_option (\<lambda>f. infer_arm (\<lambda>md c g e. f (md, c, g, e)) P md c g e)"
      by (rule infer_arm_mono) (simp add: call_mono)
    moreover have "option.le_fun (\<lambda>(md, c, g, e). rec md c g e) (\<lambda>(md, c, g, e). infer P md c g e)"
      unfolding fun_ord_def flat_ord_def split_paired_All prod.case by (metis assms(1) option.exhaust)
    ultimately show ?thesis by (auto dest: monotoneD)
  qed
  then show ?thesis using assms(2) infer.simps [of P md c g e] by (auto simp: flat_ord_def)
qed

text \<open>An overload of \<open>f\<close> that is \<open>resolve f\<close> of a genus, wherever it stands among the answers of the program.\<close>

definition resolves_itself :: "program \<Rightarrow> sym \<Rightarrow> expr \<Rightarrow> bool" where
  "resolves_itself P f ge \<longleftrightarrow> (\<exists>pre gn post. answers P = pre @ ((f, gn), EResolve f ge) # post
     \<and> list_all (\<lambda>((n, _), _). n \<noteq> f) pre)"

lemma each_c_skip:
  "list_all (\<lambda>x. F x c = go () c) pre \<Longrightarrow> each_c F (pre @ xs) c = each_c F xs c"
  by (induction pre) (simp_all add: go_def then_c_def)

lemma resolve_stuck:
  assumes self: "resolves_itself P f ge"
    and e: "rec md c g e = go t c1" "unify_c t Ty_Genus c1 = go () c2" "(new_var c2 :: (clash, ctype) step) = go u c3"
    and stuck: "rec md c3 g (EResolve f ge) = None"
  shows "infer_arm rec P md c g (EResolve f e) = None"
proof -
  obtain pre gn post where ans: "answers P = pre @ ((f, gn), EResolve f ge) # post"
    "list_all (\<lambda>((n, _), _). n \<noteq> f) pre" using self by (auto simp: resolves_itself_def)
  let ?F = "\<lambda>answer c. if fst (fst answer) = f then then_c (rec md c g (snd answer)) (\<lambda>t c. unify_c t u c) else go () c"
  have "list_all (\<lambda>x. ?F x c3 = go () c3) pre" using ans(2) by (auto simp: list_all_iff)
  from each_c_skip [where F = ?F, OF this]
  have "each_c ?F (answers P) c3 = None" by (simp add: ans(1) stuck)
  then show ?thesis by (simp add: infer_arm_def e)
qed

text \<open>A genus can be typed, from wherever the checker is ready.\<close>

lemma genus_typed:
  assumes "typed P V md G ge Ty_Genus" "ready V G \<theta> c g"
  obtains t c1 c2 u c3 \<theta>' where "infer P md c g ge = go t c1" "unify_c t Ty_Genus c1 = go () c2"
    "(new_var c2 :: (clash, ctype) step) = go u c3" "ready V G \<theta>' c3 g"
proof -
  obtain t c1 \<theta>1 where 1: "infer P md c g ge = go t c1" "later \<theta> c \<theta>1 c1" "denotes \<theta>1 c1 t Ty_Genus"
    using completeD [OF typed_complete(1) [OF assms(1)] assms(2)] unfolding finds_def by blast
  obtain c2 \<theta>2 where 2: "unify_c t Ty_Genus c1 = go () c2" "later \<theta>1 c1 \<theta>2 c2"
    using finds_unify [OF later_fine [OF 1(2)] 1(3) closed_types(4)] unfolding finds_def by auto
  obtain u c3 \<theta>3 where 3: "(new_var c2 :: (clash, ctype) step) = go u c3" "later \<theta>2 c2 \<theta>3 c3"
    using finds_new_var [OF later_fine [OF 2(2)], of Ty_Unit, where 'a = clash] unfolding finds_def by auto
  have "ready V G \<theta>3 c3 g" using assms(2) 1(2) 2(2) 3(2) by (blast intro: ready_later)
  then show thesis using that 1(1) 2(1) 3(1) by blast
qed

lemma self_resolving_diverges:
  assumes self: "resolves_itself P f ge" and ge: "typed P V md G ge Ty_Genus"
    and r: "ready V G \<theta> c g"
  shows "infer P md c g (EResolve f ge) = None"
proof (rule ccontr)
  let ?Q = "\<lambda>((((P', md'), c), g'), e) (y :: clash exn + ctype \<times> checker). infer P' md' c g' e = Some y
    \<and> (P' = P \<and> md' = md \<and> g' = g \<and> e = EResolve f ge \<longrightarrow> \<not> (\<exists>\<theta>. ready V G \<theta> c g))"
  assume "infer P md c g (EResolve f ge) \<noteq> None"
  then obtain y where y: "infer P md c g (EResolve f ge) = Some y" by blast
  have "?Q ((((P, md), c), g), EResolve f ge) y"
  proof (rule infer.raw_induct [where Pa = ?Q, OF _ y])
    fix rec P' md' c g' e y
    assume rec: "\<And>P' md c g e y. rec P' md c g e = Some y \<Longrightarrow> ?Q ((((P', md), c), g), e) y"
      and y: "infer_arm (rec P') P' md' c g' e = Some y"
    have le: "rec P' md c g e = Some y \<Longrightarrow> infer P' md c g e = Some y" for md c g e y
      using rec [of P' md c g e y] by simp
    have "infer_arm (rec P) P md c g (EResolve f ge) = None" if r: "ready V G \<theta> c g" for \<theta>
    proof (cases "rec P md c g ge")
      case (Some z)
      obtain t c1 c2 u c3 \<theta>' where 1: "infer P md c g ge = go t c1" "unify_c t Ty_Genus c1 = go () c2"
        "(new_var c2 :: (clash, ctype) step) = go u c3" "ready V G \<theta>' c3 g"
        using genus_typed [OF ge r] by blast
      have "rec P md c g ge = go t c1" using rec [OF Some] Some 1(1) by simp
      moreover have "rec P md c3 g (EResolve f ge) = None"
        using 1(4) rec [of P md c3 g "EResolve f ge"] by (cases "rec P md c3 g (EResolve f ge)") auto
      ultimately show ?thesis using resolve_stuck [OF self _ 1(2,3), of "rec P"] by blast
    qed (simp add: infer_arm_def)
    then show "?Q ((((P', md'), c), g'), e) y" using infer_arm_le [OF le y] y by auto
  qed
  then show False using r by auto
qed

lemma resolving_diverges:
  assumes "resolves_itself P f ge" "typed P V md G ge Ty_Genus" "typed P V md G e Ty_Genus" "ready V G \<theta> c g"
  shows "infer P md c g (EResolve f e) = None"
proof -
  obtain t c1 c2 u c3 \<theta>' where 1: "infer P md c g e = go t c1" "unify_c t Ty_Genus c1 = go () c2"
    "(new_var c2 :: (clash, ctype) step) = go u c3" "ready V G \<theta>' c3 g"
    using genus_typed [OF assms(3,4)] by blast
  have "infer P md c3 g (EResolve f ge) = None" by (rule self_resolving_diverges [OF assms(1,2) 1(4)])
  then show ?thesis using resolve_stuck [OF assms(1), of "infer P", OF 1(1-3)] by (subst infer.simps) simp
qed

lemma check_verses_stop:
  assumes "list_all (well_sung P) vs" "(check_versus P v :: ('k dissonance, unit) result option) = None"
  shows "(check_verses P (vs @ v # ws) :: ('k dissonance, unit) result option) = None"
  using assms(1)
proof (induction vs)
  case (Cons w vs)
  then have "(check_versus P w :: ('k dissonance, unit) result option) = Some (Inr ())"
    using check_versus_decides [of P w, where 'k = 'k] by simp
  then show ?case using Cons by simp
qed (simp add: assms(2))

definition sample_program :: program where
  "sample_program =
     \<lparr>prog_fugues = [(fugue_new ''f'' Re)\<lparr>fug_real := [((''vis'', ''ferrum''), ELit (VNum f64_zero))],
        fug_tonal := [((''cura'', ''ferrum''), EResolve ''vis'' (ELit (VGenus ''ferrum'')))]\<rparr>],
      prog_verses = [\<lparr>ver_name = ''v'', ver_mode = Dorian,
        ver_body = EReturn Dorian (EResolve ''cura'' (ELit (VGenus ''ferrum''))), ver_rhymes = []\<rparr>]\<rparr>"

lemma sample_checked:
  "(check_program sample_program :: (unit dissonance, unit) result option) = Some (Inr ())"
proof -
  let ?V = "\<lparr>vt_arg = Ty_Unit, vt_state = Ty_Unit, vt_throw = Ty_Unit, vt_result = Ty_Num\<rparr>"
  have lit: "typed sample_program ?V Dorian [] (ELit (VNum f64_zero)) Ty_Num"
    "typed sample_program ?V Dorian [] (ELit (VGenus ''ferrum'')) Ty_Genus"
    using T_Lit [of sample_program ?V Dorian "[]" "VNum f64_zero"]
      T_Lit [of sample_program ?V Dorian "[]" "VGenus ''ferrum''"] by simp_all
  have ans: "answers sample_program = [((''vis'', ''ferrum''), ELit (VNum f64_zero)),
      ((''cura'', ''ferrum''), EResolve ''vis'' (ELit (VGenus ''ferrum'')))]"
    by (simp add: answers_def sample_program_def fugue_new_def)
  have vis: "typed sample_program ?V Dorian [] (EResolve ''vis'' (ELit (VGenus ''ferrum''))) Ty_Num"
    by (rule T_Resolve [OF lit(2)]) (auto simp: ans lit)
  have "typed sample_program ?V Dorian [] (EResolve ''cura'' (ELit (VGenus ''ferrum''))) Ty_Num"
    by (rule T_Resolve [OF lit(2)]) (auto simp: ans vis)
  then have "typed sample_program ?V Dorian [] (EReturn Dorian (EResolve ''cura'' (ELit (VGenus ''ferrum'')))) Ty_Num"
    by (intro T_Return) simp
  then show ?thesis
    unfolding check_program_def check_verses_iff by (auto simp: sample_program_def well_sung_def)
qed

section \<open>Properties\<close>

text \<open>C4: the checker decides typability: a program passes exactly when every verse of it has a typing
  under the rules (one type each for its input, state, thrown value and result; every operation legal in
  its mode; every answer of a resolved overload of one type) in which lines that rhyme have one type.\<close>

theorem checker_decides:
  "(check_program P :: ('k dissonance, unit) result option) = Some (Inr ()) \<longleftrightarrow> list_all (well_sung P) (prog_verses P)"
  unfolding check_program_def by (rule check_verses_iff)

text \<open>C7: when overloads resolve each other only downwards (along some level of the names), the checker
  returns on the program, and it ends with success or with a diagnostic that names one of its verses:
  it never indexes its substitution out of range.\<close>

theorem checker_returns:
  assumes "levels P lvl"
  shows "(\<exists>r. (check_program P :: ('k dissonance, unit) result option) = Some r)
    \<and> (\<forall>e. (check_program P :: ('k dissonance, unit) result option) = Some (Inl e)
        \<longrightarrow> (\<exists>v \<in> set (prog_verses P). \<exists>m. e = Raise (D_Discors (ver_name v) m)))"
  using check_verses_return [OF assms] check_verses_errors unfolding check_program_def by blast

theorem checker_returns_witness:
  "\<exists>r. (check_program sample_program :: (unit dissonance, unit) result option) = Some r"
proof -
  have "levels sample_program (\<lambda>n. if n = ''cura'' then 1 else 0)"
    by (simp add: levels_def answers_def sample_program_def fugue_new_def)
  then show ?thesis using checker_returns [of sample_program _, where 'k = unit] by blast
qed

text \<open>C22: an overload that is \<open>resolve\<close> of its own name sends the checker round for ever: if the first answer
  the program gives for \<open>f\<close> is \<open>resolve f ge\<close> with \<open>ge\<close> a genus, and the first verse that the checker does not
  pass sings \<open>resolve f e\<close> with \<open>e\<close> a genus, then the program is never accepted and never refused, whatever
  else is in it (the source recurses on the native stack, so it overflows).\<close>

theorem self_resolving_never_checked:
  assumes "resolves_itself P f ge" "prog_verses P = vs @ v # ws" "list_all (well_sung P) vs"
    and "ver_body v = EReturn md (EResolve f e)"
    and "typed P V (ver_mode v) [] ge Ty_Genus" "typed P V (ver_mode v) [] e Ty_Genus"
  shows "(check_program P :: ('k dissonance, unit) result option) = None"
proof -
  obtain \<theta> where "ready V [] \<theta> checker_new []" using ready_new by blast
  then have "infer P (ver_mode v) checker_new [] (EResolve f e) = None"
    using resolving_diverges assms(1,5,6) by blast
  then have "infer P (ver_mode v) checker_new [] (ver_body v) = None"
    unfolding assms(4) by (subst infer.simps) (simp add: infer_arm_def)
  then have "check_lines P v checker_new = None"
    by (simp add: check_lines_def map_err_c_def spine_end assms(4))
  then have "(check_versus P v :: ('k dissonance, unit) result option) = None" by (simp add: check_versus_def)
  then show ?thesis
    unfolding check_program_def assms(2) by (rule check_verses_stop [OF assms(3)])
qed

text \<open>The score \<open>fuga u in Re { reale f @ g = resolve f (genus arg) } versus v in Re { amen resolve f (genus arg) }\<close>.\<close>

definition circle_program :: program where
  "circle_program =
     \<lparr>prog_fugues = [(fugue_new ''u'' Re)\<lparr>fug_real := [((''f'', ''g''), EResolve ''f'' (EApp (EVar ''genus'') EArg))]\<rparr>],
      prog_verses = [\<lparr>ver_name = ''v'', ver_mode = Dorian,
        ver_body = EReturn Dorian (EResolve ''f'' (EApp (EVar ''genus'') EArg)), ver_rhymes = []\<rparr>]\<rparr>"

theorem self_resolving_never_checked_witness:
  "(check_program circle_program :: (unit dissonance, unit) result option) = None"
proof -
  let ?V = "\<lparr>vt_arg = Ty_Corpus, vt_state = Ty_Unit, vt_throw = Ty_Unit, vt_result = Ty_Unit\<rparr>"
  have "builtin_type ''genus'' (Ty_Fun Ty_Corpus Ty_Genus)" by (simp add: builtin_type_def scheme_def)
  then have "typed circle_program ?V Dorian [] (EVar ''genus'') (Ty_Fun Ty_Corpus Ty_Genus)" by (intro T_Builtin) simp_all
  then have ge: "typed circle_program ?V Dorian [] (EApp (EVar ''genus'') EArg) Ty_Genus"
    using T_Arg [of circle_program ?V Dorian "[]"] by (intro T_App) simp_all
  have "resolves_itself circle_program ''f'' (EApp (EVar ''genus'') EArg)"
    by (simp add: resolves_itself_def answers_def circle_program_def fugue_new_def)
      (rule exI [of _ "[]"], simp)
  moreover have "ver_mode (hd (prog_verses circle_program)) = Dorian" by (simp add: circle_program_def)
  ultimately show ?thesis
    using ge by (intro self_resolving_never_checked [where vs = "[]" and ws = "[]" and V = ?V and md = Dorian
          and v = "hd (prog_verses circle_program)"]) (simp_all, simp_all add: circle_program_def)
qed

text \<open>C21: a program that passes the checker is legal in everything its verses reach, the overloads that
  answer their \<open>resolve\<close>s included: every expression reached from the body of a verse uses only operations that
  are legal in the mode it is reached in (the verse's mode, the authentic one under a \<open>leva\<close>), and only names
  that are in scope there, that the machine knows as builtins, or that are pedals of a fugue.\<close>

theorem checked_verse_is_legal:
  assumes "(check_program P :: ('k dissonance, unit) result option) = Some (Inr ())" "v \<in> set (prog_verses P)"
    and "reaches P (ver_mode v, {}, ver_body v) (md, xs, e)"
  shows "legal md e \<and> named P xs e"
proof -
  have "well_sung P v"
    using assms check_verses_iff [where 'k = 'k, of P "prog_verses P"] by (auto simp: check_program_def list_all_iff)
  then obtain V where "typable P V (ver_mode v, {}, ver_body v)"
    unfolding well_sung_def typable_def using spined_typed [of P] by (fastforce split: if_splits)
  from reaches_typable [OF assms(3) this] show ?thesis
    using typed_uses(1) [of P V md] by (auto simp: typable_def)
qed

text \<open>In the sample the verse resolves \<open>cura\<close>, whose answer resolves \<open>vis\<close>.\<close>

theorem checked_verse_is_legal_witness:
  "reaches sample_program (Dorian, {}, ver_body (hd (prog_verses sample_program)))
       (Dorian, {}, EResolve ''vis'' (ELit (VGenus ''ferrum'')))
   \<and> legal Dorian (EResolve ''vis'' (ELit (VGenus ''ferrum'')))"
proof -
  let ?v = "hd (prog_verses sample_program)"
  have "(Dorian, {}, EResolve ''cura'' (ELit (VGenus ''ferrum''))) \<in> expr_parts sample_program (Dorian, {}, ver_body ?v)"
    "(Dorian, {}, EResolve ''vis'' (ELit (VGenus ''ferrum'')))
       \<in> expr_parts sample_program (Dorian, {}, EResolve ''cura'' (ELit (VGenus ''ferrum'')))"
    by (simp_all add: sample_program_def answers_def fugue_new_def)
  then have "reaches sample_program (Dorian, {}, ver_body ?v) (Dorian, {}, EResolve ''vis'' (ELit (VGenus ''ferrum'')))"
    by (blast intro: reaches.intros)
  moreover have "?v \<in> set (prog_verses sample_program)" "ver_mode ?v = Dorian" by (simp_all add: sample_program_def)
  ultimately show ?thesis using checked_verse_is_legal [OF sample_checked, of ?v] by auto
qed

text \<open>The checker's signature of a builtin has as many arrows as the machine's arity of it, and a
  name has a signature exactly when the machine knows it.\<close>

theorem builtin_signatures_agree: "map_option arrows (fst (builtin name c)) = arity name"
  by (simp add: builtin_scheme scheme_arity fresh_eq)

end
