(* ===== verification/Devices.thy ===== *)
theory Devices
  imports Prelude "HOL-Library.Word"
begin

unbundle bit_operations_syntax

text \<open>
  The devices behind I/O ports: the speaker (\<open>speaker.rs\<close>), PCI configuration space
  (\<open>pci.rs\<close>), and the interrupt setup of \<open>interrupts.rs\<close>.

  The ports are hardware: a \<open>bus\<close> is a record of the six port instructions on a state of the
  machine outside the CPU, and every access threads that state. What PCI documents about its
  two ports is the predicate \<open>config_mechanism\<close>: the data port reads the register whose
  address was last written to the address port, and reading changes no register.
\<close>

section \<open>Ports\<close>

record 'b bus =
  in8 :: "16 word \<Rightarrow> 'b \<Rightarrow> 8 word \<times> 'b"
  in16 :: "16 word \<Rightarrow> 'b \<Rightarrow> 16 word \<times> 'b"
  in32 :: "16 word \<Rightarrow> 'b \<Rightarrow> 32 word \<times> 'b"
  out8 :: "16 word \<Rightarrow> 8 word \<Rightarrow> 'b \<Rightarrow> 'b"
  out16 :: "16 word \<Rightarrow> 16 word \<Rightarrow> 'b \<Rightarrow> 'b"
  out32 :: "16 word \<Rightarrow> 32 word \<Rightarrow> 'b \<Rightarrow> 'b"

section \<open>The speaker\<close>

definition PIT_FREQUENCY :: "32 word" where
  "PIT_FREQUENCY = 1193182"

definition tone_divisor :: "32 word \<Rightarrow> 16 word" where
  "tone_divisor freq_hz = ucast (max 1 (min 0xFFFF (PIT_FREQUENCY div max freq_hz 19)))"

definition start_tone :: "'b bus \<Rightarrow> 32 word \<Rightarrow> 'b \<Rightarrow> 'b" where
  "start_tone io freq_hz b =
     (let divisor = tone_divisor freq_hz;
          b = out8 io 0x43 0xB6 b;
          b = out8 io 0x42 (ucast divisor) b;
          b = out8 io 0x42 (ucast (drop_bit 8 divisor)) b;
          (v, b) = in8 io 0x61 b
      in out8 io 0x61 (v OR 3) b)"

definition stop_tone :: "'b bus \<Rightarrow> 'b \<Rightarrow> 'b" where
  "stop_tone io b =
     (let (v, b) = in8 io 0x61 b in out8 io 0x61 (v AND NOT 3) b)"

text \<open>
  \<open>note.split_at(note.len() - 1)\<close> on bytes: a panic when the last byte is not the start of a
  character (\<open>None\<close>); \<open>parse::<u32>\<close> of one byte is a digit.
\<close>

definition note_base :: "string \<Rightarrow> nat option" where
  "note_base name =
     map_of [(''c'', 262), (''c#'', 277), (''d'', 294), (''d#'', 311), (''e'', 330), (''f'', 349),
       (''f#'', 370), (''g'', 392), (''g#'', 415), (''a'', 440), (''a#'', 466), (''b'', 494)] name"

definition note_freq :: "string \<Rightarrow> nat option option" where
  "note_freq note =
     (if length note < 2 then Some None
      else
        let last_byte = of_char (last note) :: nat in
        if 128 \<le> last_byte \<and> last_byte < 192 then None
        else if last_byte < 48 \<or> 57 < last_byte then Some None
        else
          Some (case note_base (butlast note) of
             None \<Rightarrow> None
           | Some base \<Rightarrow>
               (let octave = last_byte - 48 in
                if octave \<le> 4 then Some (drop_bit (4 - octave) base)
                else if octave \<le> 8 then Some (push_bit (octave - 4) base)
                else None)))"

section \<open>PCI configuration space\<close>

definition CONFIG_ADDRESS :: "16 word" where
  "CONFIG_ADDRESS = 0xCF8"

definition CONFIG_DATA :: "16 word" where
  "CONFIG_DATA = 0xCFC"

record pci_device =
  pci_bus :: "8 word"
  pci_dev :: "8 word"
  pci_function :: "8 word"

definition config_address :: "pci_device \<Rightarrow> 8 word \<Rightarrow> 32 word" where
  "config_address d offset =
     0x80000000 OR push_bit 16 (ucast (pci_bus d)) OR push_bit 11 (ucast (pci_dev d))
     OR push_bit 8 (ucast (pci_function d)) OR (ucast offset AND 0xFC)"

definition config_read :: "'b bus \<Rightarrow> pci_device \<Rightarrow> 8 word \<Rightarrow> 'b \<Rightarrow> 32 word \<times> 'b" where
  "config_read io d offset b = in32 io CONFIG_DATA (out32 io CONFIG_ADDRESS (config_address d offset) b)"

definition config_write :: "'b bus \<Rightarrow> pci_device \<Rightarrow> 8 word \<Rightarrow> 32 word \<Rightarrow> 'b \<Rightarrow> 'b" where
  "config_write io d offset v b =
     out32 io CONFIG_DATA v (out32 io CONFIG_ADDRESS (config_address d offset) b)"

definition io_bar :: "'b bus \<Rightarrow> pci_device \<Rightarrow> 8 word \<Rightarrow> 'b \<Rightarrow> 16 word option \<times> 'b" where
  "io_bar io d i b =
     (let (bar, b) = config_read io d (0x10 + i * 4) b
      in (if bar AND 1 = 1 then Some (ucast (bar AND NOT 3)) else None, b))"

definition interrupt_line :: "'b bus \<Rightarrow> pci_device \<Rightarrow> 'b \<Rightarrow> 8 word \<times> 'b" where
  "interrupt_line io d b = (let (v, b) = config_read io d 0x3C b in (ucast (v AND 0xFF), b))"

definition enable_io_and_bus_master :: "'b bus \<Rightarrow> pci_device \<Rightarrow> 'b \<Rightarrow> 'b" where
  "enable_io_and_bus_master io d b =
     (let (command, b) = config_read io d 4 b in config_write io d 4 (command OR 5) b)"

text \<open>The three loops of \<open>find\<close>: the functions of a slot, then the slots of the first buses.\<close>

definition is_device :: "16 word \<Rightarrow> 16 word \<Rightarrow> 32 word \<Rightarrow> bool" where
  "is_device vendor device i \<longleftrightarrow> ucast (i AND 0xFFFF) = vendor \<and> ucast (drop_bit 16 i) = device"

definition is_multifunction :: "32 word \<Rightarrow> bool" where
  "is_multifunction header \<longleftrightarrow> drop_bit 16 header AND 0x80 \<noteq> 0"

fun scan_slot ::
  "'b bus \<Rightarrow> 16 word \<Rightarrow> 16 word \<Rightarrow> 8 word \<Rightarrow> 8 word \<Rightarrow> 8 word list \<Rightarrow> 'b \<Rightarrow> pci_device option \<times> 'b" where
  "scan_slot io vendor device bus dev [] b = (None, b)"
| "scan_slot io vendor device bus dev (f # fs) b =
     (let candidate = \<lparr>pci_bus = bus, pci_dev = dev, pci_function = f\<rparr>;
          (i, b) = config_read io candidate 0 b
      in if i = 0xFFFFFFFF
         then (if f = 0 then (None, b) else scan_slot io vendor device bus dev fs b)
         else if is_device vendor device i then (Some candidate, b)
         else
           (let (header, b) = config_read io candidate 0x0C b
            in if f = 0 \<and> \<not> is_multifunction header then (None, b)
               else scan_slot io vendor device bus dev fs b))"

fun scan_slots ::
  "'b bus \<Rightarrow> 16 word \<Rightarrow> 16 word \<Rightarrow> (8 word \<times> 8 word) list \<Rightarrow> 'b \<Rightarrow> pci_device option \<times> 'b" where
  "scan_slots io vendor device [] b = (None, b)"
| "scan_slots io vendor device ((bus, dev) # slots) b =
     (case scan_slot io vendor device bus dev (map of_nat [0..<8]) b of
        (Some d, b) \<Rightarrow> (Some d, b)
      | (None, b) \<Rightarrow> scan_slots io vendor device slots b)"

definition pci_slots :: "(8 word \<times> 8 word) list" where
  "pci_slots = concat (map (\<lambda>bus. map (\<lambda>dev. (of_nat bus, of_nat dev)) [0..<32]) [0..<8])"

definition find_device :: "'b bus \<Rightarrow> 16 word \<Rightarrow> 16 word \<Rightarrow> 'b \<Rightarrow> pci_device option \<times> 'b" where
  "find_device io vendor device b = scan_slots io vendor device pci_slots b"

section \<open>Interrupts\<close>

definition PIC_1_OFFSET :: nat where
  "PIC_1_OFFSET = 32"

text \<open>The line of the sound card, 0 until one is registered.\<close>

definition register_pci_sound_irq :: "8 word \<Rightarrow> 8 word \<Rightarrow> string + 8 word" where
  "register_pci_sound_irq line registered =
     (if \<not> (9 \<le> line \<and> line \<le> 11) then Inl ''PCI IRQ line outside the expected 9-11 range'' else Inr line)"

definition pic_mask :: "8 word \<Rightarrow> 16 word" where
  "pic_mask sound_irq =
     (if sound_irq \<noteq> 0 then NOT 7 AND NOT (push_bit (unat sound_irq) 1) else NOT 7)"

text \<open>\<open>init_pics\<close>: the two mask bytes it writes.\<close>

definition init_pics :: "8 word \<Rightarrow> 8 word \<times> 8 word" where
  "init_pics sound_irq = (let mask = pic_mask sound_irq in (ucast mask, ucast (drop_bit 8 mask)))"

datatype interrupt_handler =
  Breakpoint | Double_fault | Page_fault | Timer | Keyboard | Pci_sound nat | Syscall

record gate =
  gate_handler :: interrupt_handler
  gate_ring3 :: bool
  gate_stack :: "nat option"

definition plain_gate :: "interrupt_handler \<Rightarrow> gate" where
  "plain_gate h = \<lparr>gate_handler = h, gate_ring3 = False, gate_stack = None\<rparr>"

definition DOUBLE_FAULT_IST_INDEX :: nat where
  "DOUBLE_FAULT_IST_INDEX = 0"

text \<open>The vectors of the three exceptions are the CPU's.\<close>

definition init_idt :: "nat \<Rightarrow> gate option" where
  "init_idt = Map.empty
     (3 \<mapsto> plain_gate Breakpoint,
      8 \<mapsto> (plain_gate Double_fault)\<lparr>gate_stack := Some DOUBLE_FAULT_IST_INDEX\<rparr>,
      14 \<mapsto> plain_gate Page_fault,
      PIC_1_OFFSET \<mapsto> plain_gate Timer,
      PIC_1_OFFSET + 1 \<mapsto> plain_gate Keyboard,
      PIC_1_OFFSET + 9 \<mapsto> plain_gate (Pci_sound 9),
      PIC_1_OFFSET + 10 \<mapsto> plain_gate (Pci_sound 10),
      PIC_1_OFFSET + 11 \<mapsto> plain_gate (Pci_sound 11),
      0x80 \<mapsto> (plain_gate Syscall)\<lparr>gate_ring3 := True\<rparr>)"

text \<open>
  A tone is in tune: within the range of the divisor, the wave's frequency is the least one the
  timer can make that is not below the frequency asked for; and the two bytes the channel is
  given make up the divisor.
\<close>

lemma tone_divisor_nat:
  "unat (tone_divisor freq_hz) = max 1 (1193182 div max (unat freq_hz) 19)"
proof -
  have u: "unat (PIT_FREQUENCY div max freq_hz 19) = 1193182 div max (unat freq_hz) 19"
    by (simp add: PIT_FREQUENCY_def unat_div_distrib max_def word_le_nat_alt)
  have "1193182 div max (unat freq_hz) 19 \<le> 1193182 div 19" by (rule div_le_mono2) auto
  then have "unat (max 1 (min 0xFFFF (PIT_FREQUENCY div max freq_hz 19))) = max 1 (1193182 div max (unat freq_hz) 19)"
    using u by (auto simp: max_def min_def word_le_nat_alt)
  moreover have "unat (max 1 (min 0xFFFF (PIT_FREQUENCY div max freq_hz 19))) < 2 ^ 16"
    by (auto simp: max_def min_def word_le_nat_alt)
  ultimately show ?thesis by (simp add: tone_divisor_def unsigned_ucast_eq unsigned_take_bit_eq take_bit_nat_eq_self)
qed

lemma tone_in_tune:
  assumes "19 \<le> unat freq_hz" "unat freq_hz \<le> 1193182"
  shows "unat (tone_divisor freq_hz) * unat freq_hz \<le> 1193182"
    and "1193182 < Suc (unat (tone_divisor freq_hz)) * unat freq_hz"
proof -
  have "1 \<le> 1193182 div unat freq_hz" using assms div_le_mono [of "unat freq_hz" 1193182 "unat freq_hz"] by simp
  then have d: "unat (tone_divisor freq_hz) = 1193182 div unat freq_hz"
    using assms by (simp add: tone_divisor_nat max_def)
  show "unat (tone_divisor freq_hz) * unat freq_hz \<le> 1193182" by (simp add: d)
  show "1193182 < Suc (unat (tone_divisor freq_hz)) * unat freq_hz"
    unfolding d using assms dividend_less_div_times [of "unat freq_hz" 1193182] by simp
qed

lemma divisor_bytes:
  "push_bit 8 (ucast (ucast (drop_bit 8 d) :: 8 word)) OR ucast (ucast d :: 8 word) = (d :: 16 word)"
  by (rule bit_word_eqI) (auto simp: bit_simps)

section \<open>What a scan finds\<close>

definition config_mechanism :: "'b bus \<Rightarrow> ('b \<Rightarrow> 32 word \<Rightarrow> 32 word) \<Rightarrow> bool" where
  "config_mechanism io cf \<longleftrightarrow>
     (\<forall>b a. fst (in32 io CONFIG_DATA (out32 io CONFIG_ADDRESS a b)) = cf b a
        \<and> cf (snd (in32 io CONFIG_DATA (out32 io CONFIG_ADDRESS a b))) = cf b)"

definition present :: "(32 word \<Rightarrow> 32 word) \<Rightarrow> pci_device \<Rightarrow> bool" where
  "present regs d \<longleftrightarrow> regs (config_address d 0) \<noteq> 0xFFFFFFFF"

text \<open>A function that a scan may see: function 0 of its slot is there, and says the slot has others.\<close>

definition visible :: "(32 word \<Rightarrow> 32 word) \<Rightarrow> pci_device \<Rightarrow> bool" where
  "visible regs d \<longleftrightarrow>
     present regs d \<and> present regs (d\<lparr>pci_function := 0\<rparr>)
     \<and> (pci_function d = 0 \<or> is_multifunction (regs (config_address (d\<lparr>pci_function := 0\<rparr>) 0x0C)))"

definition slot_functions :: "8 word \<times> 8 word \<Rightarrow> pci_device list" where
  "slot_functions s = map (\<lambda>f. \<lparr>pci_bus = fst s, pci_dev = snd s, pci_function = of_nat f\<rparr>) [0..<8]"

definition has_id :: "(32 word \<Rightarrow> 32 word) \<Rightarrow> 16 word \<Rightarrow> 16 word \<Rightarrow> pci_device \<Rightarrow> bool" where
  "has_id regs vendor device d \<longleftrightarrow> is_device vendor device (regs (config_address d 0))"

lemma config_read_eq:
  assumes "config_mechanism io cf"
  obtains b' where "config_read io d off b = (cf b (config_address d off), b')" "cf b' = cf b"
  using assms by (auto simp: config_mechanism_def config_read_def prod_eq_iff)

lemma scan_slot_tail:
  assumes io: "config_mechanism io cf" and "0 \<notin> set fs"
  shows "\<exists>b'. scan_slot io vendor device bus dev fs b
      = (find (\<lambda>d. present (cf b) d \<and> has_id (cf b) vendor device d)
           (map (\<lambda>f. \<lparr>pci_bus = bus, pci_dev = dev, pci_function = f\<rparr>) fs), b') \<and> cf b' = cf b"
  using assms(2)
proof (induction fs arbitrary: b)
  case (Cons f fs)
  let ?d = "\<lparr>pci_bus = bus, pci_dev = dev, pci_function = f\<rparr>"
  obtain b1 where 1: "config_read io ?d 0 b = (cf b (config_address ?d 0), b1)" "cf b1 = cf b"
    by (rule config_read_eq [OF io])
  obtain b2 where 2: "config_read io ?d 0x0C b1 = (cf b1 (config_address ?d 0x0C), b2)" "cf b2 = cf b1"
    by (rule config_read_eq [OF io])
  show ?case
    using Cons.IH [of b1] Cons.IH [of b2] Cons.prems 1 2 by (auto simp: present_def has_id_def Let_def)
qed simp

lemma scan_slot_finds:
  assumes io: "config_mechanism io cf"
  shows "\<exists>b'. scan_slot io vendor device bus dev (map of_nat [0..<8]) b
      = (find (\<lambda>d. visible (cf b) d \<and> has_id (cf b) vendor device d) (slot_functions (bus, dev)), b') \<and> cf b' = cf b"
proof -
  let ?d = "\<lambda>f. \<lparr>pci_bus = bus, pci_dev = dev, pci_function = f\<rparr>"
  let ?fs = "map of_nat [1..<8] :: 8 word list"
  have fs: "map of_nat [0..<8] = 0 # ?fs" by (simp add: upt_rec)
  have sf: "slot_functions (bus, dev) = ?d 0 # map ?d ?fs" by (simp add: slot_functions_def upt_rec)
  have nz: "0 \<notin> set ?fs" by (simp add: upt_rec)
  obtain b1 where 1: "config_read io (?d 0) 0 b = (cf b (config_address (?d 0) 0), b1)" "cf b1 = cf b"
    by (rule config_read_eq [OF io])
  obtain b2 where 2: "config_read io (?d 0) 0x0C b1 = (cf b1 (config_address (?d 0) 0x0C), b2)" "cf b2 = cf b1"
    by (rule config_read_eq [OF io])
  obtain b3 where 3: "scan_slot io vendor device bus dev ?fs b2
      = (find (\<lambda>d. present (cf b2) d \<and> has_id (cf b2) vendor device d) (map ?d ?fs), b3)" "cf b3 = cf b2"
    using scan_slot_tail [OF io nz] by blast
  have absent: "find (\<lambda>d. visible (cf b) d \<and> has_id (cf b) vendor device d) (map ?d ?fs) = None"
    if "\<not> present (cf b) (?d 0) \<or> \<not> is_multifunction (cf b (config_address (?d 0) 0x0C))"
    using that nz by (auto simp: find_None_iff visible_def)
  have multi: "find (\<lambda>d. visible (cf b) d \<and> has_id (cf b) vendor device d) (map ?d ?fs)
      = find (\<lambda>d. present (cf b) d \<and> has_id (cf b) vendor device d) (map ?d ?fs)"
    if "present (cf b) (?d 0)" "is_multifunction (cf b (config_address (?d 0) 0x0C))"
    using that by (intro find_cong refl) (auto simp: visible_def)
  show ?thesis
  proof (cases "present (cf b) (?d 0)")
    case False
    then show ?thesis using absent 1 unfolding fs sf by (simp add: present_def visible_def)
  next
    case True
    show ?thesis
    proof (cases "has_id (cf b) vendor device (?d 0)")
      case True
      then show ?thesis using \<open>present (cf b) (?d 0)\<close> 1 unfolding fs sf by (simp add: present_def visible_def has_id_def)
    next
      case False
      show ?thesis
      proof (cases "is_multifunction (cf b (config_address (?d 0) 0x0C))")
        case m: True
        then show ?thesis
          using True False multi 1 2 3 unfolding fs sf by (simp add: present_def visible_def has_id_def Let_def)
      next
        case m: False
        then show ?thesis
          using True False absent 1 2 unfolding fs sf by (simp add: present_def visible_def has_id_def Let_def)
      qed
    qed
  qed
qed

lemma find_append: "find Q (xs @ ys) = (case find Q xs of None \<Rightarrow> find Q ys | Some x \<Rightarrow> Some x)"
  by (induction xs) auto

lemma scan_slots_finds:
  assumes "config_mechanism io cf"
  shows "fst (scan_slots io vendor device slots b)
    = find (\<lambda>d. visible (cf b) d \<and> has_id (cf b) vendor device d) (concat (map slot_functions slots))"
proof (induction slots arbitrary: b)
  case (Cons s slots)
  obtain b' where b': "scan_slot io vendor device (fst s) (snd s) (map of_nat [0..<8]) b
      = (find (\<lambda>d. visible (cf b) d \<and> has_id (cf b) vendor device d) (slot_functions s), b')" "cf b' = cf b"
    using scan_slot_finds [OF assms, of vendor device "fst s" "snd s" b] by auto
  have "scan_slots io vendor device (s # slots) b
      = (case scan_slot io vendor device (fst s) (snd s) (map of_nat [0..<8]) b of
           (Some d, b) \<Rightarrow> (Some d, b) | (None, b) \<Rightarrow> scan_slots io vendor device slots b)"
    by (cases s) simp
  then show ?case using b' Cons.IH [of b'] by (simp add: find_append split: option.split)
qed simp

definition unmasked :: "8 word \<times> 8 word \<Rightarrow> nat \<Rightarrow> bool" where
  "unmasked masks n \<longleftrightarrow> \<not> bit (if n < 8 then fst masks else snd masks) (n mod 8)"

lemma sound_lines: "register_pci_sound_irq line registered = Inr irq \<Longrightarrow> irq \<in> {9, 10, 11}"
proof -
  assume r: "register_pci_sound_irq line registered = Inr irq"
  then have "9 \<le> unat irq" "unat irq \<le> 11"
    by (auto simp: register_pci_sound_irq_def word_le_nat_alt split: if_splits)
  then have "unat irq \<in> {9, 10, 11}" by auto
  then have "irq \<in> of_nat ` {9, 10, 11}" by (metis image_eqI of_nat_unat ucast_id)
  then show ?thesis by simp
qed

section \<open>Properties\<close>

text \<open>C32: the PCI scan finds what is there: on hardware that keeps the configuration mechanism, \<open>find\<close>
  returns the first function of the first eight buses, in bus, slot and function order, that has the
  vendor and device asked for and that is visible (its slot's function 0 is present, and says that the
  slot has several functions when it is another), and nothing when there is none.\<close>

theorem pci_find_finds:
  assumes "config_mechanism io cf"
  shows "fst (find_device io vendor device b)
    = find (\<lambda>d. visible (cf b) d \<and> has_id (cf b) vendor device d) (concat (map slot_functions pci_slots))"
  unfolding find_device_def by (rule scan_slots_finds [OF assms])

lemma lines_let_through:
  assumes "irq \<in> {0, 9, 10, 11}" "n < 16"
  shows "unmasked (init_pics irq) n \<longleftrightarrow> n \<in> {0, 1, 2} \<union> (if irq = 0 then {} else {unat irq})"
proof -
  have n: "n \<in> {0, 1, 2, 3, 4, 5, 6, 7, 8, 9, 10, 11, 12, 13, 14, 15}" using assms(2) by (simp, presburger)
  show ?thesis using assms(1) n
    by (elim insertE emptyE; simp add: unmasked_def init_pics_def pic_mask_def bit_simps unsigned_eq_0_iff)
qed

lemma lines_have_gates:
  "irq \<in> {0, 9, 10, 11} \<Longrightarrow> n < 16 \<Longrightarrow> unmasked (init_pics irq) n \<Longrightarrow> n \<noteq> 2 \<Longrightarrow> init_idt (PIC_1_OFFSET + n) \<noteq> None"
  by (auto simp: lines_let_through init_idt_def PIC_1_OFFSET_def split: if_splits)

lemma only_the_call_from_ring3: "init_idt v = Some g \<Longrightarrow> gate_ring3 g = (v = 0x80)"
  by (auto simp: init_idt_def PIC_1_OFFSET_def plain_gate_def split: if_splits)

text \<open>No unmasked interrupt is without a handler: with a registered sound line or without, the
  mask bytes let through the timer, the keyboard, the cascade of the second controller and that
  line only, and each but the cascade has a gate in the interrupt table; the one gate that user code may
  raise is the system call.\<close>

theorem unmasked_irqs_are_handled:
  assumes "irq = 0 \<or> register_pci_sound_irq line registered = Inr irq" "n < 16"
  shows "(unmasked (init_pics irq) n \<longleftrightarrow> n \<in> {0, 1, 2} \<union> (if irq = 0 then {} else {unat irq}))
    \<and> (unmasked (init_pics irq) n \<and> n \<noteq> 2 \<longrightarrow> init_idt (PIC_1_OFFSET + n) \<noteq> None)
    \<and> (\<forall>v g. init_idt v = Some g \<longrightarrow> gate_ring3 g = (v = 0x80))"
proof -
  have irq: "irq \<in> {0, 9, 10, 11}" using assms(1) by (auto dest: sound_lines)
  show ?thesis
    using lines_let_through [OF irq assms(2)] lines_have_gates [OF irq assms(2)] only_the_call_from_ring3 by blast
qed

theorem unmasked_irqs_are_handled_witness:
  "unmasked (init_pics 11) 11 \<and> init_idt (PIC_1_OFFSET + 11) \<noteq> None"
  using unmasked_irqs_are_handled [of 11 11 0 11] by (simp add: register_pci_sound_irq_def)

definition one_card :: "(32 word \<times> 32 word) bus" where
  "one_card =
     \<lparr>in8 = (\<lambda>_ b. (0, b)), in16 = (\<lambda>_ b. (0, b)),
      in32 = (\<lambda>port b. (if port = CONFIG_DATA then (if fst b = 0x80000000 then 0x24158086 else 0xFFFFFFFF) else 0, b)),
      out8 = (\<lambda>_ _ b. b), out16 = (\<lambda>_ _ b. b),
      out32 = (\<lambda>port v b. if port = CONFIG_ADDRESS then (v, snd b) else (fst b, v))\<rparr>"

theorem pci_find_finds_witness:
  "fst (find_device one_card 0x8086 0x2415 (0, 0)) = Some \<lparr>pci_bus = 0, pci_dev = 0, pci_function = 0\<rparr>"
proof -
  let ?cf = "\<lambda>b a :: 32 word. if a = 0x80000000 then 0x24158086 else 0xFFFFFFFF :: 32 word"
  let ?d = "\<lparr>pci_bus = 0, pci_dev = 0, pci_function = 0\<rparr>"
  have cm: "config_mechanism one_card ?cf"
    by (simp add: config_mechanism_def one_card_def CONFIG_ADDRESS_def CONFIG_DATA_def)
  have first: "concat (map slot_functions pci_slots) = ?d # tl (concat (map slot_functions pci_slots))"
    by (simp add: pci_slots_def slot_functions_def upt_conv_Cons)
  have "visible (?cf (0, 0)) ?d \<and> has_id (?cf (0, 0)) 0x8086 0x2415 ?d"
    by (simp add: visible_def present_def has_id_def is_device_def config_address_def drop_bit_eq_div)
  then show ?thesis using pci_find_finds [OF cm, where vendor = "0x8086" and device = "0x2415" and b = "(0, 0)"] by (subst (asm) first) simp
qed

end
