(* ===== verification/Sound.thy ===== *)
theory Sound
  imports Devices Memory Wakeup
begin

unbundle bit_operations_syntax

text \<open>
  The sound card (\<open>ac97.rs\<close>): its setup, the organ of up to eight voices that key presses start and
  stop, the additive synthesizer, the interrupt that marks the buffers the card has played, and the
  task that refills them.

  The card's registers are behind the ports of a \<open>bus\<close>. The memory that the card reads is modelled by
  what the driver puts there: the descriptor list and the ring of buffers, each with its physical
  address. The synthesizer's sums are \<open>i32\<close> and are checked: \<open>None\<close> is the overflow panic.
\<close>

section \<open>The organ\<close>

definition SAMPLE_RATE :: nat where "SAMPLE_RATE = 48000"

definition BDL_ENTRIES :: nat where "BDL_ENTRIES = 32"

definition BUFFERS :: nat where "BUFFERS = 4"

definition FRAMES_PER_BUFFER :: nat where "FRAMES_PER_BUFFER = 1024"

definition SAMPLES_PER_BUFFER :: nat where "SAMPLES_PER_BUFFER = FRAMES_PER_BUFFER * 2"

definition MAX_VOICES :: nat where "MAX_VOICES = 8"

definition HARMONICS :: "(32 word \<times> int) list" where
  "HARMONICS = [(1, 32), (2, 16), (3, 8), (4, 4)]"

record voice =
  vo_phase :: "32 word"
  vo_step :: "32 word"

record ac97 =
  ac_buffer_at :: nat
  ac_buffer :: "int list"
  ac_voices :: "voice option list"

definition SINE :: "int list" where
  "SINE =
    [0, 804, 1608, 2410, 3212, 4011, 4808, 5602,
     6393, 7179, 7962, 8739, 9512, 10278, 11039, 11793,
     12539, 13279, 14010, 14732, 15446, 16151, 16846, 17530,
     18204, 18868, 19519, 20159, 20787, 21403, 22005, 22594,
     23170, 23731, 24279, 24811, 25329, 25832, 26319, 26790,
     27245, 27683, 28105, 28510, 28898, 29268, 29621, 29956,
     30273, 30571, 30852, 31113, 31356, 31580, 31785, 31971,
     32137, 32285, 32412, 32521, 32609, 32678, 32728, 32757,
     32767, 32757, 32728, 32678, 32609, 32521, 32412, 32285,
     32137, 31971, 31785, 31580, 31356, 31113, 30852, 30571,
     30273, 29956, 29621, 29268, 28898, 28510, 28105, 27683,
     27245, 26790, 26319, 25832, 25329, 24811, 24279, 23731,
     23170, 22594, 22005, 21403, 20787, 20159, 19519, 18868,
     18204, 17530, 16846, 16151, 15446, 14732, 14010, 13279,
     12539, 11793, 11039, 10278, 9512, 8739, 7962, 7179,
     6393, 5602, 4808, 4011, 3212, 2410, 1608, 804,
     0, -804, -1608, -2410, -3212, -4011, -4808, -5602,
     -6393, -7179, -7962, -8739, -9512, -10278, -11039, -11793,
     -12539, -13279, -14010, -14732, -15446, -16151, -16846, -17530,
     -18204, -18868, -19519, -20159, -20787, -21403, -22005, -22594,
     -23170, -23731, -24279, -24811, -25329, -25832, -26319, -26790,
     -27245, -27683, -28105, -28510, -28898, -29268, -29621, -29956,
     -30273, -30571, -30852, -31113, -31356, -31580, -31785, -31971,
     -32137, -32285, -32412, -32521, -32609, -32678, -32728, -32757,
     -32767, -32757, -32728, -32678, -32609, -32521, -32412, -32285,
     -32137, -31971, -31785, -31580, -31356, -31113, -30852, -30571,
     -30273, -29956, -29621, -29268, -28898, -28510, -28105, -27683,
     -27245, -26790, -26319, -25832, -25329, -24811, -24279, -23731,
     -23170, -22594, -22005, -21403, -20787, -20159, -19519, -18868,
     -18204, -17530, -16846, -16151, -15446, -14732, -14010, -13279,
     -12539, -11793, -11039, -10278, -9512, -8739, -7962, -7179,
     -6393, -5602, -4808, -4011, -3212, -2410, -1608, -804]"

definition freq_to_step :: "32 word \<Rightarrow> 32 word" where
  "freq_to_step freq_hz = of_nat (unat freq_hz * 2 ^ 32 div SAMPLE_RATE)"

text \<open>The card is behind a lock, and is \<open>None\<close> before \<open>init\<close>.\<close>

definition is_available :: "ac97 option \<Rightarrow> bool" where
  "is_available dev \<longleftrightarrow> dev \<noteq> None"

fun retrigger :: "32 word \<Rightarrow> voice option list \<Rightarrow> voice option list option" where
  "retrigger step [] = None"
| "retrigger step (None # vs) = map_option (Cons None) (retrigger step vs)"
| "retrigger step (Some v # vs) =
     (if vo_step v = step then Some (Some (v\<lparr>vo_phase := 0\<rparr>) # vs)
      else map_option (Cons (Some v)) (retrigger step vs))"

fun start_voice :: "32 word \<Rightarrow> voice option list \<Rightarrow> voice option list" where
  "start_voice step [] = []"
| "start_voice step (None # vs) = Some \<lparr>vo_phase = 0, vo_step = step\<rparr> # vs"
| "start_voice step (Some v # vs) = Some v # start_voice step vs"

definition note_on :: "32 word \<Rightarrow> ac97 option \<Rightarrow> ac97 option" where
  "note_on freq_hz dev =
     (let step = freq_to_step freq_hz in
      map_option (\<lambda>ac. case retrigger step (ac_voices ac) of
          Some vs \<Rightarrow> ac\<lparr>ac_voices := vs\<rparr>
        | None \<Rightarrow> ac\<lparr>ac_voices := start_voice step (ac_voices ac)\<rparr>) dev)"

definition note_off :: "32 word \<Rightarrow> ac97 option \<Rightarrow> ac97 option" where
  "note_off freq_hz dev =
     (let step = freq_to_step freq_hz in
      map_option (\<lambda>ac. ac\<lparr>ac_voices := map (\<lambda>slot. case slot of
          Some v \<Rightarrow> if vo_step v = step then None else Some v
        | None \<Rightarrow> None) (ac_voices ac)\<rparr>) dev)"

definition all_notes_off :: "ac97 option \<Rightarrow> ac97 option" where
  "all_notes_off dev = map_option (\<lambda>ac. ac\<lparr>ac_voices := replicate MAX_VOICES None\<rparr>) dev"

section \<open>The synthesizer\<close>

definition i32 :: "int \<Rightarrow> int option" where
  "i32 x = (if - (2 ^ 31) \<le> x \<and> x < 2 ^ 31 then Some x else None)"

fun add_harmonics :: "(32 word \<times> int) list \<Rightarrow> 32 word \<Rightarrow> int \<Rightarrow> int option" where
  "add_harmonics [] phase acc = Some acc"
| "add_harmonics ((multiple, amplitude) # hs) phase acc =
     (let index = unat (drop_bit 24 (phase * multiple)) in
      Option.bind (i32 (SINE ! index * amplitude)) (\<lambda>x.
      Option.bind (i32 (acc + x)) (add_harmonics hs phase)))"

fun add_voices :: "voice option list \<Rightarrow> int \<Rightarrow> (voice option list \<times> int) option" where
  "add_voices [] acc = Some ([], acc)"
| "add_voices (None # vs) acc = map_option (\<lambda>(vs, acc). (None # vs, acc)) (add_voices vs acc)"
| "add_voices (Some v # vs) acc =
     Option.bind (add_harmonics HARMONICS (vo_phase v) acc) (\<lambda>acc.
     map_option (\<lambda>(vs, acc). (Some (v\<lparr>vo_phase := vo_phase v + vo_step v\<rparr>) # vs, acc)) (add_voices vs acc))"

definition clamp :: "int \<Rightarrow> int" where
  "clamp x = max (- 32768) (min x 32767)"

text \<open>\<open>chunks_exact_mut(2)\<close> leaves an odd last sample alone.\<close>

fun synthesize :: "voice option list \<Rightarrow> int list \<Rightarrow> (voice option list \<times> int list) option" where
  "synthesize vs (l # r # out) =
     Option.bind (add_voices vs 0) (\<lambda>(vs, acc).
     let sample = clamp (acc div 2 ^ 9) in
     map_option (\<lambda>(vs, out). (vs, sample # sample # out)) (synthesize vs out))"
| "synthesize vs out = Some (vs, out)"

text \<open>One turn of \<open>run_synth\<close>'s loop, with the mask that its future returned.\<close>

definition refill_page :: "8 word \<Rightarrow> nat \<Rightarrow> ac97 option \<Rightarrow> ac97 option option" where
  "refill_page pages buf dev =
     (if pages AND push_bit buf 1 = 0 then Some dev
      else case dev of
        None \<Rightarrow> Some None
      | Some ac \<Rightarrow>
          (let start = buf * SAMPLES_PER_BUFFER; b = ac_buffer ac in
           if length b < start + SAMPLES_PER_BUFFER then None
           else map_option (\<lambda>(vs, page). Some (ac\<lparr>ac_voices := vs,
                  ac_buffer := take start b @ page @ drop (start + SAMPLES_PER_BUFFER) b\<rparr>))
               (synthesize (ac_voices ac) (take SAMPLES_PER_BUFFER (drop start b)))))"

fun refill_pages :: "8 word \<Rightarrow> nat list \<Rightarrow> ac97 option \<Rightarrow> ac97 option option" where
  "refill_pages pages [] dev = Some dev"
| "refill_pages pages (buf # bufs) dev = Option.bind (refill_page pages buf dev) (refill_pages pages bufs)"

definition synth_round :: "8 word \<Rightarrow> ac97 option \<Rightarrow> ac97 option option" where
  "synth_round pages dev = refill_pages pages [0..<BUFFERS] dev"

section \<open>The interrupt\<close>

text \<open>
  What the handler, the synth task and \<open>init\<close> share. The field \<open>so_descriptors\<close> is the page of memory
  that the card reads its descriptors from, at its physical address.
\<close>

record bdl_entry =
  bd_addr :: "32 word"
  bd_samples :: "16 word"
  bd_control :: "16 word"

record 'b sound =
  so_bus :: 'b
  so_nabm_base :: "16 word"
  so_refill_mask :: "8 word"
  so_next_done :: "8 word"
  so_irq :: "8 word"
  so_descriptors :: "(nat \<times> bdl_entry list) option"
  so_card :: "ac97 option"

definition SR_INT_BITS :: "16 word" where
  "SR_INT_BITS = push_bit 2 1 OR push_bit 3 1 OR push_bit 4 1"

definition PO_BDBAR :: "16 word" where "PO_BDBAR = 0x10"
definition PO_CIV :: "16 word" where "PO_CIV = 0x14"
definition PO_LVI :: "16 word" where "PO_LVI = 0x15"
definition PO_SR :: "16 word" where "PO_SR = 0x16"
definition PO_CR :: "16 word" where "PO_CR = 0x1B"
definition GLOB_CNT :: "16 word" where "GLOB_CNT = 0x2C"

text \<open>The descriptors from \<open>next\<close> to the card's current one are done: mark their pages.\<close>

function mark_done :: "nat \<Rightarrow> nat \<Rightarrow> 8 word \<Rightarrow> 8 word \<times> nat" where
  "mark_done civ next pages =
     (if next = civ mod BDL_ENTRIES then (pages, next)
      else mark_done civ ((next + 1) mod BDL_ENTRIES) (pages OR push_bit (next mod BUFFERS) 1))"
  by pat_completeness auto

lemma ring_distance:
  "n < 32 \<Longrightarrow> c < 32 \<Longrightarrow> (c + 32 - n) mod 32 = (if n \<le> c then c - n else c + 32 - n)" for c n :: nat
  by (auto simp: mod_if)

lemma ring_step:
  fixes c n :: nat
  assumes "n < 32" "c < 32" "n \<noteq> c"
  shows "(c + 32 - n) mod 32 = Suc ((c + 32 - (n + 1) mod 32) mod 32)"
proof (cases "n = 31")
  case True
  have "(c + 32 - 31) mod 32 = Suc c" using assms True by (simp add: ring_distance)
  moreover have "(c + 32 - (31 + 1) mod 32) mod 32 = c" using assms by simp
  ultimately show ?thesis using True by simp
next
  case False
  then have n: "n + 1 < 32" using assms by simp
  then have m: "(n + 1) mod 32 = n + 1" by simp
  show ?thesis
    unfolding m ring_distance [OF n assms(2)] ring_distance [OF assms(1,2)] using assms n by auto
qed

definition to_go :: "nat \<Rightarrow> nat \<Rightarrow> nat" where
  "to_go civ n = (civ mod BDL_ENTRIES + BDL_ENTRIES - n) mod BDL_ENTRIES"

lemma to_go_Suc:
  assumes "n \<noteq> civ mod BDL_ENTRIES" "n < BDL_ENTRIES"
  shows "to_go civ n = Suc (to_go civ ((n + 1) mod BDL_ENTRIES))"
  using ring_step [of n "civ mod 32"] assms unfolding to_go_def BDL_ENTRIES_def by simp

termination mark_done
proof (relation "measure (\<lambda>(civ, n, _). if BDL_ENTRIES \<le> n then BDL_ENTRIES else to_go civ n)", goal_cases)
  case (2 civ n pages)
  have "(n + 1) mod BDL_ENTRIES < BDL_ENTRIES" "to_go civ ((n + 1) mod BDL_ENTRIES) < BDL_ENTRIES"
    by (simp_all add: to_go_def BDL_ENTRIES_def)
  then show ?case using 2 to_go_Suc [of n civ] by (auto simp: not_le)
qed simp

declare mark_done.simps [simp del]

text \<open>
  \<open>handle_irq\<close>: whether it was the card's, how often the synth task is woken, and the state after.
  Register numbers are \<open>u16\<close> sums that do not wrap: \<open>init\<close> added the largest of them, \<open>GLOB_CNT\<close>, to the
  base before it stored the base.
\<close>

definition handle_irq :: "'b bus \<Rightarrow> 'b sound \<Rightarrow> (bool \<times> nat) \<times> 'b sound" where
  "handle_irq io s =
     (let nabm = so_nabm_base s in
      if nabm = 0 then ((False, 0), s)
      else
        let (status, b) = in16 io (nabm + PO_SR) (so_bus s) in
        if status AND SR_INT_BITS = 0 then ((False, 0), s\<lparr>so_bus := b\<rparr>)
        else
          let b = out16 io (nabm + PO_SR) (status AND SR_INT_BITS) b;
              (v, b) = in8 io (nabm + PO_CIV) b;
              civ = unat v mod BDL_ENTRIES;
              (pages, next) = mark_done civ (unat (so_next_done s)) 0;
              b' = out8 io (nabm + PO_LVI) (of_nat ((civ + BDL_ENTRIES - 1) mod BDL_ENTRIES)) b
          in ((True, if pages \<noteq> 0 then 1 else 0),
              s\<lparr>so_bus := b', so_next_done := of_nat next,
                so_refill_mask := (if pages \<noteq> 0 then so_refill_mask s OR pages else so_refill_mask s)\<rparr>))"

text \<open>\<open>Refill::poll\<close>: a swap with 0, twice around the registration of the waker.\<close>

definition refill_look :: "'b sound look" where
  "refill_look = \<lparr>look_ready = (\<lambda>s. so_refill_mask s \<noteq> 0), look_take = (\<lambda>s. s\<lparr>so_refill_mask := 0\<rparr>), look_untake = False\<rparr>"

text \<open>An interrupt: whatever the hardware did, then the handler.\<close>

definition sound_interrupt :: "'b bus \<Rightarrow> ('b \<Rightarrow> 'b) \<Rightarrow> 'b sound \<Rightarrow> 'b sound \<times> nat" where
  "sound_interrupt io hardware s =
     (case handle_irq io (s\<lparr>so_bus := hardware (so_bus s)\<rparr>) of ((_, wakes), s') \<Rightarrow> (s', wakes))"

text \<open>
  \<open>pci_sound_irq\<close>: the end of interrupt is written only when the card has been served. The interrupt
  controller is the \<open>pic8259\<close> crate's; \<open>eoi\<close> is its \<open>notify_end_of_interrupt\<close>.
\<close>

definition pci_sound_irq :: "'b bus \<Rightarrow> (nat \<Rightarrow> 'b \<Rightarrow> 'b) \<Rightarrow> nat \<Rightarrow> 'b sound \<Rightarrow> 'b sound" where
  "pci_sound_irq io eoi line s =
     (case handle_irq io s of (_, s') \<Rightarrow> s'\<lparr>so_bus := eoi (PIC_1_OFFSET + line) (so_bus s')\<rparr>)"

section \<open>Setting the card up\<close>

definition VENDOR_INTEL :: "16 word" where "VENDOR_INTEL = 0x8086"
definition DEVICE_82801AA :: "16 word" where "DEVICE_82801AA = 0x2415"

definition MIXER_RESET :: "16 word" where "MIXER_RESET = 0"
definition MIXER_MASTER_VOLUME :: "16 word" where "MIXER_MASTER_VOLUME = 0x02"
definition MIXER_PCM_OUT_VOLUME :: "16 word" where "MIXER_PCM_OUT_VOLUME = 0x18"

definition CR_RPBM :: "8 word" where "CR_RPBM = 1"
definition CR_RR :: "8 word" where "CR_RR = push_bit 1 1"
definition CR_IOCE :: "8 word" where "CR_IOCE = push_bit 4 1"

definition BDL_IOC :: "16 word" where "BDL_IOC = push_bit 15 1"

definition bdl_entry_at :: "nat \<Rightarrow> nat \<Rightarrow> bdl_entry" where
  "bdl_entry_at buffers_phys i =
     \<lparr>bd_addr = of_nat (buffers_phys + i mod BUFFERS * 4096), bd_samples = of_nat SAMPLES_PER_BUFFER,
      bd_control = BDL_IOC\<rparr>"

fun await_reset :: "nat \<Rightarrow> 'b bus \<Rightarrow> 16 word \<Rightarrow> 'b \<Rightarrow> 'b" where
  "await_reset 0 io nabm b = b"
| "await_reset (Suc n) io nabm b =
     (let (v, b) = in8 io (nabm + PO_CR) b in
      if v AND CR_RR = 0 then b else await_reset n io nabm b)"

definition release_codec :: "'b bus \<Rightarrow> 16 word \<Rightarrow> 16 word \<Rightarrow> 'b \<Rightarrow> 'b" where
  "release_codec io mixer nabm b =
     (let b = out32 io (nabm + GLOB_CNT) 2 b;
          b = out16 io (mixer + MIXER_RESET) 0 b;
          b = out16 io (mixer + MIXER_MASTER_VOLUME) 0 b
      in out16 io (mixer + MIXER_PCM_OUT_VOLUME) 0x0808 b)"

definition start_channel :: "'b bus \<Rightarrow> 16 word \<Rightarrow> nat \<Rightarrow> 'b \<Rightarrow> 'b" where
  "start_channel io nabm phys b =
     (let b = out8 io (nabm + PO_CR) CR_RR b;
          b = await_reset 100000 io nabm b;
          b = out32 io (nabm + PO_BDBAR) (of_nat phys) b;
          b = out8 io (nabm + PO_LVI) (of_nat (BDL_ENTRIES - 1)) b;
          b = out16 io (nabm + PO_SR) SR_INT_BITS b
      in out8 io (nabm + PO_CR) (CR_RPBM OR CR_IOCE) b)"

text \<open>A \<open>u16\<close> port number \<open>base + r\<close> that wraps is a panic.\<close>

definition in_ports :: "16 word \<Rightarrow> 16 word \<Rightarrow> bool" where
  "in_ports base r \<longleftrightarrow> unat base + unat r < 2 ^ 16"

text \<open>
  \<open>init\<close> is threaded through the sound state and the frame allocator. Its local state is not kept by a panic, so the
  one panic, a port number that wraps, may be decided before the first of the ports is written.
\<close>

definition init_ring :: "'b bus \<Rightarrow> 16 word \<Rightarrow> nat \<Rightarrow> 'b sound \<Rightarrow> 'b sound" where
  "init_ring io nabm phys s =
     (let buffers_phys = phys + 4096 in
      s\<lparr>so_bus := start_channel io nabm phys (so_bus s),
        so_nabm_base := nabm, so_next_done := 0,
        so_descriptors := Some (phys, map (bdl_entry_at buffers_phys) [0..<BDL_ENTRIES]),
        so_card := Some \<lparr>ac_buffer_at = buffers_phys, ac_buffer = replicate (BUFFERS * SAMPLES_PER_BUFFER) 0,
          ac_voices = replicate MAX_VOICES None\<rparr>\<rparr>)"

definition init_card :: "'b bus \<Rightarrow> 16 word \<Rightarrow> 16 word \<Rightarrow> 'b sound \<times> frame_allocator \<Rightarrow>
    (string, unit) result \<times> 'b sound \<times> frame_allocator" where
  "init_card io mixer nabm m =
     (let (s, a) = m in
      if \<not> in_ports nabm GLOB_CNT \<or> \<not> in_ports mixer MIXER_PCM_OUT_VOLUME then (Inl Panicked, s, a)
      else
        let s = s\<lparr>so_bus := release_codec io mixer nabm (so_bus s)\<rparr> in
        case alloc_contiguous allocate_frame (1 + BUFFERS) a of
          (None, a) \<Rightarrow> (Inl (Raise ''no contiguous memory''), s, a)
        | (Some phys, a) \<Rightarrow> (Inr (), init_ring io nabm phys s, a))"

definition init :: "'b bus \<Rightarrow> 'b sound \<times> frame_allocator \<Rightarrow> (string, unit) result \<times> 'b sound \<times> frame_allocator" where
  "init io m =
     (let (s, a) = m; (found, b) = find_device io VENDOR_INTEL DEVICE_82801AA (so_bus s) in
      case found of
        None \<Rightarrow> (Inl (Raise ''no AC97 on the PCI bus''), s\<lparr>so_bus := b\<rparr>, a)
      | Some device \<Rightarrow>
          let (bar0, b) = io_bar io device 0 (enable_io_and_bus_master io device b) in
          (case bar0 of
             None \<Rightarrow> (Inl (Raise ''mixer BAR is not I/O''), s\<lparr>so_bus := b\<rparr>, a)
           | Some mixer \<Rightarrow>
               let (bar1, b) = io_bar io device 1 b in
               (case bar1 of
                  None \<Rightarrow> (Inl (Raise ''bus master BAR is not I/O''), s\<lparr>so_bus := b\<rparr>, a)
                | Some nabm \<Rightarrow>
                    let (irq_line, b) = interrupt_line io device b in
                    if irq_line = 0 \<or> 16 \<le> irq_line
                    then (Inl (Raise ''firmware routed no usable IRQ line''), s\<lparr>so_bus := b\<rparr>, a)
                    else (case register_pci_sound_irq irq_line (so_irq s) of
                        Inl e \<Rightarrow> (Inl (Raise e), s\<lparr>so_bus := b\<rparr>, a)
                      | Inr irq \<Rightarrow> init_card io mixer nabm (s\<lparr>so_bus := b, so_irq := irq\<rparr>, a)))))"

section \<open>What the organ sounds like\<close>

definition voice_at :: "voice \<Rightarrow> nat \<Rightarrow> 32 word" where
  "voice_at v t = vo_phase v + of_nat t * vo_step v"

definition tone :: "32 word \<Rightarrow> int" where
  "tone phase = sum_list (map (\<lambda>(m, a). SINE ! unat (drop_bit 24 (phase * m)) * a) HARMONICS)"

definition chord :: "voice option list \<Rightarrow> nat \<Rightarrow> int" where
  "chord vs t = sum_list (map (\<lambda>slot. case slot of None \<Rightarrow> 0 | Some v \<Rightarrow> tone (voice_at v t)) vs)"

definition advance :: "nat \<Rightarrow> voice option list \<Rightarrow> voice option list" where
  "advance t vs = map (map_option (\<lambda>v. v\<lparr>vo_phase := voice_at v t\<rparr>)) vs"

lemma voice_at_later [simp]: "voice_at (v\<lparr>vo_phase := voice_at v s\<rparr>) t = voice_at v (s + t)"
  by (simp add: voice_at_def algebra_simps)

lemma advance_0 [simp]: "advance 0 vs = vs"
  by (simp add: advance_def voice_at_def map_idI option.map_ident)

lemma advance_advance [simp]: "advance s (advance t vs) = advance (t + s) vs"
  by (simp add: advance_def option.map_comp comp_def)

lemma length_advance [simp]: "length (advance t vs) = length vs"
  by (simp add: advance_def)

lemma chord_advance [simp]: "chord (advance s vs) t = chord vs (s + t)"
  by (induction vs) (auto simp: chord_def advance_def split: option.split)

lemma chord_Cons: "chord (slot # vs) t = (case slot of None \<Rightarrow> 0 | Some v \<Rightarrow> tone (voice_at v t)) + chord vs t"
  by (simp add: chord_def)

lemma SINE_length: "length SINE = 256"
  by (simp add: SINE_def)

lemma SINE_range: "x \<in> set SINE \<Longrightarrow> \<bar>x\<bar> \<le> 32767"
  by (auto simp: SINE_def)

lemma SINE_at: "\<bar>SINE ! unat (drop_bit 24 (phase :: 32 word))\<bar> \<le> 32767"
proof -
  have "unat phase < 2 ^ 32" using unsigned_less [of phase, where ?'a = nat] by simp
  then have "unat (drop_bit 24 phase) < 256"
    unfolding unat_drop_bit_eq by (simp add: drop_bit_eq_div less_mult_imp_div_less)
  then show ?thesis by (intro SINE_range nth_mem) (simp add: SINE_length)
qed

lemma i32_Some: "\<bar>x\<bar> < 2 ^ 31 \<Longrightarrow> i32 x = Some x"
  by (auto simp: i32_def)

lemma partial_abs: "\<bar>s\<bar> \<le> 32767 \<Longrightarrow> \<bar>s * a\<bar> \<le> 32767 * \<bar>a\<bar>" for s a :: int
  by (simp add: abs_mult mult_right_mono)

lemma add_harmonics_sum:
  assumes "\<bar>acc\<bar> + sum_list (map (\<lambda>(_, a). 32767 * \<bar>a\<bar>) hs) < 2 ^ 31"
  shows "add_harmonics hs phase acc
    = Some (acc + sum_list (map (\<lambda>(m, a). SINE ! unat (drop_bit 24 (phase * m)) * a) hs))"
  using assms
proof (induction hs arbitrary: acc)
  case (Cons h hs)
  obtain m a where h: "h = (m, a)" by (cases h)
  define x where "x = SINE ! unat (drop_bit 24 (phase * m)) * a"
  have x: "\<bar>x\<bar> \<le> 32767 * \<bar>a\<bar>" unfolding x_def by (rule partial_abs [OF SINE_at])
  have "0 \<le> sum_list (map (\<lambda>(_, a). 32767 * \<bar>a\<bar>) hs)" by (rule sum_list_nonneg) auto
  then have ok: "\<bar>x\<bar> < 2 ^ 31" "\<bar>acc + x\<bar> < 2 ^ 31"
    "\<bar>acc + x\<bar> + sum_list (map (\<lambda>(_, a). 32767 * \<bar>a\<bar>) hs) < 2 ^ 31"
    using x Cons.prems by (simp_all add: h)
  show ?case using Cons.IH [OF ok(3)] i32_Some [OF ok(1)] i32_Some [OF ok(2)]
    by (simp add: h Let_def add.assoc flip: x_def)
qed simp

lemma tone_bound: "\<bar>tone phase\<bar> \<le> 1966020"
proof -
  have "\<bar>SINE ! unat (drop_bit 24 (phase * m)) * a\<bar> \<le> 32767 * \<bar>a\<bar>" for m a
    by (rule partial_abs [OF SINE_at])
  from this [of 1 32] this [of 2 16] this [of 3 8] this [of 4 4] show ?thesis
    unfolding tone_def HARMONICS_def by simp
qed

lemma add_harmonics_tone:
  "\<bar>acc\<bar> + 1966020 < 2 ^ 31 \<Longrightarrow> add_harmonics HARMONICS phase acc = Some (acc + tone phase)"
  by (subst add_harmonics_sum) (simp_all add: HARMONICS_def tone_def)

lemma chord_bound: "\<bar>chord vs t\<bar> \<le> int (length vs) * 1966020"
proof (induction vs)
  case (Cons slot vs)
  have "\<bar>case slot of None \<Rightarrow> 0 | Some v \<Rightarrow> tone (voice_at v t)\<bar> \<le> 1966020"
    using tone_bound by (simp split: option.split)
  then show ?case using Cons by (simp add: chord_Cons algebra_simps)
qed (simp add: chord_def)

lemma add_voices_chord:
  assumes "\<bar>acc\<bar> + int (length vs) * 1966020 < 2 ^ 31"
  shows "add_voices vs acc = Some (advance 1 vs, acc + chord vs 0)"
  using assms
proof (induction vs arbitrary: acc)
  case (Cons slot vs)
  show ?case
  proof (cases slot)
    case None
    then show ?thesis using Cons by (simp add: chord_Cons advance_def)
  next
    case (Some v)
    have "\<bar>acc + tone (vo_phase v)\<bar> + int (length vs) * 1966020 < 2 ^ 31"
      using Cons.prems tone_bound [of "vo_phase v"] by simp
    from Cons.IH [OF this] show ?thesis
      using Cons.prems Some by (simp add: add_harmonics_tone chord_Cons advance_def voice_at_def)
  qed
qed (simp add: advance_def chord_def)

definition sample_at :: "voice option list \<Rightarrow> nat \<Rightarrow> int" where
  "sample_at vs t = chord vs t div 512"

definition stereo :: "voice option list \<Rightarrow> nat \<Rightarrow> nat \<Rightarrow> int list" where
  "stereo vs start n = concat (map (\<lambda>t. [sample_at vs t, sample_at vs t]) [start ..< start + n])"

lemma sample_range:
  assumes "length vs \<le> MAX_VOICES"
  shows "- 30720 \<le> sample_at vs t" "sample_at vs t \<le> 30719"
proof -
  have "int (length vs) * 1966020 \<le> 8 * 1966020"
    using assms by (intro mult_right_mono) (simp_all add: MAX_VOICES_def)
  then have "\<bar>chord vs t\<bar> \<le> 15728160" using chord_bound [of vs t] by simp
  then show "- 30720 \<le> sample_at vs t" "sample_at vs t \<le> 30719" by (auto simp: sample_at_def)
qed

lemma length_stereo [simp]: "length (stereo vs start n) = 2 * n"
  by (induction n) (simp_all add: stereo_def)

lemma stereo_advance: "stereo (advance s vs) t n = stereo vs (s + t) n"
  unfolding stereo_def sample_at_def by (induction n) (simp_all add: add.assoc)

lemma stereo_Suc: "stereo vs t (Suc n) = sample_at vs t # sample_at vs t # stereo vs (Suc t) n"
  by (simp add: stereo_def upt_conv_Cons del: upt_Suc)

lemma synthesize_stereo:
  assumes "length vs \<le> MAX_VOICES"
  shows "synthesize vs out
    = Some (advance (length out div 2) vs, stereo vs 0 (length out div 2) @ drop (2 * (length out div 2)) out)"
  using assms
proof (induction vs out rule: synthesize.induct)
  case (1 vs l r out)
  have "int (length vs) * 1966020 \<le> 8 * 1966020"
    using "1.prems" by (intro mult_right_mono) (simp_all add: MAX_VOICES_def)
  then have av: "add_voices vs 0 = Some (advance 1 vs, chord vs 0)" by (subst add_voices_chord) simp_all
  have c: "clamp (chord vs 0 div 512) = sample_at vs 0"
    using sample_range [OF "1.prems", of 0] by (simp add: clamp_def sample_at_def)
  show ?case
    using "1.IH" [OF av refl refl] "1.prems" by (simp add: av c stereo_Suc stereo_advance Let_def)
qed (simp_all add: stereo_def)

section \<open>Keys and voices\<close>

text \<open>
  What the organ promises a player: a set of sounding notes, at most eight, that a key adds to while
  there is room and a release takes from. The voices implement it as long as no two have one step, and
  below the sample rate different notes have different steps.
\<close>

definition steps :: "voice option list \<Rightarrow> 32 word list" where
  "steps vs = map vo_step (concat (map (\<lambda>slot. case slot of None \<Rightarrow> [] | Some v \<Rightarrow> [v]) vs))"

lemma steps_simps [simp]:
  "steps [] = []" "steps (None # vs) = steps vs" "steps (Some v # vs) = vo_step v # steps vs"
  by (simp_all add: steps_def)

definition voices_ok :: "ac97 \<Rightarrow> bool" where
  "voices_ok ac \<longleftrightarrow> length (ac_voices ac) = MAX_VOICES \<and> distinct (steps (ac_voices ac))"

lemma retrigger_None: "retrigger step vs = None \<longleftrightarrow> step \<notin> set (steps vs)"
  by (induction step vs rule: retrigger.induct) auto

lemma retrigger_Some: "retrigger step vs = Some vs' \<Longrightarrow> steps vs' = steps vs \<and> length vs' = length vs"
  by (induction step vs arbitrary: vs' rule: retrigger.induct) (auto split: if_splits)

lemma start_voice_steps:
  "set (steps (start_voice step vs)) = (if None \<in> set vs then insert step (set (steps vs)) else set (steps vs))
   \<and> length (start_voice step vs) = length vs
   \<and> (distinct (steps vs) \<and> step \<notin> set (steps vs) \<longrightarrow> distinct (steps (start_voice step vs)))"
  by (induction step vs rule: start_voice.induct) auto

lemma free_slot: "None \<in> set vs \<longleftrightarrow> length (steps vs) < length vs"
proof -
  have "length (steps vs) \<le> length vs \<and> (None \<in> set vs \<longleftrightarrow> length (steps vs) < length vs)"
  proof (induction vs)
    case (Cons slot vs)
    then show ?case by (cases slot) auto
  qed simp
  then show ?thesis by simp
qed

lemma note_off_steps:
  defines "off step vs \<equiv> map (\<lambda>slot. case slot of Some v \<Rightarrow> if vo_step v = step then None else Some v | None \<Rightarrow> None) vs"
  shows "steps (off step vs) = filter (\<lambda>s. s \<noteq> step) (steps vs)"
proof (induction vs)
  case (Cons slot vs)
  then show ?case by (cases slot) (auto simp: off_def)
qed (simp add: off_def)

lemma freq_to_step_inj:
  assumes "f < 48000" "g < 48000" "freq_to_step f = freq_to_step g"
  shows "f = g"
proof -
  have u: "unat (freq_to_step x) = unat x * 2 ^ 32 div 48000" if "x < 48000" for x :: "32 word"
  proof -
    have "unat x < 48000" using that by (simp add: word_less_nat_alt)
    then have "unat x * 2 ^ 32 div 48000 < 2 ^ 32" by (simp add: less_mult_imp_div_less)
    then show ?thesis by (simp add: freq_to_step_def SAMPLE_RATE_def unat_of_nat)
  qed
  have "\<not> unat x < unat y" if "unat x * 2 ^ 32 div 48000 = unat y * 2 ^ 32 div 48000" for x y :: "32 word"
  proof
    assume "unat x < unat y"
    then have "unat x * 2 ^ 32 + 48000 \<le> unat y * 2 ^ 32" by simp
    then have "(unat x * 2 ^ 32 + 48000) div 48000 \<le> unat y * 2 ^ 32 div 48000" by (rule div_le_mono)
    then show False using that by simp
  qed
  from this [of f g] this [of g f] have "unat f = unat g" using assms u by (metis linorder_neqE_nat)
  then show ?thesis by (simp add: word_unat_eq_iff)
qed

definition sounding :: "ac97 \<Rightarrow> 32 word set" where
  "sounding ac = {f. f < 48000 \<and> freq_to_step f \<in> set (steps (ac_voices ac))}"

text \<open>A player's history, on the card and on the abstract organ.\<close>

datatype key_event = Press "32 word" | Release "32 word" | Silence

fun play_key :: "key_event \<Rightarrow> ac97 option \<Rightarrow> ac97 option" where
  "play_key (Press f) dev = note_on f dev"
| "play_key (Release f) dev = note_off f dev"
| "play_key Silence dev = all_notes_off dev"

fun organ_spec :: "key_event \<Rightarrow> 32 word set \<Rightarrow> 32 word set" where
  "organ_spec (Press f) S = (if card S < 8 then insert f S else S)"
| "organ_spec (Release f) S = S - {f}"
| "organ_spec Silence S = {}"

fun key_note :: "key_event \<Rightarrow> 32 word option" where
  "key_note (Press f) = Some f"
| "key_note (Release f) = Some f"
| "key_note Silence = None"

definition plays_below :: "ac97 \<Rightarrow> bool" where
  "plays_below ac \<longleftrightarrow> set (steps (ac_voices ac)) \<subseteq> freq_to_step ` {f. f < 48000}"

lemma sounding_card:
  assumes "voices_ok ac" "plays_below ac"
  shows "card (sounding ac) = length (steps (ac_voices ac))"
proof -
  have "inj_on freq_to_step (sounding ac)"
    using freq_to_step_inj by (auto simp: inj_on_def sounding_def)
  then have "card (sounding ac) = card (freq_to_step ` sounding ac)" by (simp add: card_image)
  also have "freq_to_step ` sounding ac = set (steps (ac_voices ac))"
    using assms(2) by (auto simp: sounding_def plays_below_def)
  also have "card (set (steps (ac_voices ac))) = length (steps (ac_voices ac))"
    using assms(1) by (simp add: voices_ok_def distinct_card)
  finally show ?thesis .
qed

lemma play_key_step:
  assumes ok: "voices_ok ac" "plays_below ac" and below: "\<forall>f. key_note k = Some f \<longrightarrow> f < 48000"
  shows "\<exists>ac'. play_key k (Some ac) = Some ac' \<and> voices_ok ac' \<and> plays_below ac'
    \<and> sounding ac' = organ_spec k (sounding ac) \<and> ac_buffer ac' = ac_buffer ac"
proof (cases k)
  case (Press f)
  let ?s = "freq_to_step f"
  have f: "f < 48000" using below Press by simp
  have eq: "freq_to_step g = ?s \<longleftrightarrow> g = f" if "g < 48000" for g using freq_to_step_inj [OF that f] by blast
  show ?thesis
  proof (cases "retrigger ?s (ac_voices ac)")
    case None
    then have new: "?s \<notin> set (steps (ac_voices ac))" by (simp add: retrigger_None)
    let ?vs = "start_voice ?s (ac_voices ac)"
    have room: "None \<in> set (ac_voices ac) \<longleftrightarrow> card (sounding ac) < 8"
      using ok by (simp add: free_slot sounding_card voices_ok_def MAX_VOICES_def)
    have "play_key k (Some ac) = Some (ac\<lparr>ac_voices := ?vs\<rparr>)"
      using None Press by (simp add: note_on_def Let_def)
    moreover have "voices_ok (ac\<lparr>ac_voices := ?vs\<rparr>)"
      using ok(1) new start_voice_steps [of ?s "ac_voices ac"] by (simp add: voices_ok_def)
    moreover have "plays_below (ac\<lparr>ac_voices := ?vs\<rparr>)"
      using ok(2) f start_voice_steps [of ?s "ac_voices ac"] by (auto simp: plays_below_def split: if_splits)
    moreover have "sounding (ac\<lparr>ac_voices := ?vs\<rparr>) = organ_spec k (sounding ac)"
      using Press room f eq start_voice_steps [of ?s "ac_voices ac"] by (auto simp: sounding_def split: if_splits)
    ultimately show ?thesis by simp
  next
    case (Some vs)
    then have "?s \<in> set (steps (ac_voices ac))" using retrigger_None by (metis option.distinct(1))
    then have "f \<in> sounding ac" using f by (simp add: sounding_def)
    moreover have "play_key k (Some ac) = Some (ac\<lparr>ac_voices := vs\<rparr>)"
      using Some Press by (simp add: note_on_def Let_def)
    ultimately show ?thesis using ok Press retrigger_Some [OF Some]
      by (auto simp: voices_ok_def plays_below_def sounding_def insert_absorb)
  qed
next
  case (Release f)
  have "f < 48000" using below Release by simp
  then show ?thesis using ok Release freq_to_step_inj
    by (auto simp: note_off_def Let_def voices_ok_def plays_below_def sounding_def note_off_steps)
next
  case Silence
  have "steps (replicate n None) = []" for n by (induction n) simp_all
  then show ?thesis using Silence by (simp add: all_notes_off_def voices_ok_def plays_below_def sounding_def)
qed

lemma play_keys:
  assumes "voices_ok ac" "plays_below ac" "\<forall>k \<in> set ks. \<forall>f. key_note k = Some f \<longrightarrow> f < 48000"
  shows "\<exists>ac'. fold play_key ks (Some ac) = Some ac' \<and> voices_ok ac' \<and> plays_below ac'
    \<and> sounding ac' = fold organ_spec ks (sounding ac)"
  using assms
proof (induction ks arbitrary: ac)
  case (Cons k ks)
  obtain ac1 where 1: "play_key k (Some ac) = Some ac1" "voices_ok ac1" "plays_below ac1"
      "sounding ac1 = organ_spec k (sounding ac)"
    using play_key_step [OF Cons.prems(1,2), of k] Cons.prems(3) by auto
  then show ?case using Cons.IH [of ac1] Cons.prems(3) by simp
qed simp

section \<open>Refilling\<close>

definition page :: "ac97 \<Rightarrow> nat \<Rightarrow> int list" where
  "page ac k = take SAMPLES_PER_BUFFER (drop (k * SAMPLES_PER_BUFFER) (ac_buffer ac))"

definition ring_ok :: "ac97 \<Rightarrow> bool" where
  "ring_ok ac \<longleftrightarrow> length (ac_buffer ac) = BUFFERS * SAMPLES_PER_BUFFER \<and> length (ac_voices ac) = MAX_VOICES"

text \<open>How many of the pages before \<open>k\<close> are refilled.\<close>

definition marked_before :: "8 word \<Rightarrow> nat \<Rightarrow> nat" where
  "marked_before pages k = length (filter (bit pages) [0..<k])"

lemma marked_before_Suc: "marked_before pages (Suc k) = marked_before pages k + (if bit pages k then 1 else 0)"
  by (simp add: marked_before_def)

lemma refill_pages_append:
  "refill_pages pages (xs @ ys) dev = Option.bind (refill_pages pages xs dev) (refill_pages pages ys)"
  by (induction xs arbitrary: dev) (simp_all split: bind_split)

lemma splice_window:
  assumes "length p = n" "v + n \<le> length b" "u + n \<le> v \<or> u = v \<or> v + n \<le> u" "u + n \<le> length b"
  shows "take n (drop u (take v b @ p @ drop (v + n) b)) = (if u = v then p else take n (drop u b))"
proof -
  consider "u + n \<le> v" "u \<noteq> v" | "u = v" | d where "u = v + n + d" "u \<noteq> v"
    using assms(3) le_Suc_ex by blast
  then show ?thesis
  proof cases
    case 1
    then have "take n (drop u (take v b @ p @ drop (v + n) b)) = take n (drop u (take v b))"
      using assms(2) by simp
    also have "\<dots> = take n (drop u b)" using 1 by (simp add: drop_take min_def)
    finally show ?thesis using 1 by simp
  next
    case 2
    then show ?thesis using assms by simp
  next
    case (3 d)
    then show ?thesis using assms by (auto simp: ac_simps)
  qed
qed

lemma page_splice:
  assumes "length b = BUFFERS * SAMPLES_PER_BUFFER" "length p = SAMPLES_PER_BUFFER" "i < BUFFERS" "k < BUFFERS"
  shows "take SAMPLES_PER_BUFFER (drop (k * SAMPLES_PER_BUFFER)
      (take (i * SAMPLES_PER_BUFFER) b @ p @ drop (i * SAMPLES_PER_BUFFER + SAMPLES_PER_BUFFER) b))
    = (if k = i then p else take SAMPLES_PER_BUFFER (drop (k * SAMPLES_PER_BUFFER) b))"
proof -
  have pages: "j * SAMPLES_PER_BUFFER + SAMPLES_PER_BUFFER \<le> l * SAMPLES_PER_BUFFER" if "j < l" for j l
    using mult_le_mono1 [of "Suc j" l SAMPLES_PER_BUFFER] that by simp
  have "k * SAMPLES_PER_BUFFER + SAMPLES_PER_BUFFER \<le> i * SAMPLES_PER_BUFFER
      \<or> k * SAMPLES_PER_BUFFER = i * SAMPLES_PER_BUFFER
      \<or> i * SAMPLES_PER_BUFFER + SAMPLES_PER_BUFFER \<le> k * SAMPLES_PER_BUFFER"
    using pages [of k i] pages [of i k] by (cases i k rule: linorder_cases) blast+
  moreover have "k * SAMPLES_PER_BUFFER = i * SAMPLES_PER_BUFFER \<longleftrightarrow> k = i"
    by (simp add: SAMPLES_PER_BUFFER_def FRAMES_PER_BUFFER_def)
  ultimately show ?thesis
    using splice_window [of p SAMPLES_PER_BUFFER "i * SAMPLES_PER_BUFFER" b "k * SAMPLES_PER_BUFFER"]
      pages [OF assms(3)] pages [OF assms(4)] unfolding assms(1,2) by metis
qed

lemma refill_page_marked:
  assumes "ring_ok ac" "i < BUFFERS" "bit pages i"
  shows "\<exists>ac'. refill_page pages i (Some ac) = Some (Some ac') \<and> ring_ok ac'
    \<and> ac_voices ac' = advance FRAMES_PER_BUFFER (ac_voices ac)
    \<and> (\<forall>k < BUFFERS. page ac' k = (if k = i then stereo (ac_voices ac) 0 FRAMES_PER_BUFFER else page ac k))"
proof -
  have on: "pages AND push_bit i 1 \<noteq> 0" using assms(3) by (simp add: bit_iff_and_push_bit_not_eq_0)
  have r: "length (ac_buffer ac) = BUFFERS * SAMPLES_PER_BUFFER" "length (ac_voices ac) \<le> MAX_VOICES"
    using assms(1) by (simp_all add: ring_ok_def)
  have len: "i * SAMPLES_PER_BUFFER + SAMPLES_PER_BUFFER \<le> length (ac_buffer ac)"
    unfolding r using mult_le_mono1 [of "Suc i" BUFFERS SAMPLES_PER_BUFFER] assms(2) by simp
  then have p: "length (page ac i) = SAMPLES_PER_BUFFER" by (simp add: page_def)
  have s: "synthesize (ac_voices ac) (page ac i)
      = Some (advance FRAMES_PER_BUFFER (ac_voices ac), stereo (ac_voices ac) 0 FRAMES_PER_BUFFER)"
    using synthesize_stereo [OF r(2)] p by (simp add: SAMPLES_PER_BUFFER_def)
  have st: "length (stereo (ac_voices ac) 0 FRAMES_PER_BUFFER) = SAMPLES_PER_BUFFER" by (simp add: SAMPLES_PER_BUFFER_def)
  let ?b = "take (i * SAMPLES_PER_BUFFER) (ac_buffer ac) @ stereo (ac_voices ac) 0 FRAMES_PER_BUFFER
      @ drop (i * SAMPLES_PER_BUFFER + SAMPLES_PER_BUFFER) (ac_buffer ac)"
  let ?ac = "ac\<lparr>ac_voices := advance FRAMES_PER_BUFFER (ac_voices ac), ac_buffer := ?b\<rparr>"
  have "refill_page pages i (Some ac) = Some (Some ?ac)"
    using on len s by (simp add: refill_page_def Let_def page_def)
  moreover have "ring_ok ?ac" using len assms(1) st by (simp add: ring_ok_def)
  moreover have "page ?ac k = (if k = i then stereo (ac_voices ac) 0 FRAMES_PER_BUFFER else page ac k)"
    if "k < BUFFERS" for k
    using page_splice [OF r(1) st assms(2) that] by (simp add: page_def)
  ultimately show ?thesis by (intro exI [of _ ?ac]) simp
qed

lemma refill_pages_upto:
  assumes "ring_ok ac" "n \<le> BUFFERS"
  shows "\<exists>ac'. refill_pages pages [0..<n] (Some ac) = Some (Some ac') \<and> ring_ok ac'
    \<and> ac_voices ac' = advance (marked_before pages n * FRAMES_PER_BUFFER) (ac_voices ac)
    \<and> (\<forall>k < BUFFERS. page ac' k = (if k < n \<and> bit pages k
         then stereo (ac_voices ac) (marked_before pages k * FRAMES_PER_BUFFER) FRAMES_PER_BUFFER else page ac k))"
  using assms(2)
proof (induction n)
  case 0
  then show ?case using assms(1) by (simp add: marked_before_def)
next
  case (Suc n)
  obtain ac1 where 1: "refill_pages pages [0..<n] (Some ac) = Some (Some ac1)" "ring_ok ac1"
    "ac_voices ac1 = advance (marked_before pages n * FRAMES_PER_BUFFER) (ac_voices ac)"
    "\<forall>k < BUFFERS. page ac1 k = (if k < n \<and> bit pages k
       then stereo (ac_voices ac) (marked_before pages k * FRAMES_PER_BUFFER) FRAMES_PER_BUFFER else page ac k)"
    using Suc by auto
  show ?case
  proof (cases "bit pages n")
    case False
    then have "refill_page pages n (Some ac1) = Some (Some ac1)"
      by (simp add: refill_page_def bit_iff_and_push_bit_not_eq_0)
    then show ?thesis using 1 False by (auto simp: refill_pages_append marked_before_Suc less_Suc_eq)
  next
    case True
    obtain ac2 where 2: "refill_page pages n (Some ac1) = Some (Some ac2)" "ring_ok ac2"
      "ac_voices ac2 = advance FRAMES_PER_BUFFER (ac_voices ac1)"
      "\<forall>k < BUFFERS. page ac2 k = (if k = n then stereo (ac_voices ac1) 0 FRAMES_PER_BUFFER else page ac1 k)"
      using refill_page_marked [OF 1(2) _ True] Suc.prems by auto
    then show ?thesis using 1 True
      by (auto simp: refill_pages_append marked_before_Suc less_Suc_eq stereo_advance algebra_simps)
  qed
qed

section \<open>The interrupt marks what was played\<close>

lemma mark_done_marks:
  assumes "n < BDL_ENTRIES"
  shows "snd (mark_done civ n m) = civ mod BDL_ENTRIES"
    and "bit (fst (mark_done civ n m)) k
      \<longleftrightarrow> bit m k \<or> (k < 8 \<and> (\<exists>i < to_go civ n. (n + i) mod BUFFERS = k))"
proof -
  have "snd (mark_done civ n m) = civ mod BDL_ENTRIES \<and> (bit (fst (mark_done civ n m)) k
      \<longleftrightarrow> bit m k \<or> (k < 8 \<and> (\<exists>i < to_go civ n. (n + i) mod BUFFERS = k)))"
    using assms
  proof (induction civ n m rule: mark_done.induct)
    case (1 civ n m)
    show ?case
    proof (cases "n = civ mod BDL_ENTRIES")
      case True
      then have "to_go civ n = 0" by (simp add: to_go_def)
      then show ?thesis using True by (subst (1 2) mark_done.simps) simp
    next
      case False
      let ?n = "(n + 1) mod BDL_ENTRIES"
      have n: "?n < BDL_ENTRIES" by (simp add: BDL_ENTRIES_def)
      have shift: "(?n + i) mod BUFFERS = (n + Suc i) mod BUFFERS" for i
      proof -
        have dvd: "(4 :: nat) dvd 32" by simp
        have "((n + 1) mod 32 + i) mod 4 = ((n + 1) mod 32 mod 4 + i) mod 4" by (simp only: mod_add_left_eq)
        also have "\<dots> = (n + 1 + i) mod 4" unfolding mod_mod_cancel [OF dvd] by (simp only: mod_add_left_eq)
        finally show ?thesis unfolding BUFFERS_def BDL_ENTRIES_def by (simp only: add_Suc add_Suc_right One_nat_def add_0_right)
      qed
      have "(\<exists>i < to_go civ n. (n + i) mod BUFFERS = k)
          \<longleftrightarrow> n mod BUFFERS = k \<or> (\<exists>i < to_go civ ?n. (?n + i) mod BUFFERS = k)"
        unfolding to_go_Suc [OF False "1.prems"] shift by (simp add: Ex_less_Suc2)
      moreover have "bit (push_bit (n mod BUFFERS) 1 :: 8 word) k \<longleftrightarrow> k < 8 \<and> n mod BUFFERS = k"
        by (auto simp: bit_simps)
      ultimately show ?thesis using "1.IH" [OF False n] False
        by (subst (1 2) mark_done.simps) (auto simp: bit_or_iff)
    qed
  qed
  then show "snd (mark_done civ n m) = civ mod BDL_ENTRIES"
    and "bit (fst (mark_done civ n m)) k \<longleftrightarrow> bit m k \<or> (k < 8 \<and> (\<exists>i < to_go civ n. (n + i) mod BUFFERS = k))"
    by blast+
qed

lemma sound_interrupt_wakes:
  "sound_interrupt io hardware s = (s', wakes) \<Longrightarrow> so_refill_mask s' \<noteq> 0 \<Longrightarrow> so_refill_mask s \<noteq> 0 \<or> 0 < wakes"
  by (auto simp: sound_interrupt_def handle_irq_def Let_def split: prod.splits if_splits)

interpretation refill: event_source refill_look "sound_interrupt io"
  by unfold_locales (auto simp: refill_look_def dest: sound_interrupt_wakes)

section \<open>Setting up\<close>

lemma init_cases:
  obtains (fails) e b irq a' where "init io (s, a) = (Inl e, s\<lparr>so_bus := b, so_irq := irq\<rparr>, a')"
      "a' = a \<or> e = Raise ''no contiguous memory''"
  | (works) nabm phys b irq a' where
      "init io (s, a) = (Inr (), init_ring io nabm phys (s\<lparr>so_bus := b, so_irq := irq\<rparr>), a')"
      "alloc_contiguous allocate_frame (1 + BUFFERS) a = (Some phys, a')" "irq \<in> {9, 10, 11}"
      "unat nabm + 0x2C < 2 ^ 16"
proof -
  have card: "(\<exists>e b a'. init_card io mixer nabm (s, a) = (Inl e, s\<lparr>so_bus := b\<rparr>, a') \<and> (a' = a \<or> e = Raise ''no contiguous memory''))
      \<or> (\<exists>phys b a'. init_card io mixer nabm (s, a) = (Inr (), init_ring io nabm phys (s\<lparr>so_bus := b\<rparr>), a')
          \<and> alloc_contiguous allocate_frame (1 + BUFFERS) a = (Some phys, a') \<and> unat nabm + 0x2C < 2 ^ 16)"
    for mixer nabm and s :: "'a sound"
  proof (cases "in_ports nabm GLOB_CNT \<and> in_ports mixer MIXER_PCM_OUT_VOLUME")
    case False
    then have "init_card io mixer nabm (s, a) = (Inl Panicked, s\<lparr>so_bus := so_bus s\<rparr>, a)"
      by (auto simp: init_card_def)
    then show ?thesis by blast
  next
    case True
    then have n: "unat nabm + 0x2C < 2 ^ 16" by (simp add: in_ports_def GLOB_CNT_def)
    obtain r a' where r: "alloc_contiguous allocate_frame (1 + BUFFERS) a = (r, a')" by (metis surj_pair)
    show ?thesis
    proof (cases r)
      case None
      then have "init_card io mixer nabm (s, a)
          = (Inl (Raise ''no contiguous memory''), s\<lparr>so_bus := release_codec io mixer nabm (so_bus s)\<rparr>, a')"
        using r True by (simp add: init_card_def Let_def)
      then show ?thesis by blast
    next
      case (Some phys)
      then have "init_card io mixer nabm (s, a)
          = (Inr (), init_ring io nabm phys (s\<lparr>so_bus := release_codec io mixer nabm (so_bus s)\<rparr>), a')"
        using r True by (simp add: init_card_def Let_def)
      then show ?thesis using r n Some by blast
    qed
  qed
  obtain found b where f: "find_device io VENDOR_INTEL DEVICE_82801AA (so_bus s) = (found, b)" by (metis surj_pair)
  show ?thesis
  proof (cases found)
    case None
    then show ?thesis using f fails [where b = b and irq = "so_irq s"] by (simp add: init_def)
  next
    case (Some device)
    obtain bar0 b0 where b0: "io_bar io device 0 (enable_io_and_bus_master io device b) = (bar0, b0)" by (metis surj_pair)
    obtain bar1 b1 where b1: "io_bar io device 1 b0 = (bar1, b1)" by (metis surj_pair)
    obtain line b2 where b2: "interrupt_line io device b1 = (line, b2)" by (metis surj_pair)
    note eqs = f b0 b1 b2 Some
    show ?thesis
    proof (cases "\<exists>mixer nabm irq. bar0 = Some mixer \<and> bar1 = Some nabm \<and> line \<noteq> 0 \<and> \<not> 16 \<le> line
        \<and> register_pci_sound_irq line (so_irq s) = Inr irq")
      case False
      have "\<exists>e b. init io (s, a) = (Inl e, s\<lparr>so_bus := b, so_irq := so_irq s\<rparr>, a)"
        using False eqs unfolding init_def
        by (cases bar0; cases bar1; cases "register_pci_sound_irq line (so_irq s)") auto
      then show ?thesis using fails by blast
    next
      case True
      then obtain mixer nabm irq where t: "bar0 = Some mixer" "bar1 = Some nabm" "line \<noteq> 0" "\<not> 16 \<le> line"
        "register_pci_sound_irq line (so_irq s) = Inr irq" by blast
      then have i: "init io (s, a) = init_card io mixer nabm (s\<lparr>so_bus := b2, so_irq := irq\<rparr>, a)"
        using eqs unfolding init_def by simp
      have swap: "s\<lparr>so_bus := b2, so_irq := irq\<rparr>\<lparr>so_bus := b3\<rparr> = s\<lparr>so_bus := b3, so_irq := irq\<rparr>" for b3 by simp
      from card [of mixer nabm "s\<lparr>so_bus := b2, so_irq := irq\<rparr>"] show ?thesis
      proof (elim disjE exE conjE)
        fix e b3 a'
        assume "init_card io mixer nabm (s\<lparr>so_bus := b2, so_irq := irq\<rparr>, a)
            = (Inl e, s\<lparr>so_bus := b2, so_irq := irq\<rparr>\<lparr>so_bus := b3\<rparr>, a')"
        then show "a' = a \<Longrightarrow> ?thesis" "e = Raise ''no contiguous memory'' \<Longrightarrow> ?thesis"
          using fails [of e irq b3 a'] unfolding i by simp_all
      next
        fix phys b3 a'
        assume "init_card io mixer nabm (s\<lparr>so_bus := b2, so_irq := irq\<rparr>, a)
            = (Inr (), init_ring io nabm phys (s\<lparr>so_bus := b2, so_irq := irq\<rparr>\<lparr>so_bus := b3\<rparr>), a')"
          "alloc_contiguous allocate_frame (1 + BUFFERS) a = (Some phys, a')" "unat nabm + 0x2C < 2 ^ 16"
        then show ?thesis using works [of nabm phys irq b3 a'] sound_lines [OF t(5)] unfolding i swap by blast
      qed
    qed
  qed
qed

lemma bdl_entry_addr:
  "unat (bd_samples (bdl_entry_at at i)) = SAMPLES_PER_BUFFER
   \<and> (unat (bd_addr (bdl_entry_at at i)) = at + i mod BUFFERS * 4096 \<longleftrightarrow> at + i mod BUFFERS * 4096 < 2 ^ 32)"
proof -
  have "unat (of_nat x :: 32 word) = x \<longleftrightarrow> x < 2 ^ 32" for x :: nat
    by (simp add: unsigned_of_nat take_bit_nat_eq_self_iff)
  from this [of "at + i mod BUFFERS * 4096"] show ?thesis
    unfolding bdl_entry_at_def by (simp only: bdl_entry.simps)
      (simp add: SAMPLES_PER_BUFFER_def FRAMES_PER_BUFFER_def)
qed

section \<open>Properties\<close>

text \<open>C34: the synthesizer never overflows and never clips: for at most eight voices it returns, every
  frame is the sum of the voices' tones at its time on both channels, within 30720 of silence,
  the phases advance by one step per frame, and an odd last sample is left alone.\<close>

theorem synthesizer_never_clips:
  assumes "length vs \<le> MAX_VOICES"
  shows "synthesize vs out
      = Some (advance (length out div 2) vs, stereo vs 0 (length out div 2) @ drop (2 * (length out div 2)) out)
    \<and> (\<forall>s \<in> set (stereo vs 0 n). - 30720 \<le> s \<and> s \<le> 30719)"
  using synthesize_stereo [OF assms] sample_range [OF assms] by (auto simp: stereo_def)

text \<open>C35: a refill writes exactly the marked pages, one after the other in index order, each taking the
  wave up where the last one left it; the other pages stay as they are and nothing panics.\<close>

theorem refill_continues_the_wave:
  assumes "ring_ok ac"
  shows "\<exists>ac'. synth_round pages (Some ac) = Some (Some ac') \<and> ring_ok ac'
    \<and> ac_voices ac' = advance (marked_before pages BUFFERS * FRAMES_PER_BUFFER) (ac_voices ac)
    \<and> (\<forall>k < BUFFERS. page ac' k = (if bit pages k
         then stereo (ac_voices ac) (marked_before pages k * FRAMES_PER_BUFFER) FRAMES_PER_BUFFER else page ac k))"
  using refill_pages_upto [OF assms order_refl, of pages] by (auto simp: synth_round_def)

text \<open>C36: an interrupt of the card marks the pages it has played: every descriptor from the last known
  position up to the card's marks its page for the next refill, no other page is marked, marks are never
  lost, the position moves to the card's, and the synth task is woken if anything was played.\<close>

theorem irq_marks_played_pages:
  assumes "so_nabm_base s \<noteq> 0" "in16 io (so_nabm_base s + PO_SR) (so_bus s) = (status, b1)"
    and "status AND SR_INT_BITS \<noteq> 0" "unat (so_next_done s) < BDL_ENTRIES"
    and "in8 io (so_nabm_base s + PO_CIV) (out16 io (so_nabm_base s + PO_SR) (status AND SR_INT_BITS) b1) = (civ, b2)"
  defines "played \<equiv> to_go (unat civ mod BDL_ENTRIES) (unat (so_next_done s))"
  shows "\<exists>s' wakes. handle_irq io s = ((True, wakes), s')
    \<and> unat (so_next_done s') = unat civ mod BDL_ENTRIES
    \<and> (\<forall>k. bit (so_refill_mask s') k \<longleftrightarrow> bit (so_refill_mask s) k
         \<or> (\<exists>i < played. (unat (so_next_done s) + i) mod BUFFERS = k))
    \<and> (0 < wakes \<longleftrightarrow> 0 < played)
    \<and> so_bus s' = out8 io (so_nabm_base s + PO_LVI) (of_nat ((unat civ mod BDL_ENTRIES + BDL_ENTRIES - 1) mod BDL_ENTRIES)) b2"
proof -
  let ?civ = "unat civ mod BDL_ENTRIES" and ?n = "unat (so_next_done s)"
  define r where "r = mark_done ?civ ?n 0"
  have r: "r = (fst r, ?civ)" using mark_done_marks(1) [OF assms(4), of ?civ 0] by (simp add: r_def prod_eq_iff)
  have bits: "bit (fst r) k \<longleftrightarrow> (\<exists>i < played. (?n + i) mod BUFFERS = k)" for k
    using mark_done_marks(2) [OF assms(4), of ?civ 0 k] unfolding played_def r_def
    by (auto simp: BUFFERS_def)
  have none: "fst r \<noteq> 0 \<longleftrightarrow> 0 < played"
  proof (cases "0 < played")
    case True
    then have "bit (fst r) ((?n + 0) mod BUFFERS)" using bits by blast
    then show ?thesis using True by auto
  next
    case False
    then have "fst r = 0" using bits by (intro bit_word_eqI) simp
    then show ?thesis using False by simp
  qed
  have civ: "unat (of_nat ?civ :: 8 word) = ?civ" by (simp add: BDL_ENTRIES_def unat_of_nat)
  have eq: "handle_irq io s = ((True, if fst r \<noteq> 0 then 1 else 0),
      s\<lparr>so_bus := out8 io (so_nabm_base s + PO_LVI) (of_nat ((?civ + BDL_ENTRIES - 1) mod BDL_ENTRIES)) b2,
        so_next_done := of_nat ?civ,
        so_refill_mask := (if fst r \<noteq> 0 then so_refill_mask s OR fst r else so_refill_mask s)\<rparr>)"
    using assms(1-5) r unfolding handle_irq_def r_def by (auto simp: Let_def split: prod.split)
  show ?thesis unfolding eq using none civ bits by (auto simp: bit_or_iff)
qed

text \<open>C37: the refill task never sleeps over played buffers: in every interleaving of its polls with the
  card's interrupts, a parked task whose mask is not empty has been woken, and its next poll
  returns that mask and empties it.\<close>

theorem synth_never_sleeps_on_played:
  assumes "reach aw refill_look (sound_interrupt io) (waiter_new s slot) w" "atomic_waker_ok aw armed"
    and "w_at w = Parked" "so_refill_mask (w_shared w) \<noteq> 0"
  shows "w_woken w \<and> w_at (poll_step aw refill_look (poll_step aw refill_look w)) = Returned
    \<and> so_refill_mask (w_shared (poll_step aw refill_look (poll_step aw refill_look w))) = 0"
proof -
  have "w_woken w" by (rule refill.no_lost_wakeup [OF assms(1-3)]) (simp add: refill_look_def assms(4))
  then show ?thesis using assms(3,4) by (simp add: poll_step_def refill_look_def Let_def)
qed

text \<open>The organ plays the keys that are held: on a fresh card and notes below the sample rate, the
  voices after any sequence of presses and releases are those of a set of at most eight notes
  that a press adds to while there is room, a release takes from, and silence empties.\<close>

theorem organ_plays_held_keys:
  assumes "ac_voices ac = replicate MAX_VOICES None"
    and "\<forall>k \<in> set ks. \<forall>f. key_note k = Some f \<longrightarrow> f < 48000"
  shows "\<exists>ac'. fold play_key ks (Some ac) = Some ac' \<and> sounding ac' = fold organ_spec ks {}
    \<and> length (ac_voices ac') = MAX_VOICES \<and> distinct (steps (ac_voices ac'))"
proof -
  have "steps (replicate n None) = []" for n by (induction n) simp_all
  then have "voices_ok ac" "plays_below ac" "sounding ac = {}"
    using assms(1) by (simp_all add: voices_ok_def plays_below_def sounding_def)
  then show ?thesis using play_keys [OF _ _ assms(2), of ac] by (auto simp: voices_ok_def)
qed

text \<open>C33: setting the card up gives it a ring of its own or nothing: on success the five pages are frames
  that the allocator held and will not hand out again, the buffers are silent, the 32 descriptors
  go round the four pages (each with its true address exactly when the page is below 4 GiB), and the line is one with
  a handler; on an error there is no card, no descriptor list and no port for the handler but what was there before.\<close>

theorem card_set_up_or_untouched:
  "case init io (s, a) of
     (Inl e, s', a') \<Rightarrow> so_card s' = so_card s \<and> so_nabm_base s' = so_nabm_base s
       \<and> so_descriptors s' = so_descriptors s \<and> (a' = a \<or> e = Raise ''no contiguous memory'')
   | (Inr _, s', a') \<Rightarrow> \<exists>phys pre ds ac.
       upcoming_frames a = pre @ frame_run phys (1 + BUFFERS) @ upcoming_frames a'
       \<and> so_card s' = Some ac \<and> ring_ok ac \<and> ac_buffer_at ac = phys + page_size
       \<and> set (ac_buffer ac) = {0} \<and> set (ac_voices ac) = {None}
       \<and> so_descriptors s' = Some (phys, ds) \<and> length ds = BDL_ENTRIES
       \<and> (\<forall>i < BDL_ENTRIES. unat (bd_samples (ds ! i)) = SAMPLES_PER_BUFFER
            \<and> (unat (bd_addr (ds ! i)) = ac_buffer_at ac + i mod BUFFERS * page_size
               \<longleftrightarrow> ac_buffer_at ac + i mod BUFFERS * page_size < 2 ^ 32))
       \<and> so_irq s' \<in> {9, 10, 11}"
proof (cases rule: init_cases [of io s a])
  case (fails e b irq a')
  then show ?thesis by simp
next
  case (works nabm phys b irq a')
  obtain pre where pre: "upcoming_frames a = pre @ frame_run phys (1 + BUFFERS) @ upcoming_frames a'"
    using boot.alloc_run_found [of "1 + BUFFERS" 4096 None a phys a'] works(2)
    by (auto simp: alloc_contiguous_def drawn_run_def)
  let ?ac = "\<lparr>ac_buffer_at = phys + page_size, ac_buffer = replicate (BUFFERS * SAMPLES_PER_BUFFER) 0,
    ac_voices = replicate MAX_VOICES None\<rparr>"
  have "ring_ok ?ac" "set (ac_buffer ?ac) = {0}" "set (ac_voices ?ac) = {None}"
    by (simp_all add: ring_ok_def BUFFERS_def SAMPLES_PER_BUFFER_def FRAMES_PER_BUFFER_def MAX_VOICES_def)
  then show ?thesis using works(1,3) pre bdl_entry_addr [of "phys + page_size"]
    by (simp add: init_ring_def Let_def page_size_def)
qed

section \<open>The properties at work\<close>

text \<open>
  A card on the bus: function 0 of slot 0, with its mixer at port \<open>0x1000\<close>, its bus master registers
  at \<open>0x1400\<close> and line 11, and registers that read as a buffer completed at index 5.
\<close>

definition sample_config :: "32 word \<Rightarrow> 32 word" where
  "sample_config a =
     (if a = 0x80000000 then 0x24158086 else if a = 0x80000010 then 0x1001
      else if a = 0x80000014 then 0x1401 else if a = 0x8000003C then 0x10B else 0)"

definition sample_bus :: "32 word bus" where
  "sample_bus =
     \<lparr>in8 = (\<lambda>port b. (if port = 0x1400 + PO_CIV then 5 else 0, b)), in16 = (\<lambda>_ b. (8, b)),
      in32 = (\<lambda>_ b. (sample_config b, b)), out8 = (\<lambda>_ _ b. b), out16 = (\<lambda>_ _ b. b),
      out32 = (\<lambda>port v b. if port = CONFIG_ADDRESS then v else b)\<rparr>"

definition sample_sound :: "32 word sound" where
  "sample_sound = \<lparr>so_bus = 0, so_nabm_base = 0x1400, so_refill_mask = 0, so_next_done = 3, so_irq = 0,
     so_descriptors = None, so_card = None\<rparr>"

definition fresh_ac97 :: ac97 where
  "fresh_ac97 = \<lparr>ac_buffer_at = 0x2000, ac_buffer = replicate (BUFFERS * SAMPLES_PER_BUFFER) 0,
     ac_voices = replicate MAX_VOICES None\<rparr>"

theorem synthesizer_never_clips_witness:
  "synthesize [None, Some \<lparr>vo_phase = 0x40000000, vo_step = freq_to_step 440\<rparr>] [7, 7, 7]
   = Some ([None, Some \<lparr>vo_phase = 0x40000000 + freq_to_step 440, vo_step = freq_to_step 440\<rparr>],
       [1535, 1535, 7])"
proof -
  let ?vs = "[None, Some \<lparr>vo_phase = 0x40000000, vo_step = freq_to_step 440\<rparr>]"
  have "sample_at ?vs 0 = 1535"
    by (simp add: sample_at_def chord_def voice_at_def tone_def HARMONICS_def SINE_def drop_bit_eq_div)
  then show ?thesis
    using synthesizer_never_clips [of ?vs "[7, 7, 7]"]
    by (simp add: MAX_VOICES_def stereo_def advance_def voice_at_def)
qed

text \<open>
  Pages 3 and 0, in the order they were played: page 0 is written first, and so page 3, which is played
  before it, has the later part of the wave.
\<close>

theorem refill_continues_the_wave_witness:
  "\<exists>ac. synth_round 9 (Some fresh_ac97) = Some (Some ac)
    \<and> page ac 0 = stereo (ac_voices fresh_ac97) 0 FRAMES_PER_BUFFER
    \<and> page ac 3 = stereo (ac_voices fresh_ac97) FRAMES_PER_BUFFER FRAMES_PER_BUFFER"
proof -
  have "ring_ok fresh_ac97" by (simp add: ring_ok_def fresh_ac97_def)
  moreover have "marked_before 9 0 = 0" "marked_before 9 3 = 1"
    by (simp_all add: marked_before_def upt_rec bit_simps)
  moreover have "bit (9 :: 8 word) 0" "bit (9 :: 8 word) 3" by (simp_all add: bit_simps)
  ultimately show ?thesis using refill_continues_the_wave [of fresh_ac97 9]
    by (auto simp: BUFFERS_def)
qed

theorem irq_marks_played_pages_witness:
  "\<exists>s'. handle_irq sample_bus sample_sound = ((True, 1), s') \<and> bit (so_refill_mask s') 3 \<and> bit (so_refill_mask s') 0
    \<and> \<not> bit (so_refill_mask s') 1 \<and> unat (so_next_done s') = 5"
proof -
  have d: "to_go 5 3 = 2" by (simp add: to_go_def BDL_ENTRIES_def)
  have ex2: "(\<exists>i < 2. Q i) \<longleftrightarrow> Q 0 \<or> Q (Suc 0)" for Q :: "nat \<Rightarrow> bool" by (auto simp: less_2_cases_iff)
  have "handle_irq sample_bus sample_sound = ((True, 1), snd (handle_irq sample_bus sample_sound))"
    by (simp add: handle_irq_def sample_bus_def sample_sound_def SR_INT_BITS_def BDL_ENTRIES_def BUFFERS_def
        mark_done.simps [of _ 3] mark_done.simps [of _ 4] mark_done.simps [of _ 5] prod_eq_iff)
  moreover have "\<exists>s' wakes. handle_irq sample_bus sample_sound = ((True, wakes), s')
      \<and> unat (so_next_done s') = unat (5 :: 8 word) mod BDL_ENTRIES
      \<and> (\<forall>k. bit (so_refill_mask s') k \<longleftrightarrow> bit (so_refill_mask sample_sound) k
           \<or> (\<exists>i < to_go (unat (5 :: 8 word) mod BDL_ENTRIES) (unat (so_next_done sample_sound)).
                (unat (so_next_done sample_sound) + i) mod BUFFERS = k))"
    using irq_marks_played_pages [of sample_sound sample_bus 8 0 5 0]
    by (auto simp: sample_bus_def sample_sound_def SR_INT_BITS_def BDL_ENTRIES_def)
  ultimately show ?thesis
    using d ex2 by (auto simp: sample_sound_def BDL_ENTRIES_def BUFFERS_def)
qed

theorem synth_never_sleeps_on_played_witness:
  "let p = poll_step slot_waker refill_look;
       w = interrupt_step slot_waker (sound_interrupt sample_bus) id (p (p (p (waiter_new sample_sound False))))
   in w_woken w \<and> w_at (p (p w)) = Returned \<and> so_refill_mask (w_shared (p (p w))) = 0"
proof -
  let ?p = "poll_step slot_waker refill_look"
  let ?w = "interrupt_step slot_waker (sound_interrupt sample_bus) id (?p (?p (?p (waiter_new sample_sound False))))"
  have "reach slot_waker refill_look (sound_interrupt sample_bus) (waiter_new sample_sound False) ?w"
    by (intro reach_start reach_poll reach_interrupt)
  moreover have "w_at ?w = Parked" "so_refill_mask (w_shared ?w) \<noteq> 0"
    by (simp_all add: waiter_new_def poll_step_def refill_look_def interrupt_step_def sound_interrupt_def
        handle_irq_def sample_bus_def sample_sound_def SR_INT_BITS_def BDL_ENTRIES_def BUFFERS_def PO_CIV_def slot_waker_def
        mark_done.simps [of _ 3] mark_done.simps [of _ 4] mark_done.simps [of _ 5])
  ultimately show ?thesis
    using synth_never_sleeps_on_played [OF _ slot_waker_ok] by (simp add: Let_def)
qed

theorem organ_plays_held_keys_witness:
  "\<exists>ac. fold play_key [Press 440, Press 660, Release 440] (Some fresh_ac97) = Some ac \<and> sounding ac = {660}"
proof -
  have "fold organ_spec [Press 440, Press 660, Release 440] {} = {660}" by (simp add: insert_Diff_if)
  then show ?thesis
    using organ_plays_held_keys [of fresh_ac97 "[Press 440, Press 660, Release 440]"]
    by (simp add: fresh_ac97_def) blast
qed

lemma sample_init:
  "init sample_bus (s, a) = init_card sample_bus 0x1000 0x1400 (s\<lparr>so_bus := 0x8000003C, so_irq := 11\<rparr>, a)"
proof -
  have slots: "pci_slots = (0, 0) # tl pci_slots" by (simp add: pci_slots_def upt_conv_Cons)
  have fs: "map of_nat [0..<8] = (0 :: 8 word) # map of_nat [1..<8]" by (simp add: upt_rec)
  have dev: "find_device sample_bus VENDOR_INTEL DEVICE_82801AA b = (Some \<lparr>pci_bus = 0, pci_dev = 0, pci_function = 0\<rparr>, 0x80000000)" for b
    unfolding find_device_def by (subst slots)
      (simp add: fs config_read_def config_address_def sample_bus_def sample_config_def is_device_def
        VENDOR_INTEL_def DEVICE_82801AA_def drop_bit_eq_div)
  have rd: "config_read sample_bus d off b = (sample_config (config_address d off), config_address d off)"
    "config_write sample_bus d off v b = config_address d off" for d off v b
    by (simp_all add: config_read_def config_write_def sample_bus_def CONFIG_ADDRESS_def CONFIG_DATA_def)
  show ?thesis
    unfolding init_def Let_def case_prod_conv dev option.case
    by (simp add: io_bar_def enable_io_and_bus_master_def interrupt_line_def rd sample_config_def
        config_address_def register_pci_sound_irq_def)
qed

lemma sample_ports: "in_ports 0x1400 GLOB_CNT" "in_ports 0x1000 MIXER_PCM_OUT_VOLUME"
  by (simp_all add: in_ports_def GLOB_CNT_def MIXER_PCM_OUT_VOLUME_def)

theorem card_set_up_or_untouched_witness:
  "\<exists>s' a' ac ds. init sample_bus (sample_sound,
       frame_allocator_init [\<lparr>region_start = 0x100000, region_end = 0x105000, region_kind = Usable\<rparr>]) = (Inr (), s', a')
    \<and> so_irq s' = 11 \<and> so_card s' = Some ac \<and> ac_buffer_at ac = 0x101000
    \<and> so_descriptors s' = Some (0x100000, ds) \<and> unat (bd_addr (ds ! 6)) = 0x103000"
proof -
  let ?a = "frame_allocator_init [\<lparr>region_start = 0x100000, region_end = 0x105000, region_kind = Usable\<rparr>]"
  have f: "usable_frames (memory_regions ?a) = [0x100000, 0x101000, 0x102000, 0x103000, 0x104000]" "next_frame ?a = 0"
    by (simp_all add: frame_allocator_init_def usable_frames_def region_frames_def containing_address_def
        page_size_def upt_rec)
  have alloc: "fst (alloc_contiguous allocate_frame (1 + BUFFERS) ?a) = Some 0x100000"
    using f by (simp add: alloc_contiguous_def alloc_run_numeral allocate_frame_def extend_run_def page_size_def
        BUFFERS_def Let_def)
  obtain a' where a': "alloc_contiguous allocate_frame (1 + BUFFERS) ?a = (Some 0x100000, a')"
    using alloc by (metis prod.collapse)
  have "\<exists>b. init sample_bus (sample_sound, ?a)
      = (Inr (), init_ring sample_bus 0x1400 0x100000 (sample_sound\<lparr>so_irq := 11, so_bus := b\<rparr>), a')"
    unfolding sample_init init_card_def Let_def case_prod_conv a' option.case
    by (auto simp: sample_ports intro!: exI [of _ "release_codec sample_bus 0x1000 0x1400 0x8000003C"])
  then show ?thesis
    using card_set_up_or_untouched [where io = sample_bus and s = sample_sound and a = ?a]
    by (auto simp: init_ring_def Let_def bdl_entry_at_def BDL_ENTRIES_def BUFFERS_def)
qed
end
