(* ===== verification/Console.thy ===== *)
theory Console
  imports Prelude "HOL-Library.Word"
begin

unbundle bit_operations_syntax

text \<open>
  The text console on the framebuffer: \<open>console.rs\<close> and the colours of \<open>vga_buffer.rs\<close>. The
  framebuffer is a list of bytes; a slice that leaves it is a panic (\<open>None\<close>). Characters are Unicode
  code points. The font is the \<open>font8x8\<close> crate's, a parameter: what its \<open>get\<close> returns for a character.
\<close>

section \<open>Colours\<close>

datatype color =
  Black | Blue | Green | Cyan | Red | Magenta | Brown | LightGray | DarkGray | LightBlue | LightGreen
| LightCyan | LightRed | Pink | Yellow | White

fun color_value :: "color \<Rightarrow> 32 word" where
  "color_value Black = 0x000000"
| "color_value Blue = 0x0000AA"
| "color_value Green = 0x00AA00"
| "color_value Cyan = 0x00AAAA"
| "color_value Red = 0xAA0000"
| "color_value Magenta = 0xAA00AA"
| "color_value Brown = 0xAA5500"
| "color_value LightGray = 0xAAAAAA"
| "color_value DarkGray = 0x555555"
| "color_value LightBlue = 0x5555FF"
| "color_value LightGreen = 0x55FF55"
| "color_value LightCyan = 0x55FFFF"
| "color_value LightRed = 0xFF5555"
| "color_value Pink = 0xFF55FF"
| "color_value Yellow = 0xFFFF55"
| "color_value White = 0xFFFFFF"

section \<open>The console\<close>

definition SCALE :: nat where "SCALE = 2"

definition CHAR_W :: nat where "CHAR_W = 8 * SCALE"

definition CHAR_H :: nat where "CHAR_H = 8 * SCALE"

text \<open>The pixel formats of the bootloader crate that the code tells apart.\<close>

datatype pixel_format = Rgb | Bgr | Other_format

record frame_buffer_info =
  fi_width :: nat
  fi_height :: nat
  fi_stride :: nat
  fi_bytes_per_pixel :: nat
  fi_pixel_format :: pixel_format

record console =
  co_buffer :: "8 word list"
  co_info :: frame_buffer_info
  co_col :: nat
  co_row :: nat
  co_fg :: "32 word"

definition width_chars :: "console \<Rightarrow> nat" where
  "width_chars c = fi_width (co_info c) div CHAR_W"

definition height_chars :: "console \<Rightarrow> nat" where
  "height_chars c = fi_height (co_info c) div CHAR_H"

definition clear :: "console \<Rightarrow> console" where
  "clear c = c\<lparr>co_buffer := replicate (length (co_buffer c)) 0, co_col := 0, co_row := 0\<rparr>"

text \<open>The bytes of a pixel that a colour writes, in order.\<close>

definition channels :: "pixel_format \<Rightarrow> 32 word \<Rightarrow> 8 word list" where
  "channels fmt color =
     (let red = ucast (drop_bit 16 color); green = ucast (drop_bit 8 color); blue = ucast color
      in case fmt of
           Rgb \<Rightarrow> [red, green, blue]
         | Bgr \<Rightarrow> [blue, green, red]
         | Other_format \<Rightarrow> [max (max red green) blue])"

definition set_pixel :: "nat \<Rightarrow> nat \<Rightarrow> 32 word \<Rightarrow> console \<Rightarrow> console option" where
  "set_pixel x y color c =
     (let bpp = fi_bytes_per_pixel (co_info c);
          index = (y * fi_stride (co_info c) + x) * bpp;
          chs = channels (fi_pixel_format (co_info c)) color
      in if length (co_buffer c) < index + bpp \<or> bpp < length chs then None
         else Some (c\<lparr>co_buffer := take index (co_buffer c) @ chs @ drop (index + length chs) (co_buffer c)\<rparr>))"

fun set_pixels :: "(nat \<times> nat \<times> 32 word) list \<Rightarrow> console \<Rightarrow> console option" where
  "set_pixels [] c = Some c"
| "set_pixels ((x, y, color) # ps) c = Option.bind (set_pixel x y color c) (set_pixels ps)"

text \<open>The four loops of \<open>draw_glyph\<close>: the pixels in the order they are set.\<close>

definition glyph_pixels :: "nat \<Rightarrow> nat \<Rightarrow> 32 word \<Rightarrow> 8 word list \<Rightarrow> (nat \<times> nat \<times> 32 word) list" where
  "glyph_pixels x0 y0 fg glyph =
     concat (map (\<lambda>y. concat (map (\<lambda>x.
       let color = (if glyph ! y AND push_bit x 1 \<noteq> 0 then fg else 0) in
       concat (map (\<lambda>dy. map (\<lambda>dx. (x0 + x * SCALE + dx, y0 + y * SCALE + dy, color)) [0..<SCALE]) [0..<SCALE]))
     [0..<8])) [0..<length glyph])"

definition draw_glyph :: "nat \<Rightarrow> nat \<Rightarrow> 8 word list \<Rightarrow> console \<Rightarrow> console option" where
  "draw_glyph col row glyph c = set_pixels (glyph_pixels (col * CHAR_W) (row * CHAR_H) (co_fg c) glyph) c"

text \<open>Shift the whole screen up by one text row.\<close>

definition scroll :: "console \<Rightarrow> console option" where
  "scroll c =
     (let row_bytes = CHAR_H * fi_stride (co_info c) * fi_bytes_per_pixel (co_info c); b = co_buffer c
      in if length b < row_bytes then None
         else Some (c\<lparr>co_buffer := drop row_bytes b @ replicate row_bytes 0\<rparr>))"

definition newline :: "console \<Rightarrow> console option" where
  "newline c =
     (let c = c\<lparr>co_col := 0, co_row := co_row c + 1\<rparr> in
      if height_chars c \<le> co_row c
      then Option.bind (scroll c) (\<lambda>c.
        if height_chars c = 0 then None else Some (c\<lparr>co_row := height_chars c - 1\<rparr>))
      else Some c)"

definition backspace :: "console \<Rightarrow> console option" where
  "backspace c =
     (if 0 < co_col c
      then (let c = c\<lparr>co_col := co_col c - 1\<rparr> in draw_glyph (co_col c) (co_row c) (replicate 8 0) c)
      else Some c)"

type_synonym font = "nat \<Rightarrow> 8 word list option"

definition glyph_of :: "font \<Rightarrow> nat \<Rightarrow> 8 word list" where
  "glyph_of font ch =
     (case font ch of
        Some g \<Rightarrow> g
      | None \<Rightarrow> (case font 63 of Some g \<Rightarrow> g | None \<Rightarrow> replicate 8 0))"

definition put_char :: "font \<Rightarrow> nat \<Rightarrow> console \<Rightarrow> console option" where
  "put_char font ch c =
     (if ch = 10 then newline c
      else if ch = 13 then Some (c\<lparr>co_col := 0\<rparr>)
      else if ch = 8 then backspace c
      else
        Option.bind (if width_chars c \<le> co_col c then newline c else Some c) (\<lambda>c.
        Option.bind (draw_glyph (co_col c) (co_row c) (glyph_of font ch) c) (\<lambda>c.
        Some (c\<lparr>co_col := co_col c + 1\<rparr>))))"

fun write_str :: "font \<Rightarrow> nat list \<Rightarrow> console \<Rightarrow> console option" where
  "write_str font [] c = Some c"
| "write_str font (ch # s) c = Option.bind (put_char font ch c) (write_str font s)"

definition console_init :: "8 word list \<Rightarrow> frame_buffer_info \<Rightarrow> console" where
  "console_init buffer info =
     clear \<lparr>co_buffer = buffer, co_info = info, co_col = 0, co_row = 0, co_fg = color_value LightGray\<rparr>"

text \<open>The global console: printing before \<open>init\<close> is dropped, and \<open>Some None\<close> is a print on no console.\<close>

definition print_str :: "font \<Rightarrow> nat list \<Rightarrow> console option \<Rightarrow> console option option" where
  "print_str font s global =
     (case global of None \<Rightarrow> Some None | Some c \<Rightarrow> map_option Some (write_str font s c))"

definition clear_global :: "console option \<Rightarrow> console option" where
  "clear_global global = map_option clear global"

text \<open>A line of text, as \<open>println!\<close> and the log adapter print it.\<close>

definition text_of :: "string \<Rightarrow> nat list" where
  "text_of s = map of_char s"

definition line_of :: "nat list \<Rightarrow> nat list" where
  "line_of s = s @ [10]"

definition log_line :: "string \<Rightarrow> nat list \<Rightarrow> nat list" where
  "log_line level args = line_of (text_of (''['' @ level @ ''] '') @ args)"

section \<open>The screen as text\<close>

text \<open>
  What the console promises: a grid of glyphs with a cursor. A character is a glyph at the cursor; a
  character past the right edge starts a new line first; the last line scrolls.
\<close>

record screen =
  sc_grid :: "nat \<Rightarrow> nat \<Rightarrow> 8 word list"
  sc_width :: nat
  sc_height :: nat
  sc_col :: nat
  sc_row :: nat

definition blank :: "8 word list" where
  "blank = replicate 8 0"

definition blank_screen :: "nat \<Rightarrow> nat \<Rightarrow> screen" where
  "blank_screen w h = \<lparr>sc_grid = (\<lambda>_ _. blank), sc_width = w, sc_height = h, sc_col = 0, sc_row = 0\<rparr>"

definition screen_newline :: "screen \<Rightarrow> screen" where
  "screen_newline s =
     (if sc_row s + 1 < sc_height s then s\<lparr>sc_col := 0, sc_row := sc_row s + 1\<rparr>
      else s\<lparr>sc_col := 0,
        sc_grid := (\<lambda>x y. if y + 1 < sc_height s then sc_grid s x (y + 1) else blank)\<rparr>)"

definition screen_draw :: "nat \<Rightarrow> nat \<Rightarrow> 8 word list \<Rightarrow> screen \<Rightarrow> screen" where
  "screen_draw col row g s = s\<lparr>sc_grid := (sc_grid s)(col := (sc_grid s col)(row := g))\<rparr>"

definition screen_put :: "font \<Rightarrow> nat \<Rightarrow> screen \<Rightarrow> screen" where
  "screen_put font ch s =
     (if ch = 10 then screen_newline s
      else if ch = 13 then s\<lparr>sc_col := 0\<rparr>
      else if ch = 8 then
        (if 0 < sc_col s then screen_draw (sc_col s - 1) (sc_row s) blank (s\<lparr>sc_col := sc_col s - 1\<rparr>) else s)
      else
        (let s = (if sc_col s = sc_width s then screen_newline s else s)
         in screen_draw (sc_col s) (sc_row s) (glyph_of font ch) (s\<lparr>sc_col := sc_col s + 1\<rparr>)))"

text \<open>Where a byte of the framebuffer is on the screen, and what it should be.\<close>

definition px :: "console \<Rightarrow> nat \<Rightarrow> nat" where
  "px c j = (j div fi_bytes_per_pixel (co_info c)) mod fi_stride (co_info c)"

definition py :: "console \<Rightarrow> nat \<Rightarrow> nat" where
  "py c j = (j div fi_bytes_per_pixel (co_info c)) div fi_stride (co_info c)"

definition channel :: "pixel_format \<Rightarrow> 32 word \<Rightarrow> nat \<Rightarrow> 8 word" where
  "channel fmt color k = (if k < length (channels fmt color) then channels fmt color ! k else 0)"

definition glyph_color :: "32 word \<Rightarrow> 8 word list \<Rightarrow> nat \<Rightarrow> nat \<Rightarrow> 32 word" where
  "glyph_color fg g x y = (if bit (g ! (y mod 16 div 2)) (x mod 16 div 2) then fg else 0)"

definition console_ok :: "console \<Rightarrow> bool" where
  "console_ok c \<longleftrightarrow> 0 < width_chars c \<and> 0 < height_chars c
     \<and> width_chars c * 16 \<le> fi_stride (co_info c)
     \<and> length (channels (fi_pixel_format (co_info c)) 0) \<le> fi_bytes_per_pixel (co_info c)
     \<and> height_chars c * 16 * fi_stride (co_info c) * fi_bytes_per_pixel (co_info c) \<le> length (co_buffer c)"

definition displays :: "console \<Rightarrow> screen \<Rightarrow> bool" where
  "displays c s \<longleftrightarrow> console_ok c
     \<and> sc_width s = width_chars c \<and> sc_height s = height_chars c \<and> sc_col s = co_col c \<and> sc_row s = co_row c
     \<and> co_col c \<le> width_chars c \<and> co_row c < height_chars c
     \<and> (\<forall>j < length (co_buffer c).
          (width_chars c * 16 \<le> px c j \<or> height_chars c * 16 \<le> py c j \<longrightarrow> co_buffer c ! j = 0)
          \<and> (px c j < width_chars c * 16 \<and> py c j < height_chars c * 16 \<longrightarrow>
             co_buffer c ! j = channel (fi_pixel_format (co_info c))
               (glyph_color (co_fg c) (sc_grid s (px c j div 16) (py c j div 16)) (px c j) (py c j))
               (j mod fi_bytes_per_pixel (co_info c))))"

lemma channels_length: "length (channels fmt color) = length (channels fmt 0)" "0 < length (channels fmt color)"
  by (cases fmt; simp add: channels_def Let_def)+

lemma channel_0 [simp]: "channel fmt 0 k = 0"
  by (cases fmt) (auto simp: channel_def channels_def Let_def less_Suc_eq numeral_3_eq_3)

lemma glyph_color_blank [simp]: "glyph_color fg blank x y = 0"
proof -
  have "y mod 16 div 2 < 8" by (simp add: less_mult_imp_div_less)
  then show ?thesis by (simp add: glyph_color_def blank_def)
qed

lemma overwrite_nth:
  "i + length xs \<le> length b \<Longrightarrow>
   (take i b @ xs @ drop (i + length xs) b) ! j = (if i \<le> j \<and> j < i + length xs then xs ! (j - i) else b ! j)"
  by (auto simp: nth_append)

lemma console_ok_cong:
  "co_info c' = co_info c \<Longrightarrow> length (co_buffer c') = length (co_buffer c) \<Longrightarrow> console_ok c' = console_ok c"
  by (simp add: console_ok_def width_chars_def height_chars_def)

lemma console_ok_pos: "console_ok c \<Longrightarrow> 0 < fi_bytes_per_pixel (co_info c) \<and> 0 < fi_stride (co_info c)"
  using channels_length(2) [of "fi_pixel_format (co_info c)" 0]
  by (simp only: console_ok_def) (meson dual_order.strict_trans1 mult_pos_pos zero_less_numeral)

section \<open>Drawing\<close>

text \<open>The pixels of a text row lie inside the buffer.\<close>

lemma pixel_in_buffer:
  assumes "console_ok c" "x < fi_stride (co_info c)" "y < height_chars c * 16"
  shows "(y * fi_stride (co_info c) + x) * fi_bytes_per_pixel (co_info c) + fi_bytes_per_pixel (co_info c)
    \<le> length (co_buffer c)"
proof -
  let ?s = "fi_stride (co_info c)" and ?b = "fi_bytes_per_pixel (co_info c)"
  have "y * ?s + x + 1 \<le> Suc y * ?s" using assms(2) by simp
  also have "\<dots> \<le> height_chars c * 16 * ?s" using assms(3) by (intro mult_le_mono1) simp
  finally have "(y * ?s + x + 1) * ?b \<le> height_chars c * 16 * ?s * ?b" by (rule mult_le_mono1)
  then show ?thesis using assms(1) by (simp add: console_ok_def algebra_simps)
qed

lemma pixel_position:
  fixes n :: nat
  assumes "x < s" "0 < n" "l \<le> n"
  shows "(y * s + x) * n \<le> j \<and> j < (y * s + x) * n + l \<longleftrightarrow> j div n mod s = x \<and> j div n div s = y \<and> j mod n < l"
    and "(y * s + x) * n \<le> j \<and> j < (y * s + x) * n + l \<Longrightarrow> j - (y * s + x) * n = j mod n"
proof -
  have pos: "p = y * s + x \<longleftrightarrow> p mod s = x \<and> p div s = y" for p
  proof
    assume "p = y * s + x"
    then show "p mod s = x \<and> p div s = y" using assms(1) by simp
  next
    assume "p mod s = x \<and> p div s = y"
    then show "p = y * s + x" using div_mult_mod_eq [of p s] by metis
  qed
  define q where "q = y * s + x"
  have here: "j div n = q \<and> j mod n = j - q * n \<and> j mod n < l" if j: "q * n \<le> j" "j < q * n + l"
  proof -
    obtain k where k: "j = q * n + k" using le_Suc_ex [OF j(1)] by blast
    then have "k < l" using j(2) by simp
    then have "k < n" using assms(3) by simp
    then show ?thesis using k \<open>k < l\<close> by simp
  qed
  have there: "q * n \<le> j \<and> j < q * n + l" if "j div n = q" "j mod n < l"
  proof -
    have "q * n + j mod n = j" using that(1) div_mult_mod_eq [of j n] by simp
    then show ?thesis using that(2) by linarith
  qed
  show "(y * s + x) * n \<le> j \<and> j < (y * s + x) * n + l \<longleftrightarrow> j div n mod s = x \<and> j div n div s = y \<and> j mod n < l"
    unfolding pos [symmetric] q_def [symmetric] conj_assoc [symmetric] using here there pos [of "j div n"] q_def by blast
  show "(y * s + x) * n \<le> j \<and> j < (y * s + x) * n + l \<Longrightarrow> j - (y * s + x) * n = j mod n"
    unfolding q_def [symmetric] using here by simp
qed

lemma set_pixel_byte:
  assumes ok: "console_ok c" and x: "x < fi_stride (co_info c)" and y: "y < height_chars c * 16"
  shows "\<exists>b. set_pixel x y color c = Some (c\<lparr>co_buffer := b\<rparr>) \<and> length b = length (co_buffer c)
    \<and> (\<forall>j < length b. b ! j =
         (if px c j = x \<and> py c j = y \<and> j mod fi_bytes_per_pixel (co_info c) < length (channels (fi_pixel_format (co_info c)) 0)
          then channels (fi_pixel_format (co_info c)) color ! (j mod fi_bytes_per_pixel (co_info c))
          else co_buffer c ! j))"
proof -
  let ?s = "fi_stride (co_info c)" and ?n = "fi_bytes_per_pixel (co_info c)"
  let ?chs = "channels (fi_pixel_format (co_info c)) color"
  define i where "i = (y * ?s + x) * ?n"
  have len: "i + ?n \<le> length (co_buffer c)" unfolding i_def by (rule pixel_in_buffer [OF ok x y])
  have chs: "length ?chs \<le> ?n" "length ?chs = length (channels (fi_pixel_format (co_info c)) 0)"
    using ok by (simp_all add: console_ok_def channels_length(1) [of _ color])
  have n: "0 < ?n" using console_ok_pos [OF ok] by simp
  have at: "i \<le> j \<and> j < i + length ?chs \<longleftrightarrow> px c j = x \<and> py c j = y \<and> j mod ?n < length ?chs"
    and off: "i \<le> j \<and> j < i + length ?chs \<Longrightarrow> j - i = j mod ?n" for j
    unfolding i_def px_def py_def using pixel_position [OF x n chs(1)] by blast+
  let ?b = "take i (co_buffer c) @ ?chs @ drop (i + length ?chs) (co_buffer c)"
  have fits: "i + length ?chs \<le> length (co_buffer c)" using len chs(1) by simp
  have "set_pixel x y color c = Some (c\<lparr>co_buffer := ?b\<rparr>)"
    using len chs(1) by (simp add: set_pixel_def Let_def i_def [symmetric])
  moreover have "length ?b = length (co_buffer c)" using fits by simp
  ultimately show ?thesis using overwrite_nth [OF fits] at off chs(2) by (intro exI [of _ ?b]) auto
qed

lemma set_pixels_bytes:
  assumes "console_ok c"
    and "\<forall>(x, y, color) \<in> set ps. x < fi_stride (co_info c) \<and> y < height_chars c * 16 \<and> color = f x y"
  shows "\<exists>b. set_pixels ps c = Some (c\<lparr>co_buffer := b\<rparr>) \<and> length b = length (co_buffer c)
    \<and> (\<forall>j < length b. b ! j =
         (if (\<exists>color. (px c j, py c j, color) \<in> set ps)
            \<and> j mod fi_bytes_per_pixel (co_info c) < length (channels (fi_pixel_format (co_info c)) 0)
          then channels (fi_pixel_format (co_info c)) (f (px c j) (py c j)) ! (j mod fi_bytes_per_pixel (co_info c))
          else co_buffer c ! j))"
  using assms
proof (induction ps arbitrary: c)
  case Nil
  then show ?case by (intro exI [of _ "co_buffer c"]) simp
next
  case (Cons p ps)
  obtain x y color where p: "p = (x, y, color)" by (metis surj_pair)
  then have xy: "x < fi_stride (co_info c)" "y < height_chars c * 16" "color = f x y" using Cons.prems(2) by auto
  obtain b where b: "set_pixel x y color c = Some (c\<lparr>co_buffer := b\<rparr>)" "length b = length (co_buffer c)"
    "\<forall>j < length b. b ! j =
       (if px c j = x \<and> py c j = y \<and> j mod fi_bytes_per_pixel (co_info c) < length (channels (fi_pixel_format (co_info c)) 0)
        then channels (fi_pixel_format (co_info c)) color ! (j mod fi_bytes_per_pixel (co_info c))
        else co_buffer c ! j)"
    using set_pixel_byte [OF Cons.prems(1) xy(1,2)] by blast
  let ?c = "c\<lparr>co_buffer := b\<rparr>"
  have ok: "console_ok ?c" using Cons.prems(1) b(2) console_ok_cong [of ?c c] by simp
  have same: "px ?c = px c" "py ?c = py c" "height_chars ?c = height_chars c"
    by (auto simp: px_def py_def height_chars_def)
  obtain b' where b': "set_pixels ps ?c = Some (?c\<lparr>co_buffer := b'\<rparr>)" "length b' = length b"
    "\<forall>j < length b'. b' ! j =
       (if (\<exists>color. (px c j, py c j, color) \<in> set ps)
          \<and> j mod fi_bytes_per_pixel (co_info c) < length (channels (fi_pixel_format (co_info c)) 0)
        then channels (fi_pixel_format (co_info c)) (f (px c j) (py c j)) ! (j mod fi_bytes_per_pixel (co_info c))
        else b ! j)"
    using Cons.IH [OF ok] Cons.prems(2) unfolding same by auto
  have "set_pixels (p # ps) c = Some (c\<lparr>co_buffer := b'\<rparr>)" using b(1) b'(1) p by simp
  moreover have "length b' = length (co_buffer c)" using b(2) b'(2) by simp
  ultimately show ?case using b(2,3) b'(2,3) xy(3) p by (intro exI [of _ b']) auto
qed

lemma cell_position: "x div 16 = col \<longleftrightarrow> (\<exists>i < 8. \<exists>d < 2. x = col * 16 + i * 2 + d)" for x :: nat
proof
  assume "x div 16 = col"
  then have "x = col * 16 + x mod 16 div 2 * 2 + x mod 16 mod 2" by (metis div_mult_mod_eq add.assoc)
  moreover have "x mod 16 div 2 < 8" "x mod 16 mod 2 < 2" by (simp_all add: less_mult_imp_div_less)
  ultimately show "\<exists>i < 8. \<exists>d < 2. x = col * 16 + i * 2 + d" by blast
next
  assume "\<exists>i < 8. \<exists>d < 2. x = col * 16 + i * 2 + d"
  then obtain i d where "i < 8" "d < 2" "x = col * 16 + (i * 2 + d)" by (auto simp: add.assoc)
  moreover from this have "i * 2 + d < 16" by simp
  ultimately show "x div 16 = col" by simp
qed

lemma cell_bit: "i < 8 \<Longrightarrow> d < 2 \<Longrightarrow> (col * 16 + i * 2 + d) mod 16 div 2 = (i :: nat)"
proof -
  assume "i < 8" "d < 2"
  then have "i * 2 + d < 16" by simp
  then have "(col * 16 + (i * 2 + d)) mod 16 = i * 2 + d" by simp
  then show ?thesis using \<open>d < 2\<close> by (simp add: add.assoc)
qed

lemma loop_mem:
  "p \<in> set (concat (map G [0..<n])) \<longleftrightarrow> (\<exists>i < n. p \<in> set (G i))"
  "p \<in> set (map H [0..<n]) \<longleftrightarrow> (\<exists>i < n. p = H i)"
  by auto

lemma cell_size: "CHAR_W = 16" "CHAR_H = 16"
  by (simp_all add: CHAR_W_def CHAR_H_def SCALE_def)

lemma loops_mem:
  "p \<in> set (concat (map (\<lambda>i. concat (map (\<lambda>j. concat (map (\<lambda>k. map (\<lambda>l. F i j k l) [0..<d]) [0..<c])) [0..<b])) [0..<a]))
   \<longleftrightarrow> (\<exists>i < a. \<exists>j < b. \<exists>k < c. \<exists>l < d. p = F i j k l)"
  by (simp only: loop_mem)

lemma glyph_pixels_mem:
  assumes "length g = 8"
  shows "(x, y, color) \<in> set (glyph_pixels (col * CHAR_W) (row * CHAR_H) fg g)
    \<longleftrightarrow> x div 16 = col \<and> y div 16 = row \<and> color = glyph_color fg g x y"
proof -
  have "(x, y, color) \<in> set (glyph_pixels (col * CHAR_W) (row * CHAR_H) fg g)
    \<longleftrightarrow> (\<exists>gy < 8. \<exists>gx < 8. \<exists>dy < 2. \<exists>dx < 2. x = col * 16 + gx * 2 + dx \<and> y = row * 16 + gy * 2 + dy
         \<and> color = (if bit (g ! gy) gx then fg else 0))"
    unfolding glyph_pixels_def Let_def bit_iff_and_push_bit_not_eq_0 assms cell_size loops_mem SCALE_def
    by (simp only: prod.inject conj_assoc)
  also have "\<dots> \<longleftrightarrow> (\<exists>gy < 8. \<exists>dy < 2. y = row * 16 + gy * 2 + dy) \<and> (\<exists>gx < 8. \<exists>dx < 2. x = col * 16 + gx * 2 + dx)
      \<and> color = glyph_color fg g x y"
  proof -
    define K where "K gy gx = (if bit (g ! gy) gx then fg else 0)" for gy gx
    have K: "K gy gx = glyph_color fg g x y"
      if "gy < 8" "gx < 8" "dy < 2" "dx < 2" "x = col * 16 + gx * 2 + dx" "y = row * 16 + gy * 2 + dy" for gy gx dy dx
      using that cell_bit [of gx dx col] cell_bit [of gy dy row] by (simp add: glyph_color_def K_def)
    show ?thesis unfolding K_def [symmetric]
    proof
      assume "\<exists>gy < 8. \<exists>gx < 8. \<exists>dy < 2. \<exists>dx < 2. x = col * 16 + gx * 2 + dx \<and> y = row * 16 + gy * 2 + dy \<and> color = K gy gx"
      then obtain gy dy gx dx where at: "gy < 8" "gx < 8" "dy < 2" "dx < 2" "x = col * 16 + gx * 2 + dx" "y = row * 16 + gy * 2 + dy"
        and "color = K gy gx" by blast
      then have "color = glyph_color fg g x y" using K [OF at] by simp
      then show "(\<exists>gy < 8. \<exists>dy < 2. y = row * 16 + gy * 2 + dy) \<and> (\<exists>gx < 8. \<exists>dx < 2. x = col * 16 + gx * 2 + dx)
        \<and> color = glyph_color fg g x y"
        using at by blast
    next
      assume a: "(\<exists>gy < 8. \<exists>dy < 2. y = row * 16 + gy * 2 + dy) \<and> (\<exists>gx < 8. \<exists>dx < 2. x = col * 16 + gx * 2 + dx)
        \<and> color = glyph_color fg g x y"
      then obtain gy dy gx dx where at: "gy < 8" "gx < 8" "dy < 2" "dx < 2" "x = col * 16 + gx * 2 + dx" "y = row * 16 + gy * 2 + dy"
        by blast
      then show "\<exists>gy < 8. \<exists>gx < 8. \<exists>dy < 2. \<exists>dx < 2. x = col * 16 + gx * 2 + dx \<and> y = row * 16 + gy * 2 + dy \<and> color = K gy gx"
        using a K [OF at] by metis
    qed
  qed
  finally show ?thesis unfolding cell_position by blast
qed

lemma draw_displays:
  assumes d: "displays c s" and g: "length g = 8" and at: "col < width_chars c" "row < height_chars c"
  shows "\<exists>b. draw_glyph col row g c = Some (c\<lparr>co_buffer := b\<rparr>)
    \<and> displays (c\<lparr>co_buffer := b\<rparr>) (screen_draw col row g s)"
proof -
  let ?n = "fi_bytes_per_pixel (co_info c)" and ?fmt = "fi_pixel_format (co_info c)"
  let ?ps = "glyph_pixels (col * CHAR_W) (row * CHAR_H) (co_fg c) g"
  have ok: "console_ok c" using d by (simp add: displays_def)
  have wide: "x < width_chars c * 16" if "x div 16 = col" for x
    using that at(1) by (metis div_less_iff_less_mult zero_less_numeral)
  have high: "y < height_chars c * 16" if "y div 16 = row" for y
    using that at(2) by (metis div_less_iff_less_mult zero_less_numeral)
  have "\<forall>(x, y, color) \<in> set ?ps. x < fi_stride (co_info c) \<and> y < height_chars c * 16 \<and> color = glyph_color (co_fg c) g x y"
    using wide high ok glyph_pixels_mem [OF g] by (fastforce simp: console_ok_def)
  then obtain b where b: "set_pixels ?ps c = Some (c\<lparr>co_buffer := b\<rparr>)" "length b = length (co_buffer c)"
    "\<forall>j < length b. b ! j =
       (if (\<exists>color. (px c j, py c j, color) \<in> set ?ps) \<and> j mod ?n < length (channels ?fmt 0)
        then channels ?fmt (glyph_color (co_fg c) g (px c j) (py c j)) ! (j mod ?n) else co_buffer c ! j)"
    using set_pixels_bytes [OF ok, of ?ps "glyph_color (co_fg c) g"] by blast
  let ?c = "c\<lparr>co_buffer := b\<rparr>"
  have same: "px ?c = px c" "py ?c = py c" "height_chars ?c = height_chars c" "width_chars ?c = width_chars c"
    by (auto simp: px_def py_def height_chars_def width_chars_def)
  have cell: "(\<exists>color. (px c j, py c j, color) \<in> set ?ps) \<longleftrightarrow> px c j div 16 = col \<and> py c j div 16 = row" for j
    using glyph_pixels_mem [OF g] by blast
  have byte: "b ! j = channel ?fmt (glyph_color (co_fg c)
        (sc_grid (screen_draw col row g s) (px c j div 16) (py c j div 16)) (px c j) (py c j)) (j mod ?n)"
    if "j < length b" "px c j < width_chars c * 16" "py c j < height_chars c * 16" for j
  proof -
    have old: "co_buffer c ! j = channel ?fmt (glyph_color (co_fg c)
        (sc_grid s (px c j div 16) (py c j div 16)) (px c j) (py c j)) (j mod ?n)"
      using d that b(2) by (simp add: displays_def)
    show ?thesis
      using b(3) [rule_format, OF that(1)] old
      by (auto simp: cell screen_draw_def channel_def channels_length(1) [of ?fmt "glyph_color _ _ _ _"] split: if_splits)
  qed
  have "b ! j = 0" if "j < length b" "width_chars c * 16 \<le> px c j \<or> height_chars c * 16 \<le> py c j" for j
  proof -
    have "\<not> (px c j div 16 = col \<and> py c j div 16 = row)" using that(2) high wide by fastforce
    then have "b ! j = co_buffer c ! j" using b(3) that(1) by (auto simp: cell)
    then show ?thesis using that d b(2) by (auto simp: displays_def)
  qed
  moreover have "console_ok ?c" using ok b(2) console_ok_cong [of ?c c] by simp
  ultimately have "displays ?c (screen_draw col row g s)"
    using d byte b(2) unfolding displays_def same by (simp add: screen_draw_def)
  then show ?thesis using b(1) by (auto simp: draw_glyph_def)
qed

section \<open>Scrolling and writing\<close>

lemma scroll_displays:
  assumes d: "displays c s" and last: "co_row c + 1 = height_chars c"
  shows "\<exists>c'. newline c = Some c' \<and> displays c' (screen_newline s)"
proof -
  let ?n = "fi_bytes_per_pixel (co_info c)" and ?s = "fi_stride (co_info c)"
  have ok: "console_ok c" using d by (simp add: displays_def)
  have pos: "0 < ?n" "0 < ?s" using console_ok_pos [OF ok] by simp_all
  define rb where "rb = CHAR_H * ?s * ?n"
  have big: "height_chars c * rb \<le> length (co_buffer c)"
    using ok by (simp add: console_ok_def rb_def cell_size mult.assoc)
  have "1 * rb \<le> height_chars c * rb" using ok by (intro mult_le_mono1) (simp add: console_ok_def)
  from order_trans [OF this big] have rb: "rb \<le> length (co_buffer c)" by (simp only: mult_1)
  let ?b = "drop rb (co_buffer c) @ replicate rb 0"
  let ?c = "c\<lparr>co_buffer := ?b, co_col := 0, co_row := height_chars c - 1\<rparr>"
  have nl: "newline c = Some ?c"
    using last rb ok by (simp add: newline_def scroll_def Let_def height_chars_def rb_def console_ok_def)
  have same: "px ?c = px c" "py ?c = py c" "height_chars ?c = height_chars c" "width_chars ?c = width_chars c"
    by (auto simp: px_def py_def height_chars_def width_chars_def)
  have jump: "px c (j + rb) = px c j" "py c (j + rb) = py c j + 16" "(j + rb) mod ?n = j mod ?n" for j
  proof -
    have "(j + rb) div ?n = j div ?n + 16 * ?s" using pos by (simp add: rb_def cell_size)
    then show "px c (j + rb) = px c j" "py c (j + rb) = py c j + 16" using pos by (simp_all add: px_def py_def)
    show "(j + rb) mod ?n = j mod ?n" by (simp add: rb_def)
  qed
  have nth: "?b ! j = (if j + rb < length (co_buffer c) then co_buffer c ! (j + rb) else 0)"
    if "j < length (co_buffer c)" for j
    using that rb by (auto simp: nth_append add.commute)
  have inside: "j < length (co_buffer c)" if "py c j < height_chars c * 16" for j
  proof -
    have "j < height_chars c * 16 * ?s * ?n"
      using that pos unfolding py_def by (simp add: div_less_iff_less_mult mult.assoc)
    then show ?thesis using ok by (simp add: console_ok_def)
  qed
  have len: "length ?b = length (co_buffer c)" using rb by simp
  have zero: "?b ! j = 0" if j: "j < length (co_buffer c)" and "(height_chars c - 1) * 16 \<le> py c j" for j
  proof -
    have "height_chars c * 16 \<le> py c (j + rb)"
      using that(2) last unfolding jump by (cases "height_chars c") simp_all
    then show ?thesis using d nth [OF j] by (simp add: displays_def)
  qed
  have moved: "?b ! j = channel (fi_pixel_format (co_info c))
      (glyph_color (co_fg c) (sc_grid (screen_newline s) (px c j div 16) (py c j div 16)) (px c j) (py c j)) (j mod ?n)"
    if j: "j < length (co_buffer c)" "px c j < width_chars c * 16" "py c j < height_chars c * 16" for j
  proof -
    have grid: "sc_grid (screen_newline s) x y = (if y + 1 < height_chars c then sc_grid s x (y + 1) else blank)" for x y
      using d last by (simp add: screen_newline_def displays_def)
    show ?thesis
    proof (cases "py c j div 16 + 1 < height_chars c")
      case True
      then have up: "py c (j + rb) < height_chars c * 16" unfolding jump by (simp add: div_less_iff_less_mult [symmetric])
      moreover have "(py c j + 16) div 16 = py c j div 16 + 1" "(py c j + 16) mod 16 = py c j mod 16" by simp_all
      ultimately show ?thesis
        using d j(2) inside [OF up] nth [OF j(1)] True jump [of j] unfolding grid
        by (simp add: displays_def glyph_color_def)
    next
      case False
      then have "height_chars c - 1 \<le> py c j div 16" by simp
      then have "(height_chars c - 1) * 16 \<le> py c j"
        using div_times_less_eq_dividend [of "py c j" 16] mult_le_mono1 [of "height_chars c - 1" "py c j div 16" 16] by simp
      then show ?thesis using zero [OF j(1)] False unfolding grid by simp
    qed
  qed
  have "?b ! j = 0" if j: "j < length (co_buffer c)"
    and out: "width_chars c * 16 \<le> px c j \<or> height_chars c * 16 \<le> py c j" for j
  proof (cases "height_chars c * 16 \<le> py c j")
    case True
    then show ?thesis using zero [OF j] by simp
  next
    case False
    then have "width_chars c * 16 \<le> px c (j + rb)" using out jump by simp
    then show ?thesis using d nth [OF j] by (simp add: displays_def)
  qed
  moreover have "console_ok ?c" using ok len console_ok_cong [of ?c c] by simp
  ultimately have "displays ?c (screen_newline s)"
    using d moved last len unfolding displays_def same by (auto simp: screen_newline_def)
  then show ?thesis using nl by blast
qed

lemma newline_displays:
  assumes "displays c s"
  shows "\<exists>c'. newline c = Some c' \<and> displays c' (screen_newline s)"
proof (cases "co_row c + 1 < height_chars c")
  case True
  let ?c = "c\<lparr>co_col := 0, co_row := co_row c + 1\<rparr>"
  have "newline c = Some ?c" using True by (simp add: newline_def Let_def height_chars_def)
  moreover have "displays ?c (screen_newline s)"
    using assms True by (simp add: displays_def screen_newline_def px_def py_def console_ok_def height_chars_def width_chars_def)
  ultimately show ?thesis by blast
next
  case False
  then show ?thesis using scroll_displays [OF assms] assms by (simp add: displays_def)
qed

definition font_ok :: "font \<Rightarrow> bool" where
  "font_ok font \<longleftrightarrow> (\<forall>ch g. font ch = Some g \<longrightarrow> length g = 8)"

lemma glyph_of_length: "font_ok font \<Longrightarrow> length (glyph_of font ch) = 8"
  by (auto simp: glyph_of_def font_ok_def split: option.split)

lemma displays_move:
  "displays c s \<Longrightarrow> k \<le> width_chars c \<Longrightarrow> displays (c\<lparr>co_col := k\<rparr>) (s\<lparr>sc_col := k\<rparr>)"
  by (simp add: displays_def px_def py_def console_ok_def height_chars_def width_chars_def)

lemma screen_draw_move: "screen_draw col row g (s\<lparr>sc_col := k\<rparr>) = (screen_draw col row g s)\<lparr>sc_col := k\<rparr>"
  by (simp add: screen_draw_def)

lemma put_char_displays:
  assumes d: "displays c s" and font: "font_ok font"
  shows "\<exists>c'. put_char font ch c = Some c' \<and> displays c' (screen_put font ch s)"
proof -
  have at: "sc_col s = co_col c" "sc_row s = co_row c" "sc_width s = width_chars c"
    "co_col c \<le> width_chars c" "co_row c < height_chars c" "0 < width_chars c"
    using d by (simp_all add: displays_def console_ok_def)
  consider (nl) "ch = 10" | (cr) "ch = 13" | (bs) "ch = 8" | (glyph) "ch \<noteq> 10" "ch \<noteq> 13" "ch \<noteq> 8" by blast
  then show ?thesis
  proof cases
    case nl
    then show ?thesis using newline_displays [OF d] by (simp add: put_char_def screen_put_def)
  next
    case cr
    then show ?thesis using displays_move [OF d, of 0] by (simp add: put_char_def screen_put_def)
  next
    case bs
    show ?thesis
    proof (cases "0 < co_col c")
      case True
      let ?c = "c\<lparr>co_col := co_col c - 1\<rparr>"
      have m: "displays ?c (s\<lparr>sc_col := co_col c - 1\<rparr>)" using displays_move [OF d, of "co_col c - 1"] at(4) by simp
      have "co_col c - 1 < width_chars ?c" "co_row c < height_chars ?c"
        using at(4-6) True by (simp_all add: width_chars_def height_chars_def)
      then obtain b where "draw_glyph (co_col c - 1) (co_row c) blank ?c = Some (?c\<lparr>co_buffer := b\<rparr>)"
        "displays (?c\<lparr>co_buffer := b\<rparr>) (screen_draw (co_col c - 1) (co_row c) blank (s\<lparr>sc_col := co_col c - 1\<rparr>))"
        using draw_displays [OF m, of blank "co_col c - 1" "co_row c"] by (auto simp: blank_def)
      then show ?thesis using bs True at by (simp add: put_char_def screen_put_def backspace_def blank_def)
    next
      case False
      then show ?thesis using bs d at by (simp add: put_char_def screen_put_def backspace_def)
    qed
  next
    case glyph
    define s1 where "s1 = (if sc_col s = sc_width s then screen_newline s else s)"
    have "\<exists>c1. (if width_chars c \<le> co_col c then newline c else Some c) = Some c1 \<and> displays c1 s1"
      using newline_displays [OF d] d at by (cases "co_col c = width_chars c") (auto simp: s1_def)
    then obtain c1 where c1: "(if width_chars c \<le> co_col c then newline c else Some c) = Some c1" "displays c1 s1"
      by blast
    have s1: "sc_col s1 = co_col c1" "sc_row s1 = co_row c1" "co_row c1 < height_chars c1" "sc_width s1 = width_chars c1"
      using c1(2) by (simp_all add: displays_def)
    have room: "co_col c1 < width_chars c1"
      using s1(1,4) at by (auto simp: s1_def screen_newline_def split: if_splits)
    obtain b where b: "draw_glyph (co_col c1) (co_row c1) (glyph_of font ch) c1 = Some (c1\<lparr>co_buffer := b\<rparr>)"
      "displays (c1\<lparr>co_buffer := b\<rparr>) (screen_draw (co_col c1) (co_row c1) (glyph_of font ch) s1)"
      using draw_displays [OF c1(2) glyph_of_length [OF font] room s1(3)] by blast
    have "put_char font ch c = Some (c1\<lparr>co_buffer := b, co_col := co_col c1 + 1\<rparr>)"
      using glyph c1(1) b(1) by (simp add: put_char_def)
    moreover have "displays (c1\<lparr>co_buffer := b, co_col := co_col c1 + 1\<rparr>) (screen_put font ch s)"
      using displays_move [OF b(2), of "co_col c1 + 1"] room glyph s1
      by (simp add: screen_put_def Let_def screen_draw_move width_chars_def flip: s1_def)
    ultimately show ?thesis by blast
  qed
qed

lemma write_str_displays:
  "displays c s \<Longrightarrow> font_ok font \<Longrightarrow> \<exists>c'. write_str font str c = Some c' \<and> displays c' (fold (screen_put font) str s)"
proof (induction str arbitrary: c s)
  case (Cons ch str)
  obtain c1 where "put_char font ch c = Some c1" "displays c1 (screen_put font ch s)"
    using put_char_displays [OF Cons.prems] by blast
  then show ?case using Cons.IH [OF _ Cons.prems(2)] by simp
qed auto

lemma clear_displays:
  assumes "console_ok c"
  shows "displays (clear c) (blank_screen (width_chars c) (height_chars c))"
proof -
  have "console_ok (clear c)" using assms console_ok_cong [of "clear c" c] by (simp add: clear_def)
  then show ?thesis using assms
    by (simp add: displays_def clear_def blank_screen_def width_chars_def height_chars_def console_ok_def)
qed

text \<open>Backspace takes back what was typed, as long as the line has not wrapped.\<close>

definition printable :: "nat \<Rightarrow> bool" where
  "printable ch \<longleftrightarrow> ch \<notin> {8, 10, 13}"

definition blank_after :: "screen \<Rightarrow> bool" where
  "blank_after s \<longleftrightarrow> (\<forall>x \<ge> sc_col s. sc_grid s x (sc_row s) = blank)"

lemma screen_put_printable:
  "printable ch \<Longrightarrow> sc_col s < sc_width s \<Longrightarrow>
   screen_put font ch s = screen_draw (sc_col s) (sc_row s) (glyph_of font ch) (s\<lparr>sc_col := sc_col s + 1\<rparr>)"
  by (simp add: screen_put_def printable_def Let_def)

lemma erase_restores:
  assumes "\<forall>ch \<in> set cs. printable ch" "sc_col s + length cs \<le> sc_width s" "blank_after s"
  shows "fold (screen_put font) (cs @ replicate (length cs) 8) s = s"
  using assms
proof (induction cs arbitrary: s)
  case (Cons ch cs)
  let ?s = "screen_put font ch s"
  have put: "?s = screen_draw (sc_col s) (sc_row s) (glyph_of font ch) (s\<lparr>sc_col := sc_col s + 1\<rparr>)"
    by (rule screen_put_printable) (use Cons.prems in simp_all)
  have "fold (screen_put font) (cs @ replicate (length cs) 8) ?s = ?s"
    using Cons.prems by (intro Cons.IH) (auto simp: put screen_draw_def blank_after_def)
  moreover have "screen_put font 8 ?s = s"
  proof -
    have "(sc_grid s)(sc_col s := (sc_grid s (sc_col s))(sc_row s := blank)) = sc_grid s"
      using Cons.prems(3) by (auto simp: blank_after_def fun_eq_iff)
    then show ?thesis unfolding put by (simp add: screen_put_def screen_draw_def)
  qed
  ultimately show ?case by (simp add: funpow_swap1 [symmetric])
qed simp

text \<open>After a wrap the second backspace does nothing: the character before the wrap stays on the screen.\<close>

lemma erase_stops_at_wrap:
  assumes "printable ch" "sc_col s = sc_width s"
  shows "screen_put font 8 (screen_put font 8 (screen_put font ch s)) = screen_put font 8 (screen_put font ch s)"
  using assms by (simp add: screen_put_def printable_def Let_def screen_draw_def screen_newline_def)

section \<open>Properties\<close>

lemma console_starts_blank:
  assumes "console_ok (console_init buffer info)"
  shows "displays (console_init buffer info) (blank_screen (fi_width info div CHAR_W) (fi_height info div CHAR_H))"
proof -
  let ?c = "\<lparr>co_buffer = buffer, co_info = info, co_col = 0, co_row = 0, co_fg = color_value LightGray\<rparr>"
  have "console_ok ?c" using assms console_ok_cong [of "clear ?c" ?c] by (simp add: console_init_def clear_def)
  from clear_displays [OF this] show ?thesis by (simp add: console_init_def width_chars_def height_chars_def)
qed

text \<open>C38: the console shows the text that is printed: on a framebuffer at least one character wide
  and high, whose lines fit the buffer, printing never panics, and every byte of the buffer is that of
  the text screen (a grid of glyphs with a cursor, wrapping and scrolling) after the same characters: inside
  the grid the channel of its pixel, outside (right of the last column, below the last row) 0.\<close>

theorem console_shows_text:
  assumes "font_ok font" "console_ok (console_init buffer info)"
  shows "\<exists>c. write_str font str (console_init buffer info) = Some c
    \<and> displays c (fold (screen_put font) str (blank_screen (fi_width info div CHAR_W) (fi_height info div CHAR_H)))"
  using write_str_displays [OF console_starts_blank [OF assms(2)] assms(1)] .

theorem console_shows_text_witness:
  "\<exists>c. write_str (\<lambda>_. None) [72, 10, 105, 8] (console_init (replicate 4096 1)
       \<lparr>fi_width = 40, fi_height = 32, fi_stride = 40, fi_bytes_per_pixel = 3, fi_pixel_format = Bgr\<rparr>) = Some c
    \<and> co_col c = 0 \<and> co_row c = 1"
proof -
  let ?i = "\<lparr>fi_width = 40, fi_height = 32, fi_stride = 40, fi_bytes_per_pixel = 3, fi_pixel_format = Bgr\<rparr>"
  have "font_ok (\<lambda>_. None)" by (simp add: font_ok_def)
  moreover have "console_ok (console_init (replicate 4096 1) ?i)"
    by (simp add: console_ok_def console_init_def clear_def width_chars_def height_chars_def cell_size channels_def)
  ultimately have "\<exists>c. write_str (\<lambda>_. None) [72, 10, 105, 8] (console_init (replicate 4096 1) ?i) = Some c
    \<and> displays c (fold (screen_put (\<lambda>_. None)) [72, 10, 105, 8] (blank_screen 2 2))"
    using console_shows_text [of "\<lambda>_. None" "replicate 4096 1" ?i "[72, 10, 105, 8]"] by (simp add: cell_size)
  moreover have "sc_col (fold (screen_put (\<lambda>_. None)) [72, 10, 105, 8] (blank_screen 2 2)) = 0"
    "sc_row (fold (screen_put (\<lambda>_. None)) [72, 10, 105, 8] (blank_screen 2 2)) = 1"
    by (simp_all add: screen_put_def screen_newline_def screen_draw_def blank_screen_def)
  ultimately show ?thesis by (auto simp: displays_def)
qed
end
