(* ===== verification/Usermode.thy ===== *)
theory Usermode
  imports Driver Memory "HOL-Library.Word"
begin

unbundle bit_operations_syntax

text \<open>
  Userspace: \<open>usermode.rs\<close> and the selectors of \<open>gdt.rs\<close>. The system call dispatcher is a function on the
  saved registers; the three trampolines and the program that runs in ring 3 are machine code, and
  are run by a small interpreter of the instructions they use.

  What the processor does of its own accord (the stack switch of an interrupt from ring 3, \<open>iretq\<close>)
  is part of the interpreter; the gate is an interrupt gate, which is what the \<open>x86_64\<close> crate makes by
  default, so entering it disables interrupts. The stacks are a store of 64-bit words; what a user
  pointer reads is a function from addresses to bytes, \<open>None\<close> where nothing is mapped.
\<close>

section \<open>Segments\<close>

text \<open>A descriptor table: the number of entries so far. A TSS takes two entries.\<close>

datatype descriptor = Code_segment bool | Data_segment bool | Tss_segment

definition append_descriptor :: "descriptor \<Rightarrow> nat \<Rightarrow> nat \<times> nat" where
  "append_descriptor d n = (n, n + (if d = Tss_segment then 2 else 1))"

text \<open>\<open>SegmentSelector::new(index, rpl)\<close>; \<open>append\<close> gives the privilege level of the segment.\<close>

definition segment_selector :: "nat \<Rightarrow> nat \<Rightarrow> 16 word" where
  "segment_selector i rpl = of_nat (i * 8 + rpl)"

record selectors =
  code_selector :: "16 word"
  data_selector :: "16 word"
  tss_selector :: "16 word"
  user_code_selector :: "16 word"
  user_data_selector :: "16 word"

definition gdt_selectors :: selectors where
  "gdt_selectors =
     (let (c, n) = append_descriptor (Code_segment False) 1;
          (d, n) = append_descriptor (Data_segment False) n;
          (t, n) = append_descriptor Tss_segment n;
          (uc, n) = append_descriptor (Code_segment True) n;
          (ud, n) = append_descriptor (Data_segment True) n
      in \<lparr>code_selector = segment_selector c 0, data_selector = segment_selector d 0,
          tss_selector = segment_selector t 0, user_code_selector = segment_selector uc 3,
          user_data_selector = segment_selector ud 3\<rparr>)"

text \<open>\<open>user_selectors\<close> panics before \<open>gdt::init\<close>.\<close>

definition user_selectors :: "selectors option \<Rightarrow> (16 word \<times> 16 word) option" where
  "user_selectors gdt = map_option (\<lambda>s. (user_code_selector s, user_data_selector s)) gdt"

text \<open>RSP0, from where the linker put the stack.\<close>

definition privilege_stack :: "64 word \<Rightarrow> 64 word" where
  "privilege_stack bottom = (bottom + 4096 * 5) AND NOT 15"

section \<open>Strings from user memory\<close>

text \<open>
  \<open>String::from_utf8_lossy\<close>: the longest valid prefix of a character is kept or, when the character is cut
  short, replaced. \<open>utf8_step\<close> is how many bytes the next character takes and whether it is one.
\<close>

definition continues :: "nat \<Rightarrow> bool" where
  "continues b \<longleftrightarrow> 128 \<le> b \<and> b < 192"

definition second_of_three :: "nat \<Rightarrow> nat \<Rightarrow> bool" where
  "second_of_three b c \<longleftrightarrow>
     (if b = 0xE0 then 0xA0 \<le> c \<and> c \<le> 0xBF else if b = 0xED then 0x80 \<le> c \<and> c \<le> 0x9F else continues c)"

definition second_of_four :: "nat \<Rightarrow> nat \<Rightarrow> bool" where
  "second_of_four b c \<longleftrightarrow>
     (if b = 0xF0 then 0x90 \<le> c \<and> c \<le> 0xBF else if b = 0xF4 then 0x80 \<le> c \<and> c \<le> 0x8F else continues c)"

definition byte_at :: "nat list \<Rightarrow> nat \<Rightarrow> nat" where
  "byte_at bs i = (if i < length bs then bs ! i else 0)"

definition utf8_step :: "nat list \<Rightarrow> nat \<times> bool" where
  "utf8_step bs =
     (let b = byte_at bs 0 in
      if b < 0x80 then (1, True)
      else if 0xC2 \<le> b \<and> b \<le> 0xDF then (if continues (byte_at bs 1) then (2, True) else (1, False))
      else if 0xE0 \<le> b \<and> b \<le> 0xEF then
        (if \<not> second_of_three b (byte_at bs 1) then (1, False)
         else if continues (byte_at bs 2) then (3, True) else (2, False))
      else if 0xF0 \<le> b \<and> b \<le> 0xF4 then
        (if \<not> second_of_four b (byte_at bs 1) then (1, False)
         else if \<not> continues (byte_at bs 2) then (2, False)
         else if continues (byte_at bs 3) then (4, True) else (3, False))
      else (1, False))"

lemma utf8_step_pos: "0 < fst (utf8_step bs)"
  by (simp add: utf8_step_def Let_def)

function utf8_lossy :: "nat list \<Rightarrow> nat list" where
  "utf8_lossy [] = []"
| "utf8_lossy (b # bs) =
     (case utf8_step (b # bs) of (n, ok) \<Rightarrow>
        (if ok then take n (b # bs) else [0xEF, 0xBF, 0xBD]) @ utf8_lossy (drop n (b # bs)))"
  by pat_completeness auto

termination utf8_lossy
proof (relation "measure length", goal_cases)
  case (2 b bs)
  then show ?case using utf8_step_pos [of "b # bs"] by (metis drop_Suc_Cons fst_conv gr0_implies_Suc in_measure le_imp_less_Suc length_Cons length_drop diff_le_self)
qed simp

declare utf8_lossy.simps(2) [simp del]

text \<open>\<open>read_user_cstr\<close>: at most 256 bytes; \<open>None\<close> is the page fault that halts the kernel.\<close>

fun read_bytes :: "(64 word \<Rightarrow> 8 word option) \<Rightarrow> 64 word \<Rightarrow> nat \<Rightarrow> nat list option" where
  "read_bytes user p 0 = Some []"
| "read_bytes user p (Suc n) =
     (case user p of
        None \<Rightarrow> None
      | Some b \<Rightarrow> if b = 0 then Some [] else map_option (Cons (unat b)) (read_bytes user (p + 1) n))"

definition read_user_cstr :: "(64 word \<Rightarrow> 8 word option) \<Rightarrow> 64 word \<Rightarrow> string option" where
  "read_user_cstr user ptr = map_option (\<lambda>bytes. map char_of (utf8_lossy bytes)) (read_bytes user ptr 256)"

section \<open>The dispatcher\<close>

definition SYS_SAY :: "64 word" where "SYS_SAY = 0"
definition SYS_NOW :: "64 word" where "SYS_NOW = 1"
definition SYS_COMMIT :: "64 word" where "SYS_COMMIT = 2"
definition SYS_EXIT :: "64 word" where "SYS_EXIT = 3"

definition USER_CODE :: "64 word" where "USER_CODE = 0x40000000"
definition USER_STACK :: "64 word" where "USER_STACK = 0x40003000"
definition USER_STACK_TOP :: "64 word" where "USER_STACK_TOP = 0x40004000"

datatype reg = RAX | RBX | RCX | RDX | RSI | RDI | RBP | R8 | R9 | R10 | R11 | R12 | R13 | R14 | R15

text \<open>The fields of \<open>Regs\<close>, lowest address first.\<close>

definition regs_fields :: "reg list" where
  "regs_fields = [RAX, RBX, RCX, RDX, RSI, RDI, RBP, R8, R9, R10, R11, R12, R13, R14, R15]"

type_synonym regs = "reg \<Rightarrow> 64 word"

text \<open>A call either goes back to ring 3 with the registers, or leaves for the kernel, or never ends.\<close>

datatype 'r gate_result = Back regs 'r | To_kernel 'r | Halted

definition syscall_dispatch ::
  "(64 word \<Rightarrow> 8 word option) \<Rightarrow> 64 word \<Rightarrow> regs \<Rightarrow> kernel_platform \<Rightarrow> kernel_platform gate_result" where
  "syscall_dispatch user ticks r k =
     (if r RAX = SYS_SAY then
        (case read_user_cstr user (r RDI) of
           None \<Rightarrow> Halted
         | Some line \<Rightarrow> Back (r(RAX := 0)) (kp_say (S_Text line) k))
      else if r RAX = SYS_NOW then Back (r(RAX := ticks * 55000)) k
      else if r RAX = SYS_COMMIT then
        (let dv = f64_div (f64_of_i64 (r RSI)) (f64_dec 1000 0)
         in Back (r(RAX := 0)) (gravity_sink_line (r RDI) dv (r RDX) k))
      else if r RAX = SYS_EXIT then To_kernel k
      else Back (r(RAX := - 1)) k)"

section \<open>The processor\<close>

record cpu =
  gpr :: regs
  rsp :: "64 word"
  rip :: "64 word"
  rflags :: "64 word"
  seg_cs :: "16 word"
  seg_ss :: "16 word"
  words :: "64 word \<Rightarrow> 64 word"
  kernel_rsp :: "64 word"

definition push_word :: "64 word \<Rightarrow> cpu \<Rightarrow> cpu" where
  "push_word v c = c\<lparr>rsp := rsp c - 8, words := (words c)(rsp c - 8 := v)\<rparr>"

definition pop_word :: "reg \<Rightarrow> cpu \<Rightarrow> cpu" where
  "pop_word r c = c\<lparr>gpr := (gpr c)(r := words c (rsp c)), rsp := rsp c + 8\<rparr>"

text \<open>\<open>iretq\<close> takes RIP, CS, RFLAGS, RSP and SS from the stack.\<close>

definition iretq :: "cpu \<Rightarrow> cpu" where
  "iretq c =
     (let s = rsp c in
      c\<lparr>rip := words c s, seg_cs := ucast (words c (s + 8)), rflags := words c (s + 16),
        rsp := words c (s + 24), seg_ss := ucast (words c (s + 32))\<rparr>)"

text \<open>An interrupt from ring 3: the stack of the task state segment, five words on it, interrupts off.\<close>

definition IF_FLAG :: "64 word" where "IF_FLAG = 0x200"

definition interrupt_from_user :: "selectors \<Rightarrow> 64 word \<Rightarrow> cpu \<Rightarrow> cpu" where
  "interrupt_from_user sel rsp0 c =
     (let c' = push_word (rip c) (push_word (ucast (seg_cs c)) (push_word (rflags c) (push_word (rsp c) (push_word (ucast (seg_ss c)) (c\<lparr>rsp := rsp0\<rparr>)))))
      in c'\<lparr>seg_cs := code_selector sel, seg_ss := 0, rflags := rflags c AND NOT IF_FLAG\<rparr>)"

datatype instr =
  Push reg
| Push_imm "64 word"
| Pop reg
| Mov_rdi_rsp
| Save_kernel_rsp
| Load_kernel_rsp
| Ret
| Iretq
| Lea_rdi "64 word"
| Xor_self reg
| Mov_imm reg "64 word"
| Int80
| Jmp_self

text \<open>The instructions of the trampolines; the rest is for ring 3.\<close>

fun exec :: "instr \<Rightarrow> cpu \<Rightarrow> cpu" where
  "exec (Push r) c = push_word (gpr c r) c"
| "exec (Push_imm v) c = push_word v c"
| "exec (Pop r) c = pop_word r c"
| "exec Mov_rdi_rsp c = c\<lparr>gpr := (gpr c)(RDI := rsp c)\<rparr>"
| "exec Save_kernel_rsp c = c\<lparr>kernel_rsp := rsp c\<rparr>"
| "exec Load_kernel_rsp c = c\<lparr>rsp := kernel_rsp c\<rparr>"
| "exec Ret c = c\<lparr>rip := words c (rsp c), rsp := rsp c + 8\<rparr>"
| "exec Iretq c = iretq c"
| "exec (Lea_rdi d) c = c\<lparr>gpr := (gpr c)(RDI := rip c + d)\<rparr>"
| "exec (Xor_self r) c = c\<lparr>gpr := (gpr c)(r := 0)\<rparr>"
| "exec (Mov_imm r v) c = c\<lparr>gpr := (gpr c)(r := v)\<rparr>"
| "exec Int80 c = c"
| "exec Jmp_self c = c"

definition exec_all :: "instr list \<Rightarrow> cpu \<Rightarrow> cpu" where
  "exec_all is c = fold exec is c"

section \<open>The trampolines\<close>

definition entry_spill :: "instr list" where
  "entry_spill = map Push [R15, R14, R13, R12, R11, R10, R9, R8, RBP, RDI, RSI, RDX, RCX, RBX, RAX] @ [Mov_rdi_rsp]"

definition entry_restore :: "instr list" where
  "entry_restore = map Pop [RAX, RBX, RCX, RDX, RSI, RDI, RBP, R8, R9, R10, R11, R12, R13, R14, R15] @ [Iretq]"

definition enter_user :: "instr list" where
  "enter_user =
     [Push RBP, Push RBX, Push R12, Push R13, Push R14, Push R15, Save_kernel_rsp,
      Push RCX, Push RSI, Push_imm 0x202, Push RDX, Push RDI, Iretq]"

definition return_to_kernel :: "instr list" where
  "return_to_kernel = [Load_kernel_rsp, Pop R15, Pop R14, Pop R13, Pop R12, Pop RBX, Pop RBP, Ret]"

text \<open>
  \<open>call syscall_dispatch\<close>: the dispatcher finds the saved registers at \<open>rdi\<close> and writes its result
  there. As compiled code it may leave anything in the registers and in some words below
  the stack pointer; \<open>callee\<close> is what it leaves.
\<close>

record callee =
  ce_gpr :: regs
  ce_depth :: nat
  ce_words :: "64 word \<Rightarrow> 64 word"

definition saved_regs :: "cpu \<Rightarrow> regs" where
  "saved_regs c r = (case find_index (\<lambda>i. regs_fields ! i = r) 0 15 of
       Some i \<Rightarrow> words c (gpr c RDI + 8 * of_nat i) | None \<Rightarrow> 0)"

definition after_call :: "callee \<Rightarrow> cpu \<Rightarrow> cpu" where
  "after_call ce c =
     c\<lparr>gpr := ce_gpr ce,
       words := (\<lambda>a. if \<exists>i \<in> {1..ce_depth ce}. a = rsp c - 8 * of_nat i then ce_words ce a else words c a)\<rparr>"

definition write_rax :: "64 word \<Rightarrow> 64 word \<Rightarrow> cpu \<Rightarrow> cpu" where
  "write_rax adr v c = c\<lparr>words := (words c)(adr := v)\<rparr>"

datatype 'r after_gate = In_user cpu 'r | In_kernel cpu 'r | Kernel_halted

definition syscall_entry ::
  "(64 word \<Rightarrow> 8 word option) \<Rightarrow> 64 word \<Rightarrow> callee \<Rightarrow> cpu \<Rightarrow> kernel_platform \<Rightarrow> kernel_platform after_gate" where
  "syscall_entry user ticks ce c k =
     (let c = exec_all entry_spill c in
      case syscall_dispatch user ticks (saved_regs c) k of
        Halted \<Rightarrow> Kernel_halted
      | To_kernel k \<Rightarrow> In_kernel (exec_all return_to_kernel (after_call ce c)) k
      | Back r k \<Rightarrow> In_user (exec_all entry_restore (write_rax (gpr c RDI) (r RAX) (after_call ce c))) k)"

section \<open>The layman's program\<close>

fun instr_length :: "instr \<Rightarrow> nat" where
  "instr_length (Lea_rdi _) = 7"
| "instr_length (Mov_imm _ _) = 5"
| "instr_length _ = 2"

text \<open>The message is aligned to 8 bytes after the 46 bytes of code, 41 bytes after the end of the first instruction.\<close>

definition user_payload :: "instr list" where
  "user_payload =
     [Lea_rdi 41, Xor_self RAX, Int80,
      Mov_imm RAX 1, Int80,
      Mov_imm RDI 1, Mov_imm RSI 334, Xor_self RDX, Mov_imm RAX 2, Int80,
      Mov_imm RAX 3, Int80,
      Jmp_self]"

definition user_payload_msg :: string where
  "user_payload_msg = ''mundanus extra muros: officium per portam celebro''"

fun place :: "64 word \<Rightarrow> instr list \<Rightarrow> (64 word \<times> instr) list" where
  "place a [] = []"
| "place a (i # is) = (a, i) # place (a + of_nat (instr_length i)) is"

text \<open>What \<open>copy_nonoverlapping\<close> leaves in the user's code page, read as instructions and as bytes.\<close>

definition user_code :: "64 word \<Rightarrow> instr option" where
  "user_code = map_of (place USER_CODE user_payload)"

definition user_bytes :: "64 word \<Rightarrow> 8 word option" where
  "user_bytes a =
     (let i = unat (a - (USER_CODE + 48)); m = user_payload_msg @ [CHR 0x00]
      in if i < length m then Some (of_nat (of_char (m ! i))) else None)"

text \<open>A step in ring 3; \<open>None\<close> where there is no instruction.\<close>

definition user_step ::
  "selectors \<Rightarrow> 64 word \<Rightarrow> 64 word \<Rightarrow> callee \<Rightarrow> cpu \<Rightarrow> kernel_platform \<Rightarrow> kernel_platform after_gate option" where
  "user_step sel rsp0 ticks ce c k =
     map_option (\<lambda>i.
       let next = c\<lparr>rip := rip c + of_nat (instr_length i)\<rparr> in
       case i of
         Int80 \<Rightarrow> syscall_entry user_bytes ticks ce (interrupt_from_user sel rsp0 next) k
       | Jmp_self \<Rightarrow> In_user c k
       | _ \<Rightarrow> In_user (exec i next) k) (user_code (rip c))"

fun user_run ::
  "nat \<Rightarrow> selectors \<Rightarrow> 64 word \<Rightarrow> 64 word \<Rightarrow> callee \<Rightarrow> cpu \<Rightarrow> kernel_platform \<Rightarrow> kernel_platform after_gate option" where
  "user_run 0 sel rsp0 ticks ce c k = Some (In_user c k)"
| "user_run (Suc n) sel rsp0 ticks ce c k =
     (case user_step sel rsp0 ticks ce c k of
        Some (In_user c k) \<Rightarrow> user_run n sel rsp0 ticks ce c k
      | other \<Rightarrow> other)"

section \<open>The command\<close>

text \<open>\<open>ensure_mapped\<close>, threaded through the flag and the memory.\<close>

definition ensure_mapped ::
  "('e, 'm, 'a) map_to \<Rightarrow> ('a \<Rightarrow> nat option \<times> 'a) \<Rightarrow> bool \<times> ('m \<times> 'a) option \<Rightarrow> (string + unit) \<times> bool \<times> ('m \<times> 'a) option" where
  "ensure_mapped map_to alloc st =
     (let (mapped, mem) = st in
      if mapped then (Inr (), mapped, mem)
      else case map_user_page map_to alloc (unat USER_CODE) True mem of
        Inl e \<Rightarrow> (Inl e, mapped, mem)
      | Inr m1 \<Rightarrow>
          (case map_user_page map_to alloc (unat USER_STACK) True (Some m1) of
             Inl e \<Rightarrow> (Inl e, mapped, Some m1)
           | Inr m2 \<Rightarrow> (Inr (), True, Some m2)))"

text \<open>The arguments of \<open>enter_user\<close> in the registers of the C calling convention.\<close>

definition enter_args :: "16 word \<Rightarrow> 16 word \<Rightarrow> cpu \<Rightarrow> cpu" where
  "enter_args ucode udata c =
     c\<lparr>gpr := (gpr c)(RDI := USER_CODE, RSI := USER_STACK_TOP, RDX := ucast ucode, RCX := ucast udata)\<rparr>"

text \<open>
  \<open>run\<close>, from the point where \<open>enter_user\<close> has been called. The first \<open>None\<close> is a panic or a fault; the number
  of instructions of ring 3 is bounded by \<open>fuel\<close>.
\<close>

definition userspace_run ::
  "selectors option \<Rightarrow> 64 word \<Rightarrow> 64 word \<Rightarrow> callee \<Rightarrow> nat \<Rightarrow> ('e, 'm, 'a) map_to \<Rightarrow> ('a \<Rightarrow> nat option \<times> 'a) \<Rightarrow>
   bool \<times> ('m \<times> 'a) option \<Rightarrow> cpu \<Rightarrow> kernel_platform \<Rightarrow>
   ((bool \<times> ('m \<times> 'a) option) \<times> cpu \<times> kernel_platform) option" where
  "userspace_run gdt rsp0 ticks ce fuel map_to alloc st c k =
     (case ensure_mapped map_to alloc st of
        (Inl e, st) \<Rightarrow> Some (st, c, kp_say (S_Text (''userspace: '' @ e)) k)
      | (Inr _, st) \<Rightarrow>
          (case (gdt, user_selectors gdt) of
             (Some sel, Some (ucode, udata)) \<Rightarrow>
               (let k = kp_say (S_Text ''mundanus: descending to ring 3 (CPL 3) ...'') k;
                    c = exec_all enter_user (enter_args ucode udata c)
                in case user_run fuel sel rsp0 ticks ce c k of
                    Some (In_kernel c k) \<Rightarrow> Some (st, c, kp_say (S_Text ''mundanus: rediit ad monasterium (back in ring 0)'') k)
                  | _ \<Rightarrow> None)
           | _ \<Rightarrow> None))"

section \<open>Stacks\<close>

lemma unat_small: "n < 2 ^ 64 \<Longrightarrow> unat (of_nat n :: 64 word) = n"
  by (simp add: unsigned_of_nat take_bit_nat_eq_self)

lemma push_word_fields [simp]:
  "gpr (push_word v c) = gpr c" "rip (push_word v c) = rip c" "rflags (push_word v c) = rflags c"
  "seg_cs (push_word v c) = seg_cs c" "seg_ss (push_word v c) = seg_ss c" "kernel_rsp (push_word v c) = kernel_rsp c"
  "rsp (push_word v c) = rsp c - 8" "words (push_word v c) = (words c)(rsp c - 8 := v)"
  by (simp_all add: push_word_def)

lemma below_distinct:
  assumes "i < n" "j < n" "8 * n < 2 ^ 64" "(s :: 64 word) - 8 * of_nat (Suc i) = s - 8 * of_nat (Suc j)"
  shows "i = j"
proof -
  have "of_nat (8 * Suc i) = (of_nat (8 * Suc j) :: 64 word)" using assms(4) by simp
  moreover have "8 * Suc i < 2 ^ 64" "8 * Suc j < 2 ^ 64" using assms(1-3) by simp_all
  ultimately have "8 * Suc i = 8 * Suc j"
    using unat_small [of "8 * Suc i"] unat_small [of "8 * Suc j"] by metis
  then show ?thesis by simp
qed

definition pushes :: "64 word list \<Rightarrow> cpu \<Rightarrow> cpu" where
  "pushes vs c = fold push_word vs c"

lemma pushes_frame:
  "gpr (pushes vs c) = gpr c \<and> rip (pushes vs c) = rip c \<and> rflags (pushes vs c) = rflags c
   \<and> seg_cs (pushes vs c) = seg_cs c \<and> seg_ss (pushes vs c) = seg_ss c \<and> kernel_rsp (pushes vs c) = kernel_rsp c
   \<and> rsp (pushes vs c) = rsp c - 8 * of_nat (length vs)"
  unfolding pushes_def by (induction vs arbitrary: c) (simp_all add: algebra_simps)

lemma pushes_other:
  "(\<And>j. j < length vs \<Longrightarrow> a \<noteq> rsp c - 8 * of_nat (Suc j)) \<Longrightarrow> words (pushes vs c) a = words c a"
  unfolding pushes_def
proof (induction vs arbitrary: c)
  case (Cons v vs)
  have "words (fold push_word vs (push_word v c)) a = words (push_word v c) a"
  proof (rule Cons.IH)
    fix j assume "j < length vs"
    then show "a \<noteq> rsp (push_word v c) - 8 * of_nat (Suc j)" using Cons.prems [of "Suc j"] by (simp add: push_word_def algebra_simps)
  qed
  also have "\<dots> = words c a" using Cons.prems [of 0] by (simp add: push_word_def)
  finally show ?case by simp
qed simp

lemma pushes_at:
  "8 * length vs < 2 ^ 64 \<Longrightarrow> j < length vs \<Longrightarrow> words (pushes vs c) (rsp c - 8 * of_nat (Suc j)) = vs ! j"
proof (induction vs arbitrary: c j)
  case (Cons v vs)
  show ?case
  proof (cases j)
    case 0
    have "words (pushes vs (push_word v c)) (rsp c - 8) = words (push_word v c) (rsp c - 8)"
    proof (rule pushes_other)
      fix i assume "i < length vs"
      then show "rsp c - 8 \<noteq> rsp (push_word v c) - 8 * of_nat (Suc i)"
        using below_distinct [of 0 "length (v # vs)" "Suc i" "rsp c"] Cons.prems(1) by (auto simp: push_word_def algebra_simps)
    qed
    then show ?thesis using 0 by (simp add: pushes_def push_word_def)
  next
    case (Suc i)
    then show ?thesis using Cons.IH [of i "push_word v c"] Cons.prems by (simp add: pushes_def push_word_def algebra_simps)
  qed
qed simp

lemma exec_pushes: "exec_all (map Push rs) c = pushes (map (gpr c) rs) c"
proof (induction rs arbitrary: c)
  case (Cons r rs)
  then show ?case using Cons.IH [of "push_word (gpr c r) c"] by (simp add: exec_all_def pushes_def)
qed (simp add: exec_all_def pushes_def)

lemma exec_pops:
  "exec_all (map Pop rs) c =
     c\<lparr>gpr := fold (\<lambda>(r, i) g. g(r := words c (rsp c + 8 * of_nat i))) (zip rs [0..<length rs]) (gpr c),
       rsp := rsp c + 8 * of_nat (length rs)\<rparr>"
proof (induction rs rule: rev_induct)
  case (snoc r rs)
  then show ?case by (simp add: exec_all_def pop_word_def algebra_simps fun_upd_def)
qed (simp add: exec_all_def)

lemma exec_all_append: "exec_all (is @ js) c = exec_all js (exec_all is c)"
  by (simp add: exec_all_def)

section \<open>The gate\<close>

text \<open>What a system call may write: the interrupt's five words, the fifteen registers, the callee's frames.\<close>

definition gate_writes :: "64 word \<Rightarrow> callee \<Rightarrow> 64 word \<Rightarrow> bool" where
  "gate_writes rsp0 ce a \<longleftrightarrow> (\<exists>j < 20 + ce_depth ce. a = rsp0 - 8 * of_nat (Suc j))"

definition gate_frame :: "cpu \<Rightarrow> 64 word list" where
  "gate_frame c = [ucast (seg_ss c), rsp c, rflags c, ucast (seg_cs c), rip c]
     @ map (gpr c) [R15, R14, R13, R12, R11, R10, R9, R8, RBP, RDI, RSI, RDX, RCX, RBX, RAX]"

lemma length_gate_frame [simp]: "length (gate_frame c) = 20"
  by (simp add: gate_frame_def)

lemma spilled:
  "\<exists>w. exec_all entry_spill (interrupt_from_user sel rsp0 c) =
     c\<lparr>gpr := (gpr c)(RDI := rsp0 - 160), rsp := rsp0 - 160, rflags := rflags c AND NOT IF_FLAG,
       seg_cs := code_selector sel, seg_ss := 0, words := w\<rparr>
   \<and> w = words (pushes (gate_frame c) (c\<lparr>rsp := rsp0\<rparr>))"
proof -
  let ?regs = "[R15, R14, R13, R12, R11, R10, R9, R8, RBP, RDI, RSI, RDX, RCX, RBX, RAX]"
  let ?t = "pushes [ucast (seg_ss c), rsp c, rflags c, ucast (seg_cs c), rip c] (c\<lparr>rsp := rsp0\<rparr>)"
  let ?i = "?t\<lparr>seg_cs := code_selector sel, seg_ss := 0, rflags := rflags c AND NOT IF_FLAG\<rparr>"
  have i: "interrupt_from_user sel rsp0 c = ?i"
    by (simp add: interrupt_from_user_def Let_def pushes_def)
  have swap: "pushes vs (d\<lparr>seg_cs := x, seg_ss := y, rflags := z\<rparr>) = (pushes vs d)\<lparr>seg_cs := x, seg_ss := y, rflags := z\<rparr>"
    for vs d x y z
  proof -
    have comm: "push_word v (d\<lparr>seg_cs := x, seg_ss := y, rflags := z\<rparr>) = (push_word v d)\<lparr>seg_cs := x, seg_ss := y, rflags := z\<rparr>" for v d
      by (simp add: push_word_def)
    show ?thesis unfolding pushes_def by (induction vs arbitrary: d) (simp_all add: comm)
  qed
  have "gpr ?i = gpr c" using pushes_frame by simp
  then have "exec_all (map Push ?regs) ?i = (pushes (map (gpr c) ?regs) ?t)\<lparr>seg_cs := code_selector sel, seg_ss := 0, rflags := rflags c AND NOT IF_FLAG\<rparr>"
    unfolding exec_pushes swap by simp
  moreover have "pushes (map (gpr c) ?regs) ?t = pushes (gate_frame c) (c\<lparr>rsp := rsp0\<rparr>)"
    by (simp add: pushes_def gate_frame_def)
  ultimately have e: "exec_all (map Push ?regs) ?i = (pushes (gate_frame c) (c\<lparr>rsp := rsp0\<rparr>))
      \<lparr>seg_cs := code_selector sel, seg_ss := 0, rflags := rflags c AND NOT IF_FLAG\<rparr>"
    by simp
  show ?thesis
    unfolding entry_spill_def exec_all_append i e using pushes_frame [of "gate_frame c" "c\<lparr>rsp := rsp0\<rparr>"]
    by (auto simp: exec_all_def intro!: cpu.equality)
qed

lemma fold_upd_zip:
  "distinct rs \<Longrightarrow> i < length rs \<Longrightarrow>
   fold (\<lambda>(r, i) g. g(r := f i)) (zip rs [0..<length rs]) g (rs ! i) = f i"
proof (induction rs rule: rev_induct)
  case (snoc r rs)
  then show ?case
    by (cases "i = length rs") (auto simp: nth_append less_Suc_eq dest: nth_mem)
qed simp

lemma regs_fields_distinct: "distinct regs_fields" "length regs_fields = 15"
  by (simp_all add: regs_fields_def)

lemma regs_fields_all: "\<exists>i < 15. regs_fields ! i = r"
proof -
  have "r \<in> set regs_fields" by (cases r) (simp_all add: regs_fields_def)
  then obtain i where "i < length regs_fields" "regs_fields ! i = r" by (auto simp: in_set_conv_nth)
  then show ?thesis using regs_fields_distinct(2) by auto
qed

lemma saved_regs_eq:
  assumes "\<And>i. i < 15 \<Longrightarrow> words c (gpr c RDI + 8 * of_nat i) = g (regs_fields ! i)"
  shows "saved_regs c = g"
proof
  fix r
  obtain i where i: "i < 15" "regs_fields ! i = r" using regs_fields_all by blast
  have "find_index (\<lambda>i. regs_fields ! i = r) 0 15 \<noteq> None" unfolding find_index_None using i by auto
  then obtain j where j: "find_index (\<lambda>i. regs_fields ! i = r) 0 15 = Some j" by blast
  then have "j < 15 \<and> regs_fields ! j = r" using find_index_Some [OF j] by simp
  then show "saved_regs c r = g r" using assms [of j] j by (simp add: saved_regs_def)
qed

lemma ucast_there_and_back: "ucast (ucast (x :: 16 word) :: 64 word) = x"
  by (rule bit_word_eqI) (simp add: bit_simps)

lemma gate_frame_regs: "i < 15 \<Longrightarrow> gate_frame c ! (19 - i) = gpr c (regs_fields ! i)"
proof -
  assume i: "i < 15"
  have "gate_frame c = [ucast (seg_ss c), rsp c, rflags c, ucast (seg_cs c), rip c] @ map (gpr c) (rev regs_fields)"
    by (simp add: gate_frame_def regs_fields_def)
  then show ?thesis using i by (simp add: nth_append nth_Cons' rev_nth regs_fields_distinct)
qed

text \<open>The frame is read at offsets from its bottom, and the callee's words are below it.\<close>

lemma frame_address: "i < 20 \<Longrightarrow> (rsp0 :: 64 word) - 160 + 8 * of_nat i = rsp0 - 8 * of_nat (Suc (19 - i))"
proof -
  assume "i < 20"
  then obtain j where j: "20 = i + Suc j" by (metis less_imp_Suc_add add_Suc_right)
  then have "Suc (19 - i) = Suc j" by simp
  moreover have "8 * of_nat i + 8 * of_nat (Suc j) = (160 :: 64 word)"
  proof -
    have "8 * of_nat i + 8 * of_nat (Suc j) = (8 * of_nat (i + Suc j) :: 64 word)" by (simp add: algebra_simps)
    also have "\<dots> = 8 * of_nat 20" using j by simp
    finally show ?thesis by simp
  qed
  ultimately show ?thesis by (simp only: diff_eq_eq eq_diff_eq add.commute add.left_commute flip: add.assoc)
    (simp add: algebra_simps)
qed

lemma callee_below:
  assumes "8 * (20 + ce_depth ce) < 2 ^ 64" "rsp c = rsp0 - 160" "i < 20"
  shows "words (after_call ce c) (rsp0 - 160 + 8 * of_nat i) = words c (rsp0 - 160 + 8 * of_nat i)"
proof -
  have "rsp0 - 8 * of_nat (Suc (19 - i)) \<noteq> rsp c - 8 * of_nat j" if j: "j \<in> {1..ce_depth ce}" for j
  proof
    assume a: "rsp0 - 8 * of_nat (Suc (19 - i)) = rsp c - 8 * of_nat j"
    have "rsp c - 8 * of_nat j = rsp0 - 8 * of_nat (Suc (19 + j))" by (simp add: assms(2) algebra_simps)
    then have "19 - i = 19 + j"
      using below_distinct [of "19 - i" "20 + ce_depth ce" "19 + j" rsp0] a assms(1) j by simp
    then show False using j by auto
  qed
  then show ?thesis unfolding frame_address [OF assms(3)] by (auto simp: after_call_def)
qed

lemma callee_elsewhere:
  assumes "\<not> gate_writes rsp0 ce a" "rsp c = rsp0 - 160"
  shows "words (after_call ce c) a = words c a"
proof -
  have "a \<noteq> rsp c - 8 * of_nat j" if "j \<in> {1..ce_depth ce}" for j
  proof
    assume "a = rsp c - 8 * of_nat j"
    then have "a = rsp0 - 8 * of_nat (Suc (19 + j))" by (simp add: assms(2) algebra_simps)
    moreover have "19 + j < 20 + ce_depth ce" using that by simp
    ultimately show False using assms(1) unfolding gate_writes_def by blast
  qed
  then show ?thesis by (auto simp: after_call_def)
qed

lemma spilled_words:
  assumes "w = words (pushes (gate_frame c) (c\<lparr>rsp := rsp0\<rparr>))"
  shows "i < 20 \<Longrightarrow> w (rsp0 - 160 + 8 * of_nat i) = gate_frame c ! (19 - i)"
    and "\<not> gate_writes rsp0 ce a \<Longrightarrow> w a = words c a"
proof -
  show "w (rsp0 - 160 + 8 * of_nat i) = gate_frame c ! (19 - i)" if "i < 20"
    unfolding frame_address [OF that] assms using pushes_at [of "gate_frame c" "19 - i" "c\<lparr>rsp := rsp0\<rparr>"] that by simp
  show "w a = words c a" if "\<not> gate_writes rsp0 ce a"
    using pushes_other [of "gate_frame c" a "c\<lparr>rsp := rsp0\<rparr>"] that unfolding assms gate_writes_def by auto
qed

lemma gate_returns:
  assumes deep: "8 * (20 + ce_depth ce) < 2 ^ 64"
    and goes_back: "syscall_dispatch user ticks (gpr c) k = Back ((gpr c)(RAX := v)) k'"
  shows "\<exists>w. syscall_entry user ticks ce (interrupt_from_user sel rsp0 c) k
      = In_user (c\<lparr>gpr := (gpr c)(RAX := v), words := w\<rparr>) k'
    \<and> (\<forall>a. \<not> gate_writes rsp0 ce a \<longrightarrow> w a = words c a)"
proof -
  let ?s = "rsp0 - 160"
  define w where "w = words (pushes (gate_frame c) (c\<lparr>rsp := rsp0\<rparr>))"
  define c1 where "c1 = exec_all entry_spill (interrupt_from_user sel rsp0 c)"
  have c1: "c1 = c\<lparr>gpr := (gpr c)(RDI := ?s), rsp := ?s, rflags := rflags c AND NOT IF_FLAG,
       seg_cs := code_selector sel, seg_ss := 0, words := w\<rparr>"
    using spilled [of sel rsp0 c] by (simp add: c1_def w_def)
  have frame: "w (?s + 8 * of_nat i) = gate_frame c ! (19 - i)" if "i < 20" for i
    using spilled_words(1) [OF w_def that] .
  have saved: "saved_regs c1 = gpr c"
    by (rule saved_regs_eq) (use frame gate_frame_regs in \<open>simp add: c1\<close>)
  define c2 where "c2 = write_rax ?s v (after_call ce c1)"
  have c2: "rsp c2 = ?s" "kernel_rsp c2 = kernel_rsp c" by (simp_all add: c2_def c1 write_rax_def after_call_def)
  have low: "words c2 (?s + 8 * of_nat i) = (if i = 0 then v else gate_frame c ! (19 - i))" if "i < 20" for i
  proof -
    have "?s + 8 * of_nat i \<noteq> ?s" if "i \<noteq> 0"
    proof
      assume "?s + 8 * of_nat i = ?s"
      then have "unat (of_nat (8 * i) :: 64 word) = 0" by simp
      then show False using that \<open>i < 20\<close> unat_small [of "8 * i"] by simp
    qed
    then show ?thesis
      using callee_below [OF deep, of c1 rsp0 i] frame [OF that] that by (auto simp: c2_def write_rax_def c1)
  qed
  have regs: "fold (\<lambda>(r, i) g. g(r := words c2 (rsp c2 + 8 * of_nat i))) (zip regs_fields [0..<length regs_fields]) g
      = (gpr c)(RAX := v)" for g
  proof
    fix r
    obtain i where i: "i < 15" "regs_fields ! i = r" using regs_fields_all by blast
    have "fold (\<lambda>(r, i) g. g(r := words c2 (rsp c2 + 8 * of_nat i))) (zip regs_fields [0..<length regs_fields]) g r
        = words c2 (?s + 8 * of_nat i)"
      using fold_upd_zip [OF regs_fields_distinct(1), of i] i by (simp add: regs_fields_distinct(2) c2(1))
    moreover have "r = RAX \<longleftrightarrow> i = 0"
      using i regs_fields_distinct nth_eq_iff_index_eq [of regs_fields i 0] by (auto simp: regs_fields_def)
    ultimately show "fold (\<lambda>(r, i) g. g(r := words c2 (rsp c2 + 8 * of_nat i))) (zip regs_fields [0..<length regs_fields]) g r
        = ((gpr c)(RAX := v)) r"
      using low [of i] gate_frame_regs [OF i(1), of c] i by simp
  qed
  have ir: "words c2 (?s + 120) = rip c" "words c2 (?s + 128) = ucast (seg_cs c)" "words c2 (?s + 136) = rflags c"
    "words c2 (?s + 144) = rsp c" "words c2 (?s + 152) = ucast (seg_ss c)"
    using low [of 15] low [of 16] low [of 17] low [of 18] low [of 19] by (simp_all add: gate_frame_def)
  have restore: "entry_restore = map Pop regs_fields @ [Iretq]" by (simp add: entry_restore_def regs_fields_def)
  have "exec_all entry_restore c2 = c\<lparr>gpr := (gpr c)(RAX := v), words := words c2\<rparr>"
    unfolding restore exec_all_append exec_pops regs
    using ir by (auto intro!: cpu.equality simp: exec_all_def iretq_def Let_def c2 regs_fields_distinct(2) ucast_there_and_back
        add.assoc)
  moreover have "words c2 a = words c a" if "\<not> gate_writes rsp0 ce a" for a
  proof -
    have "a \<noteq> ?s" using that frame_address [of 0 rsp0] unfolding gate_writes_def by (auto dest: spec [of _ 19])
    then show ?thesis
      using callee_elsewhere [OF that, of c1] spilled_words(2) [OF w_def that] by (simp add: c2_def write_rax_def c1)
  qed
  ultimately show ?thesis
    using goes_back saved unfolding syscall_entry_def c1_def [symmetric] by (auto simp: Let_def c1 c2_def intro!: exI [of _ "words c2"])
qed

section \<open>Down and back\<close>

text \<open>The seven words that bring the kernel back: the six registers it keeps and the return address.\<close>

definition kernel_frame :: "cpu \<Rightarrow> 64 word list" where
  "kernel_frame c = map (gpr c) [R15, R14, R13, R12, RBX, RBP] @ [words c (rsp c)]"

definition frame_at :: "(64 word \<Rightarrow> 64 word) \<Rightarrow> 64 word \<Rightarrow> 64 word list \<Rightarrow> bool" where
  "frame_at w s vs \<longleftrightarrow> (\<forall>i < length vs. w (s + 8 * of_nat i) = vs ! i)"

lemma frame_at_mono: "frame_at w s vs \<Longrightarrow> (\<And>i. i < length vs \<Longrightarrow> w' (s + 8 * of_nat i) = w (s + 8 * of_nat i)) \<Longrightarrow> frame_at w' s vs"
  by (simp add: frame_at_def)

lemma enters_user:
  "\<exists>w. exec_all enter_user c = c\<lparr>rip := gpr c RDI, seg_cs := ucast (gpr c RDX), rflags := 0x202, rsp := gpr c RSI,
      seg_ss := ucast (gpr c RCX), kernel_rsp := rsp c - 48, words := w\<rparr>
    \<and> frame_at w (rsp c - 48) (kernel_frame c)"
proof -
  have eq: "exec_all enter_user c = iretq (pushes [gpr c RCX, gpr c RSI, 0x202, gpr c RDX, gpr c RDI]
      ((pushes (map (gpr c) [RBP, RBX, R12, R13, R14, R15]) c)\<lparr>kernel_rsp := rsp c - 48\<rparr>))"
    by (simp add: enter_user_def exec_all_def pushes_def)
  have join: "pushes xs ((pushes ys c)\<lparr>kernel_rsp := z\<rparr>) = (pushes (ys @ xs) c)\<lparr>kernel_rsp := z\<rparr>" for xs ys z
  proof -
    have comm: "push_word v (d\<lparr>kernel_rsp := z\<rparr>) = (push_word v d)\<lparr>kernel_rsp := z\<rparr>" for v d by (simp add: push_word_def)
    have "pushes xs (d\<lparr>kernel_rsp := z\<rparr>) = (pushes xs d)\<lparr>kernel_rsp := z\<rparr>" for d
      unfolding pushes_def by (induction xs arbitrary: d) (simp_all add: comm)
    then show ?thesis by (simp add: pushes_def)
  qed
  let ?vs = "map (gpr c) [RBP, RBX, R12, R13, R14, R15] @ [gpr c RCX, gpr c RSI, 0x202, gpr c RDX, gpr c RDI]"
  define w where "w = words (pushes ?vs c)"
  have at: "w (rsp c - 8 * of_nat (Suc j)) = ?vs ! j" if "j < 11" for j
    using pushes_at [of ?vs j c] that by (simp add: w_def)
  have top: "w (rsp c) = words c (rsp c)"
    unfolding w_def
  proof (rule pushes_other)
    fix j assume "j < length ?vs"
    then have "8 * Suc j < 2 ^ 64" "0 < 8 * Suc j" by simp_all
    then have "of_nat (8 * Suc j) \<noteq> (0 :: 64 word)" using unat_small [of "8 * Suc j"] by (metis unat_0 less_not_refl)
    then have "8 * of_nat (Suc j) \<noteq> (0 :: 64 word)" by simp
    then show "rsp c \<noteq> rsp c - 8 * of_nat (Suc j)" by (simp del: of_nat_Suc)
  qed
  have vals: "w (rsp c - 88) = gpr c RDI" "w (rsp c - 80) = gpr c RDX" "w (rsp c - 72) = 0x202"
    "w (rsp c - 64) = gpr c RSI" "w (rsp c - 56) = gpr c RCX" "w (rsp c - 48) = gpr c R15" "w (rsp c - 40) = gpr c R14"
    "w (rsp c - 32) = gpr c R13" "w (rsp c - 24) = gpr c R12" "w (rsp c - 16) = gpr c RBX" "w (rsp c - 8) = gpr c RBP"
    using at [of 10] at [of 9] at [of 8] at [of 7] at [of 6] at [of 5] at [of 4] at [of 3] at [of 2] at [of 1] at [of 0]
    by simp_all
  define p where "p = pushes ?vs c"
  have p: "gpr p = gpr c" "rsp p = rsp c - 88" "words p = w" "\<And>z. iretq (p\<lparr>kernel_rsp := z\<rparr>) = (iretq p)\<lparr>kernel_rsp := z\<rparr>"
    using pushes_frame [of ?vs c] by (simp_all add: p_def w_def iretq_def Let_def)
  have "exec_all enter_user c = c\<lparr>rip := gpr c RDI, seg_cs := ucast (gpr c RDX), rflags := 0x202, rsp := gpr c RSI,
      seg_ss := ucast (gpr c RCX), kernel_rsp := rsp c - 48, words := w\<rparr>"
    unfolding eq join p_def [symmetric] p(4) using p(1-3) vals
    by (auto intro!: cpu.equality simp: iretq_def Let_def)
  moreover have "frame_at w (rsp c - 48) (kernel_frame c)"
    unfolding frame_at_def kernel_frame_def using vals top
    by (auto simp: less_Suc_eq numeral_eq_Suc)
  ultimately show ?thesis by blast
qed

lemma returns_to_kernel:
  assumes "frame_at (words d) (kernel_rsp d) (kernel_frame c)"
  shows "exec_all return_to_kernel d =
     d\<lparr>gpr := (gpr d)(R15 := gpr c R15, R14 := gpr c R14, R13 := gpr c R13, R12 := gpr c R12, RBX := gpr c RBX, RBP := gpr c RBP),
       rsp := kernel_rsp d + 56, rip := words c (rsp c)\<rparr>"
proof -
  have at: "words d (kernel_rsp d + 8 * of_nat i) = kernel_frame c ! i" if "i < 7" for i
    using assms that by (simp add: frame_at_def kernel_frame_def)
  have vals: "words d (kernel_rsp d) = gpr c R15" "words d (kernel_rsp d + 8) = gpr c R14" "words d (kernel_rsp d + 16) = gpr c R13"
    "words d (kernel_rsp d + 24) = gpr c R12" "words d (kernel_rsp d + 32) = gpr c RBX" "words d (kernel_rsp d + 40) = gpr c RBP"
    "words d (kernel_rsp d + 48) = words c (rsp c)"
    using at [of 0] at [of 1] at [of 2] at [of 3] at [of 4] at [of 5] at [of 6] by (simp_all add: kernel_frame_def)
  show ?thesis
    using vals by (auto intro!: cpu.equality simp: return_to_kernel_def exec_all_def pop_word_def add.assoc)
qed

lemma gate_exits:
  assumes deep: "8 * (20 + ce_depth ce) < 2 ^ 64" and exits: "gpr c RAX = SYS_EXIT"
    and kept: "frame_at (words c) (kernel_rsp c) (kernel_frame c0)"
    and apart: "\<And>i. i < 7 \<Longrightarrow> \<not> gate_writes rsp0 ce (kernel_rsp c + 8 * of_nat i)"
  shows "\<exists>d. syscall_entry user ticks ce (interrupt_from_user sel rsp0 c) k = In_kernel d k
    \<and> rip d = words c0 (rsp c0) \<and> rsp d = kernel_rsp c + 56 \<and> rflags d = rflags c AND NOT IF_FLAG
    \<and> (\<forall>r \<in> {RBX, RBP, R12, R13, R14, R15}. gpr d r = gpr c0 r)"
proof -
  define w where "w = words (pushes (gate_frame c) (c\<lparr>rsp := rsp0\<rparr>))"
  define c1 where "c1 = exec_all entry_spill (interrupt_from_user sel rsp0 c)"
  have c1: "c1 = c\<lparr>gpr := (gpr c)(RDI := rsp0 - 160), rsp := rsp0 - 160, rflags := rflags c AND NOT IF_FLAG,
       seg_cs := code_selector sel, seg_ss := 0, words := w\<rparr>"
    using spilled [of sel rsp0 c] by (simp add: c1_def w_def)
  have saved: "saved_regs c1 = gpr c"
    by (rule saved_regs_eq) (use spilled_words(1) [OF w_def] gate_frame_regs in \<open>simp add: c1\<close>)
  let ?d = "after_call ce c1"
  have "frame_at (words ?d) (kernel_rsp c) (kernel_frame c0)"
  proof (rule frame_at_mono [OF kept])
    fix i assume "i < length (kernel_frame c0)"
    then have "i < 7" by (simp add: kernel_frame_def)
    from apart [OF this] show "words ?d (kernel_rsp c + 8 * of_nat i) = words c (kernel_rsp c + 8 * of_nat i)"
      using callee_elsewhere [of rsp0 ce _ c1] spilled_words(2) [OF w_def] by (simp add: c1)
  qed
  moreover have "kernel_rsp ?d = kernel_rsp c" "rflags ?d = rflags c AND NOT IF_FLAG" by (simp_all add: after_call_def c1)
  ultimately have "exec_all return_to_kernel ?d =
     ?d\<lparr>gpr := (gpr ?d)(R15 := gpr c0 R15, R14 := gpr c0 R14, R13 := gpr c0 R13, R12 := gpr c0 R12, RBX := gpr c0 RBX, RBP := gpr c0 RBP),
       rsp := kernel_rsp c + 56, rip := words c0 (rsp c0)\<rparr>"
    using returns_to_kernel [of ?d c0] by simp
  moreover have "syscall_dispatch user ticks (saved_regs c1) k = To_kernel k"
    using exits unfolding saved by (simp add: syscall_dispatch_def SYS_EXIT_def SYS_SAY_def SYS_NOW_def SYS_COMMIT_def)
  ultimately show ?thesis
    using \<open>rflags ?d = _\<close> unfolding syscall_entry_def c1_def [symmetric] by (simp add: Let_def)
qed

section \<open>Strings that are read back\<close>

lemma utf8_ascii: "\<forall>b \<in> set bs. b < 128 \<Longrightarrow> utf8_lossy bs = bs"
  by (induction bs) (simp_all add: utf8_lossy.simps(2) utf8_step_def byte_at_def)

lemma read_cstr:
  assumes "\<And>i. i < length m \<Longrightarrow> user (p + of_nat i) = Some (of_nat (of_char (m ! i)))"
    and "user (p + of_nat (length m)) = Some 0" "\<forall>ch \<in> set m. 0 < (of_char ch :: nat)" "length m < n"
  shows "read_bytes user p n = Some (map of_char m)"
  using assms
proof (induction m arbitrary: p n)
  case Nil
  then show ?case by (cases n) simp_all
next
  case (Cons ch m)
  obtain n' where n: "n = Suc n'" using Cons.prems(4) by (cases n) simp_all
  have small: "of_char ch < (256 :: nat)" by (cases ch) (simp add: of_char_def)
  then have u: "unat (of_nat (of_char ch) :: 8 word) = of_char ch" by (simp add: unsigned_of_nat take_bit_nat_eq_self)
  then have nz: "(of_nat (of_char ch) :: 8 word) \<noteq> 0" using Cons.prems(3) by (metis list.set_intros(1) unat_0 less_not_refl)
  have "read_bytes user (p + 1) n' = Some (map of_char m)"
  proof (rule Cons.IH)
    show "user (p + 1 + of_nat i) = Some (of_nat (of_char (m ! i)))" if "i < length m" for i
      using Cons.prems(1) [of "Suc i"] that by (simp add: algebra_simps)
    show "user (p + 1 + of_nat (length m)) = Some 0" using Cons.prems(2) by (simp add: algebra_simps)
  qed (use Cons.prems(3,4) n in simp_all)
  then show ?case using Cons.prems(1) [of 0] n u nz by simp
qed

lemma reads_message: "read_user_cstr user_bytes (USER_CODE + 48) = Some user_payload_msg"
proof -
  have m: "length user_payload_msg = 49" "\<forall>ch \<in> set user_payload_msg. 0 < (of_char ch :: nat) \<and> of_char ch < (128 :: nat)"
    by (simp_all add: user_payload_msg_def)
  have "read_bytes user_bytes (USER_CODE + 48) 256 = Some (map of_char user_payload_msg)"
  proof (rule read_cstr)
    fix i assume "i < length user_payload_msg"
    then have "i < 49" using m(1) by simp
    then have "unat (of_nat i :: 64 word) = i" by (intro unat_small) simp
    then show "user_bytes (USER_CODE + 48 + of_nat i) = Some (of_nat (of_char (user_payload_msg ! i)))"
      using \<open>i < 49\<close> m(1) by (simp add: user_bytes_def Let_def nth_append)
  next
    show "user_bytes (USER_CODE + 48 + of_nat (length user_payload_msg)) = Some 0"
      using m(1) by (simp add: user_bytes_def Let_def nth_append)
  qed (use m in simp_all)
  moreover have "utf8_lossy (map of_char user_payload_msg) = map of_char user_payload_msg"
    using m(2) by (intro utf8_ascii) auto
  ultimately show ?thesis by (simp add: read_user_cstr_def comp_def)
qed

section \<open>The whole liturgy\<close>

declare user_run.simps(2) [simp del]

lemma run_plain:
  assumes "user_code (rip c) = Some i" "i \<noteq> Int80" "i \<noteq> Jmp_self"
  shows "user_run (Suc n) sel rsp0 ticks ce c k
    = user_run n sel rsp0 ticks ce (exec i (c\<lparr>rip := rip c + of_nat (instr_length i)\<rparr>)) k"
  using assms by (cases i) (simp_all add: user_run.simps(2) user_step_def Let_def)

lemma run_gate:
  assumes "8 * (20 + ce_depth ce) < 2 ^ 64" "user_code (rip c) = Some Int80"
    and "syscall_dispatch user_bytes ticks (gpr c) k = Back ((gpr c)(RAX := v)) k'"
  shows "\<exists>w. user_run (Suc n) sel rsp0 ticks ce c k
      = user_run n sel rsp0 ticks ce (c\<lparr>rip := rip c + 2, gpr := (gpr c)(RAX := v), words := w\<rparr>) k'
    \<and> (\<forall>a. \<not> gate_writes rsp0 ce a \<longrightarrow> w a = words c a)"
proof -
  let ?c = "c\<lparr>rip := rip c + 2\<rparr>"
  obtain w where "syscall_entry user_bytes ticks ce (interrupt_from_user sel rsp0 ?c) k
      = In_user (?c\<lparr>gpr := (gpr ?c)(RAX := v), words := w\<rparr>) k'"
    "\<forall>a. \<not> gate_writes rsp0 ce a \<longrightarrow> w a = words ?c a"
    using gate_returns [OF assms(1), of user_bytes ticks ?c k v k' sel rsp0] assms(3) by auto
  then show ?thesis using assms(2) by (intro exI [of _ w]) (simp add: user_run.simps(2) user_step_def Let_def)
qed

lemma payload_code:
  "user_code USER_CODE = Some (Lea_rdi 41)" "user_code (USER_CODE + 7) = Some (Xor_self RAX)"
  "user_code (USER_CODE + 9) = Some Int80" "user_code (USER_CODE + 11) = Some (Mov_imm RAX 1)"
  "user_code (USER_CODE + 16) = Some Int80" "user_code (USER_CODE + 18) = Some (Mov_imm RDI 1)"
  "user_code (USER_CODE + 23) = Some (Mov_imm RSI 334)" "user_code (USER_CODE + 28) = Some (Xor_self RDX)"
  "user_code (USER_CODE + 30) = Some (Mov_imm RAX 2)" "user_code (USER_CODE + 35) = Some Int80"
  "user_code (USER_CODE + 37) = Some (Mov_imm RAX 3)" "user_code (USER_CODE + 42) = Some Int80"
  by (simp_all add: user_code_def user_payload_def USER_CODE_def)

lemma dv_literal: "f64_div (f64_of_i64 334) (f64_dec 1000 0) = f64_dec 334 (-3)"
  by code_simp

text \<open>The three calls of the program, each with the instructions before it.\<close>

definition at_user :: "cpu \<Rightarrow> 64 word \<Rightarrow> regs \<Rightarrow> (64 word \<Rightarrow> 64 word) \<Rightarrow> cpu" where
  "at_user e p g w = e\<lparr>words := w, rip := p, gpr := g\<rparr>"

lemma at_user_mov:
  "user_code p = Some (Mov_imm r v) \<Longrightarrow>
   user_run (Suc m) sel rsp0 ticks ce (at_user e p g w) k = user_run m sel rsp0 ticks ce (at_user e (p + 5) (g(r := v)) w) k"
  using run_plain [of "at_user e p g w" "Mov_imm r v"] by (simp add: at_user_def)

lemma at_user_xor:
  "user_code p = Some (Xor_self r) \<Longrightarrow>
   user_run (Suc m) sel rsp0 ticks ce (at_user e p g w) k = user_run m sel rsp0 ticks ce (at_user e (p + 2) (g(r := 0)) w) k"
  using run_plain [of "at_user e p g w" "Xor_self r"] by (simp add: at_user_def)

lemma at_user_lea:
  "user_code p = Some (Lea_rdi d) \<Longrightarrow>
   user_run (Suc m) sel rsp0 ticks ce (at_user e p g w) k = user_run m sel rsp0 ticks ce (at_user e (p + 7) (g(RDI := p + 7 + d)) w) k"
  using run_plain [of "at_user e p g w" "Lea_rdi d"] by (simp add: at_user_def)

lemma at_user_gate:
  assumes "8 * (20 + ce_depth ce) < 2 ^ 64" "user_code p = Some Int80"
    and "syscall_dispatch user_bytes ticks g k = Back (g(RAX := v)) k'"
  shows "\<exists>w'. user_run (Suc m) sel rsp0 ticks ce (at_user e p g w) k
      = user_run m sel rsp0 ticks ce (at_user e (p + 2) (g(RAX := v)) w') k'
    \<and> (\<forall>a. \<not> gate_writes rsp0 ce a \<longrightarrow> w' a = w a)"
proof -
  have "(at_user e p g w)\<lparr>rip := p + 2, gpr := g', words := w'\<rparr> = at_user e (p + 2) g' w'" for g' w'
    by (simp add: at_user_def)
  moreover have "rip (at_user e p g w) = p" "gpr (at_user e p g w) = g" "words (at_user e p g w) = w"
    by (simp_all add: at_user_def)
  ultimately show ?thesis
    using run_gate [OF assms(1), of "at_user e p g w" ticks k v k' m sel rsp0] assms(2,3) by simp
qed

lemmas sys_defs = SYS_SAY_def SYS_NOW_def SYS_COMMIT_def SYS_EXIT_def

lemma user_says:
  assumes "8 * (20 + ce_depth ce) < 2 ^ 64"
  shows "\<exists>g' w'. user_run (Suc (Suc (Suc m))) sel rsp0 ticks ce (at_user e USER_CODE g w) k
      = user_run m sel rsp0 ticks ce (at_user e (USER_CODE + 11) g' w') (kp_say (S_Text user_payload_msg) k)
    \<and> (\<forall>a. \<not> gate_writes rsp0 ce a \<longrightarrow> w' a = w a)"
proof -
  have d: "syscall_dispatch user_bytes ticks (g(RDI := USER_CODE + 48, RAX := 0)) k
      = Back ((g(RDI := USER_CODE + 48, RAX := 0))(RAX := 0)) (kp_say (S_Text user_payload_msg) k)"
    by (simp add: syscall_dispatch_def sys_defs reads_message)
  obtain w' where "user_run (Suc m) sel rsp0 ticks ce (at_user e (USER_CODE + 9) (g(RDI := USER_CODE + 48, RAX := 0)) w) k
      = user_run m sel rsp0 ticks ce (at_user e (USER_CODE + 9 + 2) ((g(RDI := USER_CODE + 48, RAX := 0))(RAX := 0)) w') (kp_say (S_Text user_payload_msg) k)"
    "\<forall>a. \<not> gate_writes rsp0 ce a \<longrightarrow> w' a = w a"
    using at_user_gate [OF assms payload_code(3) d] by blast
  then show ?thesis
    by (auto simp: at_user_lea [OF payload_code(1)] at_user_xor [OF payload_code(2)] add.assoc)
qed

lemma user_asks:
  assumes "8 * (20 + ce_depth ce) < 2 ^ 64"
  shows "\<exists>g' w'. user_run (Suc (Suc m)) sel rsp0 ticks ce (at_user e (USER_CODE + 11) g w) k
      = user_run m sel rsp0 ticks ce (at_user e (USER_CODE + 18) g' w') k
    \<and> (\<forall>a. \<not> gate_writes rsp0 ce a \<longrightarrow> w' a = w a)"
proof -
  have d: "syscall_dispatch user_bytes ticks (g(RAX := 1)) k = Back ((g(RAX := 1))(RAX := ticks * 55000)) k"
    by (simp add: syscall_dispatch_def sys_defs)
  obtain w' where "user_run (Suc m) sel rsp0 ticks ce (at_user e (USER_CODE + 16) (g(RAX := 1)) w) k
      = user_run m sel rsp0 ticks ce (at_user e (USER_CODE + 16 + 2) ((g(RAX := 1))(RAX := ticks * 55000)) w') k"
    "\<forall>a. \<not> gate_writes rsp0 ce a \<longrightarrow> w' a = w a"
    using at_user_gate [OF assms payload_code(5) d] by blast
  then show ?thesis by (auto simp: at_user_mov [OF payload_code(4)] add.assoc)
qed

lemma user_commits:
  assumes "8 * (20 + ce_depth ce) < 2 ^ 64"
  shows "\<exists>g' w'. user_run (Suc (Suc (Suc (Suc (Suc m))))) sel rsp0 ticks ce (at_user e (USER_CODE + 18) g w) k
      = user_run m sel rsp0 ticks ce (at_user e (USER_CODE + 37) g' w') (gravity_sink_line 1 (f64_dec 334 (-3)) 0 k)
    \<and> (\<forall>a. \<not> gate_writes rsp0 ce a \<longrightarrow> w' a = w a)"
proof -
  let ?g = "g(RDI := 1, RSI := 334, RDX := 0, RAX := 2)"
  have d: "syscall_dispatch user_bytes ticks ?g k = Back (?g(RAX := 0)) (gravity_sink_line 1 (f64_dec 334 (-3)) 0 k)"
    by (simp add: syscall_dispatch_def sys_defs Let_def dv_literal)
  obtain w' where "user_run (Suc m) sel rsp0 ticks ce (at_user e (USER_CODE + 35) ?g w) k
      = user_run m sel rsp0 ticks ce (at_user e (USER_CODE + 35 + 2) (?g(RAX := 0)) w') (gravity_sink_line 1 (f64_dec 334 (-3)) 0 k)"
    "\<forall>a. \<not> gate_writes rsp0 ce a \<longrightarrow> w' a = w a"
    using at_user_gate [OF assms payload_code(10) d] by blast
  then show ?thesis
    by (auto simp: at_user_mov [OF payload_code(6)] at_user_mov [OF payload_code(7)] at_user_xor [OF payload_code(8)]
        at_user_mov [OF payload_code(9)] add.assoc)
qed

lemma user_leaves:
  assumes "8 * (20 + ce_depth ce) < 2 ^ 64" "frame_at w (kernel_rsp e) (kernel_frame c0)"
    and "\<And>i. i < 7 \<Longrightarrow> \<not> gate_writes rsp0 ce (kernel_rsp e + 8 * of_nat i)"
  shows "\<exists>d. user_run (Suc (Suc m)) sel rsp0 ticks ce (at_user e (USER_CODE + 37) g w) k = Some (In_kernel d k)
    \<and> rip d = words c0 (rsp c0) \<and> rsp d = kernel_rsp e + 56 \<and> rflags d = rflags e AND NOT IF_FLAG
    \<and> (\<forall>r \<in> {RBX, RBP, R12, R13, R14, R15}. gpr d r = gpr c0 r)"
proof -
  let ?c = "(at_user e (USER_CODE + 42) (g(RAX := 3)) w)\<lparr>rip := USER_CODE + 44\<rparr>"
  have "gpr ?c RAX = SYS_EXIT" "words ?c = w" "kernel_rsp ?c = kernel_rsp e" "rflags ?c = rflags e"
    by (simp_all add: at_user_def sys_defs)
  then obtain d where d: "syscall_entry user_bytes ticks ce (interrupt_from_user sel rsp0 ?c) k = In_kernel d k"
    "rip d = words c0 (rsp c0)" "rsp d = kernel_rsp e + 56" "rflags d = rflags e AND NOT IF_FLAG"
    "\<forall>r \<in> {RBX, RBP, R12, R13, R14, R15}. gpr d r = gpr c0 r"
    using gate_exits [OF assms(1), of ?c c0 rsp0 user_bytes ticks sel k] assms(2,3) by metis
  have "user_step sel rsp0 ticks ce (at_user e (USER_CODE + 42) (g(RAX := 3)) w) k
      = Some (syscall_entry user_bytes ticks ce (interrupt_from_user sel rsp0 ?c) k)"
    using payload_code(12) by (simp add: user_step_def Let_def at_user_def add.assoc)
  then have "user_run (Suc (Suc m)) sel rsp0 ticks ce (at_user e (USER_CODE + 37) g w) k = Some (In_kernel d k)"
    unfolding at_user_mov [OF payload_code(11)] using d(1) by (simp add: add.assoc user_run.simps(2))
  then show ?thesis using d(2-5) by blast
qed

lemma user_run_through:
  assumes deep: "8 * (20 + ce_depth ce) < 2 ^ 64" and frame: "frame_at w (kernel_rsp e) (kernel_frame c0)"
    and apart: "\<And>i. i < 7 \<Longrightarrow> \<not> gate_writes rsp0 ce (kernel_rsp e + 8 * of_nat i)"
  shows "\<exists>d. user_run (12 + m) sel rsp0 ticks ce (at_user e USER_CODE g w) k
      = Some (In_kernel d (gravity_sink_line 1 (f64_dec 334 (-3)) 0 (kp_say (S_Text user_payload_msg) k)))
    \<and> rip d = words c0 (rsp c0) \<and> rsp d = kernel_rsp e + 56 \<and> rflags d = rflags e AND NOT IF_FLAG
    \<and> (\<forall>r \<in> {RBX, RBP, R12, R13, R14, R15}. gpr d r = gpr c0 r)"
proof -
  have keep: "frame_at w'' (kernel_rsp e) (kernel_frame c0)"
    if "frame_at w' (kernel_rsp e) (kernel_frame c0)" "\<forall>a. \<not> gate_writes rsp0 ce a \<longrightarrow> w'' a = w' a" for w' w''
    using frame_at_mono [OF that(1)] that(2) apart by (simp add: kernel_frame_def)
  obtain g1 w1 where 1: "user_run (12 + m) sel rsp0 ticks ce (at_user e USER_CODE g w) k
      = user_run (9 + m) sel rsp0 ticks ce (at_user e (USER_CODE + 11) g1 w1) (kp_say (S_Text user_payload_msg) k)"
    "frame_at w1 (kernel_rsp e) (kernel_frame c0)"
    using user_says [OF deep, of "9 + m"] keep [OF frame] by (fastforce simp: numeral_eq_Suc)
  obtain g2 w2 where 2: "user_run (9 + m) sel rsp0 ticks ce (at_user e (USER_CODE + 11) g1 w1) (kp_say (S_Text user_payload_msg) k)
      = user_run (7 + m) sel rsp0 ticks ce (at_user e (USER_CODE + 18) g2 w2) (kp_say (S_Text user_payload_msg) k)"
    "frame_at w2 (kernel_rsp e) (kernel_frame c0)"
    using user_asks [OF deep, of "7 + m"] keep [OF 1(2)] by (fastforce simp: numeral_eq_Suc)
  let ?k = "gravity_sink_line 1 (f64_dec 334 (-3)) 0 (kp_say (S_Text user_payload_msg) k)"
  obtain g3 w3 where 3: "user_run (7 + m) sel rsp0 ticks ce (at_user e (USER_CODE + 18) g2 w2) (kp_say (S_Text user_payload_msg) k)
      = user_run (2 + m) sel rsp0 ticks ce (at_user e (USER_CODE + 37) g3 w3) ?k"
    "frame_at w3 (kernel_rsp e) (kernel_frame c0)"
    using user_commits [OF deep, of "2 + m"] keep [OF 2(2)] by (fastforce simp: numeral_eq_Suc)
  have "user_run (2 + m) = user_run (Suc (Suc m))" by simp
  then show ?thesis using user_leaves [OF deep 3(2) apart, of m sel ticks g3 ?k] 1(1) 2(1) 3(1) by simp
qed

text \<open>
  The stack that a system call runs on must leave the kernel's frame alone: none of the seven words is
  written, and the stack does not wrap round the address space.
\<close>

definition stacks_apart :: "64 word \<Rightarrow> callee \<Rightarrow> cpu \<Rightarrow> bool" where
  "stacks_apart rsp0 ce c \<longleftrightarrow>
     8 * (20 + ce_depth ce) < 2 ^ 64 \<and> (\<forall>i < 7. \<not> gate_writes rsp0 ce (rsp c - 48 + 8 * of_nat i))"

definition liturgy :: "said list" where
  "liturgy =
     [S_Text ''mundanus: descending to ring 3 (CPL 3) ...'',
      S_Text ''mundanus extra muros: officium per portam celebro'',
      S_Gravitas 1 (f64_dec 334 (-3)) 0,
      S_Text ''mundanus: rediit ad monasterium (back in ring 0)'']"

lemma liturgy_celebrated:
  assumes apart: "stacks_apart rsp0 ce c"
  shows "\<exists>d. user_run (12 + m) sel rsp0 ticks ce (exec_all enter_user (enter_args ucode udata c))
        (kp_say (S_Text ''mundanus: descending to ring 3 (CPL 3) ...'') k)
      = Some (In_kernel d (k\<lparr>kp_said := kp_said k @ butlast liturgy\<rparr>))
    \<and> rip d = words c (rsp c) \<and> rsp d = rsp c + 8 \<and> rflags d = 2
    \<and> (\<forall>r \<in> {RBX, RBP, R12, R13, R14, R15}. gpr d r = gpr c r)"
proof -
  let ?c = "enter_args ucode udata c"
  obtain w where e: "exec_all enter_user ?c = ?c\<lparr>rip := gpr ?c RDI, seg_cs := ucast (gpr ?c RDX), rflags := 0x202,
      rsp := gpr ?c RSI, seg_ss := ucast (gpr ?c RCX), kernel_rsp := rsp ?c - 48, words := w\<rparr>"
    "frame_at w (rsp ?c - 48) (kernel_frame ?c)"
    using enters_user [of ?c] by blast
  let ?e = "exec_all enter_user ?c"
  have c: "rsp ?c = rsp c" "words ?c = words c" "kernel_frame ?c = kernel_frame c" "gpr ?c RDI = USER_CODE"
    "gpr ?c r = gpr c r" if "r \<in> {RBX, RBP, R12, R13, R14, R15}" for r
    using that by (auto simp: enter_args_def kernel_frame_def)
  have f: "kernel_rsp ?e = rsp c - 48" "rip ?e = USER_CODE" "words ?e = w" "rflags ?e = 0x202"
    unfolding e(1) by (simp_all add: enter_args_def)
  have at: "at_user ?e USER_CODE (gpr ?e) w = ?e" using f by (simp add: at_user_def)
  have fr: "frame_at w (kernel_rsp ?e) (kernel_frame c)"
    using e(2) unfolding f(1) by (simp add: enter_args_def kernel_frame_def)
  have "8 * (20 + ce_depth ce) < 2 ^ 64" "\<And>i. i < 7 \<Longrightarrow> \<not> gate_writes rsp0 ce (kernel_rsp ?e + 8 * of_nat i)"
    using apart unfolding f(1) by (simp_all add: stacks_apart_def)
  from user_run_through [OF this(1) fr this(2), of m sel ticks "gpr ?e" "kp_say (S_Text ''mundanus: descending to ring 3 (CPL 3) ...'') k"]
  obtain d where d: "user_run (12 + m) sel rsp0 ticks ce ?e (kp_say (S_Text ''mundanus: descending to ring 3 (CPL 3) ...'') k)
      = Some (In_kernel d (gravity_sink_line 1 (f64_dec 334 (-3)) 0 (kp_say (S_Text user_payload_msg)
          (kp_say (S_Text ''mundanus: descending to ring 3 (CPL 3) ...'') k))))"
    "rip d = words c (rsp c)" "rsp d = rsp c - 48 + 56" "rflags d = 0x202 AND NOT IF_FLAG"
    "\<forall>r \<in> {RBX, RBP, R12, R13, R14, R15}. gpr d r = gpr c r"
    unfolding at f by blast
  have "rsp d = rsp c + 8" using d(3) by simp
  moreover have "rflags d = 2" unfolding d(4) by (simp add: IF_FLAG_def)
  ultimately show ?thesis
    using d(1,2,5) by (simp add: liturgy_def gravity_sink_line_def kp_say_def user_payload_msg_def)
qed

lemma dispatch_back:
  assumes "r RAX \<noteq> SYS_EXIT" "r RAX = SYS_SAY \<longrightarrow> read_user_cstr user (r RDI) \<noteq> None"
  shows "\<exists>v k'. syscall_dispatch user ticks r k = Back (r(RAX := v)) k'
    \<and> kernel_received k' = kernel_received k @ (if r RAX = SYS_COMMIT
         then [(r RDI, f64_div (f64_of_i64 (r RSI)) (f64_dec 1000 0), r RDX)] else [])"
proof -
  consider (say) "r RAX = SYS_SAY" | (now) "r RAX = SYS_NOW" | (commit) "r RAX = SYS_COMMIT"
    | (other) "r RAX \<notin> {SYS_SAY, SYS_NOW, SYS_COMMIT}" by blast
  then show ?thesis
  proof cases
    case say
    then obtain line where "read_user_cstr user (r RDI) = Some line" using assms(2) by auto
    then show ?thesis using say by (auto simp: syscall_dispatch_def sys_defs)
  next
    case now
    then show ?thesis by (auto simp: syscall_dispatch_def sys_defs)
  next
    case commit
    then show ?thesis by (auto simp: syscall_dispatch_def sys_defs Let_def gravity_sink_line_def)
  next
    case other
    then show ?thesis using assms(1) by (auto simp: syscall_dispatch_def)
  qed
qed

context frame_source
begin

lemma user_page_mapped:
  assumes ok: "mapper_ok map_to translate upcoming" and d: "distinct (upcoming a)"
    and m: "map_user_page map_to alloc va True (Some (m, a)) = Inr (m', a')"
  shows "\<exists>f. translate m' = (translate m)(containing_address va \<mapsto> (f, [Present, User_accessible, Writable]))
    \<and> f \<in> set (upcoming a) \<and> f \<notin> set (upcoming a') \<and> set (upcoming a') \<subseteq> set (upcoming a) \<and> distinct (upcoming a')"
proof -
  obtain f fs where u: "upcoming a = f # fs"
    using m alloc_none [of a] by (cases "upcoming a") (auto simp: map_user_page_def)
  obtain a1 where a1: "alloc a = (Some f, a1)" "upcoming a1 = fs" using alloc_next [OF u] by blast
  have "map_to (containing_address va) f [Present, User_accessible, Writable] [Present, Writable, User_accessible] (m, a1) = Inr (m', a')"
    using m a1(1) by (auto simp: map_user_page_def split: sum.splits)
  then obtain k where "translate m' = (translate m)(containing_address va \<mapsto> (f, [Present, User_accessible, Writable]))"
    "upcoming a' = drop k fs"
    using ok a1(2) unfolding mapper_ok_def by blast
  then show ?thesis using d u set_drop_subset [of k fs] by auto
qed

end

section \<open>Properties\<close>

text \<open>C39: a system call keeps the process: whatever it is asked for, except to exit or to read an unmapped
  string, the process goes on after the call with every register but RAX, its stack, its flags and its
  segments as they were; only SYS_COMMIT reaches the gravity sink, with one command.\<close>

theorem syscall_keeps_the_process:
  assumes "8 * (20 + ce_depth ce) < 2 ^ 64" "gpr c RAX \<noteq> SYS_EXIT"
    and "gpr c RAX = SYS_SAY \<longrightarrow> read_user_cstr user (gpr c RDI) \<noteq> None"
  shows "\<exists>v w k'. syscall_entry user ticks ce (interrupt_from_user sel rsp0 c) k = In_user (c\<lparr>gpr := (gpr c)(RAX := v), words := w\<rparr>) k'
    \<and> (\<forall>a. \<not> gate_writes rsp0 ce a \<longrightarrow> w a = words c a)
    \<and> kernel_received k' = kernel_received k @ (if gpr c RAX = SYS_COMMIT
         then [(gpr c RDI, f64_div (f64_of_i64 (gpr c RSI)) (f64_dec 1000 0), gpr c RDX)] else [])"
proof -
  obtain v k' where d: "syscall_dispatch user ticks (gpr c) k = Back ((gpr c)(RAX := v)) k'"
    "kernel_received k' = kernel_received k @ (if gpr c RAX = SYS_COMMIT
         then [(gpr c RDI, f64_div (f64_of_i64 (gpr c RSI)) (f64_dec 1000 0), gpr c RDX)] else [])"
    using dispatch_back [OF assms(2,3)] by blast
  then show ?thesis using gate_returns [OF assms(1) d(1)] by blast
qed

text \<open>C40: the layman's liturgy is celebrated: with its pages mapped, the descriptor table loaded and the two kernel
  stacks apart, the command prints its four lines in order, the only effect being one gravity command of the
  literal 0.334, and returns to its caller with the stack and the registers the convention keeps; but
  with interrupts off, which it found on.\<close>

theorem liturgy_in_ring_three:
  assumes "ensure_mapped map_to alloc st = (Inr (), st')" "stacks_apart rsp0 ce c"
  shows "\<exists>d. userspace_run (Some gdt_selectors) rsp0 ticks ce (12 + m) map_to alloc st c k
      = Some (st', d, k\<lparr>kp_said := kp_said k @ liturgy\<rparr>)
    \<and> rip d = words c (rsp c) \<and> rsp d = rsp c + 8 \<and> rflags d AND IF_FLAG = 0
    \<and> (\<forall>r \<in> {RBX, RBP, R12, R13, R14, R15}. gpr d r = gpr c r)"
proof -
  obtain d where d: "user_run (12 + m) gdt_selectors rsp0 ticks ce
        (exec_all enter_user (enter_args (user_code_selector gdt_selectors) (user_data_selector gdt_selectors) c))
        (kp_say (S_Text ''mundanus: descending to ring 3 (CPL 3) ...'') k)
      = Some (In_kernel d (k\<lparr>kp_said := kp_said k @ butlast liturgy\<rparr>))"
    "rip d = words c (rsp c)" "rsp d = rsp c + 8" "rflags d = 2"
    "\<forall>r \<in> {RBX, RBP, R12, R13, R14, R15}. gpr d r = gpr c r"
    using liturgy_celebrated [OF assms(2)] by blast
  have "rflags d AND IF_FLAG = 0" unfolding d(4) by (simp add: IF_FLAG_def)
  then show ?thesis
    using d(1-3,5) assms(1) unfolding userspace_run_def by (simp add: user_selectors_def Let_def kp_say_def liturgy_def)
qed

text \<open>The two pages of the process are its own: once \<open>ensure_mapped\<close> has succeeded, the code page and the
  stack page are mapped present, user-accessible and writable, to different frames of the memory map that the
  allocator will not hand out again, and mapping again changes nothing.\<close>

theorem user_pages_are_private:
  assumes "mapper_ok map_to translate upcoming_frames" "distinct (upcoming_frames a)"
    and "ensure_mapped map_to allocate_frame (False, Some (m, a)) = (Inr (), mapped, mem)"
  shows "\<exists>m' a' f g. mem = Some (m', a') \<and> f \<noteq> g
    \<and> {f, g} \<subseteq> set (upcoming_frames a) - set (upcoming_frames a')
    \<and> translate m' 0x40000000 = Some (f, [Present, User_accessible, Writable])
    \<and> translate m' 0x40003000 = Some (g, [Present, User_accessible, Writable])
    \<and> ensure_mapped map_to allocate_frame (mapped, mem) = (Inr (), mapped, mem)"
proof -
  have va: "containing_address (unat USER_CODE) = 0x40000000" "containing_address (unat USER_STACK) = 0x40003000"
    by (simp_all add: containing_address_def page_size_def USER_CODE_def USER_STACK_def)
  obtain m1 a1 m2 a2 where 1: "map_user_page map_to allocate_frame (unat USER_CODE) True (Some (m, a)) = Inr (m1, a1)"
    and 2: "map_user_page map_to allocate_frame (unat USER_STACK) True (Some (m1, a1)) = Inr (m2, a2)"
    and r: "mapped" "mem = Some (m2, a2)"
    using assms(3) by (auto simp: ensure_mapped_def split: sum.splits)
  obtain f where f: "translate m1 = (translate m)(0x40000000 \<mapsto> (f, [Present, User_accessible, Writable]))"
    "f \<in> set (upcoming_frames a)" "f \<notin> set (upcoming_frames a1)" "set (upcoming_frames a1) \<subseteq> set (upcoming_frames a)"
    "distinct (upcoming_frames a1)"
    using boot.user_page_mapped [OF assms(1,2) 1] va by auto
  obtain g where g: "translate m2 = (translate m1)(0x40003000 \<mapsto> (g, [Present, User_accessible, Writable]))"
    "g \<in> set (upcoming_frames a1)" "g \<notin> set (upcoming_frames a2)" "set (upcoming_frames a2) \<subseteq> set (upcoming_frames a1)"
    using boot.user_page_mapped [OF assms(1) f(5) 2] va by auto
  have "f \<noteq> g" "f \<notin> set (upcoming_frames a2)" using f(3) g(2,4) by auto
  then show ?thesis using f g r by (auto simp: ensure_mapped_def)
qed

section \<open>The properties at work\<close>

definition sample_callee :: callee where
  "sample_callee = \<lparr>ce_gpr = (\<lambda>_. 7), ce_depth = 4, ce_words = (\<lambda>_. 9)\<rparr>"

definition sample_cpu :: cpu where
  "sample_cpu = \<lparr>gpr = (\<lambda>r. if r = RAX then 2 else if r = RDI then 5 else 3), rsp = 0x20000, rip = 0x1000,
     rflags = 0x202, seg_cs = 8, seg_ss = 16, words = (\<lambda>_. 1), kernel_rsp = 0\<rparr>"

theorem syscall_keeps_the_process_witness:
  "\<exists>v w k'. syscall_entry (\<lambda>_. None) 11 sample_callee (interrupt_from_user gdt_selectors 0x10000 sample_cpu) \<lparr>kp_said = [], kp_yields = 0\<rparr>
      = In_user (sample_cpu\<lparr>gpr := (gpr sample_cpu)(RAX := v), words := w\<rparr>) k'
    \<and> kernel_received k' = [(5, f64_div (f64_of_i64 3) (f64_dec 1000 0), 3)]"
proof -
  have "8 * (20 + ce_depth sample_callee) < 2 ^ 64" "gpr sample_cpu RAX \<noteq> SYS_EXIT" "gpr sample_cpu RAX \<noteq> SYS_SAY"
    by (simp_all add: sample_callee_def sample_cpu_def sys_defs)
  then show ?thesis
    using syscall_keeps_the_process [of sample_callee sample_cpu "\<lambda>_. None" 11 gdt_selectors "0x10000" "\<lparr>kp_said = [], kp_yields = 0\<rparr>"]
    by (auto simp: sample_cpu_def sys_defs kernel_received_def)
qed

lemma sample_stacks_apart: "stacks_apart 0x10000 sample_callee sample_cpu"
proof -
  have "\<not> gate_writes 0x10000 sample_callee (rsp sample_cpu - 48 + 8 * of_nat i)" if "i < 7" for i
  proof
    assume "gate_writes 0x10000 sample_callee (rsp sample_cpu - 48 + 8 * of_nat i)"
    then obtain j where j: "j < 24" "(0x1FFD0 :: 64 word) + 8 * of_nat i = 0x10000 - 8 * of_nat (Suc j)"
      by (auto simp: gate_writes_def sample_callee_def sample_cpu_def)
    have "(of_nat (0x1FFD0 + 8 * i + 8 * Suc j) :: 64 word) = 0x1FFD0 + 8 * of_nat i + 8 * of_nat (Suc j)"
      by simp
    also have "\<dots> = of_nat 0x10000" unfolding j(2) by simp
    finally have eq: "(of_nat (0x1FFD0 + 8 * i + 8 * Suc j) :: 64 word) = of_nat 0x10000" .
    have small: "0x1FFD0 + 8 * i + 8 * Suc j < 2 ^ 64" using j(1) that by simp
    have "0x1FFD0 + 8 * i + 8 * Suc j = 0x10000"
      using arg_cong [OF eq, of unat] unfolding unat_small [OF small] by simp
    then show False by simp
  qed
  then show ?thesis by (simp add: stacks_apart_def sample_callee_def)
qed

definition one_region :: frame_allocator where
  "one_region = frame_allocator_init [\<lparr>region_start = 0x1000, region_end = 0x3000, region_kind = Usable\<rparr>]"

lemma one_region_frames: "upcoming_frames one_region = [0x1000, 0x2000]"
  by (simp add: one_region_def frame_allocator_init_def upcoming_frames_def usable_frames_def region_frames_def
      containing_address_def page_size_def upt_rec)

lemma one_region_mapped:
  "\<exists>mem. ensure_mapped plain_map_to allocate_frame (False, Some (Map.empty, one_region)) = (Inr (), True, mem)"
proof -
  have u: "usable_frames (memory_regions one_region) = [0x1000, 0x2000]" "next_frame one_region = 0"
    using one_region_frames by (simp_all add: upcoming_frames_def one_region_def frame_allocator_init_def)
  show ?thesis
    by (simp add: ensure_mapped_def map_user_page_def allocate_frame_def u plain_map_to_def Let_def)
qed

theorem liturgy_in_ring_three_witness:
  "\<exists>st d. userspace_run (Some gdt_selectors) 0x10000 11 sample_callee 12 plain_map_to allocate_frame
       (False, Some (Map.empty, one_region)) sample_cpu \<lparr>kp_said = [], kp_yields = 0\<rparr>
      = Some (st, d, \<lparr>kp_said = liturgy, kp_yields = 0\<rparr>) \<and> rip d = 1 \<and> rsp d = 0x20008"
proof -
  obtain mem where "ensure_mapped plain_map_to allocate_frame (False, Some (Map.empty, one_region)) = (Inr (), True, mem)"
    using one_region_mapped by blast
  from liturgy_in_ring_three [OF this sample_stacks_apart, where m = 0 and ticks = 11 and k = "\<lparr>kp_said = [], kp_yields = 0\<rparr>"] show ?thesis
    by (auto simp: sample_cpu_def)
qed

theorem user_pages_are_private_witness:
  "\<exists>m a. ensure_mapped plain_map_to allocate_frame (False, Some (Map.empty, one_region)) = (Inr (), True, Some (m, a))
    \<and> m 0x40000000 \<noteq> None \<and> m 0x40003000 \<noteq> None \<and> m 0x40000000 \<noteq> m 0x40003000"
proof -
  obtain mem where mem: "ensure_mapped plain_map_to allocate_frame (False, Some (Map.empty, one_region)) = (Inr (), True, mem)"
    using one_region_mapped by blast
  have "distinct (upcoming_frames one_region)" by (simp add: one_region_frames)
  from user_pages_are_private [OF plain_mapper_ok this mem] show ?thesis using mem by auto
qed

end
