(* ===== verification/Scores.thy ===== *)
theory Scores
  imports Main
begin

text \<open>
  The two scores that are part of the programs: \<open>scores/meteor.off\<close> (in the kernel and the hosted
  driver) and \<open>scores/meteor_cantus.off\<close> (in the kernel), byte for byte.
\<close>

abbreviation (input) nl :: string where
  "nl \<equiv> [CHR 0x0A]"

definition METEOR :: string where
  "METEOR =
     ''; Officium reference score ('' @ [CHR 0xC2, CHR 0xA7] @ ''14): planetary defense in three modes.'' @
     nl @
     ''; Protus computes a deflection field (or nihil), Hypomixolydian turns'' @ nl @
     ''; it into a Plan, Mixolydian commits it '' @ [CHR 0xE2, CHR 0x80, CHR 0x94] @
     '' the only impure verse.'' @ nl @
     nl @
     ''fuga gravitas in Sol {'' @ nl @
     ''  pedale     G = 6.674e-11                ; grav. constant, held in the pedals'' @ nl @
     ''  subiectum  trahere(corpus) = '' @ [CHR 0x5C] @ ''r -> G * mass(corpus) / (r * r)'' @ nl @
     ''  reale      trahere @ asteroides = '' @ [CHR 0x5C] @ ''r -> G * mass(corpus) / (r * r)'' @ nl @
     ''  tonale     trahere @ cometes    = '' @ [CHR 0x5C] @
     ''r -> (G * mass(corpus) / (r * r)) + outgassing(corpus)'' @ nl @
     ''  contra     '' @ [CHR 0x5C] @
     ''r -> r * r                  ; r-squared always sounds with the subject'' @ nl @
     ''}'' @ nl @
     nl @
     ''versus correctio in Re {                  ; Protus = Maybe. Plan a deflection, or nihil.'' @ nl @
     ''  corpus <- arg'' @ nl @
     ''  g      <- ask '' @ [CHR 0x22] @ ''G'' @ [CHR 0x22] @ nl @
     ''  r      <- pure (dist corpus)'' @ nl @
     ''  f      <- resolve '' @ [CHR 0x22] @ ''trahere'' @ [CHR 0x22] @ '' (genus corpus)'' @ nl @
     ''  si (safe corpus g) tunc {'' @ nl @
     ''    nihil                                 ; already safe -> no correction'' @ nl @
     ''  } aliter {'' @ nl @
     ''    dv <- pure (solve f r)'' @ nl @
     ''    amen (deflect dv)                     ; cadence: return the pure Field'' @ nl @
     ''  }'' @ nl @
     ''}'' @ nl @
     nl @
     ''versus consilium in sol {                 ; Hypomixolydian = Plan. Pure. Nothing leaves.'' @ nl @
     ''  field <- arg'' @ nl @
     ''  mitte (cmd (target field) (dv_of field) (at field))'' @ nl @
     ''  amen field'' @ nl @
     ''}'' @ nl @
     nl @
     ''versus executio in Sol {                  ; Mixolydian = commit. The ONLY impure verse.'' @ nl @
     ''  plan <- arg'' @ nl @
     ''  perage plan'' @ nl @
     ''}'' @ nl"

definition CANTUS :: string where
  "CANTUS =
     ''; Officium reference score, sung form ('' @ [CHR 0xC2, CHR 0xA7] @ ''7.3): the same three-mode'' @
     nl @
     ''; planetary defense as meteor.off, but each verse in the liturgical'' @ nl @
     ''; eight lines. A line is '' @ [CHR 0x60] @ ''label '' @ [CHR 0x22] @ ''sung text'' @ [CHR 0x22] @
     '' ; statement'' @ [CHR 0x60] @ '' '' @ [CHR 0xE2, CHR 0x80, CHR 0x94] @ '' the text is'' @ nl @
     ''; what the choir sings, the statement is what it means.'' @ nl @
     '';'' @ nl @
     ''; Rhyme = type ('' @ [CHR 0xC2, CHR 0xA7] @ ''7.4): lines sharing a label must carry unifiable'' @
     nl @
     ''; statement types, and the checker verifies it before a note sounds.'' @ nl @
     ''; Hence the sequence-like schemes below '' @ [CHR 0xE2, CHR 0x80, CHR 0x94] @
     '' every rhyme is honest:'' @ nl @
     ''; A-lines answer each other with the same type (the antiphon lines'' @ nl @
     ''; echo a value back), and the final couplet carries the verse'' @ [CHR 0x27] @ ''s'' @ nl @
     ''; result. The volta falls between line 6 and line 7.'' @ nl @
     ''; The fugue is not sung '' @ [CHR 0xE2, CHR 0x80, CHR 0x94] @ '' the organ holds it ('' @
     [CHR 0xC2, CHR 0xA7] @ ''4.2).'' @ nl @
     nl @
     ''fuga gravitas in Sol {'' @ nl @
     ''  pedale     G = 6.674e-11                ; grav. constant, held in the pedals'' @ nl @
     ''  subiectum  trahere(corpus) = '' @ [CHR 0x5C] @ ''r -> G * mass(corpus) / (r * r)'' @ nl @
     ''  reale      trahere @ asteroides = '' @ [CHR 0x5C] @ ''r -> G * mass(corpus) / (r * r)'' @ nl @
     ''  tonale     trahere @ cometes    = '' @ [CHR 0x5C] @
     ''r -> (G * mass(corpus) / (r * r)) + outgassing(corpus)'' @ nl @
     ''  contra     '' @ [CHR 0x5C] @
     ''r -> r * r                  ; r-squared always sounds with the subject'' @ nl @
     ''}'' @ nl @
     nl @
     ''; scheme AABCCB DD: A = the body (corpus), B = force numbers,'' @ nl @
     ''; C = distance numbers, D = the couplet (the verse'' @ [CHR 0x27] @ ''s Field / nihil)'' @ nl @
     ''versus correctio in Re {'' @ nl @
     ''  A '' @ [CHR 0x22] @ ''Corpus errans in caelo videtur'' @ [CHR 0x22] @ ''      ; corpus <- arg'' @
     nl @
     ''  A '' @ [CHR 0x22] @ ''Et a choro testis intuetur'' @ [CHR 0x22] @
     ''          ; testis <- pure corpus'' @ nl @
     ''  B '' @ [CHR 0x22] @ ''Vis attractionis pedale sonat'' @ [CHR 0x22] @ ''       ; g <- ask '' @
     [CHR 0x22] @ ''G'' @ [CHR 0x22] @ nl @
     ''  C '' @ [CHR 0x22] @ ''Quam longinqua via mensuratur'' @ [CHR 0x22] @
     ''       ; r <- pure (dist corpus)'' @ nl @
     ''  C '' @ [CHR 0x22] @ ''Quadratum viae contra cantatur'' @ [CHR 0x22] @
     ''      ; via <- pure (r * r)'' @ nl @
     ''  B '' @ [CHR 0x22] @ ''Modus trahendi genus coronat'' @ [CHR 0x22] @
     ''        ; dv <- pure (solve (resolve '' @ [CHR 0x22] @ ''trahere'' @ [CHR 0x22] @
     '' (genus corpus)) r)'' @ nl @
     ''  D '' @ [CHR 0x22] @ ''Si tutum silet vox in aeternum'' @ [CHR 0x22] @
     ''      ; si (safe corpus g) tunc { nihil } aliter {'' @ nl @
     ''  D '' @ [CHR 0x22] @ ''Sin flectat caelum iter externum'' @ [CHR 0x22] @
     ''    ; amen (deflect dv) }'' @ nl @
     ''}'' @ nl @
     nl @
     ''; scheme AABBCC DD: A = the field, B = its numbers, C = the command,'' @ nl @
     ''; D = the couplet (the pure result, nothing yet moved)'' @ nl @
     ''versus consilium in sol {'' @ nl @
     ''  A '' @ [CHR 0x22] @ ''Campus purus in manus traditur'' @ [CHR 0x22] @ ''      ; field <- arg'' @
     nl @
     ''  A '' @ [CHR 0x22] @ ''Pignus fidele choro redditur'' @ [CHR 0x22] @
     ''        ; pignus <- pure field'' @ nl @
     ''  B '' @ [CHR 0x22] @ ''Cui corpori vis dirigenda'' @ [CHR 0x22] @
     ''           ; t <- pure (target field)'' @ nl @
     ''  B '' @ [CHR 0x22] @ ''Et quanta virtus imponenda'' @ [CHR 0x22] @
     ''          ; d <- pure (dv_of field)'' @ nl @
     ''  C '' @ [CHR 0x22] @ ''Iussum e campo iam formatur'' @ [CHR 0x22] @
     ''         ; iussum <- pure (cmd t d (at field))'' @ nl @
     ''  C '' @ [CHR 0x22] @ ''In librum consilii mittatur'' @ [CHR 0x22] @ ''         ; mitte iussum'' @
     nl @
     ''  D '' @ [CHR 0x22] @ ''Nihil adhuc in mundo motum est'' @ [CHR 0x22] @
     ''      ; quies <- pure verum'' @ nl @
     ''  D '' @ [CHR 0x22] @ ''Consilium purum perfectum est'' @ [CHR 0x22] @ ''       ; amen field'' @ nl @
     ''}'' @ nl @
     nl @
     ''; scheme AABBCC DD: A = the plan, B and C = the doxology,'' @ nl @
     ''; D = the couplet '' @ [CHR 0xE2, CHR 0x80, CHR 0x94] @ '' the commit, the only impure act'' @ nl @
     ''versus executio in Sol {'' @ nl @
     ''  A '' @ [CHR 0x22] @ ''Consilium plenum accipitur'' @ [CHR 0x22] @ ''          ; plan <- arg'' @
     nl @
     ''  A '' @ [CHR 0x22] @ ''Pignus ultimum custoditur'' @ [CHR 0x22] @
     ''           ; pignus <- pure plan'' @ nl @
     ''  B '' @ [CHR 0x22] @ ''Gloria Patri qui fundavit'' @ [CHR 0x22] @ ''           ; gloria <- pure '' @
     [CHR 0x22] @ ''patri'' @ [CHR 0x22] @ nl @
     ''  B '' @ [CHR 0x22] @ ''Et Filio qui nos salvavit'' @ [CHR 0x22] @ ''           ; laus <- pure '' @
     [CHR 0x22] @ ''filio'' @ [CHR 0x22] @ nl @
     ''  C '' @ [CHR 0x22] @ ''Spiritui vivificanti'' @ [CHR 0x22] @ ''                ; honor <- pure '' @
     [CHR 0x22] @ ''spiritui'' @ [CHR 0x22] @ nl @
     ''  C '' @ [CHR 0x22] @ ''Laude aeterna resonanti'' @ [CHR 0x22] @
     ''             ; iubilus <- pure '' @ [CHR 0x22] @ ''saecula'' @ [CHR 0x22] @ nl @
     ''  D '' @ [CHR 0x22] @ ''Per omnia saecula saeculorum'' @ [CHR 0x22] @ ''        ; finis <- pure '' @
     [CHR 0x22] @ ''amen'' @ [CHR 0x22] @ nl @
     ''  D '' @ [CHR 0x22] @ ''Perage - fiat opus manuum'' @ [CHR 0x22] @ ''           ; perage plan'' @
     nl @
     ''}'' @ nl"

end
