(* ===== verification/Celebrare.thy ===== *)
theory Celebrare
  imports Scores Driver Organ Parser Check_Total Sound
begin

text \<open>
  The entry points around the interpreter: \<open>celebrare\<close> and \<open>play\<close> of \<open>kernel/src/celebrare.rs\<close>, and
  \<open>main\<close> of \<open>officium-host/src/main.rs\<close>: a score is parsed, checked, sung, and its verses run.

  What a task of the kernel asks of the console, the speaker, the sound card and the timer is a list of
  calls in the order they are made; folding the calls over the models of those devices gives their
  states. \<open>None\<close> is a checker that does not return; \<open>Inl Panicked\<close>, which rendering more than 254 verses comes to, is
  the end of the task, whose earlier calls are not kept; reading a file is a parameter of the host.
\<close>

section \<open>Calls\<close>

datatype kcall =
  K_say said
| K_print "nat list"
| K_clear
| K_start_tone "32 word"
| K_stop_tone
| K_note_on "32 word"
| K_note_off "32 word"
| K_all_notes_off
| K_sleep "64 word"
| K_userspace

text \<open>What the card gets of the calls, and what it then plays.\<close>

fun card_event :: "kcall \<Rightarrow> key_event list" where
  "card_event (K_note_on f) = [Press f]"
| "card_event (K_note_off f) = [Release f]"
| "card_event K_all_notes_off = [Silence]"
| "card_event _ = []"

definition card_events :: "kcall list \<Rightarrow> key_event list" where
  "card_events cs = concat (map card_event cs)"

fun call_gravitas :: "kcall \<Rightarrow> (body_id \<times> f64 \<times> micros) list" where
  "call_gravitas (K_say s) = said_gravitas s"
| "call_gravitas _ = []"

definition calls_received :: "kcall list \<Rightarrow> (body_id \<times> f64 \<times> micros) list" where
  "calls_received cs = concat (map call_gravitas cs)"

section \<open>The organ of the kernel\<close>

fun kernel_organ :: "libm \<Rightarrow> organ_call \<Rightarrow> kcall list" where
  "kernel_organ lib (Note_on v p) = [K_note_on (pitch_hz lib p)]"
| "kernel_organ lib (Note_off v p) = [K_note_off (pitch_hz lib p)]"
| "kernel_organ lib (Tick dt) = []"

definition tick_ms :: "64 word" where
  "tick_ms = of_nat (TICK_US div 1000)"

definition kernel_tick :: "libm \<Rightarrow> organ_note list \<Rightarrow> nat \<Rightarrow> kcall list" where
  "kernel_tick lib events t =
     concat (map (\<lambda>n. kernel_organ lib (Note_on (n_voice n) (n_pitch n))) (filter (\<lambda>n. n_onset n = t) events))
     @ [K_sleep tick_ms]
     @ concat (map (\<lambda>n. kernel_organ lib (Note_off (n_voice n) (n_pitch n)))
         (filter (\<lambda>n. n_onset n + n_dur n = t + 1) events))"

definition kernel_play :: "libm \<Rightarrow> organ_note list \<Rightarrow> kcall list" where
  "kernel_play lib events =
     (if events = [] then []
      else concat (map (kernel_tick lib events) [0 ..< play_end events]) @ [K_all_notes_off])"

section \<open>The kernel's entry point\<close>

definition score_source :: "string \<Rightarrow> string option \<Rightarrow> string option" where
  "score_source source_name given =
     (if source_name = ''-'' \<and> given \<noteq> None then given
      else if source_name = ''meteor'' then Some METEOR
      else if source_name = ''cantus'' then Some CANTUS
      else None)"

definition score_line :: "program \<Rightarrow> said" where
  "score_line prog =
     S_Score (length (prog_fugues prog)) (length (prog_verses prog)) (voices (from_fugues (prog_fugues prog)))"

definition sung_poems :: "program \<Rightarrow> said list" where
  "sung_poems prog =
     concat (map (\<lambda>v. if ver_rhymes v = [] then []
         else S_Versus (ver_name v) # map (\<lambda>(label, txt). S_Sung label txt) (ver_rhymes v))
       (prog_verses prog))"

definition kernel_start :: kernel_platform where
  "kernel_start = \<lparr>kp_said = [], kp_yields = 0\<rparr>"

definition celebrate_verses :: "program \<Rightarrow> kernel_platform \<Rightarrow> kernel_platform mres" where
  "celebrate_verses prog k =
     (let env = from_fugues (prog_fugues prog) in
      if prog_verse prog ''correctio'' \<noteq> None then kernel_procession env prog bodies k
      else case prog_verses prog of
          v # vs \<Rightarrow>
            (case kernel_run_full env v (VNum (f64_dec 0 0)) k of
               (Inr out, k) \<Rightarrow> Inr (kp_say (S_Cadenced (ver_name v) (out_value out)) k)
             | (Inl e, k) \<Rightarrow> kernel_loud e k)
        | [] \<Rightarrow> Inr (kp_say S_No_verses k))"

definition said_calls :: "kernel_platform mres \<Rightarrow> kcall list mres" where
  "said_calls r = and_then r (\<lambda>k. Inr (map K_say (kp_said k)))"

text \<open>The score is read back aurally, if there is a card; rendering may panic.\<close>

definition read_back :: "libm \<Rightarrow> bool \<Rightarrow> program \<Rightarrow> kcall list mres" where
  "read_back lib available prog =
     (if available then
        (case render_program prog of
           None \<Rightarrow> Inl Panicked
         | Some events \<Rightarrow> Inr (kernel_play lib events))
      else Inr [])"

definition sing :: "libm \<Rightarrow> bool \<Rightarrow> program \<Rightarrow> kcall list mres" where
  "sing lib available prog =
     and_then (read_back lib available prog) (\<lambda>played.
     and_then (said_calls (celebrate_verses prog kernel_start)) (\<lambda>verses.
       Inr (map K_say (score_line prog # sung_poems prog) @ played @ verses)))"

definition celebrare :: "libm \<Rightarrow> bool \<Rightarrow> string \<Rightarrow> string option \<Rightarrow> kcall list mres option" where
  "celebrare lib available source_name given =
     (case score_source source_name given of
        None \<Rightarrow> Some (Inr [K_say (S_Unknown_score source_name)])
      | Some src \<Rightarrow>
          (case parse src of
             Inl d \<Rightarrow> Some (said_calls (kernel_loud d kernel_start))
           | Inr prog \<Rightarrow>
               (case check_program prog of
                  None \<Rightarrow> None
                | Some (Inl d) \<Rightarrow> Some (said_calls (kernel_loud d kernel_start))
                | Some (Inr _) \<Rightarrow> Some (sing lib available prog))))"

section \<open>The hosted entry point\<close>

text \<open>\<open>parse::<u64>\<close> and \<open>parse::<u32>\<close>: digits after an optional plus sign, below the bound.\<close>

definition parse_uint :: "nat \<Rightarrow> string \<Rightarrow> nat option" where
  "parse_uint width s =
     (let ds = (if s \<noteq> [] \<and> hd s = CHR ''+'' then tl s else s);
          n = foldl (\<lambda>n c. 10 * n + (of_char c - 48)) 0 ds
      in if ds \<noteq> [] \<and> list_all is_digit ds \<and> n < 2 ^ width then Some n else None)"

fun host_args :: "string list \<Rightarrow> nat \<times> bool \<times> string option \<Rightarrow> nat \<times> bool \<times> string option" where
  "host_args [] opts = opts"
| "host_args [a] (fuel, render, path) =
     (if a = ''--fuel'' then (fuel, render, path)
      else if a = ''--render'' then (fuel, True, path)
      else (fuel, render, Some a))"
| "host_args (a # s # it) (fuel, render, path) =
     (if a = ''--fuel'' then host_args it (case parse_uint 64 s of Some n \<Rightarrow> n | None \<Rightarrow> fuel, render, path)
      else if a = ''--render'' then host_args (s # it) (fuel, True, path)
      else host_args (s # it) (fuel, render, Some a))"

definition host_source :: "(string \<Rightarrow> string option) \<Rightarrow> string option \<Rightarrow> string option" where
  "host_source read_file path = (case path of Some p \<Rightarrow> read_file p | None \<Rightarrow> Some METEOR)"

definition host_render :: "libm \<Rightarrow> program \<Rightarrow> host_platform \<Rightarrow> host_platform mres" where
  "host_render lib prog p =
     (case render_program prog of
        None \<Rightarrow> Inl Panicked
      | Some events \<Rightarrow>
          (let organ = fold (mock_call lib) (play events) mock_organ
           in Inr (fold (\<lambda>line. hp_say (S_Text (''  '' @ line))) (mo_log organ) (hp_say (S_Render (length events)) p))))"

text \<open>The exit code, and what was printed and committed.\<close>

definition host_exit_loud :: "diss exn \<Rightarrow> host_platform \<Rightarrow> (nat \<times> host_platform) mres option" where
  "host_exit_loud d p = map_option (\<lambda>r. and_then r (\<lambda>p. Inr (1, p))) (host_loud d p)"

definition host_office :: "libm \<Rightarrow> nat \<Rightarrow> bool \<Rightarrow> program \<Rightarrow> host_platform \<Rightarrow> (nat \<times> host_platform) mres option" where
  "host_office lib fuel render prog p =
     (let p = hp_say (score_line prog) p;
          rendered = (if render then host_render lib prog p else Inr p)
      in case rendered of
           Inl e \<Rightarrow> Some (Inl e)
         | Inr p \<Rightarrow>
             map_option (\<lambda>r. and_then r (\<lambda>p. Inr (0, hp_say (S_Consummatum (length (hp_committed p))) p)))
               (host_procession (from_fugues (prog_fugues prog)) prog fuel bodies p))"

definition host_start :: host_platform where
  "host_start = \<lparr>hp_said = [], hp_committed = []\<rparr>"

definition host_main ::
  "libm \<Rightarrow> (string \<Rightarrow> string option) \<Rightarrow> string list \<Rightarrow> (nat \<times> host_platform) mres option" where
  "host_main lib read_file args =
     (case host_args args (100000, False, None) of
        (fuel, render, path) \<Rightarrow>
          (case host_source read_file path of
             None \<Rightarrow> Some (Inr (1, hp_say (S_Cannot_read (the path)) host_start))
           | Some src \<Rightarrow>
               (case parse src of
                  Inl d \<Rightarrow> host_exit_loud d host_start
                | Inr prog \<Rightarrow>
                    (case check_program prog of
                       None \<Rightarrow> None
                     | Some (Inl d) \<Rightarrow> host_exit_loud d host_start
                     | Some (Inr _) \<Rightarrow> host_office lib fuel render prog host_start))))"


section \<open>A refusal is never a panic\<close>

lemma branches_differ:
  "x \<noteq> z \<Longrightarrow> y \<noteq> z \<Longrightarrow> (if b then x else y) \<noteq> z"
  "n \<noteq> z \<Longrightarrow> (\<And>a. f a \<noteq> z) \<Longrightarrow> case_option n f o' \<noteq> z"
  "n \<noteq> z \<Longrightarrow> (\<And>a l. g a l \<noteq> z) \<Longrightarrow> case_list n g xs \<noteq> z"
  "(\<And>a b. h a b \<noteq> z) \<Longrightarrow> case_prod h p \<noteq> z"
  by (simp_all split: option.split list.split prod.split)

lemma lex_step_raises: "lex_step st \<noteq> Inl Panicked"
  by (cases st rule: lex_step.cases; simp only: lex_step.simps Let_def; (intro branches_differ)?; simp)

lemma lex_raises: "lex src \<noteq> Inl Panicked"
proof -
  have "lex_from st \<noteq> Inl Panicked" for st :: lex_state
    by (induction st rule: lex_from.induct)
      (subst lex_from.simps, auto simp: and_then_Inl_iff lex_step_raises)
  then show ?thesis by (simp add: lex_def)
qed

lemma parse_raises: "parse src \<noteq> Inl Panicked"
  using lex_raises [of src] by (auto simp: parse_def and_then_Inl_iff split: sum.splits prod.splits)

lemma check_raises:
  "check_program P = Some (Inl e) \<Longrightarrow> \<exists>d. e = Raise d"
  using check_verses_errors unfolding check_program_def by blast

text \<open>The office over several bodies: the kernel ends, and the host ends with the same commands sent.\<close>

lemma office_extend:
  assumes "office prog k r host" "\<And>k1. r = Inr k1 \<Longrightarrow> \<exists>k2 new. rest k1 = Inr k2 \<and> kernel_received k2 = kernel_received k1 @ new
    \<and> abandoned k1 \<le> abandoned k2 \<and> (abandoned k2 = abandoned k1 \<longrightarrow>
       (\<forall>p. \<exists>p'. hrest p = Some (Inr p') \<and> host_received p' = host_received p @ new))"
  shows "\<exists>k2 new. and_then r rest = Inr k2 \<and> kernel_received k2 = kernel_received k @ new
    \<and> abandoned k \<le> abandoned k2 \<and> (abandoned k2 = abandoned k \<longrightarrow>
       (\<forall>p. \<exists>p'. (case host p of Some (Inr p) \<Rightarrow> hrest p | stopped \<Rightarrow> stopped) = Some (Inr p')
          \<and> host_received p' = host_received p @ new))"
proof -
  obtain k1 plan where 1: "r = Inr k1" "kernel_received k1 = kernel_received k @ commands plan" "abandoned k \<le> abandoned k1"
    "abandoned k1 = abandoned k \<longrightarrow> (\<forall>p. \<exists>p'. host p = Some (Inr p') \<and> host_received p' = host_received p @ commands plan)"
    using assms(1) unfolding office_def by blast
  obtain k2 new where 2: "rest k1 = Inr k2" "kernel_received k2 = kernel_received k1 @ new" "abandoned k1 \<le> abandoned k2"
    "abandoned k2 = abandoned k1 \<longrightarrow> (\<forall>p. \<exists>p'. hrest p = Some (Inr p') \<and> host_received p' = host_received p @ new)"
    using assms(2) [OF 1(1)] by blast
  have "\<exists>p'. (case host p of Some (Inr p) \<Rightarrow> hrest p | stopped \<Rightarrow> stopped) = Some (Inr p')
      \<and> host_received p' = host_received p @ commands plan @ new" if "abandoned k2 = abandoned k" for p
  proof -
    have "abandoned k1 = abandoned k" "abandoned k2 = abandoned k1" using that 1(3) 2(3) by simp_all
    then obtain p1 where "host p = Some (Inr p1)" "host_received p1 = host_received p @ commands plan" using 1(4) by blast
    moreover obtain p2 where "hrest p1 = Some (Inr p2)" "host_received p2 = host_received p1 @ new"
      using 2(4) \<open>abandoned k2 = abandoned k1\<close> by blast
    ultimately show ?thesis by simp
  qed
  then show ?thesis using 1 2 by (intro exI [of _ k2] exI [of _ "commands plan @ new"]) simp
qed

lemma procession_office:
  assumes "0 < fuel" "prog_verse prog ''correctio'' \<noteq> None"
  shows "\<exists>k' new. kernel_procession env prog bs k = Inr k' \<and> kernel_received k' = kernel_received k @ new
    \<and> abandoned k \<le> abandoned k' \<and> (abandoned k' = abandoned k \<longrightarrow>
       (\<forall>p. \<exists>p'. host_procession env prog fuel bs p = Some (Inr p') \<and> host_received p' = host_received p @ new))"
proof (induction bs arbitrary: k)
  case Nil
  show ?case by (rule exI [of _ k], rule exI [of _ "[]"]) simp
next
  case (Cons b bs)
  obtain label body where b: "b = (label, body)" by (metis surj_pair)
  have one: "office prog k (kernel_celebrate_body env prog body (kp_say (S_Corpus label) k))
      (host_celebrate_body env prog fuel label body)"
    by (rule office_after [OF office_body [OF assms]]) simp_all
  show ?case unfolding b kernel_procession.simps host_procession.simps by (rule office_extend [OF one Cons.IH])
qed

text \<open>A score without the wiring: the kernel runs its first verse, the host says so for each body.\<close>

lemma unwired_procession:
  assumes "prog_verse prog ''correctio'' = None"
  shows "\<exists>p'. host_procession env prog fuel bs p = Some (Inr p') \<and> host_received p' = host_received p"
proof (induction bs arbitrary: p)
  case (Cons b bs)
  obtain label body where b: "b = (label, body)" by (metis surj_pair)
  have "host_celebrate_body env prog fuel label body p
      = Some (Inr (hp_say S_NoCorrectio (hp_say (S_Corpus label) p)))"
    using assms by (simp add: host_celebrate_body_def Let_def)
  then show ?case using Cons.IH [of "hp_say S_NoCorrectio (hp_say (S_Corpus label) p)"] by (simp add: b)
qed simp

lemma verses_office:
  assumes "0 < fuel"
  shows "\<exists>k' new. celebrate_verses prog k = Inr k' \<and> kernel_received k' = kernel_received k @ new
    \<and> abandoned k \<le> abandoned k' \<and> (abandoned k' = abandoned k \<longrightarrow>
       (\<forall>p. \<exists>p'. host_procession (from_fugues (prog_fugues prog)) prog fuel bodies p = Some (Inr p')
          \<and> host_received p' = host_received p @ new))"
proof (cases "prog_verse prog ''correctio'' = None")
  case False
  then show ?thesis using procession_office [OF assms False] by (simp add: celebrate_verses_def Let_def)
next
  case True
  have host: "\<exists>p'. host_procession (from_fugues (prog_fugues prog)) prog fuel bodies p = Some (Inr p')
      \<and> host_received p' = host_received p @ []" for p
    using unwired_procession [OF True] by simp
  have "\<exists>k'. celebrate_verses prog k = Inr k' \<and> kernel_received k' = kernel_received k \<and> abandoned k \<le> abandoned k'"
  proof (cases "prog_verses prog")
    case Nil
    then show ?thesis using True by (simp add: celebrate_verses_def is_numquam_def)
  next
    case (Cons v vs)
    obtain r k1 where run: "kernel_run_full (from_fugues (prog_fugues prog)) v (VNum (f64_dec 0 0)) k = (r, k1)"
      by (metis surj_pair)
    note run_cases = kernel_run_full_cases [OF run]
    have "abandoned k \<le> abandoned k1" using run_cases(3) by auto
    then show ?thesis using run_cases(1,2) True run Cons
      by (cases r; cases "projl r") (auto simp: celebrate_verses_def kernel_loud_def)
  qed
  then show ?thesis using host by (metis append_Nil2)
qed


section \<open>The lanes of a rendered score\<close>

text \<open>
  In a rendered score at most one note of the melody and at most one pedal sound at a time, if every
  fugue with pedals has a subject: the pedals are then no longer than the fugue.
\<close>

definition active :: "organ_note \<Rightarrow> nat \<Rightarrow> bool" where
  "active n t \<longleftrightarrow> n_onset n \<le> t \<and> t < n_onset n + n_dur n"

definition low :: "organ_note \<Rightarrow> bool" where
  "low n \<longleftrightarrow> unat (n_pitch n) < 50"

definition lanes :: "tape \<Rightarrow> bool" where
  "lanes tp \<longleftrightarrow>
     (\<forall>n \<in> set (snd tp). n_onset n + n_dur n \<le> fst tp \<and> 0 < n_dur n
        \<and> 38 \<le> unat (n_pitch n) \<and> unat (n_pitch n) \<le> 79)
     \<and> (\<forall>n \<in> set (snd tp). \<forall>m \<in> set (snd tp). \<forall>t. active n t \<and> active m t \<and> low n = low m \<longrightarrow> n = m)"

lemma melody_range:
  assumes "d \<in> set degrees"
  shows "57 \<le> unat (degree_pitch mode d)" "unat (degree_pitch mode d) \<le> 79"
proof -
  define x where "x = uint (final_pitch (final_of mode)) + degree_offset mode d"
  have "62 \<le> uint (final_pitch (final_of mode)) \<and> uint (final_pitch (final_of mode)) \<le> 67"
    by (cases "final_of mode") simp_all
  then have x: "57 \<le> x \<and> x \<le> 79" using offsets_range [OF assms, of mode] by (auto simp: x_def)
  then have "uint (word_of_int x :: 8 word) = x" by (simp add: uint_word_of_int)
  then have "int (unat (degree_pitch mode d)) = x"
    unfolding degree_pitch_def x_def [symmetric] by (simp add: unsigned_of_int take_bit_int_eq_self_iff x)
  then show "57 \<le> unat (degree_pitch mode d)" "unat (degree_pitch mode d) \<le> 79" using x by linarith+
qed

lemma lanes_melody:
  assumes "lanes (onset, out)" "0 < d" "57 \<le> unat p" "unat p \<le> 79"
  shows "lanes (onset + d, out @ [\<lparr>n_pitch = p, n_onset = onset, n_dur = d, n_voice = v\<rparr>])"
proof -
  have "active n t \<Longrightarrow> t < onset" if "n \<in> set out" for n t
    using assms(1) that by (fastforce simp: lanes_def active_def)
  then show ?thesis using assms by (fastforce simp: lanes_def active_def)
qed

lemma lanes_push: "lanes tp \<Longrightarrow> 0 < d \<Longrightarrow> lanes (push_note mode op v d tp)"
  using melody_range [OF degree_in_degrees] by (auto simp: push_note_def intro: lanes_melody split: prod.split)

lemma lanes_walk: "lanes tp \<Longrightarrow> lanes (walk_verse e mode v tp)"
  by (induction e mode v tp rule: walk_verse.induct) (simp_all add: lanes_push)

lemma lanes_verses: "render_verses i vs tp = Some tp' \<Longrightarrow> lanes tp \<Longrightarrow> lanes tp'"
  by (induction i vs tp rule: render_verses.induct) (simp_all add: Let_def lanes_walk split: if_splits)

lemma motif_note_eq:
  "motif_note mode deg (onset, out) =
     (onset + 1, out @ [\<lparr>n_pitch = degree_pitch mode deg, n_onset = onset, n_dur = 1, n_voice = 1\<rparr>])"
  by (simp add: motif_note_def push_note_def)

lemma lanes_motif:
  assumes "lanes (s, out)" "set ds \<subseteq> set degrees"
  shows "\<exists>new. fold (motif_note mode) ds (s, out) = (s + length ds, out @ new)
    \<and> lanes (s + length ds, out @ new) \<and> (\<forall>n \<in> set new. \<not> low n)"
  using assms
proof (induction ds arbitrary: s out)
  case (Cons d ds)
  let ?n = "\<lparr>n_pitch = degree_pitch mode d, n_onset = s, n_dur = 1, n_voice = 1\<rparr>"
  have d: "d \<in> set degrees" using Cons.prems(2) by simp
  have "lanes (s + 1, out @ [?n])" by (rule lanes_melody [OF Cons.prems(1) _ melody_range [OF d]]) simp
  from Cons.IH [OF this] Cons.prems(2) obtain new where
    "fold (motif_note mode) ds (s + 1, out @ [?n]) = (s + 1 + length ds, (out @ [?n]) @ new)"
    "lanes (s + 1 + length ds, (out @ [?n]) @ new)" "\<forall>n \<in> set new. \<not> low n" by auto
  then show ?case using melody_range [OF d, of mode]
    by (intro exI [of _ "?n # new"]) (simp add: motif_note_eq low_def)
qed simp

lemma lanes_pedal:
  assumes "lanes (s, out)" "lanes (s + d, out @ new)" "\<forall>n \<in> set new. \<not> low n" "0 < d"
    and p: "38 \<le> unat p" "unat p < 50"
  shows "lanes (s + d, out @ new @ [\<lparr>n_pitch = p, n_onset = s, n_dur = d, n_voice = v\<rparr>])"
proof -
  have "\<not> (active n t \<and> s \<le> t)" if "n \<in> set out" for n t
    using assms(1) that by (fastforce simp: lanes_def active_def)
  then show ?thesis using assms(2-4) p by (fastforce simp: lanes_def active_def low_def)
qed

lemma lanes_fugue:
  assumes "lanes tp" "fug_pedals f = [] \<or> fug_subject f \<noteq> None"
  shows "lanes (render_fugue f tp)"
proof -
  obtain s out where tp: "tp = (s, out)" by (metis surj_pair)
  let ?mode = "from_final (fug_final f) False"
  have "set SUBJECT_MOTIF \<subseteq> set degrees" by (simp add: SUBJECT_MOTIF_def degrees_def)
  moreover have "length SUBJECT_MOTIF = 4" by (simp add: SUBJECT_MOTIF_def)
  ultimately obtain new where
    new: "fold (motif_note ?mode) SUBJECT_MOTIF (s, out) = (s + 4, out @ new)"
      "lanes (s + 4, out @ new)" "\<forall>n \<in> set new. \<not> low n"
    using lanes_motif [OF assms(1) [unfolded tp], of SUBJECT_MOTIF ?mode] by auto
  have pedal: "38 \<le> unat (final_pitch (fug_final f) - 24)" "unat (final_pitch (fug_final f) - 24) < 50"
    by (cases "fug_final f"; simp)+
  have d: "max (s + 4 - s) 2 = (4 :: nat)" by simp
  from lanes_pedal [OF assms(1) [unfolded tp] new(2,3) _ pedal, of 0] show ?thesis
    using assms new(1,2) by (auto simp: render_fugue_def tp Let_def d max_def)
qed

lemma render_lanes:
  assumes "list_all (\<lambda>f. fug_pedals f = [] \<or> fug_subject f \<noteq> None) (prog_fugues prog)" "render_program prog = Some es"
  obtains e where "lanes (e, es)"
proof -
  have fugues: "lanes tp \<Longrightarrow> list_all (\<lambda>f. fug_pedals f = [] \<or> fug_subject f \<noteq> None) fs \<Longrightarrow> lanes (fold render_fugue fs tp)"
    for tp fs
  proof (induction fs arbitrary: tp)
    case (Cons f fs)
    have "lanes (render_fugue f tp)" by (rule lanes_fugue [OF Cons.prems(1)]) (use Cons.prems(2) in simp)
    from Cons.IH [OF this] Cons.prems(2) show ?case by simp
  qed simp
  have "lanes (fold render_fugue (prog_fugues prog) (0, []))" by (rule fugues [OF _ assms(1)]) (simp add: lanes_def)
  moreover obtain e where "render_verses 0 (prog_verses prog) (fold render_fugue (prog_fugues prog) (0, [])) = Some (e, es)"
    using assms(2) by (auto simp: render_program_def)
  ultimately show ?thesis using lanes_verses that by blast
qed


section \<open>What the card sounds while a score is played\<close>

text \<open>Pitches that are distinct frequencies the synthesizer can make.\<close>

definition tuned :: "libm \<Rightarrow> 8 word set \<Rightarrow> bool" where
  "tuned lib P \<longleftrightarrow> inj_on (pitch_hz lib) P \<and> (\<forall>p \<in> P. pitch_hz lib p < 48000)"

text \<open>The calls before the end of the \<open>t\<close>-th wait: what is heard during that wait.\<close>

fun until_sleep :: "nat \<Rightarrow> kcall list \<Rightarrow> kcall list" where
  "until_sleep t [] = []"
| "until_sleep t (c # cs) =
     (case c of
        K_sleep ms \<Rightarrow> (case t of 0 \<Rightarrow> [] | Suc t' \<Rightarrow> c # until_sleep t' cs)
      | _ \<Rightarrow> c # until_sleep t cs)"

definition tick_ons :: "libm \<Rightarrow> organ_note list \<Rightarrow> nat \<Rightarrow> kcall list" where
  "tick_ons lib events t = map (\<lambda>n. K_note_on (pitch_hz lib (n_pitch n))) (filter (\<lambda>n. n_onset n = t) events)"

definition tick_offs :: "libm \<Rightarrow> organ_note list \<Rightarrow> nat \<Rightarrow> kcall list" where
  "tick_offs lib events t =
     map (\<lambda>n. K_note_off (pitch_hz lib (n_pitch n))) (filter (\<lambda>n. n_onset n + n_dur n = t + 1) events)"

lemma kernel_tick_eq: "kernel_tick lib events t = tick_ons lib events t @ K_sleep tick_ms # tick_offs lib events t"
proof -
  have "concat (map (\<lambda>x. [f x]) xs) = map f xs" for f :: "organ_note \<Rightarrow> kcall" and xs by (induction xs) simp_all
  then show ?thesis by (simp add: kernel_tick_def tick_ons_def tick_offs_def)
qed

lemma until_sleep_append:
  "until_sleep t (tick_ons lib events i @ cs) = tick_ons lib events i @ until_sleep t cs"
  "until_sleep t (tick_offs lib events i @ cs) = tick_offs lib events i @ until_sleep t cs"
  unfolding tick_ons_def tick_offs_def by (induction events) simp_all

lemma until_sleep_ticks:
  "i + t < e \<Longrightarrow> until_sleep t (concat (map (kernel_tick lib events) [i ..< e]) @ cs)
     = concat (map (kernel_tick lib events) [i ..< i + t]) @ tick_ons lib events (i + t)"
proof (induction t arbitrary: i)
  case 0
  then show ?case by (simp add: upt_conv_Cons kernel_tick_eq until_sleep_append)
next
  case (Suc t)
  have "[i ..< e] = i # [Suc i ..< e]" "[i ..< i + Suc t] = i # [Suc i ..< Suc i + t]"
    using Suc.prems by (simp_all add: upt_conv_Cons)
  then show ?case using Suc.IH [of "Suc i"] Suc.prems
    by (simp add: kernel_tick_eq until_sleep_append del: upt_Suc)
qed

lemma card_events_simps [simp]:
  "card_events [] = []" "card_events (a @ b) = card_events a @ card_events b"
  "card_events (c # cs) = card_event c @ card_events cs"
  "card_events (tick_ons lib events t) = map Press (map (\<lambda>n. pitch_hz lib (n_pitch n)) (filter (\<lambda>n. n_onset n = t) events))"
  "card_events (tick_offs lib events t) =
     map Release (map (\<lambda>n. pitch_hz lib (n_pitch n)) (filter (\<lambda>n. n_onset n + n_dur n = t + 1) events))"
  by (simp_all add: card_events_def tick_ons_def tick_offs_def)
    (induction events; simp)+

lemma press_all:
  "finite S \<Longrightarrow> card (S \<union> set fs) \<le> 8 \<Longrightarrow> fold organ_spec (map Press fs) S = S \<union> set fs"
proof (induction fs arbitrary: S)
  case (Cons f fs)
  have "organ_spec (Press f) S = insert f S"
  proof (cases "card S < 8")
    case False
    have "card S \<le> card (S \<union> set (f # fs))" by (rule card_mono) (use Cons.prems(1) in auto)
    then have "S = S \<union> set (f # fs)" using False Cons.prems by (intro card_subset_eq) auto
    then show ?thesis by auto
  qed simp
  then show ?case using Cons.IH [of "insert f S"] Cons.prems by simp
qed simp

lemma release_all: "fold organ_spec (map Release fs) S = S - set fs"
  by (induction fs arbitrary: S) auto

definition heard :: "libm \<Rightarrow> organ_note list \<Rightarrow> nat \<Rightarrow> 32 word set" where
  "heard lib events t = (\<lambda>n. pitch_hz lib (n_pitch n)) ` {n \<in> set events. active n t}"

definition held_over :: "libm \<Rightarrow> organ_note list \<Rightarrow> nat \<Rightarrow> 32 word set" where
  "held_over lib events t =
     (\<lambda>n. pitch_hz lib (n_pitch n)) ` {n \<in> set events. n_onset n < t \<and> t < n_onset n + n_dur n}"

lemma heard_few:
  assumes "lanes (e, events)"
  shows "card (heard lib events t) \<le> 8"
proof -
  have one: "\<exists>a. {n \<in> set events. active n t \<and> low n = b} \<subseteq> {a}" for b
  proof (cases "\<exists>a \<in> set events. active a t \<and> low a = b")
    case True
    then obtain a where "a \<in> set events" "active a t" "low a = b" by blast
    then have "{n \<in> set events. active n t \<and> low n = b} \<subseteq> {a}" using assms by (auto simp: lanes_def)
    then show ?thesis by blast
  qed auto
  obtain a where "{n \<in> set events. active n t \<and> low n = True} \<subseteq> {a}" using one [of True] by blast
  moreover obtain c where "{n \<in> set events. active n t \<and> low n = False} \<subseteq> {c}" using one [of False] by blast
  ultimately have "{n \<in> set events. active n t} \<subseteq> {a, c}" by auto
  then have "heard lib events t \<subseteq> {pitch_hz lib (n_pitch a), pitch_hz lib (n_pitch c)}" by (auto simp: heard_def)
  then have "card (heard lib events t) \<le> card {pitch_hz lib (n_pitch a), pitch_hz lib (n_pitch c)}"
    by (intro card_mono) auto
  also have "\<dots> \<le> 2" by (simp add: card_insert_if)
  finally show ?thesis by simp
qed

lemma ons_heard:
  assumes "lanes (e, events)"
  shows "fold organ_spec (card_events (tick_ons lib events t)) (held_over lib events t) = heard lib events t"
proof -
  let ?hz = "\<lambda>n. pitch_hz lib (n_pitch n)"
  have dur: "\<forall>n \<in> set events. 0 < n_dur n" using assms by (simp add: lanes_def)
  have "heard lib events t = held_over lib events t \<union> set (map ?hz (filter (\<lambda>n. n_onset n = t) events))"
    unfolding heard_def held_over_def image_Un [symmetric] set_map set_filter
    using dur by (intro arg_cong [of _ _ "image _"]) (auto simp: active_def)
  then show ?thesis
    using press_all [of "held_over lib events t" "map ?hz (filter (\<lambda>n. n_onset n = t) events)"] heard_few [OF assms, of lib t]
    by (simp add: held_over_def)
qed

lemma offs_heard:
  assumes "lanes (e, events)" "tuned lib (n_pitch ` set events)"
  shows "fold organ_spec (card_events (tick_offs lib events t)) (heard lib events t) = held_over lib events (Suc t)"
proof -
  let ?hz = "\<lambda>n. pitch_hz lib (n_pitch n)"
  have dur: "\<forall>n \<in> set events. 0 < n_dur n" using assms(1) by (simp add: lanes_def)
  have same: "n = m" if nm: "n \<in> set events" "m \<in> set events" "active n t" "active m t" "?hz n = ?hz m" for n m
  proof -
    have "n_pitch n = n_pitch m" using assms nm unfolding tuned_def by (metis image_eqI inj_onD)
    then show ?thesis using assms(1) nm unfolding lanes_def low_def by (metis snd_conv)
  qed
  let ?off = "{n \<in> set events. n_onset n + n_dur n = t + 1}"
  have "active n t" if "n \<in> ?off" for n using that dur by (fastforce simp: active_def)
  then have "?off \<subseteq> {n \<in> set events. active n t}" by blast
  moreover have "inj_on ?hz {n \<in> set events. active n t}" using same by (auto simp: inj_on_def)
  ultimately have "?hz ` {n \<in> set events. active n t} - ?hz ` ?off = ?hz ` ({n \<in> set events. active n t} - ?off)"
    by (simp add: inj_on_image_set_diff)
  moreover have "{n \<in> set events. active n t} - ?off = {n \<in> set events. n_onset n < Suc t \<and> Suc t < n_onset n + n_dur n}"
    by (auto simp: active_def)
  ultimately show ?thesis
    using release_all [of "map ?hz (filter (\<lambda>n. n_onset n + n_dur n = t + 1) events)" "heard lib events t"]
    by (simp add: heard_def held_over_def)
qed

lemma ticks_heard:
  assumes "lanes (e, events)" "tuned lib (n_pitch ` set events)"
  shows "fold organ_spec (card_events (concat (map (kernel_tick lib events) [0 ..< t]))) {} = held_over lib events t"
proof (induction t)
  case 0
  show ?case by (simp add: held_over_def)
next
  case (Suc t)
  show ?case
    using ons_heard [OF assms(1), of lib t] offs_heard [OF assms, of t] by (simp add: Suc [unfolded kernel_tick_eq] kernel_tick_eq del: card_events_simps(4,5))
qed

text \<open>Every key event of the performance is a note below the sample rate.\<close>

lemma play_below:
  assumes "lanes (e, events)" "tuned lib (n_pitch ` set events)"
  shows "k \<in> set (card_events (concat (map (kernel_tick lib events) ts))) \<Longrightarrow> key_note k = Some f \<Longrightarrow> f < 48000"
    and "k \<in> set (card_events (tick_ons lib events t)) \<Longrightarrow> key_note k = Some f \<Longrightarrow> f < 48000"
proof -
  have "pitch_hz lib (n_pitch n) < 48000" if "n \<in> set events" for n
    using assms that by (auto simp: lanes_def tuned_def)
  then show "k \<in> set (card_events (tick_ons lib events t)) \<Longrightarrow> key_note k = Some f \<Longrightarrow> f < 48000"
    and "k \<in> set (card_events (concat (map (kernel_tick lib events) ts))) \<Longrightarrow> key_note k = Some f \<Longrightarrow> f < 48000"
    by auto (induction ts; auto simp: kernel_tick_eq)
qed

lemma silent_card:
  assumes "ac_voices ac = replicate MAX_VOICES None" "\<forall>k \<in> set ks. \<forall>f. key_note k = Some f \<longrightarrow> f < 48000"
  shows "\<exists>ac'. fold play_key ks (Some ac) = Some ac' \<and> sounding ac' = fold organ_spec ks {}"
proof -
  have "steps (replicate n None) = []" for n by (induction n) simp_all
  then have "voices_ok ac" "plays_below ac" "sounding ac = {}"
    using assms(1) by (simp_all add: voices_ok_def plays_below_def sounding_def)
  then show ?thesis using play_keys [OF _ _ assms(2), of ac] by auto
qed


section \<open>Properties\<close>

text \<open>A source is accepted as a program: it parses to it, and every verse of it has a typing.\<close>

definition accepted :: "string \<Rightarrow> program \<Rightarrow> bool" where
  "accepted src prog \<longleftrightarrow> parse src = (Inr prog :: (diss exn + program)) \<and> list_all (well_sung prog) (prog_verses prog)"

lemma celebrare_accepted:
  assumes "score_source name given = Some src" "accepted src prog"
  shows "celebrare lib available name given = Some (sing lib available prog)"
  using assms check_verses_iff [where 'k = continuation, of prog "prog_verses prog"]
  by (simp add: celebrare_def accepted_def check_program_def)

lemma celebrare_refused:
  assumes "score_source name given = Some src" "\<nexists>prog. accepted src prog"
    and "celebrare lib available name given = Some r"
  shows "\<exists>d. (parse src = Inl (Raise d) \<or> (\<exists>prog. parse src = (Inr prog :: (diss exn + program))
      \<and> check_program prog = Some (Inl (Raise d)))) \<and> r = Inr [K_say (S_Loud d)]"
proof (cases "parse src :: diss exn + program")
  case (Inl e)
  then obtain d where "e = Raise d" using parse_raises [of src, where 'a = continuation] by (cases e) auto
  then show ?thesis
    using assms(1,3) Inl by (auto simp: celebrare_def kernel_loud_def said_calls_def kp_say_def kernel_start_def)
next
  case (Inr prog)
  have "check_program prog \<noteq> Some (Inr () :: diss exn + unit)"
    using assms(2) Inr check_verses_iff [where 'k = continuation, of prog "prog_verses prog"]
    by (auto simp: accepted_def check_program_def)
  then obtain e where e: "check_program prog = Some (Inl e :: diss exn + unit)"
    using assms(1,3) Inr by (auto simp: celebrare_def split: option.splits sum.splits)
  moreover obtain d where "e = Raise d" using check_raises [OF e] by blast
  ultimately show ?thesis
    using assms(1,3) Inr by (auto simp: celebrare_def kernel_loud_def said_calls_def kp_say_def kernel_start_def)
qed

text \<open>Too many verses for the card: the one panic.\<close>

definition overfull :: "bool \<Rightarrow> program \<Rightarrow> bool" where
  "overfull available prog \<longleftrightarrow> available \<and> 254 < length (prog_verses prog)"

lemma read_back_eq:
  "read_back lib available prog = (if overfull available prog then Inl Panicked
     else Inr (if available then kernel_play lib (the (render_program prog)) else []))"
  using render_program_None [of prog] by (auto simp: read_back_def overfull_def split: option.split)

lemma sing_eq:
  "\<exists>k. celebrate_verses prog kernel_start = Inr k
    \<and> sing lib available prog = and_then (read_back lib available prog) (\<lambda>played.
        Inr (map K_say (score_line prog # sung_poems prog) @ played @ map K_say (kp_said k)))"
  using verses_office [of 1 prog kernel_start] by (auto simp: sing_def said_calls_def)

lemma sing_panics: "sing lib available prog = Inl Panicked \<longleftrightarrow> overfull available prog"
  using sing_eq [of prog lib available] by (auto simp: read_back_eq split: if_splits)

lemma sing_calls:
  assumes "sing lib available prog = Inr calls"
  obtains k played where "celebrate_verses prog kernel_start = Inr k" "read_back lib available prog = Inr played"
    "calls = map K_say (score_line prog # sung_poems prog) @ played @ map K_say (kp_said k)"
  using sing_eq [of prog lib available] assms by (auto simp: read_back_eq split: if_splits)

lemma calls_received_simps [simp]:
  "calls_received [] = []" "calls_received (a @ b) = calls_received a @ calls_received b"
  "calls_received (c # cs) = call_gravitas c @ calls_received cs"
  "calls_received (map K_say said) = concat (map said_gravitas said)"
  "calls_received (kernel_play lib events) = []"
proof -
  show a: "calls_received [] = []" "calls_received (x @ b) = calls_received x @ calls_received b"
    "calls_received (c # cs) = call_gravitas c @ calls_received cs" for x b c cs
    by (simp_all add: calls_received_def)
  show "calls_received (map K_say said) = concat (map said_gravitas said)" by (induction said) (simp_all add: a)
  have "calls_received (tick_ons lib events t) = []" "calls_received (tick_offs lib events t) = []" for t
    by (auto simp: calls_received_def tick_ons_def tick_offs_def concat_eq_Nil_conv)
  then have "calls_received (concat (map (kernel_tick lib events) ts)) = []" for ts
    by (induction ts) (simp_all add: kernel_tick_eq a)
  then show "calls_received (kernel_play lib events) = []" by (simp add: kernel_play_def a)
qed

lemma header_received: "concat (map said_gravitas (score_line prog # sung_poems prog)) = []"
  by (auto simp: score_line_def sung_poems_def concat_eq_Nil_conv split: if_splits)

lemma fold_hp_say_received [simp]: "host_received (fold (\<lambda>x. hp_say (f x)) xs p) = host_received p"
  by (induction xs arbitrary: p) simp_all

lemma host_render_received: "host_render lib prog p = Inr p' \<Longrightarrow> host_received p' = host_received p"
  by (auto simp: host_render_def Let_def split: option.splits)

lemma host_render_panics: "host_render lib prog p = Inl e \<longleftrightarrow> e = Panicked \<and> 254 < length (prog_verses prog)"
  using render_program_None [of prog] by (auto simp: host_render_def Let_def split: option.split)

lemma read_back_received: "read_back lib available prog = Inr played \<Longrightarrow> calls_received played = []"
  by (auto simp: read_back_eq split: if_splits)

lemma check_loops:
  assumes "check_program prog = (None :: (diss exn + unit) option)"
  shows "\<not> list_all (well_sung prog) (prog_verses prog) \<and> (\<nexists>lvl. levels prog lvl)"
  using assms check_verses_iff [where 'k = continuation, of prog "prog_verses prog"]
    check_verses_return [where 'k = continuation, of prog _ "prog_verses prog"]
  by (auto simp: check_program_def)

lemma celebrare_loops:
  assumes "celebrare lib available name given = None"
  obtains src prog where "score_source name given = Some src" "parse src = (Inr prog :: diss exn + program)"
    "check_program prog = (None :: (diss exn + unit) option)"
  using assms by (auto simp: celebrare_def split: option.splits sum.splits)

text \<open>C8: the kernel refuses a score before anything sounds. \<open>celebrare\<close> comes to one of these ends. It does
  not return, and then its score parses, to a program on which the checker does not return (its overloads
  resolve each other in a circle; it is not accepted). Or, without a panic, it prints one message and makes
  no other call: there is no such score, or the parser or the checker raised the message printed, and the score
  is not accepted. Or the score is accepted, and it prints the score and the poems of its sung verses, plays the
  rendered score if there is a card, and then prints what its verses say. Or the score is accepted, there
  is a card, and the score has more than 254 verses: the one case in which it panics.\<close>

theorem refused_before_a_note:
  "case celebrare lib available name given of
     None \<Rightarrow> \<exists>src prog. score_source name given = Some src \<and> parse src = (Inr prog :: diss exn + program)
        \<and> check_program prog = (None :: (diss exn + unit) option)
        \<and> (\<nexists>prog. accepted src prog) \<and> (\<nexists>lvl. levels prog lvl)
   | Some r \<Rightarrow>
       (r = Inr [K_say (S_Unknown_score name)] \<and> score_source name given = None)
     \<or> (\<exists>src d. r = Inr [K_say (S_Loud d)] \<and> score_source name given = Some src \<and> (\<nexists>prog. accepted src prog)
          \<and> (parse src = (Inl (Raise d) :: diss exn + program)
             \<or> (\<exists>prog. parse src = (Inr prog :: diss exn + program) \<and> check_program prog = Some (Inl (Raise d)))))
     \<or> (\<exists>src prog k events. score_source name given = Some src \<and> accepted src prog
          \<and> celebrate_verses prog kernel_start = Inr k
          \<and> (if available then render_program prog = Some events else events = [])
          \<and> r = Inr (map K_say (score_line prog # sung_poems prog) @ kernel_play lib events @ map K_say (kp_said k)))
     \<or> (\<exists>src prog. r = Inl Panicked \<and> score_source name given = Some src \<and> accepted src prog
          \<and> available \<and> 254 < length (prog_verses prog))"
proof (cases "celebrare lib available name given")
  case None
  then obtain src prog where 1: "score_source name given = Some src" "parse src = (Inr prog :: diss exn + program)"
    "check_program prog = (None :: (diss exn + unit) option)" by (rule celebrare_loops)
  then show ?thesis using None check_loops [OF 1(3)] by (auto simp: accepted_def)
next
  case (Some r)
  show ?thesis
  proof (cases "score_source name given")
    case None
    then show ?thesis using Some by (auto simp: celebrare_def)
  next
    case src: (Some src)
    show ?thesis
    proof (cases "\<exists>prog. accepted src prog")
      case False
      with celebrare_refused [OF src False Some] Some src show ?thesis by auto
    next
      case True
      then obtain prog where acc: "accepted src prog" by blast
      have r: "r = sing lib available prog" using Some celebrare_accepted [OF src acc, of lib available] by simp
      obtain k where k: "celebrate_verses prog kernel_start = Inr k"
        "r = and_then (read_back lib available prog) (\<lambda>played.
           Inr (map K_say (score_line prog # sung_poems prog) @ played @ map K_say (kp_said k)))"
        using sing_eq [of prog lib available] r by auto
      show ?thesis
      proof (cases "overfull available prog")
        case True
        then have "r = Inl Panicked" "available" "254 < length (prog_verses prog)"
          using k(2) by (simp_all add: read_back_eq overfull_def)
        then show ?thesis using Some src acc by auto
      next
        case False
        define events where "events = (if available then the (render_program prog) else [])"
        have "(if available then render_program prog = Some events else events = [])"
          "read_back lib available prog = Inr (kernel_play lib events)"
          using False render_program_None [of prog]
          by (auto simp: events_def read_back_eq overfull_def kernel_play_def)
        then have "score_source name given = Some src \<and> accepted src prog \<and> celebrate_verses prog kernel_start = Inr k
            \<and> (if available then render_program prog = Some events else events = [])
            \<and> r = Inr (map K_say (score_line prog # sung_poems prog) @ kernel_play lib events @ map K_say (kp_said k))"
          using src acc k by simp
        then show ?thesis unfolding Some option.case by blast
      qed
    qed
  qed
qed

text \<open>C10: the card sounds the score: on a silent card and frequencies that keep the pitches apart, a program
  that can be rendered (it has at most 254 verses) and whose fugues with pedals have subjects is played with exactly
  the notes of each tick sounding during the wait of that tick, and silence after the last.\<close>

theorem play_sounds_the_score:
  assumes "list_all (\<lambda>f. fug_pedals f = [] \<or> fug_subject f \<noteq> None) (prog_fugues prog)" "render_program prog = Some es"
    and "tuned lib (n_pitch ` set es)" and "ac_voices ac = replicate MAX_VOICES None"
  shows "(\<forall>t < play_end es.
      \<exists>ac'. fold play_key (card_events (until_sleep t (kernel_play lib es))) (Some ac) = Some ac'
        \<and> sounding ac' = {pitch_hz lib (n_pitch n) |n. n \<in> set es \<and> active n t})
    \<and> (\<exists>ac'. fold play_key (card_events (kernel_play lib es)) (Some ac) = Some ac' \<and> sounding ac' = {})"
proof (intro conjI allI impI)
  obtain e where e: "lanes (e, es)" by (rule render_lanes [OF assms(1,2)])
  note below = play_below [OF e assms(3)]
  fix t assume t: "t < play_end es"
  then have ne: "es \<noteq> []" by (auto simp: play_end_def)
  let ?pre = "concat (map (kernel_tick lib es) [0 ..< t]) @ tick_ons lib es t"
  have cs: "until_sleep t (kernel_play lib es) = ?pre"
    using until_sleep_ticks [of 0 t "play_end es"] t ne by (simp add: kernel_play_def)
  have "\<forall>k \<in> set (card_events ?pre). \<forall>f. key_note k = Some f \<longrightarrow> f < 48000"
    using below by (auto simp del: card_events_simps(4))
  from silent_card [OF assms(4) this] obtain ac' where
    ac': "fold play_key (card_events ?pre) (Some ac) = Some ac'" "sounding ac' = fold organ_spec (card_events ?pre) {}" by blast
  have "sounding ac' = heard lib es t"
    using ac'(2) ticks_heard [OF e assms(3), of t] ons_heard [OF e, of lib t] by (simp del: card_events_simps(4))
  then show "\<exists>ac'. fold play_key (card_events (until_sleep t (kernel_play lib es))) (Some ac) = Some ac'
      \<and> sounding ac' = {pitch_hz lib (n_pitch n) |n. n \<in> set es \<and> active n t}"
    using ac'(1) by (intro exI [of _ ac']) (auto simp: cs heard_def)
next
  obtain e where e: "lanes (e, es)" by (rule render_lanes [OF assms(1,2)])
  have "\<forall>k \<in> set (card_events (kernel_play lib es)). \<forall>f. key_note k = Some f \<longrightarrow> f < 48000"
    using play_below(1) [OF e assms(3)] by (auto simp: kernel_play_def)
  from silent_card [OF assms(4) this]
  show "\<exists>ac'. fold play_key (card_events (kernel_play lib es)) (Some ac) = Some ac' \<and> sounding ac' = {}"
    by (auto simp: kernel_play_def)
qed

text \<open>C9: the two programs agree on every score: when \<open>celebrare\<close> of the kernel ends on a source without giving a
  verse up, the hosted driver ends on that source, with any positive slice size; its exit code is 0 exactly when the
  source is accepted, and its gravity sink has received the commands that the kernel's console shows.\<close>

theorem host_mirrors_celebrare:
  assumes "host_args args (100000, False, None) = (fuel, render, path)" "0 < fuel"
    and "host_source read_file path = Some src"
    and "celebrare lib available ''-'' (Some src) = Some (Inr calls)"
    and "\<forall>name n. K_say (S_Numquam name n) \<notin> set calls"
  shows "if render \<and> (\<exists>prog. accepted src prog \<and> 254 < length (prog_verses prog))
    then host_main lib' read_file args = Some (Inl Panicked)
    else \<exists>exit p. host_main lib' read_file args = Some (Inr (exit, p))
      \<and> host_received p = calls_received calls \<and> (exit = 0 \<longleftrightarrow> (\<exists>prog. accepted src prog))"
proof (cases "\<exists>prog. accepted src prog")
  case True
  then obtain prog where acc: "accepted src prog" by blast
  then have parsed: "parse src = (Inr prog :: diss exn + program)"
    and checked: "check_program prog = Some (Inr () :: diss exn + unit)"
    using check_verses_iff [where 'k = continuation, of prog "prog_verses prog"]
    by (simp_all add: accepted_def check_program_def)
  have only: "accepted src prog' \<longleftrightarrow> prog' = prog" for prog'
    using acc parsed by (auto simp: accepted_def)
  have "sing lib available prog = Inr calls"
    using assms(4) celebrare_accepted [of "''-''" "Some src" src prog lib available] acc
    by (simp add: score_source_def)
  then obtain k played where k: "celebrate_verses prog kernel_start = Inr k" "read_back lib available prog = Inr played"
    and calls: "calls = map K_say (score_line prog # sung_poems prog) @ played @ map K_say (kp_said k)"
    by (rule sing_calls)
  have received: "calls_received calls = kernel_received k"
    using header_received [of prog] read_back_received [OF k(2)] unfolding calls by (simp add: kernel_received_def)
  have "\<not> is_numquam s" if "s \<in> set (kp_said k)" for s
    using assms(5) that unfolding calls is_numquam_def by (cases s) auto
  then have "filter is_numquam (kp_said k) = []" by (simp add: filter_empty_conv)
  then have "abandoned k = abandoned kernel_start" by (simp add: abandoned_def kernel_start_def)
  then have host: "\<exists>p'. host_procession (from_fugues (prog_fugues prog)) prog fuel bodies p = Some (Inr p')
      \<and> host_received p' = host_received p @ kernel_received k" for p
    using verses_office [OF assms(2), of prog kernel_start] k(1) by (auto simp: kernel_received_def kernel_start_def)
  define start where "start = (if render then host_render lib' prog (hp_say (score_line prog) host_start)
      else Inr (hp_say (score_line prog) host_start))"
  have main: "host_main lib' read_file args = (case start of
        Inl e \<Rightarrow> Some (Inl e)
      | Inr p \<Rightarrow> map_option (\<lambda>r. and_then r (\<lambda>p. Inr (0, hp_say (S_Consummatum (length (hp_committed p))) p)))
          (host_procession (from_fugues (prog_fugues prog)) prog fuel bodies p))"
    using assms(1,3) parsed checked by (simp add: host_main_def host_office_def Let_def start_def)
  show ?thesis
  proof (cases start)
    case (Inl e)
    then have "render" "e = Panicked" "254 < length (prog_verses prog)"
      unfolding start_def by (auto simp: host_render_panics split: if_splits)
    then show ?thesis using main Inl only by simp
  next
    case (Inr p)
    have "host_received host_start = []" by (simp add: host_received_def host_start_def)
    then have "host_received p = []"
      using Inr host_render_received [of lib' prog _ p] unfolding start_def by (auto split: if_splits)
    then obtain p' where p': "host_procession (from_fugues (prog_fugues prog)) prog fuel bodies p = Some (Inr p')"
      "host_received p' = kernel_received k" using host [of p] by auto
    have "\<not> (render \<and> 254 < length (prog_verses prog))"
      using Inr host_render_panics [of lib' prog _ Panicked] unfolding start_def by (metis Inl_not_Inr)
    then show ?thesis using True received p' main Inr only by auto
  qed
next
  case False
  have src: "score_source ''-'' (Some src) = Some src" by (simp add: score_source_def)
  from celebrare_refused [OF src False assms(4)] obtain d where
    d: "parse src = Inl (Raise d) \<or> (\<exists>prog. parse src = (Inr prog :: (diss exn + program))
      \<and> check_program prog = Some (Inl (Raise d)))" "calls = [K_say (S_Loud d)]" by auto
  then have "host_main lib' read_file args = Some (Inr (1, hp_say (S_Loud d) host_start))"
    using assms(1,3) by (auto simp: host_main_def host_exit_loud_def host_loud_def)
  then show ?thesis using False d(2) by (simp add: host_received_def host_start_def hp_say_def)
qed


section \<open>Witnesses\<close>

text \<open>A small score, and functions that keep the pitches apart.\<close>

definition tiny_score :: string where
  "tiny_score = ''versus v in Re {'' @ nl @ ''amen arg'' @ nl @ ''}'' @ nl"

definition tiny_verse :: versus where
  "tiny_verse = \<lparr>ver_name = ''v'', ver_mode = Dorian, ver_body = EReturn Dorian EArg, ver_rhymes = []\<rparr>"

definition tiny_program :: program where
  "tiny_program = \<lparr>prog_fugues = [], prog_verses = [tiny_verse]\<rparr>"

definition linear_libm :: libm where
  "linear_libm = \<lparr>libm_exp2 = (\<lambda>x. f64_add x (f64_dec 10 0)), libm_round = id\<rparr>"

lemma tiny_parse: "parse tiny_score = Inr tiny_program"
proof -
  have "(case parse tiny_score of Inr p \<Rightarrow> p = tiny_program | Inl _ \<Rightarrow> False)" by code_simp
  then show ?thesis by (simp split: sum.splits)
qed

lemma tiny_accepted: "accepted tiny_score tiny_program"
proof -
  let ?V = "\<lparr>vt_arg = Ty_Unit, vt_state = Ty_Unit, vt_throw = Ty_Unit, vt_result = Ty_Unit\<rparr>"
  have "typed tiny_program ?V Dorian [] EArg Ty_Unit" using T_Arg [of tiny_program ?V Dorian "[]"] by simp
  then have "typed tiny_program ?V Dorian [] (EReturn Dorian EArg) Ty_Unit" by (intro T_Return) simp
  then show ?thesis
    by (auto simp: accepted_def tiny_parse) (auto simp: tiny_program_def tiny_verse_def well_sung_def)
qed

lemma tiny_verses: "celebrate_verses tiny_program kernel_start = Inr (kp_say (S_Cadenced ''v'' (Some (VNum (f64_dec 0 0)))) kernel_start)"
proof -
  have run: "run_verse env_default (ver_mode tiny_verse) (ver_body tiny_verse) (VNum (f64_dec 0 0)) empty_state 9
      = Inr \<lparr>out_value = Some (VNum (f64_dec 0 0)), out_state = VUnit, out_plan = [], out_committed = None\<rparr>"
    by code_simp
  have "kernel_run_full env_default tiny_verse (VNum (f64_dec 0 0)) kernel_start
      = (Inr \<lparr>out_value = Some (VNum (f64_dec 0 0)), out_state = VUnit, out_plan = [], out_committed = None\<rparr>, kernel_start)"
    by (rule kernel_run_done [OF run]) (simp_all add: out_of_fuel_def FUEL_SLICE_def)
  moreover have "from_fugues [] = env_default" by (simp add: from_fugues_def)
  ultimately show ?thesis
    by (simp add: celebrate_verses_def tiny_program_def prog_verse_def tiny_verse_def)
qed

definition pedal_program :: program where
  "pedal_program = \<lparr>prog_fugues = [(fugue_new ''f'' Re)\<lparr>fug_pedals := [(''G'', VUnit)],
     fug_subject := Some (''s'', ''x'', EVar ''x'')\<rparr>], prog_verses = []\<rparr>"

definition pedal_notes :: "organ_note list" where
  "pedal_notes =
      [\<lparr>n_pitch = 62, n_onset = 0, n_dur = 1, n_voice = 1\<rparr>, \<lparr>n_pitch = 69, n_onset = 1, n_dur = 1, n_voice = 1\<rparr>,
       \<lparr>n_pitch = 65, n_onset = 2, n_dur = 1, n_voice = 1\<rparr>, \<lparr>n_pitch = 62, n_onset = 3, n_dur = 1, n_voice = 1\<rparr>,
       \<lparr>n_pitch = 38, n_onset = 0, n_dur = 4, n_voice = 0\<rparr>]"

lemma pedal_events: "render_program pedal_program = Some pedal_notes"
  by code_simp

lemma linear_pitches: "map (pitch_hz linear_libm) [38, 62, 65, 69] = [3263, 4143, 4253, 4400]"
  by code_simp

lemma linear_tuned: "tuned linear_libm (n_pitch ` set pedal_notes)"
  using linear_pitches by (simp add: tuned_def pedal_notes_def inj_on_def)

theorem refused_before_a_note_witness:
  "\<exists>calls. celebrare linear_libm True ''-'' (Some tiny_score) = Some (Inr (K_say (S_Score 0 1 0) # calls))"
proof -
  let ?r = "celebrare linear_libm True ''-'' (Some tiny_score)"
  have src: "score_source ''-'' (Some tiny_score) = Some tiny_score" by (simp add: score_source_def)
  obtain r where r: "?r = Some r" using celebrare_accepted [OF src tiny_accepted] by blast
  have "score_line prog = S_Score 0 1 0 \<and> length (prog_verses prog) = 1" if "accepted tiny_score prog" for prog
  proof -
    have "prog = tiny_program" using that by (simp add: accepted_def tiny_parse)
    then show ?thesis by (simp add: score_line_def tiny_program_def voices_def from_fugues_def env_default_def)
  qed
  then show ?thesis
    using refused_before_a_note [where lib = linear_libm and available = True and name = "''-''"
        and given = "Some tiny_score"] r src tiny_accepted by fastforce
qed

lemma pedal_second_tick:
  "{pitch_hz linear_libm (n_pitch n) |n. n \<in> set pedal_notes \<and> active n 1}
     = {pitch_hz linear_libm 69, pitch_hz linear_libm 38}"
proof -
  have "{pitch_hz linear_libm (n_pitch n) |n. n \<in> set pedal_notes \<and> active n 1}
      = (\<lambda>n. pitch_hz linear_libm (n_pitch n)) ` set (filter (\<lambda>n. active n 1) pedal_notes)" by auto
  also have "filter (\<lambda>n. active n 1) pedal_notes =
      [\<lparr>n_pitch = 69, n_onset = 1, n_dur = 1, n_voice = 1\<rparr>, \<lparr>n_pitch = 38, n_onset = 0, n_dur = 4, n_voice = 0\<rparr>]"
    by (simp add: pedal_notes_def active_def)
  finally show ?thesis by simp
qed

theorem play_sounds_the_score_witness:
  "\<exists>ac'. fold play_key (card_events (until_sleep 1 (kernel_play linear_libm pedal_notes))) (Some fresh_ac97) = Some ac'
     \<and> sounding ac' = {pitch_hz linear_libm 69, pitch_hz linear_libm 38}"
proof -
  have fugues: "list_all (\<lambda>f. fug_pedals f = [] \<or> fug_subject f \<noteq> None) (prog_fugues pedal_program)"
    by (simp add: pedal_program_def)
  have fresh: "ac_voices fresh_ac97 = replicate MAX_VOICES None" by (simp add: fresh_ac97_def)
  have "1 < play_end pedal_notes" by (simp add: pedal_notes_def play_end_def)
  with conjunct1 [OF play_sounds_the_score [OF fugues pedal_events linear_tuned fresh]]
  show ?thesis unfolding pedal_second_tick [symmetric] by blast
qed

theorem host_mirrors_celebrare_witness:
  "\<exists>p. host_main linear_libm (\<lambda>_. Some tiny_score) [''--fuel'', ''7'', ''tiny.off''] = Some (Inr (0, p)) \<and> host_received p = []"
proof -
  have args: "host_args [''--fuel'', ''7'', ''tiny.off''] (100000, False, None) = (7, False, Some ''tiny.off'')"
    by (simp add: parse_uint_def is_digit_def code_def)
  have src: "score_source ''-'' (Some tiny_score) = Some tiny_score" by (simp add: score_source_def)
  have k: "celebrare linear_libm False ''-'' (Some tiny_score)
      = Some (Inr [K_say (S_Score 0 1 0), K_say (S_Cadenced ''v'' (Some (VNum (f64_dec 0 0))))])"
    unfolding celebrare_accepted [OF src tiny_accepted] sing_def tiny_verses
    by (simp add: read_back_def said_calls_def score_line_def sung_poems_def tiny_program_def tiny_verse_def voices_def from_fugues_def
        env_default_def kp_say_def kernel_start_def)
  have "if False \<and> (\<exists>prog. accepted tiny_score prog \<and> 254 < length (prog_verses prog))
    then host_main linear_libm (\<lambda>_. Some tiny_score) [''--fuel'', ''7'', ''tiny.off''] = Some (Inl Panicked)
    else \<exists>exit p. host_main linear_libm (\<lambda>_. Some tiny_score) [''--fuel'', ''7'', ''tiny.off''] = Some (Inr (exit, p))
      \<and> host_received p = calls_received [K_say (S_Score 0 1 0), K_say (S_Cadenced ''v'' (Some (VNum (f64_dec 0 0))))]
      \<and> (exit = 0 \<longleftrightarrow> (\<exists>prog. accepted tiny_score prog))"
    by (rule host_mirrors_celebrare [OF args _ _ k]) (simp_all add: host_source_def)
  then show ?thesis using tiny_accepted by auto
qed

end
