(* ===== verification/Shell.thy ===== *)
theory Shell
  imports Celebrare Console Transcribe
begin

text \<open>
  The shell (\<open>task/shell.rs\<close>): it reads decoded keys from the scancode stream, edits a line with echo,
  and runs the command when enter is pressed. The instruments read the stream themselves.

  An asynchronous function that reads scancodes is a function of the scancodes to come: it is \<open>Ready\<close> with
  its result and the scancodes it left, it is \<open>Pending\<close> when they are used up (with the place where it waits),
  or it has crashed: a panic, or a checker that does not return. Each carries the calls made so far.

  The keyboard decoder is the \<open>pc_keyboard\<close> crate, a parameter. A line is a list of Unicode code points.
\<close>

section \<open>The keyboard decoder\<close>

datatype key_code =
  Escape | Return | NumpadEnter
| Key_Z | Key_X | Key_C | Key_V | Key_B | Key_N | Key_M
| Key_A | Key_W | Key_S | Key_E | Key_D | Key_F | Key_T | Key_G | Key_Y | Key_H | Key_U | Key_J | Key_K
| Key_O | Key_L | Key_P
| Other_key nat

datatype key_state = Down | Up | Single_shot

record keyboard_event =
  ev_code :: key_code
  ev_state :: key_state

datatype decoded_key = Unicode nat | Raw_key key_code

text \<open>\<open>add_byte\<close> is \<open>None\<close> both for an error and for a byte that completes no event.\<close>

record 'k pc_keyboard =
  add_byte :: "8 word \<Rightarrow> 'k \<Rightarrow> keyboard_event option \<times> 'k"
  process_keyevent :: "keyboard_event \<Rightarrow> 'k \<Rightarrow> decoded_key option \<times> 'k"

definition next_key :: "'k pc_keyboard \<Rightarrow> 8 word \<Rightarrow> 'k \<Rightarrow> decoded_key option \<times> 'k" where
  "next_key kb b k =
     (case add_byte kb b k of
        (None, k) \<Rightarrow> (None, k)
      | (Some ev, k) \<Rightarrow> process_keyevent kb ev k)"

section \<open>Characters\<close>

definition is_control :: "nat \<Rightarrow> bool" where
  "is_control c \<longleftrightarrow> c < 32 \<or> (127 \<le> c \<and> c < 160)"

definition is_whitespace :: "nat \<Rightarrow> bool" where
  "is_whitespace c \<longleftrightarrow> (9 \<le> c \<and> c \<le> 13)
     \<or> c \<in> {0x20, 0x85, 0xA0, 0x1680, 0x2028, 0x2029, 0x202F, 0x205F, 0x3000} \<or> (0x2000 \<le> c \<and> c \<le> 0x200A)"

definition trim_start :: "nat list \<Rightarrow> nat list" where
  "trim_start s = dropWhile is_whitespace s"

definition trim :: "nat list \<Rightarrow> nat list" where
  "trim s = rev (trim_start (rev (trim_start s)))"

fun split_words :: "nat list \<Rightarrow> nat list \<Rightarrow> nat list list" where
  "split_words word [] = (if word = [] then [] else [word])"
| "split_words word (c # s) =
     (if is_whitespace c then (if word = [] then [] else [word]) @ split_words [] s
      else split_words (word @ [c]) s)"

definition split_whitespace :: "nat list \<Rightarrow> nat list list" where
  "split_whitespace s = split_words [] s"

definition split_once :: "nat \<Rightarrow> nat list \<Rightarrow> (nat list \<times> nat list) option" where
  "split_once c s =
     (if c \<in> set s then Some (takeWhile (\<lambda>x. x \<noteq> c) s, tl (dropWhile (\<lambda>x. x \<noteq> c) s)) else None)"

text \<open>The bytes of a string, in UTF-8.\<close>

definition utf8_char :: "nat \<Rightarrow> nat list" where
  "utf8_char c =
     (if c < 0x80 then [c]
      else if c < 0x800 then [0xC0 + c div 64, 0x80 + c mod 64]
      else if c < 0x10000 then [0xE0 + c div 4096, 0x80 + c div 64 mod 64, 0x80 + c mod 64]
      else [0xF0 + c div 262144, 0x80 + c div 4096 mod 64, 0x80 + c div 64 mod 64, 0x80 + c mod 64])"

definition utf8 :: "nat list \<Rightarrow> string" where
  "utf8 s = map char_of (concat (map utf8_char s))"

definition println :: "nat list \<Rightarrow> kcall" where
  "println s = K_print (line_of s)"

section \<open>Keys and notes\<close>

fun key_midi :: "key_code \<Rightarrow> 8 word option" where
  "key_midi Key_Z = Some 48"
| "key_midi Key_X = Some 50"
| "key_midi Key_C = Some 52"
| "key_midi Key_V = Some 53"
| "key_midi Key_B = Some 55"
| "key_midi Key_N = Some 57"
| "key_midi Key_M = Some 59"
| "key_midi Key_A = Some 60"
| "key_midi Key_W = Some 61"
| "key_midi Key_S = Some 62"
| "key_midi Key_E = Some 63"
| "key_midi Key_D = Some 64"
| "key_midi Key_F = Some 65"
| "key_midi Key_T = Some 66"
| "key_midi Key_G = Some 67"
| "key_midi Key_Y = Some 68"
| "key_midi Key_H = Some 69"
| "key_midi Key_U = Some 70"
| "key_midi Key_J = Some 71"
| "key_midi Key_K = Some 72"
| "key_midi Key_O = Some 73"
| "key_midi Key_L = Some 74"
| "key_midi Key_P = Some 75"
| "key_midi _ = None"

definition key_note_freq :: "libm \<Rightarrow> key_code \<Rightarrow> 32 word option" where
  "key_note_freq lib c = map_option (pitch_hz lib) (key_midi c)"

definition NAMES :: "string list" where
  "NAMES = [''c'', ''c#'', ''d'', ''d#'', ''e'', ''f'', ''f#'', ''g'', ''g#'', ''a'', ''a#'', ''b'']"

text \<open>The octave is unsigned: every key is in octave 3 or above.\<close>

definition midi_name :: "8 word \<Rightarrow> string" where
  "midi_name pitch = NAMES ! unat (pitch mod 12) @ show_nat (unat (pitch div 12 - 1))"

section \<open>Waiting for scancodes\<close>

datatype place =
  At_prompt "nat list"
| In_score "nat list" "nat list"
| In_piano "key_code option"
| In_organ
| In_transcribe "8 word list"

datatype ('a, 'k) await =
  Pending place "kcall list"
| Ready 'a 'k "8 word list" "kcall list"
| Crashed "kcall list"

text \<open>First these calls, then what follows.\<close>

fun calling :: "kcall list \<Rightarrow> ('a, 'k) await \<Rightarrow> ('a, 'k) await" where
  "calling cs (Pending p cs') = Pending p (cs @ cs')"
| "calling cs (Ready x k bs cs') = Ready x k bs (cs @ cs')"
| "calling cs (Crashed cs') = Crashed (cs @ cs')"

fun and_await :: "('a, 'k) await \<Rightarrow> ('a \<Rightarrow> 'k \<Rightarrow> 8 word list \<Rightarrow> ('b, 'k) await) \<Rightarrow> ('b, 'k) await" where
  "and_await (Pending p cs) f = Pending p cs"
| "and_await (Ready x k bs cs) f = calling cs (f x k bs)"
| "and_await (Crashed cs) f = Crashed cs"

section \<open>Line editing\<close>

definition is_enter :: "decoded_key \<Rightarrow> bool" where
  "is_enter key \<longleftrightarrow> key = Unicode 10 \<or> key = Unicode 13"

text \<open>Any other key: the new line, and what is echoed.\<close>

definition edit_key :: "decoded_key \<Rightarrow> nat list \<Rightarrow> nat list \<times> kcall list" where
  "edit_key key line =
     (case key of
        Unicode c \<Rightarrow>
          (if c = 8 \<or> c = 127 then (if line = [] then (line, []) else (butlast line, [K_print [8]]))
           else if \<not> is_control c then (line @ [c], [K_print [c]])
           else (line, []))
      | Raw_key _ \<Rightarrow> (line, []))"

fun read_lines ::
  "'k pc_keyboard \<Rightarrow> nat list \<Rightarrow> nat list \<Rightarrow> 'k \<Rightarrow> 8 word list \<Rightarrow> (nat list, 'k) await" where
  "read_lines kb score line k [] = Pending (In_score score line) []"
| "read_lines kb score line k (b # bs) =
     (case next_key kb b k of
        (None, k) \<Rightarrow> read_lines kb score line k bs
      | (Some key, k) \<Rightarrow>
          if is_enter key
          then calling [println []]
            (if line = [] then Ready score k bs []
             else calling [K_print (text_of ''| '')] (read_lines kb (score @ line @ [10]) [] k bs))
          else (case edit_key key line of (line, echo) \<Rightarrow> calling echo (read_lines kb score line k bs)))"

definition read_score :: "'k pc_keyboard \<Rightarrow> 'k \<Rightarrow> 8 word list \<Rightarrow> (nat list, 'k) await" where
  "read_score kb k bs =
     calling [println (text_of ''type the score; an empty line celebrates it''), K_print (text_of ''| '')]
       (read_lines kb [] [] k bs)"


section \<open>The instruments\<close>

fun piano_keys ::
  "'k pc_keyboard \<Rightarrow> libm \<Rightarrow> key_code option \<Rightarrow> 'k \<Rightarrow> 8 word list \<Rightarrow> (unit, 'k) await" where
  "piano_keys kb lib held k [] = Pending (In_piano held) []"
| "piano_keys kb lib held k (b # bs) =
     (case add_byte kb b k of
        (None, k) \<Rightarrow> piano_keys kb lib held k bs
      | (Some ev, k) \<Rightarrow>
          (case ev_state ev of
             Down \<Rightarrow>
               if ev_code ev = Escape then Ready () k bs [K_stop_tone]
               else (case key_note_freq lib (ev_code ev) of
                  Some freq \<Rightarrow> calling [K_start_tone freq] (piano_keys kb lib (Some (ev_code ev)) k bs)
                | None \<Rightarrow> piano_keys kb lib held k bs)
           | Up \<Rightarrow>
               if held = Some (ev_code ev) then calling [K_stop_tone] (piano_keys kb lib None k bs)
               else piano_keys kb lib held k bs
           | Single_shot \<Rightarrow> piano_keys kb lib held k bs))"

definition piano :: "'k pc_keyboard \<Rightarrow> libm \<Rightarrow> 'k \<Rightarrow> 8 word list \<Rightarrow> (unit, 'k) await" where
  "piano kb lib k bs =
     calling [println (text_of ''piano: a s d f g h j k = c4..c5, w e t y u = sharps, esc exits'')]
       (piano_keys kb lib None k bs)"

fun organ_keys :: "'k pc_keyboard \<Rightarrow> libm \<Rightarrow> 'k \<Rightarrow> 8 word list \<Rightarrow> (unit, 'k) await" where
  "organ_keys kb lib k [] = Pending In_organ []"
| "organ_keys kb lib k (b # bs) =
     (case add_byte kb b k of
        (None, k) \<Rightarrow> organ_keys kb lib k bs
      | (Some ev, k) \<Rightarrow>
          (case ev_state ev of
             Down \<Rightarrow>
               if ev_code ev = Escape then Ready () k bs [K_all_notes_off]
               else (case key_note_freq lib (ev_code ev) of
                  Some freq \<Rightarrow> calling [K_note_on freq] (organ_keys kb lib k bs)
                | None \<Rightarrow> organ_keys kb lib k bs)
           | Up \<Rightarrow>
               (case key_note_freq lib (ev_code ev) of
                  Some freq \<Rightarrow> calling [K_note_off freq] (organ_keys kb lib k bs)
                | None \<Rightarrow> organ_keys kb lib k bs)
           | Single_shot \<Rightarrow> organ_keys kb lib k bs))"

definition organ :: "'k pc_keyboard \<Rightarrow> libm \<Rightarrow> bool \<Rightarrow> 'k \<Rightarrow> 8 word list \<Rightarrow> (unit, 'k) await" where
  "organ kb lib available k bs =
     (if \<not> available then Ready () k bs [println (text_of ''ac97 not available'')]
      else calling [println (text_of ''organ: a s d f g h j k = c4..c5, w e t y u = sharps, esc exits''),
          println (text_of ''polyphonic: hold several keys for a chord'')]
        (organ_keys kb lib k bs))"

definition quiet :: "bool \<Rightarrow> kcall list" where
  "quiet poly = (if poly then [K_all_notes_off] else [K_stop_tone])"

text \<open>The phrase that was played, or none when it was abandoned.\<close>

fun transcribe_keys ::
  "'k pc_keyboard \<Rightarrow> libm \<Rightarrow> bool \<Rightarrow> 8 word list \<Rightarrow> 'k \<Rightarrow> 8 word list \<Rightarrow> (8 word list option, 'k) await" where
  "transcribe_keys kb lib poly played k [] = Pending (In_transcribe played) []"
| "transcribe_keys kb lib poly played k (b # bs) =
     (case add_byte kb b k of
        (None, k) \<Rightarrow> transcribe_keys kb lib poly played k bs
      | (Some ev, k) \<Rightarrow>
          (case ev_state ev of
             Down \<Rightarrow>
               if ev_code ev = Escape
               then Ready None k bs (quiet poly @ [println [], println (text_of ''abandoned'')])
               else if ev_code ev = Return \<or> ev_code ev = NumpadEnter then Ready (Some played) k bs []
               else (case key_midi (ev_code ev) of
                  Some pitch \<Rightarrow>
                    calling [if poly then K_note_on (pitch_hz lib pitch) else K_start_tone (pitch_hz lib pitch),
                        K_print (text_of (midi_name pitch @ '' ''))]
                      (transcribe_keys kb lib poly (played @ [pitch]) k bs)
                | None \<Rightarrow> transcribe_keys kb lib poly played k bs)
           | Up \<Rightarrow>
               (case key_midi (ev_code ev) of
                  Some pitch \<Rightarrow>
                    calling [if poly then K_note_off (pitch_hz lib pitch) else K_stop_tone]
                      (transcribe_keys kb lib poly played k bs)
                | None \<Rightarrow> transcribe_keys kb lib poly played k bs)
           | Single_shot \<Rightarrow> transcribe_keys kb lib poly played k bs))"

text \<open>\<open>celebrare\<close> as a command: a panic, or a checker that does not return, crashes the shell.\<close>

definition celebrare_calls :: "libm \<Rightarrow> bool \<Rightarrow> string \<Rightarrow> string option \<Rightarrow> kcall list option" where
  "celebrare_calls lib available name given =
     (case celebrare lib available name given of Some (Inr cs) \<Rightarrow> Some cs | _ \<Rightarrow> None)"

text \<open>What follows the phrase. Any other dissonance is printed as \<open>loud\<close> prints it.\<close>

definition celebrate_phrase :: "libm \<Rightarrow> bool \<Rightarrow> 8 word list \<Rightarrow> kcall list option" where
  "celebrate_phrase lib available played =
     (case (Transcribe.transcribe played ''auditum'' :: diss exn + string) of
        Inr txt \<Rightarrow>
          map_option (\<lambda>cs. [println (text_of ''--- transcriptum ---''), K_print (text_of txt),
              println (text_of ''--------------------'')] @ cs)
            (celebrare_calls lib available ''-'' (Some txt))
      | Inl (Raise (D_Parse line msg)) \<Rightarrow>
          Some [println (text_of (''dissonantia (note '' @ show_nat line @ ''): '' @ msg))]
      | Inl (Raise d) \<Rightarrow> Some [K_say (S_Loud d)]
      | Inl Panicked \<Rightarrow> None)"

definition transcribe_session :: "'k pc_keyboard \<Rightarrow> libm \<Rightarrow> bool \<Rightarrow> 'k \<Rightarrow> 8 word list \<Rightarrow> (unit, 'k) await" where
  "transcribe_session kb lib available k bs =
     calling [println (text_of ''transcribe: play the manual (z-row = octave 3, a-row = octave 4, o l p above)''),
         println (text_of ''the last note is the cadence; enter transcribes, esc abandons'')]
       (and_await (transcribe_keys kb lib available [] k bs) (\<lambda>played k bs.
          case played of
            None \<Rightarrow> Ready () k bs []
          | Some played \<Rightarrow>
              calling (quiet available @ [println []])
                (case celebrate_phrase lib available played of
                   None \<Rightarrow> Crashed []
                 | Some cs \<Rightarrow> Ready () k bs cs)))"

section \<open>Commands\<close>

text \<open>What a command reads of the machine.\<close>

record machine_view =
  mv_ticks :: "64 word"
  mv_used :: nat
  mv_free :: nat

definition help_lines :: "string list" where
  "help_lines =
     [''available commands:'',
      ''  help           this text'',
      ''  echo <text>    print text'',
      ''  clear          clear the screen'',
      ''  uptime         time since boot'',
      ''  heap           allocator statistics'',
      ''  beep [hz] [ms] beep (default 440 Hz, 300 ms)'',
      ''  play <notes>   play notes, e.g. play c4 e4 g4 c5:800'',
      ''  piano          live instrument (pc speaker, mono)'',
      ''  organ          live instrument (ac97, polyphonic)'',
      ''  transcribe     play a phrase, hear it back as an Officium verse'',
      ''  celebrare <s>  run an Officium score (meteor, cantus, or - to type one)'',
      ''  userspace      celebrate from ring 3 through the syscall gate'']"

definition uptime_line :: "64 word \<Rightarrow> string" where
  "uptime_line ticks =
     (let ms = ticks * 55; frac = show_nat (unat (ms mod 1000))
      in show_nat (unat (ms div 1000)) @ ''.'' @ replicate (3 - length frac) (CHR ''0'') @ frac @ '' s'')"

definition arg_or :: "nat \<Rightarrow> nat \<Rightarrow> nat list list \<Rightarrow> nat" where
  "arg_or width dflt parts =
     (case parts of
        [] \<Rightarrow> dflt
      | s # _ \<Rightarrow> (case parse_uint width (utf8 s) of Some n \<Rightarrow> n | None \<Rightarrow> dflt))"

definition beep :: "nat list list \<Rightarrow> kcall list" where
  "beep parts =
     [K_start_tone (of_nat (arg_or 32 440 parts)), K_sleep (of_nat (arg_or 64 300 (drop 1 parts))), K_stop_tone]"

fun play_tokens :: "nat list list \<Rightarrow> kcall list option" where
  "play_tokens [] = Some []"
| "play_tokens (token # parts) =
     (case (case split_once 58 token of Some (name, ms) \<Rightarrow> (name, arg_or 64 400 [ms]) | None \<Rightarrow> (token, 400)) of
        (name, ms) \<Rightarrow>
          (case note_freq (utf8 name) of
             None \<Rightarrow> None
           | Some None \<Rightarrow> Some [println (text_of ''bad note '' @ [39] @ name @ [39])]
           | Some (Some freq) \<Rightarrow>
               map_option (\<lambda>cs. [K_start_tone (of_nat freq), K_sleep (of_nat ms), K_stop_tone, K_sleep 30] @ cs)
                 (play_tokens parts)))"

text \<open>The line is trimmed: it begins with the command.\<close>

definition execute :: "libm \<Rightarrow> bool \<Rightarrow> machine_view \<Rightarrow> nat list \<Rightarrow> kcall list option" where
  "execute lib available view line =
     (case split_whitespace line of
        [] \<Rightarrow> Some []
      | command # parts \<Rightarrow>
          if command = text_of ''help'' then Some (map (\<lambda>s. println (text_of s)) help_lines)
          else if command = text_of ''echo'' then Some [println (trim_start (drop (length command) line))]
          else if command = text_of ''clear'' then Some [K_clear]
          else if command = text_of ''uptime'' then Some [println (text_of (uptime_line (mv_ticks view)))]
          else if command = text_of ''heap''
          then Some [println (text_of (''heap: '' @ show_nat (mv_used view) @ '' bytes used, ''
            @ show_nat (mv_free view) @ '' bytes free''))]
          else if command = text_of ''beep'' then Some (beep parts)
          else if command = text_of ''play'' then play_tokens parts
          else if command = text_of ''celebrare''
          then celebrare_calls lib available (case parts of [] \<Rightarrow> ''meteor'' | name # _ \<Rightarrow> utf8 name) None
          else if command = text_of ''userspace'' \<or> command = text_of ''mundus'' then Some [K_userspace]
          else Some [println (text_of ''unknown command '' @ [39] @ command @ [39] @ text_of '', try '' @ [39]
            @ text_of ''help'' @ [39])])"

definition celebrare_typed :: "'k pc_keyboard \<Rightarrow> libm \<Rightarrow> bool \<Rightarrow> 'k \<Rightarrow> 8 word list \<Rightarrow> (unit, 'k) await" where
  "celebrare_typed kb lib available k bs =
     and_await (read_score kb k bs) (\<lambda>score k bs.
       case celebrare_calls lib available ''-'' (Some (utf8 score)) of
         None \<Rightarrow> Crashed []
       | Some cs \<Rightarrow> Ready () k bs cs)"

text \<open>The clock and the heap are what they are when so many scancodes are still to come.\<close>

definition run_line ::
  "'k pc_keyboard \<Rightarrow> libm \<Rightarrow> bool \<Rightarrow> (nat \<Rightarrow> machine_view) \<Rightarrow> nat list \<Rightarrow> 'k \<Rightarrow> 8 word list \<Rightarrow> (unit, 'k) await" where
  "run_line kb lib available view line k bs =
     (if trim line = text_of ''piano'' then piano kb lib k bs
      else if trim line = text_of ''organ'' then organ kb lib available k bs
      else if trim line = text_of ''transcribe'' then transcribe_session kb lib available k bs
      else if trim line = text_of ''celebrare -'' then celebrare_typed kb lib available k bs
      else (case execute lib available (view (length bs)) (trim line) of
              None \<Rightarrow> Crashed []
            | Some cs \<Rightarrow> Ready () k bs cs))"


section \<open>The shell task\<close>

text \<open>Scancodes that are left were not read: there are no more of them than there were.\<close>

definition reads :: "8 word list \<Rightarrow> ('a, 'k) await \<Rightarrow> bool" where
  "reads bs r \<longleftrightarrow> (case r of Ready _ _ bs' _ \<Rightarrow> length bs' \<le> length bs | _ \<Rightarrow> True)"

lemma reads_simps [simp]:
  "reads bs (Pending p cs)" "reads bs (Crashed cs)" "reads bs (Ready x k bs' cs) \<longleftrightarrow> length bs' \<le> length bs"
  by (simp_all add: reads_def)

lemma reads_calling [simp]: "reads bs (calling cs r) = reads bs r"
  by (cases r) simp_all

lemma reads_Cons: "reads bs r \<Longrightarrow> reads (b # bs) r"
  by (cases r) simp_all

lemma reads_and_await:
  "reads bs r \<Longrightarrow> (\<And>x k bs'. length bs' \<le> length bs \<Longrightarrow> reads bs' (f x k bs')) \<Longrightarrow> reads bs (and_await r f)"
proof (cases r)
  case (Ready x k bs' cs)
  moreover assume "reads bs r" "\<And>x k bs'. length bs' \<le> length bs \<Longrightarrow> reads bs' (f x k bs')"
  ultimately have "length bs' \<le> length bs" "reads bs' (f x k bs')" by auto
  then show ?thesis using Ready by (cases "f x k bs'") auto
qed auto

lemma read_lines_reads: "reads bs (read_lines kb score line k bs)"
  by (induction kb score line k bs rule: read_lines.induct)
    (auto simp: reads_Cons split: prod.splits option.splits)

lemma piano_keys_reads: "reads bs (piano_keys kb lib held k bs)"
  by (induction kb lib held k bs rule: piano_keys.induct)
    (auto simp: reads_Cons split: prod.splits option.splits key_state.splits)

lemma organ_keys_reads: "reads bs (organ_keys kb lib k bs)"
  by (induction kb lib k bs rule: organ_keys.induct)
    (auto simp: reads_Cons split: prod.splits option.splits key_state.splits)

lemma transcribe_keys_reads: "reads bs (transcribe_keys kb lib poly played k bs)"
  by (induction kb lib poly played k bs rule: transcribe_keys.induct)
    (auto simp: reads_Cons split: prod.splits option.splits key_state.splits)

lemma run_line_reads: "reads bs (run_line kb lib available view line k bs)"
proof -
  have "reads bs (transcribe_session kb lib available k bs)"
    unfolding transcribe_session_def reads_calling
    by (rule reads_and_await [OF transcribe_keys_reads]) (auto split: option.split)
  moreover have "reads bs (celebrare_typed kb lib available k bs)"
    unfolding celebrare_typed_def
    by (rule reads_and_await) (auto simp: read_score_def read_lines_reads split: option.split)
  ultimately show ?thesis
    by (auto simp: run_line_def piano_def organ_def piano_keys_reads organ_keys_reads split: option.split)
qed

function shell_keys ::
  "'k pc_keyboard \<Rightarrow> libm \<Rightarrow> bool \<Rightarrow> (nat \<Rightarrow> machine_view) \<Rightarrow> nat list \<Rightarrow> 'k \<Rightarrow> 8 word list \<Rightarrow> (unit, 'k) await" where
  "shell_keys kb lib available view line k [] = Pending (At_prompt line) []"
| "shell_keys kb lib available view line k (b # bs) =
     (case next_key kb b k of
        (None, k) \<Rightarrow> shell_keys kb lib available view line k bs
      | (Some key, k) \<Rightarrow>
          if is_enter key
          then calling [println []]
            (case run_line kb lib available view line k bs of
               Ready _ k bs cs \<Rightarrow>
                 calling (cs @ [K_print (text_of ''> '')]) (shell_keys kb lib available view [] k bs)
             | Pending p cs \<Rightarrow> Pending p cs
             | Crashed cs \<Rightarrow> Crashed cs)
          else calling (snd (edit_key key line)) (shell_keys kb lib available view (fst (edit_key key line)) k bs))"
  by pat_completeness auto
termination
  by (relation "measure (\<lambda>(kb, lib, available, view, line, k, bs). length bs)")
    (auto, metis run_line_reads reads_simps(3) le_imp_less_Suc)

declare shell_keys.simps(2) [simp del]

definition shell ::
  "'k pc_keyboard \<Rightarrow> libm \<Rightarrow> bool \<Rightarrow> (nat \<Rightarrow> machine_view) \<Rightarrow> 'k \<Rightarrow> 8 word list \<Rightarrow> (unit, 'k) await" where
  "shell kb lib available view k bs =
     calling [K_print (text_of ''> '')] (shell_keys kb lib available view [] k bs)"


section \<open>Silence\<close>

text \<open>What the calls do to the speaker (its tone, if it is on) and to the sound card.\<close>

fun device_call :: "kcall \<Rightarrow> 32 word option \<times> ac97 option \<Rightarrow> 32 word option \<times> ac97 option" where
  "device_call (K_start_tone f) (t, dev) = (Some f, dev)"
| "device_call K_stop_tone (t, dev) = (None, dev)"
| "device_call (K_note_on f) (t, dev) = (t, note_on f dev)"
| "device_call (K_note_off f) (t, dev) = (t, note_off f dev)"
| "device_call K_all_notes_off (t, dev) = (t, all_notes_off dev)"
| "device_call _ devices = devices"

definition silent :: "32 word option \<times> ac97 option \<Rightarrow> bool" where
  "silent d \<longleftrightarrow> fst d = None \<and> (\<forall>ac. snd d = Some ac \<longrightarrow> ac_voices ac = replicate MAX_VOICES None)"

definition leaves_silent :: "kcall list \<Rightarrow> bool" where
  "leaves_silent cs \<longleftrightarrow> (\<forall>d. silent d \<longrightarrow> silent (fold device_call cs d))"

definition tone_call :: "kcall \<Rightarrow> bool" where
  "tone_call c \<longleftrightarrow> c = K_stop_tone \<or> (\<exists>f. c = K_start_tone f)"

definition card_call :: "kcall \<Rightarrow> bool" where
  "card_call c \<longleftrightarrow> card_event c \<noteq> []"

lemma call_kinds [simp]:
  "\<not> tone_call (K_print s)" "\<not> tone_call (K_say l)" "\<not> tone_call (K_sleep ms)" "\<not> tone_call K_clear" "\<not> tone_call K_userspace"
  "\<not> tone_call (K_note_on f)" "\<not> tone_call (K_note_off f)" "\<not> tone_call K_all_notes_off"
  "\<not> card_call (K_print s)" "\<not> card_call (K_say l)" "\<not> card_call (K_sleep ms)" "\<not> card_call K_clear" "\<not> card_call K_userspace"
  "\<not> card_call (K_start_tone f)" "\<not> card_call K_stop_tone" "\<not> tone_call (println t)" "\<not> card_call (println t)"
  by (simp_all add: tone_call_def card_call_def println_def)

lemma tone_kept: "\<forall>c \<in> set cs. \<not> tone_call c \<Longrightarrow> fst (fold device_call cs d) = fst d"
proof (induction cs arbitrary: d)
  case (Cons c cs)
  moreover have "fst (device_call c d) = fst d" using Cons.prems by (cases c; cases d) (auto simp: tone_call_def)
  ultimately show ?case by simp
qed simp

lemma card_kept: "\<forall>c \<in> set cs. \<not> card_call c \<Longrightarrow> snd (fold device_call cs d) = snd d"
proof (induction cs arbitrary: d)
  case (Cons c cs)
  moreover have "snd (device_call c d) = snd d" using Cons.prems by (cases c; cases d) (auto simp: card_call_def)
  ultimately show ?case by simp
qed simp

lemma silent_append: "leaves_silent cs \<Longrightarrow> leaves_silent cs' \<Longrightarrow> leaves_silent (cs @ cs')"
  unfolding leaves_silent_def fold_append comp_def by blast

lemma silent_neutral: "\<forall>c \<in> set cs. \<not> tone_call c \<and> \<not> card_call c \<Longrightarrow> leaves_silent cs"
  using tone_kept [of cs] card_kept [of cs] by (simp add: leaves_silent_def silent_def)

lemma silent_Cons: "\<not> tone_call c \<Longrightarrow> \<not> card_call c \<Longrightarrow> leaves_silent cs \<Longrightarrow> leaves_silent (c # cs)"
  using silent_append [OF silent_neutral [of "[c]"], of cs] by simp

text \<open>A player of the card that silences it at the end, and a player of the speaker that does.\<close>

lemma silent_by_card:
  assumes "\<forall>c \<in> set cs. \<not> tone_call c"
  shows "leaves_silent (cs @ [K_all_notes_off])"
  unfolding leaves_silent_def
proof (intro allI impI)
  fix d assume d: "silent d"
  obtain t dev where e: "fold device_call cs d = (t, dev)" by (metis surj_pair)
  have "t = None" using tone_kept [OF assms, of d] e d by (simp add: silent_def)
  then show "silent (fold device_call (cs @ [K_all_notes_off]) d)" by (auto simp: e silent_def all_notes_off_def)
qed

lemma silent_by_tone:
  assumes "\<forall>c \<in> set cs. \<not> card_call c"
  shows "leaves_silent (cs @ [K_stop_tone])"
  unfolding leaves_silent_def
proof (intro allI impI)
  fix d assume d: "silent d"
  obtain t dev where e: "fold device_call cs d = (t, dev)" by (metis surj_pair)
  have "dev = snd d" using card_kept [OF assms, of d] e by simp
  then show "silent (fold device_call (cs @ [K_stop_tone]) d)" using d by (simp add: e silent_def)
qed

lemma play_silent: "leaves_silent (kernel_play lib events)"
proof (cases "events = []")
  case False
  have "\<not> tone_call c" if "c \<in> set (concat (map (kernel_tick lib events) ts))" for c ts
    using that by (auto simp: kernel_tick_eq tick_ons_def tick_offs_def split: if_splits)
  then have "leaves_silent (concat (map (kernel_tick lib events) [0 ..< play_end events]) @ [K_all_notes_off])"
    by (intro silent_by_card) blast
  then show ?thesis using False by (simp add: kernel_play_def)
qed (simp add: kernel_play_def silent_neutral)

lemma says_silent: "leaves_silent (map K_say ls)"
  by (rule silent_neutral) auto

lemma celebrare_calls_silent:
  assumes "celebrare_calls lib available name given = Some cs"
  shows "leaves_silent cs"
proof -
  have cel: "celebrare lib available name given = Some (Inr cs)"
    using assms by (auto simp: celebrare_calls_def split: option.splits sum.splits)
  consider "score_source name given = None"
    | src prog where "score_source name given = Some src" "accepted src prog"
    | src where "score_source name given = Some src" "\<nexists>prog. accepted src prog" by (cases "score_source name given") blast+
  then show ?thesis
  proof cases
    case 1
    then show ?thesis using cel by (auto simp: celebrare_def intro: silent_neutral)
  next
    case 2
    have "sing lib available prog = Inr cs" using celebrare_accepted [OF 2, of lib available] cel by simp
    then obtain k :: kernel_platform and played where played: "read_back lib available prog = Inr played"
      and cs: "cs = map K_say (score_line prog # sung_poems prog) @ played @ map K_say (kp_said k)"
      by (rule sing_calls) (rule that)
    have "leaves_silent played"
      using played play_silent by (auto simp: read_back_eq silent_neutral split: if_splits)
    then show ?thesis unfolding cs by (intro silent_append says_silent)
  next
    case 3
    from celebrare_refused [OF this cel] show ?thesis by (auto intro: silent_neutral)
  qed
qed

lemma calling_Ready: "calling cs r = Ready x k bs cs' \<longleftrightarrow> (\<exists>ds. r = Ready x k bs ds \<and> cs' = cs @ ds)"
  by (cases r) auto

lemma calling_Pending: "calling cs r = Pending p cs' \<longleftrightarrow> (\<exists>ds. r = Pending p ds \<and> cs' = cs @ ds)"
  by (cases r) auto

lemma calling_Crashed: "calling cs r = Crashed cs' \<longleftrightarrow> (\<exists>ds. r = Crashed ds \<and> cs' = cs @ ds)"
  by (cases r) auto

lemma and_await_Ready:
  "and_await r f = Ready x k bs cs \<longleftrightarrow> (\<exists>y k1 bs1 cs1 cs2. r = Ready y k1 bs1 cs1 \<and> f y k1 bs1 = Ready x k bs cs2 \<and> cs = cs1 @ cs2)"
  by (cases r) (auto simp: calling_Ready)

lemma and_await_Pending:
  "and_await r f = Pending p cs \<longleftrightarrow> r = Pending p cs
     \<or> (\<exists>y k1 bs1 cs1 cs2. r = Ready y k1 bs1 cs1 \<and> f y k1 bs1 = Pending p cs2 \<and> cs = cs1 @ cs2)"
  by (cases r) (auto simp: calling_Pending)

lemma and_await_Crashed:
  "and_await r f = Crashed cs \<longleftrightarrow> r = Crashed cs
     \<or> (\<exists>y k1 bs1 cs1 cs2. r = Ready y k1 bs1 cs1 \<and> f y k1 bs1 = Crashed cs2 \<and> cs = cs1 @ cs2)"
  by (cases r) (auto simp: calling_Crashed)

lemmas awaits = calling_Ready calling_Pending calling_Crashed and_await_Ready and_await_Pending and_await_Crashed

lemma piano_keys_ends:
  "piano_keys kb lib held k bs = Ready x k' bs' cs \<Longrightarrow> \<exists>ds. cs = ds @ [K_stop_tone] \<and> (\<forall>c \<in> set ds. \<not> card_call c)"
  by (induction kb lib held k bs arbitrary: cs rule: piano_keys.induct)
    (fastforce simp: awaits split: prod.splits option.splits key_state.splits if_splits)+

lemma organ_keys_ends:
  "organ_keys kb lib k bs = Ready x k' bs' cs \<Longrightarrow> \<exists>ds. cs = ds @ [K_all_notes_off] \<and> (\<forall>c \<in> set ds. \<not> tone_call c)"
  by (induction kb lib k bs arbitrary: cs rule: organ_keys.induct)
    (fastforce simp: awaits split: prod.splits option.splits key_state.splits if_splits)+


text \<open>Playing the phrase: the device that is not used is not touched, and giving up silences the other.\<close>

lemma transcribe_keys_kind:
  "transcribe_keys kb lib poly played k bs = Ready x k' bs' cs \<Longrightarrow>
     \<forall>c \<in> set cs. if poly then \<not> tone_call c else \<not> card_call c"
  by (induction kb lib poly played k bs arbitrary: cs rule: transcribe_keys.induct)
    (fastforce simp: awaits quiet_def split: prod.splits option.splits key_state.splits if_splits)+

lemma transcribe_keys_abandoned:
  "transcribe_keys kb lib poly played k bs = Ready None k' bs' cs \<Longrightarrow>
     \<exists>ds. cs = ds @ quiet poly @ [println [], println (text_of ''abandoned'')]"
  by (induction kb lib poly played k bs arbitrary: cs rule: transcribe_keys.induct)
    (fastforce simp: awaits split: prod.splits option.splits key_state.splits if_splits)+

lemma quiet_silent:
  assumes "\<forall>c \<in> set cs. if poly then \<not> tone_call c else \<not> card_call c"
  shows "leaves_silent (cs @ quiet poly)"
  using assms silent_by_card [of cs] silent_by_tone [of cs] by (cases poly) (simp_all add: quiet_def)

lemma transcribe_abandoned_silent:
  assumes "transcribe_keys kb lib poly played k bs = Ready None k' bs' cs"
  shows "leaves_silent cs"
proof -
  from transcribe_keys_abandoned [OF assms] obtain ds where
    cs: "cs = (ds @ quiet poly) @ [println [], println (text_of ''abandoned'')]" by auto
  then have "\<forall>c \<in> set ds. if poly then \<not> tone_call c else \<not> card_call c"
    using transcribe_keys_kind [OF assms] by auto
  from silent_append [OF quiet_silent [OF this] silent_neutral] show ?thesis unfolding cs by simp
qed

lemma silent_Nil [simp]: "leaves_silent []"
  by (simp add: silent_neutral)

lemma silent_lines [simp]: "leaves_silent (map (\<lambda>s. println (f s)) ls)"
  by (rule silent_neutral) auto

lemma celebrate_phrase_silent: "celebrate_phrase lib available played = Some cs \<Longrightarrow> leaves_silent cs"
  by (auto simp: celebrate_phrase_def intro!: silent_Cons intro: celebrare_calls_silent
      split: sum.splits exn.splits dissonance.splits)

lemma transcribe_session_silent:
  assumes "transcribe_session kb lib available k bs = Ready x k' bs' cs"
  shows "leaves_silent cs"
proof -
  obtain played k1 bs1 cs1 cs2 where
    1: "transcribe_keys kb lib available [] k bs = Ready played k1 bs1 cs1" and
    2: "(case played of None \<Rightarrow> Ready () k1 bs1 []
      | Some played \<Rightarrow> calling (quiet available @ [println []])
          (case celebrate_phrase lib available played of None \<Rightarrow> Crashed [] | Some cs \<Rightarrow> Ready () k1 bs1 cs))
      = Ready x k' bs' cs2" and
    cs: "\<exists>ps. cs = ps @ cs1 @ cs2 \<and> (\<forall>c \<in> set ps. \<not> tone_call c \<and> \<not> card_call c)"
    using assms unfolding transcribe_session_def awaits by fastforce
  have "leaves_silent (cs1 @ cs2)"
  proof (cases played)
    case None
    then show ?thesis using 1 2 transcribe_abandoned_silent by auto
  next
    case (Some p)
    then obtain ds where ds: "celebrate_phrase lib available p = Some ds" "cs2 = quiet available @ println [] # ds"
      using 2 by (auto simp: awaits split: option.splits)
    have "leaves_silent (cs1 @ quiet available)"
      using transcribe_keys_kind [OF 1] by (rule quiet_silent)
    moreover have "leaves_silent (println [] # ds)"
      using celebrate_phrase_silent [OF ds(1)] by (intro silent_Cons) simp_all
    ultimately show ?thesis using silent_append by (fastforce simp: ds(2))
  qed
  then show ?thesis using cs silent_append silent_neutral by blast
qed

lemma read_lines_neutral:
  "read_lines kb score line k bs = Ready x k' bs' cs \<Longrightarrow> \<forall>c \<in> set cs. \<not> tone_call c \<and> \<not> card_call c"
  by (induction kb score line k bs arbitrary: cs rule: read_lines.induct)
    (fastforce simp: awaits edit_key_def split: prod.splits option.splits if_splits decoded_key.splits)+

lemma play_tokens_silent: "play_tokens ts = Some cs \<Longrightarrow> leaves_silent cs"
proof (induction ts arbitrary: cs rule: play_tokens.induct)
  case (2 token parts)
  have tone: "leaves_silent ([K_start_tone f, K_sleep ms, K_stop_tone, K_sleep gap] @ ds)" if "leaves_silent ds" for f ms gap ds
    using silent_append [OF silent_by_tone [of "[K_start_tone f, K_sleep ms]"] silent_append [OF silent_neutral [of "[K_sleep gap]"] that]]
    by simp
  show ?case using 2 tone by (auto simp: silent_neutral split: option.splits prod.splits)
qed (simp add: silent_neutral)

lemma execute_silent:
  assumes "execute lib available view line = Some cs"
  shows "leaves_silent cs"
proof -
  have "leaves_silent (beep parts)" for parts
    using silent_by_tone [of "butlast (beep parts)"] by (simp add: beep_def)
  then show ?thesis using assms play_tokens_silent celebrare_calls_silent
    by (auto simp: execute_def simp del: play_tokens.simps intro!: silent_Cons split: list.splits if_splits)
qed

lemma run_line_silent:
  assumes "run_line kb lib available view line k bs = Ready x k' bs' cs"
  shows "leaves_silent cs"
proof -
  have piano: "leaves_silent cs" if ready: "piano kb lib k bs = Ready x k' bs' cs"
  proof -
    obtain ds where "piano_keys kb lib None k bs = Ready x k' bs' ds" "\<exists>t. cs = println t # ds"
      using ready by (auto simp: piano_def awaits)
    with piano_keys_ends [OF this(1)] show ?thesis by (auto intro!: silent_Cons silent_by_tone)
  qed
  have organ: "leaves_silent cs" if ready: "organ kb lib available k bs = Ready x k' bs' cs"
  proof (cases available)
    case True
    then obtain ds where "organ_keys kb lib k bs = Ready x k' bs' ds" "\<exists>t u. cs = println t # println u # ds"
      using ready by (auto simp: organ_def awaits)
    with organ_keys_ends [OF this(1)] show ?thesis by (auto intro!: silent_Cons silent_by_card)
  qed (use ready in \<open>auto simp: organ_def intro: silent_neutral\<close>)
  have given: "leaves_silent cs" if ready: "celebrare_typed kb lib available k bs = Ready x k' bs' cs"
  proof -
    obtain score k1 bs1 ds es where "read_lines kb [] [] k bs = Ready score k1 bs1 ds"
      "celebrare_calls lib available ''-'' (Some (utf8 score)) = Some es"
      "cs = println (text_of ''type the score; an empty line celebrates it'') # K_print (text_of ''| '') # ds @ es"
      using ready by (auto simp: celebrare_typed_def read_score_def awaits split: option.splits)
    then show ?thesis
      using silent_append [OF silent_neutral [OF read_lines_neutral] celebrare_calls_silent] by (auto intro!: silent_Cons)
  qed
  show ?thesis
    using assms piano organ given transcribe_session_silent execute_silent
    by (auto simp: run_line_def split: if_splits option.splits)
qed


text \<open>At the prompt: the instruments wait elsewhere.\<close>

lemma piano_keys_place: "piano_keys kb lib held k bs = Pending p cs \<Longrightarrow> \<exists>h. p = In_piano h"
  by (induction kb lib held k bs arbitrary: cs rule: piano_keys.induct)
    (auto simp: awaits split: prod.splits option.splits key_state.splits if_splits)

lemma organ_keys_place: "organ_keys kb lib k bs = Pending p cs \<Longrightarrow> p = In_organ"
  by (induction kb lib k bs arbitrary: cs rule: organ_keys.induct)
    (auto simp: awaits split: prod.splits option.splits key_state.splits if_splits)

lemma transcribe_keys_place: "transcribe_keys kb lib poly played k bs = Pending p cs \<Longrightarrow> \<exists>ps. p = In_transcribe ps"
  by (induction kb lib poly played k bs arbitrary: cs rule: transcribe_keys.induct)
    (auto simp: awaits split: prod.splits option.splits key_state.splits if_splits)

lemma read_lines_place: "read_lines kb score line k bs = Pending p cs \<Longrightarrow> \<exists>s l. p = In_score s l"
  by (induction kb score line k bs arbitrary: cs rule: read_lines.induct)
    (auto simp: awaits split: prod.splits option.splits if_splits)

lemma crash_or_ready [simp]: "(case r of None \<Rightarrow> Crashed [] | Some cs \<Rightarrow> Ready () k bs cs) \<noteq> Pending p ds"
  by (cases r) simp_all

lemma run_line_place: "run_line kb lib available view line k bs = Pending p cs \<Longrightarrow> p \<noteq> At_prompt l"
  by (auto simp: run_line_def piano_def organ_def transcribe_session_def celebrare_typed_def read_score_def awaits
      dest: piano_keys_place organ_keys_place transcribe_keys_place read_lines_place
      split: if_splits option.splits)

lemma edit_neutral: "\<forall>c \<in> set (snd (edit_key key line)). \<not> tone_call c \<and> \<not> card_call c"
  by (auto simp: edit_key_def split: decoded_key.splits)

lemma shell_keys_silent:
  "shell_keys kb lib available view line k bs = Pending (At_prompt line') cs \<Longrightarrow> leaves_silent cs"
proof (induction kb lib available view line k bs arbitrary: cs rule: shell_keys.induct)
  case (2 kb lib available view line k b bs)
  obtain key k1 where n: "next_key kb b k = (key, k1)" by (metis surj_pair)
  consider "key = None" | c where "key = Some c" "is_enter c" | c where "key = Some c" "\<not> is_enter c" by blast
  then show ?case
  proof cases
    case 1
    then show ?thesis using 2 n by (simp add: shell_keys.simps(2))
  next
    case (2 c)
    show ?thesis
    proof (cases "run_line kb lib available view line k1 bs")
      case (Pending p ds)
      then show ?thesis using "2.prems" n 2 run_line_place [OF Pending] by (auto simp: shell_keys.simps(2) awaits)
    next
      case (Ready x k2 bs2 ds)
      then obtain es where es: "shell_keys kb lib available view [] k2 bs2 = Pending (At_prompt line') es"
        "cs = (println [] # ds) @ K_print (text_of ''> '') # es"
        using "2.prems" n 2 by (auto simp: shell_keys.simps(2) awaits)
      have "leaves_silent es" by (rule "2.IH"(2) [OF n [symmetric] 2 Ready es(1)])
      then show ?thesis unfolding es(2)
        by (intro silent_append silent_Cons run_line_silent [OF Ready]) simp_all
    next
      case (Crashed ds)
      then show ?thesis using "2.prems" n 2 by (auto simp: shell_keys.simps(2) awaits)
    qed
  next
    case (3 c)
    then obtain es where "shell_keys kb lib available view (fst (edit_key c line)) k1 bs = Pending (At_prompt line') es"
      "cs = snd (edit_key c line) @ es"
      using "2.prems" n by (auto simp: shell_keys.simps(2) awaits)
    moreover from "2.IH"(3) [OF n [symmetric] 3 this(1)] have "leaves_silent es" .
    ultimately show ?thesis using silent_append [OF silent_neutral [OF edit_neutral]] by blast
  qed
qed simp

section \<open>What can crash\<close>

lemma degree_heard: "degree_of_rel mode rel = Some deg \<Longrightarrow> op_of_degree mode deg \<noteq> None"
proof -
  assume "degree_of_rel mode rel = Some deg"
  then have "deg \<in> set [1, 2, 3, 4, 5, 6, 7, 8]" unfolding degree_of_rel_def by (metis find_Some_iff nth_mem)
  then show ?thesis by (auto simp: op_of_degree_def)
qed

lemma hear_ops_raises: "hear_ops mode fin i ps \<noteq> Inl Panicked"
  by (induction mode fin i ps rule: hear_ops.induct)
    (auto simp: and_then_Inl_iff dest: degree_heard split: option.splits)

lemma block_raises: "snd (block depth t :: transcriber \<times> ('k dissonance, unit) result) \<noteq> Inl Panicked"
proof (induction "length (tr_ops t) - tr_pos t" arbitrary: depth t rule: less_induct)
  case less
  show ?case
  proof (cases "tr_pos t < length (tr_ops t)")
    case False
    then show ?thesis by (simp add: block_end tr_err_def)
  next
    case True
    define op where "op = tr_ops t ! tr_pos t"
    consider "op = R_Cadence" | "op = R_Branch" | "op \<noteq> R_Cadence" "op \<noteq> R_Branch" by blast
    then show ?thesis
    proof cases
      case 1
      then show ?thesis using True by (simp add: block_cadence op_def)
    next
      case 2
      obtain t1 r1 where b1: "(block (depth + 1) (tr_line depth ''si verum tunc {'' (advance t)) :: transcriber \<times> ('k dissonance, unit) result) = (t1, r1)"
        by (metis surj_pair)
      have r1: "r1 \<noteq> Inl Panicked"
        using less [of "tr_line depth ''si verum tunc {'' (advance t)" "depth + 1"] True b1 by simp
      have t1: "length (tr_ops t1) - tr_pos t1 < length (tr_ops t) - tr_pos t"
        using block_result [OF b1] True by auto
      have "snd (block (depth + 1) (tr_line depth ''} aliter {'' t1) :: transcriber \<times> ('k dissonance, unit) result) \<noteq> Inl Panicked"
        using less [of "tr_line depth ''} aliter {'' t1" "depth + 1"] t1 by simp
      then show ?thesis
        using r1 unfolding block_branch [OF True 2 [unfolded op_def], of depth] b1 by (auto split: sum.split prod.splits)
    next
      case 3
      show ?thesis
        unfolding block_line [OF True op_def 3, of depth]
        using less [of "sing_line depth op (advance t)" depth] True by simp
    qed
  qed
qed

lemma transcribe_raises: "(Transcribe.transcribe pitches name :: ('a dissonance, string) result) \<noteq> Inl Panicked"
proof -
  have "(hear pitches :: ('a dissonance, mode \<times> render_op list) result) \<noteq> Inl Panicked"
    by (auto simp: hear_def Let_def and_then_Inl_iff hear_ops_raises split: option.splits)
  moreover have "block 1 t \<noteq> (t', Inl Panicked :: ('a dissonance, unit) result)" for t t' using block_raises [of 1 t, where 'k = 'a] by auto
  ultimately show ?thesis
    by (auto simp: transcribe_def and_then_Inl_iff Let_def split: prod.splits sum.splits if_splits)
qed

text \<open>A score that crashes: the checker goes round for ever on it, or it has too many verses for the card.\<close>

definition crashing :: "bool \<Rightarrow> string \<Rightarrow> bool" where
  "crashing available src \<longleftrightarrow> (\<exists>prog. parse src = (Inr prog :: diss exn + program)
     \<and> (check_program prog = (None :: (diss exn + unit) option)
        \<or> check_program prog = Some (Inr () :: diss exn + unit) \<and> available \<and> 254 < length (prog_verses prog)))"

lemma crashing_accepted: "accepted src prog \<Longrightarrow> crashing available src \<longleftrightarrow> overfull available prog"
  using check_verses_iff [where 'k = continuation, of prog "prog_verses prog"]
  by (auto simp: crashing_def accepted_def overfull_def check_program_def)

lemma celebrare_crashes:
  assumes "celebrare_calls lib available name given = None"
  shows "\<exists>src. score_source name given = Some src \<and> crashing available src"
proof (cases "score_source name given")
  case None
  then show ?thesis using assms by (simp add: celebrare_calls_def celebrare_def)
next
  case (Some src)
  consider prog where "accepted src prog" | "\<nexists>prog. accepted src prog" "celebrare lib available name given \<noteq> None"
    | "celebrare lib available name given = None" by blast
  then show ?thesis
  proof cases
    case 1
    have "overfull available prog"
      using assms celebrare_accepted [OF Some 1, of lib available] sing_eq [of prog lib available]
      by (auto simp: celebrare_calls_def read_back_eq split: if_splits)
    then show ?thesis using Some crashing_accepted [OF 1] by blast
  next
    case 2
    then obtain r where "celebrare lib available name given = Some r" by blast
    from celebrare_refused [OF Some 2(1) this] this show ?thesis using assms by (auto simp: celebrare_calls_def)
  next
    case 3
    then show ?thesis using Some by (auto simp: celebrare_def crashing_def split: sum.splits option.splits)
  qed
qed

lemma celebrare_crashes_iff:
  "celebrare_calls lib available name given = None
     \<longleftrightarrow> (\<exists>src. score_source name given = Some src \<and> crashing available src)"
proof
  assume "\<exists>src. score_source name given = Some src \<and> crashing available src"
  then obtain src prog where "score_source name given = Some src" "parse src = (Inr prog :: diss exn + program)"
    "check_program prog = (None :: (diss exn + unit) option)
      \<or> check_program prog = Some (Inr () :: diss exn + unit) \<and> overfull available prog"
    by (auto simp: crashing_def overfull_def)
  then show "celebrare_calls lib available name given = None"
    using sing_panics [of lib available prog] by (auto simp: celebrare_calls_def celebrare_def)
qed (rule celebrare_crashes)

text \<open>
  The score that a line makes the shell celebrate, if it comes to that: the one it names, the one that is
  typed, or the transcription of the phrase that is played. And the scores that a session celebrates, one
  command after the other.
\<close>

definition line_source :: "'k pc_keyboard \<Rightarrow> libm \<Rightarrow> bool \<Rightarrow> nat list \<Rightarrow> 'k \<Rightarrow> 8 word list \<Rightarrow> string option" where
  "line_source kb lib available line k bs =
     (if trim line = text_of ''transcribe'' then
        (case transcribe_keys kb lib available [] k bs of
           Ready (Some played) _ _ _ \<Rightarrow>
             (case (Transcribe.transcribe played ''auditum'' :: diss exn + string) of Inr txt \<Rightarrow> Some txt | Inl _ \<Rightarrow> None)
         | _ \<Rightarrow> None)
      else if trim line = text_of ''celebrare -'' then
        (case read_lines kb [] [] k bs of Ready score _ _ _ \<Rightarrow> Some (utf8 score) | _ \<Rightarrow> None)
      else
        (case split_whitespace (trim line) of
           [] \<Rightarrow> None
         | command # parts \<Rightarrow>
             if command = text_of ''celebrare''
             then score_source (case parts of [] \<Rightarrow> ''meteor'' | name # _ \<Rightarrow> utf8 name) None
             else None))"

inductive celebrates ::
  "'k pc_keyboard \<Rightarrow> libm \<Rightarrow> bool \<Rightarrow> (nat \<Rightarrow> machine_view) \<Rightarrow> nat list \<Rightarrow> 'k \<Rightarrow> 8 word list \<Rightarrow> string \<Rightarrow> bool"
  for kb lib available view where
  C_byte: "next_key kb b k = (None, k') \<Longrightarrow> celebrates kb lib available view line k' bs src
    \<Longrightarrow> celebrates kb lib available view line k (b # bs) src"
| C_key: "next_key kb b k = (Some key, k') \<Longrightarrow> \<not> is_enter key
    \<Longrightarrow> celebrates kb lib available view (fst (edit_key key line)) k' bs src
    \<Longrightarrow> celebrates kb lib available view line k (b # bs) src"
| C_now: "next_key kb b k = (Some key, k') \<Longrightarrow> is_enter key
    \<Longrightarrow> line_source kb lib available line k' bs = Some src
    \<Longrightarrow> celebrates kb lib available view line k (b # bs) src"
| C_later: "next_key kb b k = (Some key, k') \<Longrightarrow> is_enter key
    \<Longrightarrow> run_line kb lib available view line k' bs = Ready u k'' bs'' cs
    \<Longrightarrow> celebrates kb lib available view [] k'' bs'' src
    \<Longrightarrow> celebrates kb lib available view line k (b # bs) src"

inductive_simps celebrates_Nil: "celebrates kb lib available view line k [] src"

inductive_simps celebrates_Cons: "celebrates kb lib available view line k (b # bs) src"

text \<open>The characters of the decoder are ASCII, as those of the US layout are.\<close>

definition ascii_keys :: "'k pc_keyboard \<Rightarrow> bool" where
  "ascii_keys kb \<longleftrightarrow> (\<forall>ev k c. fst (process_keyevent kb ev k) = Some (Unicode c) \<longrightarrow> c < 128)"

definition ascii :: "nat list \<Rightarrow> bool" where
  "ascii s \<longleftrightarrow> (\<forall>c \<in> set s. c < 128)"

lemma utf8_of_ascii: "ascii s \<Longrightarrow> utf8 s = map char_of s"
proof -
  assume "ascii s"
  then have "concat (map utf8_char s) = s" by (induction s) (auto simp: ascii_def utf8_char_def)
  then show ?thesis by (simp add: utf8_def)
qed

lemma note_freq_ascii:
  assumes "ascii s"
  shows "note_freq (utf8 s) \<noteq> None"
proof (cases "s = []")
  case True
  then show ?thesis by (simp add: utf8_def note_freq_def)
next
  case False
  then have "last s < 128" using assms by (simp add: ascii_def)
  then have "(of_char (last (map char_of s)) :: nat) < 128" using False by (simp add: last_map)
  then show ?thesis unfolding utf8_of_ascii [OF assms] by (auto simp: note_freq_def Let_def)
qed

lemma split_words_set: "w \<in> set (split_words word s) \<Longrightarrow> set w \<subseteq> set word \<union> set s"
  by (induction word s rule: split_words.induct) (auto split: if_splits)

lemma play_tokens_returns: "\<forall>t \<in> set ts. ascii t \<Longrightarrow> play_tokens ts \<noteq> None"
proof (induction ts)
  case (Cons token parts)
  define named where "named = (case split_once 58 token of Some (name, ms) \<Rightarrow> (name, arg_or 64 400 [ms]) | None \<Rightarrow> (token, 400))"
  have "ascii (takeWhile P token)" for P using Cons.prems by (auto simp: ascii_def dest: set_takeWhileD)
  then have "ascii (fst named)" using Cons.prems by (simp add: named_def split_once_def)
  then obtain f where "note_freq (utf8 (fst named)) = Some f" using note_freq_ascii by blast
  then show ?case using Cons
    by (cases f) (auto simp: named_def [symmetric] split: prod.split)
qed simp

lemma trim_set: "set (trim s) \<subseteq> set s"
proof -
  have "set (trim_start s) \<subseteq> set s" for s by (auto simp: trim_start_def dest: set_dropWhileD)
  from this [of "rev (trim_start s)"] this [of s] show ?thesis by (auto simp: trim_def)
qed

lemma text_of_inj [simp]: "text_of s = text_of t \<longleftrightarrow> s = t"
  by (simp add: text_of_def inj_map_eq_map [OF inj_of_char])

lemma execute_crashes:
  assumes "ascii line"
  shows "execute lib available view line = None
    \<longleftrightarrow> (case split_whitespace line of
          [] \<Rightarrow> False
        | command # parts \<Rightarrow> command = text_of ''celebrare''
            \<and> celebrare_calls lib available (case parts of [] \<Rightarrow> ''meteor'' | name # _ \<Rightarrow> utf8 name) None = None)"
proof -
  have words: "\<forall>w \<in> set (split_whitespace line). ascii w"
    using split_words_set [of _ "[]" line] assms by (fastforce simp: split_whitespace_def ascii_def)
  show ?thesis
  proof (cases "split_whitespace line")
    case (Cons command parts)
    then have "play_tokens parts \<noteq> None" using words by (intro play_tokens_returns) simp
    then show ?thesis using Cons
      by (auto simp: execute_def simp del: play_tokens.simps)
  qed (simp add: execute_def)
qed

definition crashes :: "('a, 'k) await \<Rightarrow> bool" where
  "crashes r \<longleftrightarrow> (\<exists>cs. r = Crashed cs)"

lemma crashes_simps [simp]:
  "\<not> crashes (Pending p cs)" "\<not> crashes (Ready x k bs cs)" "crashes (Crashed cs)" "crashes (calling cs r) = crashes r"
  by (cases r; simp add: crashes_def)+

lemma piano_keys_safe: "\<not> crashes (piano_keys kb lib held k bs)"
  by (induction kb lib held k bs rule: piano_keys.induct) (auto split: prod.splits option.splits key_state.splits)

lemma organ_keys_safe: "\<not> crashes (organ_keys kb lib k bs)"
  by (induction kb lib k bs rule: organ_keys.induct; auto split: prod.splits option.splits key_state.splits; blast)

lemma transcribe_keys_safe: "\<not> crashes (transcribe_keys kb lib poly played k bs)"
  by (induction kb lib poly played k bs rule: transcribe_keys.induct; auto split: prod.splits option.splits key_state.splits; blast)

lemma read_lines_safe: "\<not> crashes (read_lines kb score line k bs)"
  by (induction kb score line k bs rule: read_lines.induct) (auto split: prod.splits option.splits)

lemma safe:
  "piano_keys kb lib held k bs \<noteq> Crashed cs" "organ_keys kb lib k bs \<noteq> Crashed cs"
  "transcribe_keys kb lib poly played k bs \<noteq> Crashed cs" "read_lines kb score line k bs \<noteq> Crashed cs"
  using piano_keys_safe [of kb lib held k bs] organ_keys_safe [of kb lib k bs]
    transcribe_keys_safe [of kb lib poly played k bs] read_lines_safe [of kb score line k bs] by (auto simp: crashes_def)

lemma phrase_crashes:
  "celebrate_phrase lib available played = None \<longleftrightarrow>
     (\<exists>txt. Transcribe.transcribe played ''auditum'' = (Inr txt :: diss exn + string) \<and> crashing available txt)"
  using transcribe_raises [of played "''auditum''", where 'a = continuation]
  by (auto simp: celebrate_phrase_def celebrare_crashes_iff score_source_def split: sum.splits exn.splits dissonance.splits)

lemma case_crash:
  "crashes (case r of None \<Rightarrow> Crashed [] | Some cs \<Rightarrow> Ready () k bs cs) \<longleftrightarrow> r = None"
  by (cases r) simp_all

lemma run_line_crashes:
  assumes "ascii line"
  shows "crashes (run_line kb lib available view line k bs)
    \<longleftrightarrow> (\<exists>src. line_source kb lib available line k bs = Some src \<and> crashing available src)"
proof -
  have "ascii (trim line)" using trim_set [of line] assms by (auto simp: ascii_def)
  note run = execute_crashes [OF this]
  have tr: "crashes (transcribe_session kb lib available k bs) \<longleftrightarrow>
      (\<exists>src. (case transcribe_keys kb lib available [] k bs of
           Ready (Some played) _ _ _ \<Rightarrow>
             (case (Transcribe.transcribe played ''auditum'' :: diss exn + string) of Inr txt \<Rightarrow> Some txt | Inl _ \<Rightarrow> None)
         | _ \<Rightarrow> None) = Some src \<and> crashing available src)"
    using safe(3) [of kb lib available "[]" k bs]
    by (cases "transcribe_keys kb lib available [] k bs")
      (auto simp: transcribe_session_def case_crash phrase_crashes split: option.split sum.split)
  have typed: "crashes (celebrare_typed kb lib available k bs) \<longleftrightarrow>
      (\<exists>src. (case read_lines kb [] [] k bs of Ready score _ _ _ \<Rightarrow> Some (utf8 score) | _ \<Rightarrow> None) = Some src \<and> crashing available src)"
    using safe(4) [of kb "[]" "[]" k bs]
    by (cases "read_lines kb [] [] k bs")
      (auto simp: celebrare_typed_def read_score_def case_crash celebrare_crashes_iff score_source_def)
  have other: "crashes (piano kb lib k bs) = False" "crashes (organ kb lib available k bs) = False"
    by (simp_all add: piano_def organ_def piano_keys_safe organ_keys_safe)
  have words: "split_whitespace (text_of ''piano'') = [text_of ''piano'']" "split_whitespace (text_of ''organ'') = [text_of ''organ'']"
    by (simp_all add: split_whitespace_def text_of_def is_whitespace_def)
  consider "trim line = text_of ''piano''" | "trim line = text_of ''organ''" | "trim line = text_of ''transcribe''"
    | "trim line = text_of ''celebrare -''"
    | "trim line \<notin> text_of ` set [''piano'', ''organ'', ''transcribe'', ''celebrare -'']" by auto
  then show ?thesis
  proof cases
    case 5
    then show ?thesis
      by (simp add: run_line_def line_source_def case_crash run celebrare_crashes_iff split: list.split)
  qed (simp_all add: run_line_def line_source_def other words tr typed)
qed

lemma edit_ascii:
  assumes "ascii_keys kb" "next_key kb b k = (Some key, k1)" "ascii line"
  shows "ascii (fst (edit_key key line))"
proof -
  obtain ev k0 where "process_keyevent kb ev k0 = (Some key, k1)"
    using assms(2) by (auto simp: next_key_def split: prod.splits option.splits)
  then have key: "key = Unicode c \<Longrightarrow> c < 128" for c using assms(1) by (metis ascii_keys_def fst_conv)
  show ?thesis using assms(3) key
    by (auto simp: edit_key_def ascii_def dest: in_set_butlastD split: decoded_key.splits)
qed

definition celebrates_badly ::
  "'k pc_keyboard \<Rightarrow> libm \<Rightarrow> bool \<Rightarrow> (nat \<Rightarrow> machine_view) \<Rightarrow> nat list \<Rightarrow> 'k \<Rightarrow> 8 word list \<Rightarrow> bool" where
  "celebrates_badly kb lib available view line k bs \<longleftrightarrow>
     (\<exists>src. celebrates kb lib available view line k bs src \<and> crashing available src)"

text \<open>The shell never returns, and it crashes exactly when it celebrates a score that crashes.\<close>

definition ends_well :: "bool \<Rightarrow> ('a, 'k) await \<Rightarrow> bool" where
  "ends_well bad r \<longleftrightarrow> (if bad then crashes r else \<exists>p cs. r = Pending p cs)"

lemma ends_well_calling [simp]: "ends_well bad (calling cs r) = ends_well bad r"
  by (cases r) (auto simp: ends_well_def)

lemma shell_keys_end:
  assumes "ascii_keys kb"
  shows "ascii line \<Longrightarrow> ends_well (celebrates_badly kb lib available view line k bs) (shell_keys kb lib available view line k bs)"
  using assms
proof (induction kb lib available view line k bs rule: shell_keys.induct)
  case (2 kb lib available view line k b bs)
  obtain key k1 where n: "next_key kb b k = (key, k1)" by (metis surj_pair)
  consider "key = None" | c where "key = Some c" "is_enter c" | c where "key = Some c" "\<not> is_enter c" by blast
  then show ?case
  proof cases
    case 1
    then show ?thesis using 2 n by (simp add: shell_keys.simps(2) celebrates_badly_def celebrates_Cons)
  next
    case (2 c)
    have bad: "celebrates_badly kb lib available view line k (b # bs) \<longleftrightarrow>
        crashes (run_line kb lib available view line k1 bs)
        \<or> (\<exists>u k2 bs2 ds. run_line kb lib available view line k1 bs = Ready u k2 bs2 ds
              \<and> celebrates_badly kb lib available view [] k2 bs2)"
      using n 2 by (auto simp: celebrates_badly_def celebrates_Cons run_line_crashes [OF "2.prems"(1)])
    show ?thesis
    proof (cases "run_line kb lib available view line k1 bs")
      case (Pending p ds)
      then show ?thesis using n 2 bad by (simp add: shell_keys.simps(2) ends_well_def)
    next
      case (Ready x k2 bs2 ds)
      from "2.IH"(2) [OF n [symmetric] 2 Ready _ "2.prems"(2)] show ?thesis
        using n 2 Ready bad by (simp add: shell_keys.simps(2) ascii_def)
    next
      case (Crashed ds)
      then show ?thesis using n 2 bad by (simp add: shell_keys.simps(2) ends_well_def)
    qed
  next
    case (3 c)
    have "ascii (fst (edit_key c line))" by (rule edit_ascii [OF "2.prems"(2) n [unfolded 3(1)] "2.prems"(1)])
    from "2.IH"(3) [OF n [symmetric] 3 this "2.prems"(2)] show ?thesis
      using n 3 by (simp add: shell_keys.simps(2) celebrates_badly_def celebrates_Cons)
  qed
qed (simp add: ends_well_def celebrates_badly_def celebrates_Nil)


section \<open>The keys that are held\<close>

fun key_events :: "'k pc_keyboard \<Rightarrow> 'k \<Rightarrow> 8 word list \<Rightarrow> keyboard_event list" where
  "key_events kb k [] = []"
| "key_events kb k (b # bs) =
     (case add_byte kb b k of
        (None, k) \<Rightarrow> key_events kb k bs
      | (Some ev, k) \<Rightarrow> ev # key_events kb k bs)"

text \<open>The note keys that are down, of which the card takes no more than eight.\<close>

definition hold :: "keyboard_event \<Rightarrow> key_code set \<Rightarrow> key_code set" where
  "hold ev S =
     (case ev_state ev of
        Down \<Rightarrow> if key_midi (ev_code ev) \<noteq> None \<and> card S < 8 then insert (ev_code ev) S else S
      | Up \<Rightarrow> S - {ev_code ev}
      | Single_shot \<Rightarrow> S)"

definition pitches :: "keyboard_event list \<Rightarrow> 8 word set" where
  "pitches evs = {p. \<exists>ev \<in> set evs. key_midi (ev_code ev) = Some p}"

definition frequencies :: "libm \<Rightarrow> key_code set \<Rightarrow> 32 word set" where
  "frequencies lib S = {f. \<exists>c \<in> S. key_note_freq lib c = Some f}"

lemma key_midi_inj: "key_midi c = Some p \<Longrightarrow> key_midi d = Some p \<Longrightarrow> c = d"
  by (cases c; cases d) auto

text \<open>Keys whose notes are kept apart, as the set they are held in is followed by the card.\<close>

definition apart :: "libm \<Rightarrow> 8 word set \<Rightarrow> key_code set \<Rightarrow> bool" where
  "apart lib P S \<longleftrightarrow> finite S \<and> (\<forall>c \<in> S. \<exists>p \<in> P. key_midi c = Some p)"

lemma freq_inj:
  assumes "tuned lib P" "p \<in> P" "q \<in> P" "key_midi c = Some p" "key_midi d = Some q"
    and "key_note_freq lib c = Some f" "key_note_freq lib d = Some f"
  shows "c = d"
  using assms key_midi_inj by (auto simp: tuned_def key_note_freq_def dest: inj_onD)

lemma frequencies_card:
  assumes "tuned lib P" "apart lib P S"
  shows "card (frequencies lib S) = card S"
proof -
  define f where "f c = pitch_hz lib (the (key_midi c))" for c
  have key: "\<exists>p \<in> P. key_midi c = Some p \<and> key_note_freq lib c = Some (f c)" if "c \<in> S" for c
    using assms(2) that unfolding apart_def key_note_freq_def f_def by fastforce
  have "c = d" if cd: "c \<in> S" "d \<in> S" "f c = f d" for c d
  proof -
    obtain p q where "p \<in> P" "key_midi c = Some p" "key_note_freq lib c = Some (f c)"
      "q \<in> P" "key_midi d = Some q" "key_note_freq lib d = Some (f c)" using key cd by metis
    then show ?thesis using freq_inj [OF assms(1)] by blast
  qed
  then have "inj_on f S" by (intro inj_onI)
  moreover have "frequencies lib S = f ` S"
    unfolding frequencies_def using key by (auto; fastforce)
  ultimately show ?thesis by (simp add: card_image)
qed

lemma hold_card: "card S \<le> 8 \<Longrightarrow> card (hold ev S) \<le> 8"
proof (cases "ev_state ev")
  case Down
  assume "card S \<le> 8"
  moreover have "card (insert (ev_code ev) S) \<le> Suc (card S)" by (cases "finite S") (simp_all add: card_insert_if)
  ultimately show ?thesis using Down by (simp add: hold_def)
next
  case Up
  assume "card S \<le> 8"
  then show ?thesis using Up order_trans [OF card_Diff1_le] by (simp add: hold_def)
qed (simp add: hold_def)

lemma hold_apart:
  assumes "apart lib P S" "pitches [ev] \<subseteq> P"
  shows "apart lib P (hold ev S)"
  using assms by (auto simp: apart_def hold_def pitches_def split: key_state.split)

text \<open>What \<open>organ_keys\<close> calls for one event other than escape.\<close>

definition organ_event :: "libm \<Rightarrow> keyboard_event \<Rightarrow> kcall list" where
  "organ_event lib ev =
     (case key_note_freq lib (ev_code ev) of
        None \<Rightarrow> []
      | Some freq \<Rightarrow>
          (case ev_state ev of Down \<Rightarrow> [K_note_on freq] | Up \<Rightarrow> [K_note_off freq] | Single_shot \<Rightarrow> []))"

lemma organ_keys_events:
  "organ_keys kb lib k bs = Pending In_organ cs \<Longrightarrow> cs = concat (map (organ_event lib) (key_events kb k bs))"
proof (induction kb lib k bs arbitrary: cs rule: organ_keys.induct)
  case (2 kb lib k b bs)
  obtain e k1 where add: "add_byte kb b k = (e, k1)" by (metis surj_pair)
  show ?case
  proof (cases e)
    case None
    then show ?thesis using 2 add by simp
  next
    case (Some ev)
    have "\<exists>ds. organ_keys kb lib k1 bs = Pending In_organ ds \<and> cs = organ_event lib ev @ ds"
      using "2.prems" add Some
      by (cases "ev_state ev") (auto simp: awaits organ_event_def split: option.splits if_splits)
    then obtain ds where ds: "organ_keys kb lib k1 bs = Pending In_organ ds" "cs = organ_event lib ev @ ds" by blast
    have "ds = concat (map (organ_event lib) (key_events kb k1 bs))"
    proof (cases "ev_state ev")
      case Down
      then have "ev_code ev \<noteq> Escape" using "2.prems" add Some by auto
      then show ?thesis using 2(2,3) [OF add [symmetric] Some Down _ _ ds(1)] by (cases "key_note_freq lib (ev_code ev)") auto
    next
      case Up
      then show ?thesis using 2(4,5) [OF add [symmetric] Some Up _ ds(1)] by (cases "key_note_freq lib (ev_code ev)") auto
    next
      case Single_shot
      from 2(6) [OF add [symmetric] Some Single_shot ds(1)] show ?thesis .
    qed
    then show ?thesis using ds(2) add Some by simp
  qed
qed simp

lemma hold_heard:
  assumes "tuned lib P" "apart lib P S" "pitches [ev] \<subseteq> P"
  shows "fold organ_spec (card_events (organ_event lib ev)) (frequencies lib S) = frequencies lib (hold ev S)"
proof (cases "key_midi (ev_code ev)")
  case None
  then have "ev_code ev \<notin> S" using assms(2) by (auto simp: apart_def)
  then show ?thesis using None by (simp add: organ_event_def key_note_freq_def hold_def split: key_state.split)
next
  case (Some p)
  let ?f = "pitch_hz lib p"
  have p: "p \<in> P" using assms(3) Some by (auto simp: pitches_def)
  have f: "key_note_freq lib (ev_code ev) = Some ?f" by (simp add: key_note_freq_def Some)
  show ?thesis
  proof (cases "ev_state ev")
    case Down
    have "frequencies lib (insert (ev_code ev) S) = insert ?f (frequencies lib S)" using f by (auto simp: frequencies_def)
    then show ?thesis using Down f Some frequencies_card [OF assms(1,2)] by (simp add: organ_event_def hold_def)
  next
    case Up
    have "c = ev_code ev" if "c \<in> S" "key_note_freq lib c = Some ?f" for c
    proof -
      obtain q where "q \<in> P" "key_midi c = Some q" using assms(2) \<open>c \<in> S\<close> by (auto simp: apart_def)
      then show ?thesis using freq_inj [OF assms(1) _ p _ Some _ f, of q c] that(2) by blast
    qed
    then have "frequencies lib (S - {ev_code ev}) = frequencies lib S - {?f}" using f by (auto simp: frequencies_def)
    then show ?thesis using Up f by (simp add: organ_event_def hold_def)
  next
    case Single_shot
    then show ?thesis using f by (simp add: organ_event_def hold_def)
  qed
qed

lemma holds_heard:
  assumes "tuned lib P" "apart lib P S" "pitches evs \<subseteq> P"
  shows "fold organ_spec (card_events (concat (map (organ_event lib) evs))) (frequencies lib S) = frequencies lib (fold hold evs S)"
  using assms(2,3)
proof (induction evs arbitrary: S)
  case (Cons ev evs)
  have ps: "pitches [ev] \<subseteq> P" "pitches evs \<subseteq> P" using Cons.prems(2) by (auto simp: pitches_def)
  show ?case
    using Cons.IH [OF hold_apart [OF Cons.prems(1) ps(1)] ps(2)] hold_heard [OF assms(1) Cons.prems(1) ps(1)] by simp
qed simp

lemma organ_below:
  assumes "tuned lib (pitches evs)" "ke \<in> set (card_events (concat (map (organ_event lib) evs)))" "key_note ke = Some f"
  shows "f < 48000"
proof -
  obtain ev where "ev \<in> set evs" "ke \<in> set (card_events (organ_event lib ev))"
    using assms(2) by (auto simp: card_events_def)
  then obtain p where "p \<in> pitches evs" "ke = Press (pitch_hz lib p) \<or> ke = Release (pitch_hz lib p)"
    by (auto simp: organ_event_def key_note_freq_def pitches_def split: option.splits key_state.splits)
  then show ?thesis using assms(1,3) by (auto simp: tuned_def)
qed

section \<open>Properties\<close>

text \<open>C11: nothing sounds at the prompt: whatever was typed and played before, when the shell waits for a
  key of a command line, the speaker is off and no voice of the card is on, if that was so when it started.\<close>

theorem prompt_is_silent:
  assumes "shell kb lib available view k bs = Pending (At_prompt line) cs" "silent devices"
  shows "silent (fold device_call cs devices)"
proof -
  obtain ds where "shell_keys kb lib available view [] k bs = Pending (At_prompt line) ds" "cs = K_print (text_of ''> '') # ds"
    using assms(1) by (auto simp: shell_def awaits)
  then have "leaves_silent cs" using shell_keys_silent by (auto intro!: silent_Cons)
  then show ?thesis using assms(2) unfolding leaves_silent_def by blast
qed

text \<open>C14: the shell goes on: on a keyboard of ASCII characters it never returns, and whatever is typed it ends
  up waiting for a key, except in one case, in which it always crashes: a score that it is told to celebrate in
  the session (by name, by typing it, or by playing it) parses to a program on which the checker never returns, or to
  one that the checker passes, with more than 254 verses, and there is a card to play it.\<close>

theorem shell_goes_on:
  assumes "ascii_keys kb"
  shows "if \<exists>src prog. celebrates kb lib available view [] k bs src \<and> parse src = (Inr prog :: diss exn + program)
       \<and> (check_program prog = (None :: (diss exn + unit) option)
          \<or> check_program prog = Some (Inr () :: diss exn + unit) \<and> available \<and> 254 < length (prog_verses prog))
     then \<exists>cs. shell kb lib available view k bs = Crashed cs
     else \<exists>place cs. shell kb lib available view k bs = Pending place cs"
proof -
  have "ascii []" by (simp add: ascii_def)
  from shell_keys_end [OF assms this, of lib available view k bs]
  have "ends_well (celebrates_badly kb lib available view [] k bs) (shell kb lib available view k bs)"
    by (simp add: shell_def)
  moreover have "celebrates_badly kb lib available view [] k bs \<longleftrightarrow>
      (\<exists>src prog. celebrates kb lib available view [] k bs src \<and> parse src = (Inr prog :: diss exn + program)
       \<and> (check_program prog = (None :: (diss exn + unit) option)
          \<or> check_program prog = Some (Inr () :: diss exn + unit) \<and> available \<and> 254 < length (prog_verses prog)))"
    unfolding celebrates_badly_def crashing_def by blast
  ultimately show ?thesis unfolding ends_well_def crashes_def by argo
qed

text \<open>C15: the organ sounds the keys that are held: while it is played, on frequencies that keep the keys apart,
  the voices of the card are those of the note keys that are down, at most eight of them.\<close>

theorem organ_sounds_held_keys:
  assumes "organ kb lib True k bs = Pending In_organ cs" "tuned lib (pitches (key_events kb k bs))"
    and "ac_voices ac = replicate MAX_VOICES None"
  shows "\<exists>ac'. fold play_key (card_events cs) (Some ac) = Some ac'
    \<and> sounding ac' = frequencies lib (fold hold (key_events kb k bs) {}) \<and> card (fold hold (key_events kb k bs) {}) \<le> 8"
proof -
  let ?evs = "key_events kb k bs"
  obtain ds where ds: "organ_keys kb lib k bs = Pending In_organ ds" "card_events cs = card_events ds"
    using assms(1) by (auto simp: organ_def awaits println_def)
  have evs: "card_events cs = card_events (concat (map (organ_event lib) ?evs))"
    using organ_keys_events [OF ds(1)] ds(2) by simp
  have "\<forall>ke \<in> set (card_events cs). \<forall>f. key_note ke = Some f \<longrightarrow> f < 48000"
    unfolding evs using organ_below [OF assms(2)] by blast
  from silent_card [OF assms(3) this] obtain ac' where
    ac': "fold play_key (card_events cs) (Some ac) = Some ac'" "sounding ac' = fold organ_spec (card_events cs) {}" by blast
  have none: "frequencies lib {} = {}" "apart lib (pitches ?evs) {}" by (simp_all add: frequencies_def apart_def)
  have "card S \<le> 8 \<Longrightarrow> card (fold hold evs S) \<le> 8" for evs S by (induction evs arbitrary: S) (auto simp: hold_card)
  then have "card (fold hold ?evs {}) \<le> 8" by simp
  then show ?thesis using ac' holds_heard [OF assms(2) none(2) order_refl] unfolding none evs by auto
qed


section \<open>Witnesses\<close>

text \<open>A decoder: a byte below 128 is that character, and some others are keys of the organ.\<close>

definition sample_event :: "8 word \<Rightarrow> keyboard_event option" where
  "sample_event b =
     (if b < 128 then Some \<lparr>ev_code = Other_key (unat b), ev_state = Down\<rparr>
      else if b = 200 then Some \<lparr>ev_code = Key_S, ev_state = Down\<rparr>
      else if b = 201 then Some \<lparr>ev_code = Key_S, ev_state = Up\<rparr>
      else if b = 202 then Some \<lparr>ev_code = Key_H, ev_state = Down\<rparr>
      else None)"

definition sample_kb :: "unit pc_keyboard" where
  "sample_kb =
     \<lparr>add_byte = (\<lambda>b k. (sample_event b, k)),
      process_keyevent = (\<lambda>ev k. (case ev_code ev of
         Other_key n \<Rightarrow> if n < 128 then Some (Unicode n) else None | _ \<Rightarrow> None, k))\<rparr>"

definition sample_view :: "nat \<Rightarrow> machine_view" where
  "sample_view n = \<lparr>mv_ticks = of_nat n, mv_used = 0, mv_free = 0\<rparr>"

lemma next_sample [simp]:
  "b < 128 \<Longrightarrow> next_key sample_kb b k = (Some (Unicode (unat b)), k)"
  by (simp add: next_key_def sample_kb_def sample_event_def word_less_nat_alt)

text \<open>\<open>beep\<close>, enter, then \<open>ab\<close> and a backspace.\<close>

lemma sample_run:
  "\<exists>before. shell sample_kb linear_libm True sample_view () [98, 101, 101, 112, 10, 97, 98, 8] = Pending (At_prompt [97])
     (before @ [K_start_tone 440, K_sleep 300, K_stop_tone, K_print (text_of ''> ''), K_print [97], K_print [98], K_print [8]])"
  by (simp add: shell_def shell_keys.simps(2) is_enter_def edit_key_def is_control_def run_line_def trim_def trim_start_def
      is_whitespace_def text_of_def execute_def split_whitespace_def beep_def arg_or_def)

theorem prompt_is_silent_witness:
  "\<exists>cs. shell sample_kb linear_libm True sample_view () [98, 101, 101, 112, 10, 97, 98, 8] = Pending (At_prompt [97]) cs
     \<and> K_start_tone 440 \<in> set cs \<and> silent (fold device_call cs (None, Some fresh_ac97))"
proof -
  obtain before where run: "shell sample_kb linear_libm True sample_view () [98, 101, 101, 112, 10, 97, 98, 8] = Pending (At_prompt [97])
     (before @ [K_start_tone 440, K_sleep 300, K_stop_tone, K_print (text_of ''> ''), K_print [97], K_print [98], K_print [8]])"
    using sample_run by blast
  have "silent (None, Some fresh_ac97)" by (simp add: silent_def fresh_ac97_def)
  from prompt_is_silent [OF run this] run show ?thesis by auto
qed

lemma sample_ascii: "ascii_keys sample_kb"
  by (auto simp: ascii_keys_def sample_kb_def split: key_code.splits if_splits)

text \<open>\<open>play c4\<close> and enter: nothing is celebrated, and the shell goes on.\<close>

theorem shell_goes_on_witness:
  "\<exists>place cs. shell sample_kb linear_libm True sample_view () [112, 108, 97, 121, 32, 99, 52, 10] = Pending place cs"
proof -
  have line: "edit_key (Unicode c) line = (line @ [c], [K_print [c]])" if "32 \<le> c" "c < 127" for c line
    using that by (simp add: edit_key_def is_control_def)
  have last: "bs = []" if "run_line sample_kb linear_libm True sample_view line () [] = Ready () () bs cs" for line bs cs
    using run_line_reads [of "[]" sample_kb linear_libm True sample_view line "()"] that by simp
  have "\<not> celebrates sample_kb linear_libm True sample_view [] () [112, 108, 97, 121, 32, 99, 52, 10] src" for src
    by (simp add: celebrates_Cons celebrates_Nil is_enter_def line line_source_def trim_def trim_start_def
        is_whitespace_def text_of_def split_whitespace_def) (auto dest: last simp: celebrates_Nil)
  with shell_goes_on [OF sample_ascii, of linear_libm True sample_view "()" "[112, 108, 97, 121, 32, 99, 52, 10]"]
  show ?thesis by simp
qed

theorem organ_sounds_held_keys_witness:
  "\<exists>cs ac'. organ sample_kb linear_libm True () [200, 202, 201] = Pending In_organ cs
     \<and> fold play_key (card_events cs) (Some fresh_ac97) = Some ac' \<and> sounding ac' = {pitch_hz linear_libm 69}"
proof -
  let ?evs = "[\<lparr>ev_code = Key_S, ev_state = Down\<rparr>, \<lparr>ev_code = Key_H, ev_state = Down\<rparr>, \<lparr>ev_code = Key_S, ev_state = Up\<rparr>]"
  have evs: "key_events sample_kb () [200, 202, 201] = ?evs" by (simp add: sample_kb_def sample_event_def)
  have "pitches ?evs = {62, 69}" by (auto simp: pitches_def)
  moreover have "tuned linear_libm {62, 69}" using linear_pitches by (simp add: tuned_def)
  ultimately have tuned: "tuned linear_libm (pitches (key_events sample_kb () [200, 202, 201]))" unfolding evs by metis
  obtain cs where cs: "organ sample_kb linear_libm True () [200, 202, 201] = Pending In_organ cs"
    by (simp add: organ_def sample_kb_def sample_event_def key_note_freq_def)
  have "fold hold ?evs {} = {Key_H}" by (auto simp: hold_def)
  then have "frequencies linear_libm (fold hold (key_events sample_kb () [200, 202, 201]) {}) = {pitch_hz linear_libm 69}"
    unfolding evs by (auto simp: frequencies_def key_note_freq_def)
  moreover have "ac_voices fresh_ac97 = replicate MAX_VOICES None" by (simp add: fresh_ac97_def)
  ultimately show ?thesis using organ_sounds_held_keys [OF cs tuned] cs by metis
qed

end
