(* ===== verification/Messages.thy ===== *)
theory Messages
  imports Shell
begin

text \<open>
  What is on the screen: the text of every message that the kernel's driver prints (\<open>celebrare.rs\<close>, and the \<open>Debug\<close> of
  \<open>Dissonance\<close> in \<open>types.rs\<close>), and the console after the calls of the shell.

  The strings of the interpreter are bytes; printing decodes them into code points. How the standard library prints a
  number of type \<open>f64\<close> and the derived \<open>Debug\<close> of a value are parameters.
\<close>

section \<open>Texts\<close>

record printer =
  show_f64 :: "f64 \<Rightarrow> nat list"
  show_val :: "val \<Rightarrow> nat list"

text \<open>The characters of a valid UTF-8 string.\<close>

fun utf8_chars :: "nat list \<Rightarrow> nat list" where
  "utf8_chars [] = []"
| "utf8_chars (a # s) =
     (if a < 0x80 then a # utf8_chars s
      else (case s of
          [] \<Rightarrow> []
        | b # s \<Rightarrow>
            if a < 0xE0 then (a mod 32 * 64 + b mod 64) # utf8_chars s
            else (case s of
                [] \<Rightarrow> []
              | c # s \<Rightarrow>
                  if a < 0xF0 then (a mod 16 * 4096 + b mod 64 * 64 + c mod 64) # utf8_chars s
                  else (case s of
                      [] \<Rightarrow> []
                    | d # s \<Rightarrow> (a mod 8 * 262144 + b mod 64 * 4096 + c mod 64 * 64 + d mod 64) # utf8_chars s))))"

definition chars :: "string \<Rightarrow> nat list" where
  "chars s = utf8_chars (map of_char s)"

definition em_dash :: "nat list" where
  "em_dash = [0x2014]"

definition show_num :: "nat \<Rightarrow> nat list" where
  "show_num n = text_of (show_nat n)"

definition debug_option :: "printer \<Rightarrow> val option \<Rightarrow> nat list" where
  "debug_option pr v = (case v of None \<Rightarrow> text_of ''None'' | Some x \<Rightarrow> text_of ''Some('' @ show_val pr x @ text_of '')'')"

fun debug_dissonance :: "printer \<Rightarrow> 'k dissonance \<Rightarrow> nat list" where
  "debug_dissonance pr (D_WrongMode m opk) =
     text_of (''WrongMode { mode: '' @ mode_name m @ '', op: '' @ op_name opk @ '' }'')"
| "debug_dissonance pr (D_Unresolved name genus) =
     text_of ''Unresolved { name: '' @ chars name @ text_of '', genus: '' @ chars genus @ text_of '' }''"
| "debug_dissonance pr D_Silent = text_of ''Silent''"
| "debug_dissonance pr (D_User v) = text_of ''User('' @ show_val pr v @ text_of '')''"
| "debug_dissonance pr (D_Dissonant want got) =
     text_of ''Dissonant { want: '' @ chars want @ text_of '', got: '' @ chars got @ text_of '' }''"
| "debug_dissonance pr D_Premature = text_of ''Premature''"
| "debug_dissonance pr D_Unconsecrated = text_of ''Unconsecrated''"
| "debug_dissonance pr (D_UnboundVar name) = text_of ''UnboundVar { name: '' @ chars name @ text_of '' }''"
| "debug_dissonance pr (D_Discors versus msg) =
     text_of ''Discors { versus: '' @ chars versus @ text_of '', msg: '' @ chars msg @ text_of '' }''"
| "debug_dissonance pr (D_OutOfFuel k) = text_of ''OutOfFuel(<continuation>)''"
| "debug_dissonance pr (D_Parse line msg) =
     text_of ''Parse { line: '' @ show_num line @ text_of '', msg: '' @ chars msg @ text_of '' }''"

fun loud :: "printer \<Rightarrow> 'k dissonance \<Rightarrow> nat list list" where
  "loud pr D_Premature =
     [text_of ''!!! DISSONANTIA: PREMATURE COMMIT '' @ em_dash @ text_of '' the field is not yet computed.'',
      text_of ''!!! Singing mode VII too early would tear the Earth apart. Refused.'']"
| "loud pr D_Unconsecrated =
     [text_of ''!!! DISSONANTIA: UNCONSECRATED COMMIT '' @ em_dash @ text_of '' that value is no Plan. Refused.'']"
| "loud pr (D_Parse line msg) =
     [text_of ''dissonantia (parse, line '' @ show_num line @ text_of ''): '' @ chars msg]"
| "loud pr (D_Discors versus msg) =
     [text_of ''!!! DISSONANTIA DISCORS in versus '' @ chars versus @ text_of '': '' @ chars msg,
      text_of ''!!! The rhyme does not unify; the score is refused unsung.'']"
| "loud pr other = [text_of ''dissonantia: '' @ debug_dissonance pr other]"

text \<open>
  The lines of a message of the kernel. It says \<open>S_Cadenced\<close> of \<open>correctio\<close> only in \<open>celebrate_body\<close>, whose words differ. The host's
  own messages have no line here.
\<close>

fun said_lines :: "printer \<Rightarrow> said \<Rightarrow> nat list list" where
  "said_lines pr (S_Gravitas target dv at_us) =
     [text_of ''GRAVITAS  target='' @ show_num (unat target) @ text_of ''  dv.x='' @ show_f64 pr dv
        @ text_of ''  at='' @ show_num (unat at_us) @ text_of ''us'']"
| "said_lines pr (S_Corpus label) = [text_of ''--- corpus: '' @ chars label]"
| "said_lines pr (S_Cadenced name v) =
     (if name = ''correctio'' then [text_of ''correctio cadenced with '' @ debug_option pr v]
      else [chars name @ text_of '' cadenced: '' @ debug_option pr v])"
| "said_lines pr S_Nihil = [text_of ''nihil '' @ em_dash @ text_of '' the body is already safe; no correction'']"
| "said_lines pr (S_Pure n) = [text_of ''consilium: a Plan of '' @ show_num n @ text_of '' command(s), still pure'']"
| "said_lines pr (S_Numquam name n) =
     [text_of ''versus '' @ chars name @ text_of '' numquam cadenzat ('' @ show_num n @ text_of '' steps) '' @ em_dash
        @ text_of '' abandoned, system intact'']"
| "said_lines pr (S_Loud d) = loud pr d"
| "said_lines pr (S_Text s) = [chars s]"
| "said_lines pr (S_Unknown_score name) =
     [text_of ''unknown score '' @ [39] @ chars name @ [39]
        @ text_of ''; try: celebrare meteor | celebrare cantus | celebrare -'']"
| "said_lines pr (S_Score fugues verses singers) =
     [text_of ''officium: '' @ show_num fugues @ text_of '' fugue(s), '' @ show_num verses @ text_of '' verse(s), ''
        @ show_num singers @ text_of '' voice(s)'']"
| "said_lines pr (S_Versus name) = [text_of ''versus '' @ chars name @ text_of '':'']"
| "said_lines pr (S_Sung label txt) = [text_of ''  '' @ chars [label] @ text_of ''  '' @ chars txt]"
| "said_lines pr S_No_verses = [text_of ''the score has no verses; only the fugue sounds'']"
| "said_lines pr _ = []"

section \<open>The console after the calls\<close>

text \<open>What a call prints; the userspace command prints what its process and \<open>usermode::run\<close> say.\<close>

definition lines_text :: "nat list list \<Rightarrow> nat list" where
  "lines_text ls = concat (map line_of ls)"

fun call_text :: "printer \<Rightarrow> said list \<Rightarrow> kcall \<Rightarrow> nat list" where
  "call_text pr layman (K_say s) = lines_text (said_lines pr s)"
| "call_text pr layman (K_print t) = t"
| "call_text pr layman K_userspace = lines_text (concat (map (said_lines pr) layman))"
| "call_text pr layman _ = []"

fun show_calls :: "font \<Rightarrow> printer \<Rightarrow> said list \<Rightarrow> kcall list \<Rightarrow> console \<Rightarrow> console option" where
  "show_calls font pr layman [] c = Some c"
| "show_calls font pr layman (kc # cs) c =
     (case (if kc = K_clear then Some (clear c) else write_str font (call_text pr layman kc) c) of
        None \<Rightarrow> None
      | Some c \<Rightarrow> show_calls font pr layman cs c)"

text \<open>The same, on a screen of text.\<close>

definition screen_call :: "font \<Rightarrow> printer \<Rightarrow> said list \<Rightarrow> kcall \<Rightarrow> screen \<Rightarrow> screen" where
  "screen_call font pr layman kc s =
     (if kc = K_clear then blank_screen (sc_width s) (sc_height s)
      else fold (screen_put font) (call_text pr layman kc) s)"

lemma clear_blank: "displays c s \<Longrightarrow> displays (clear c) (blank_screen (sc_width s) (sc_height s))"
  using clear_displays [of c] by (simp add: displays_def)

lemma calls_displayed:
  "displays c s \<Longrightarrow> font_ok font \<Longrightarrow>
   \<exists>c'. show_calls font pr layman cs c = Some c' \<and> displays c' (fold (screen_call font pr layman) cs s)"
proof (induction cs arbitrary: c s)
  case (Cons kc cs)
  have "\<exists>c1. (if kc = K_clear then Some (clear c) else write_str font (call_text pr layman kc) c) = Some c1
      \<and> displays c1 (screen_call font pr layman kc s)"
    using clear_blank [OF Cons.prems(1)] write_str_displays [OF Cons.prems, of "call_text pr layman kc"]
    by (auto simp: screen_call_def)
  then show ?case using Cons.IH [OF _ Cons.prems(2)] by auto
qed simp

lemma chars_ascii: "list_all (\<lambda>c. of_char c < (0x80 :: nat)) s \<Longrightarrow> chars s = text_of s"
  by (induction s) (auto simp: chars_def text_of_def)

text \<open>Decoding undoes encoding.\<close>

lemma utf8_chars_char:
  assumes "c < 0x110000"
  shows "utf8_chars (utf8_char c @ s) = c # utf8_chars s"
proof -
  have d: "c div 4096 = c div 64 div 64" "c div 262144 = c div 64 div 64 div 64"
    by (simp_all add: div_mult2_eq [symmetric])
  have split64: "n div 64 * 64 + n mod 64 = n" for n :: nat by simp
  have lead: "(0xC0 + m) mod 32 = m" if "m < 32" for m :: nat using that by (subst mod_add_left_eq [symmetric]) simp
  have lead3: "(0xE0 + m) mod 16 = m" if "m < 16" for m :: nat using that by (subst mod_add_left_eq [symmetric]) simp
  have lead4: "(0xF0 + m) mod 8 = m" if "m < 8" for m :: nat using that by (subst mod_add_left_eq [symmetric]) simp
  have tail: "(0x80 + m mod 64) mod 64 = m mod 64" for m :: nat by (subst mod_add_left_eq [symmetric]) simp
  consider "c < 0x80" | "0x80 \<le> c" "c < 0x800" | "0x800 \<le> c" "c < 0x10000" | "0x10000 \<le> c" by linarith
  then show ?thesis
  proof cases
    case 1
    then show ?thesis by (simp add: utf8_char_def)
  next
    case 2
    then have "c div 64 < 32" by (simp add: less_mult_imp_div_less)
    then show ?thesis using 2 by (simp add: utf8_char_def lead tail split64)
  next
    case 3
    then have m: "c div 64 div 64 < 16" unfolding d(1) [symmetric] by (simp add: less_mult_imp_div_less)
    have "c div 64 div 64 * 4096 + c div 64 mod 64 * 64 + c mod 64 = c"
      using split64 [of "c div 64"] split64 [of c] by linarith
    then show ?thesis using 3 m by (simp add: utf8_char_def d lead3 tail)
  next
    case 4
    then have m: "c div 64 div 64 div 64 < 8" using assms unfolding d(2) [symmetric] by (simp add: less_mult_imp_div_less)
    have "c div 64 div 64 div 64 * 262144 + c div 64 div 64 mod 64 * 4096 + c div 64 mod 64 * 64 + c mod 64 = c"
      using split64 [of "c div 64 div 64"] split64 [of "c div 64"] split64 [of c] by linarith
    then show ?thesis using 4 m by (simp add: utf8_char_def d lead4 tail)
  qed
qed

lemma chars_utf8: "\<forall>c \<in> set s. c < 0x110000 \<Longrightarrow> chars (utf8 s) = s"
proof -
  assume s: "\<forall>c \<in> set s. c < 0x110000"
  have byte: "\<forall>b \<in> set (utf8_char c). b < 256" if "c < 0x110000" for c
    using that by (auto simp: utf8_char_def less_mult_imp_div_less)
  have "map of_char (utf8 s) = concat (map utf8_char s)"
    using s byte unfolding utf8_def map_map comp_def
    by (intro map_idI) (auto simp: of_char_of)
  moreover have "utf8_chars (concat (map utf8_char s)) = s"
    using s by (induction s) (simp_all add: utf8_chars_char)
  ultimately show ?thesis by (simp add: chars_def)
qed

section \<open>A refusal on the screen\<close>

definition parse_error :: "('k dissonance, 'a) result \<Rightarrow> bool" where
  "parse_error r \<longleftrightarrow> (\<forall>e. r = Inl e \<longrightarrow> (\<exists>line msg. e = Raise (D_Parse line msg)))"

lemma parse_error_branches:
  "parse_error x \<Longrightarrow> parse_error y \<Longrightarrow> parse_error (if b then x else y)"
  "parse_error n \<Longrightarrow> (\<And>a. parse_error (f a)) \<Longrightarrow> parse_error (case_option n f o')"
  "parse_error n \<Longrightarrow> (\<And>a l. parse_error (g a l)) \<Longrightarrow> parse_error (case_list n g xs)"
  "(\<And>a b. parse_error (h a b)) \<Longrightarrow> parse_error (case_prod h p)"
  by (simp_all split: option.split list.split prod.split)

lemma parse_error_leaves [simp]: "parse_error (Inr x)" "parse_error (Inl (Raise (D_Parse line msg)))"
  by (simp_all add: parse_error_def)

lemma lex_step_errors: "parse_error (lex_step st)"
  by (cases st rule: lex_step.cases; simp only: lex_step.simps Let_def; (intro parse_error_branches)?; simp)

lemma lex_step_error: "lex_step st = Inl e \<Longrightarrow> \<exists>line msg. e = Raise (D_Parse line msg)"
  using lex_step_errors [of st] by (auto simp: parse_error_def)

lemma lex_from_errors:
  "lex_from (out, line, s) = (Inl e :: ('k dissonance, lexed) result) \<Longrightarrow> \<exists>line msg. e = Raise (D_Parse line msg)"
proof (induction "length s" arbitrary: out line s rule: less_induct)
  case less
  show ?case
  proof (cases s)
    case Nil
    then show ?thesis using less.prems by (simp add: lex_from.simps)
  next
    case (Cons c s1)
    show ?thesis
    proof (cases "lex_step (out, line, s) :: ('k dissonance, lex_state) result")
      case (Inl e1)
      then show ?thesis using less.prems Cons lex_step_error [OF Inl] by (subst (asm) lex_from.simps) simp
    next
      case (Inr st)
      obtain t l r where st: "st = (t, l, r)" by (cases st)
      have "length r < length s" using lex_step_shrinks Inr st Cons by fastforce
      moreover have "lex_from (t, l, r) = (Inl e :: ('k dissonance, lexed) result)"
        using less.prems Cons Inr st by (subst (asm) lex_from.simps) simp
      ultimately show ?thesis using less.hyps by blast
    qed
  qed
qed

lemma parse_errors:
  assumes "parse src = (Inl e :: ('k dissonance, program) result)"
  shows "\<exists>line msg. e = Raise (D_Parse line msg)"
proof (cases "lex src :: ('k dissonance, lexed) result")
  case (Inl e1)
  then show ?thesis using assms lex_from_errors by (auto simp: parse_def lex_def)
next
  case (Inr ts)
  then show ?thesis
    using assms by (cases "program_loop program_default (parser_new ts)") (auto simp: parse_def)
qed

lemma refused_score:
  assumes "score_source name given = Some src"
    and "parse src = Inl (Raise d) \<or> (\<exists>prog. parse src = (Inr prog :: diss exn + program) \<and> check_program prog = Some (Inl (Raise d)))"
  shows "celebrare lib available name given = Some (Inr [K_say (S_Loud d)])"
  using assms by (auto simp: celebrare_def kernel_loud_def said_calls_def kp_say_def kernel_start_def)

lemma score_accepted:
  assumes "parse src = (Inr prog :: diss exn + program)" "check_program prog = Some (Inr () :: diss exn + unit)"
  shows "accepted src prog"
  using assms check_verses_iff [where 'k = continuation, of prog "prog_verses prog"]
  by (simp add: accepted_def check_program_def)

lemma put_keeps_size:
  "sc_width (screen_put font ch s) = sc_width s \<and> sc_height (screen_put font ch s) = sc_height s"
  by (simp add: screen_put_def screen_newline_def screen_draw_def Let_def)

section \<open>Fresh lines\<close>

text \<open>Nothing is ever shown below the cursor's row; a fresh_line line is one whose cursor is at the left of an empty row.\<close>

definition rest_blank :: "screen \<Rightarrow> bool" where
  "rest_blank s \<longleftrightarrow> (\<forall>x y. sc_row s < y \<longrightarrow> sc_grid s x y = blank)"

definition fresh_line :: "screen \<Rightarrow> bool" where
  "fresh_line s \<longleftrightarrow> sc_col s = 0 \<and> (\<forall>x y. sc_row s \<le> y \<longrightarrow> sc_grid s x y = blank)"

lemma fresh_blank [simp]: "fresh_line (blank_screen w h)"
  by (simp add: fresh_line_def blank_screen_def)

lemma fresh_rest: "fresh_line s \<Longrightarrow> rest_blank s"
  by (simp add: fresh_line_def rest_blank_def)

lemma fresh_after: "fresh_line s \<Longrightarrow> blank_after s"
  by (simp add: fresh_line_def blank_after_def)

lemma newline_fresh: "rest_blank s \<Longrightarrow> fresh_line (screen_newline s)"
  by (auto simp: rest_blank_def fresh_line_def screen_newline_def)

lemma draw_rest: "rest_blank s \<Longrightarrow> rest_blank (screen_draw col (sc_row s) g (s\<lparr>sc_col := col'\<rparr>))"
  by (simp add: rest_blank_def screen_draw_def)

lemma rest_col [simp]: "rest_blank (s\<lparr>sc_col := col\<rparr>) = rest_blank s"
  by (simp add: rest_blank_def)

lemma put_rest: "rest_blank s \<Longrightarrow> rest_blank (screen_put font ch s)"
  using newline_fresh [of s] draw_rest [of s] draw_rest [of "screen_newline s"] fresh_rest
  by (auto simp: screen_put_def Let_def)

lemma puts_rest: "rest_blank s \<Longrightarrow> rest_blank (fold (screen_put font) t s)"
  by (induction t arbitrary: s) (simp_all add: put_rest)

lemma line_fresh: "rest_blank s \<Longrightarrow> t \<noteq> [] \<Longrightarrow> last t = 10 \<Longrightarrow> fresh_line (fold (screen_put font) t s)"
  by (cases t rule: rev_cases) (simp_all add: puts_rest newline_fresh screen_put_def)

lemma lines_end: "lines_text ls = [] \<or> last (lines_text ls) = 10"
  by (cases ls rule: rev_cases) (simp_all add: lines_text_def line_of_def)

lemma screen_call_rest: "rest_blank s \<Longrightarrow> rest_blank (screen_call font pr layman kc s)"
  by (simp add: screen_call_def puts_rest fresh_rest)

lemma screen_calls_rest: "rest_blank s \<Longrightarrow> rest_blank (fold (screen_call font pr layman) cs s)"
  by (induction cs arbitrary: s) (simp_all add: screen_call_rest)

lemma screen_call_width: "sc_width (screen_call font pr layman kc s) = sc_width s"
proof -
  have "sc_width (fold (screen_put font) t s) = sc_width s" for t
    by (induction t arbitrary: s) (simp_all add: put_keeps_size)
  then show ?thesis by (simp add: screen_call_def blank_screen_def)
qed

lemma screen_calls_width: "sc_width (fold (screen_call font pr layman) cs s) = sc_width s"
  by (induction cs arbitrary: s) (simp_all add: screen_call_width)

text \<open>Whether calls leave a fresh_line line, when they began on one or did not.\<close>

fun at_start :: "bool \<Rightarrow> kcall list \<Rightarrow> bool" where
  "at_start b [] = b"
| "at_start b (K_print t # cs) = at_start (if t = [] then b else last t = 10) cs"
| "at_start b (K_clear # cs) = at_start True cs"
| "at_start b (kc # cs) = at_start b cs"

lemma at_start_append: "at_start b (cs @ ds) = at_start (at_start b cs) ds"
  by (induction b cs rule: at_start.induct) simp_all

lemma at_start_println [simp]: "at_start b (println t # cs) = at_start True cs"
  by (simp add: println_def line_of_def)

definition settled :: "kcall \<Rightarrow> bool" where
  "settled kc \<longleftrightarrow> (\<forall>t. kc = K_print t \<longrightarrow> t = [] \<or> last t = 10)"

lemma settled_simps [simp]:
  "settled (K_say l)" "settled (K_start_tone f)" "settled K_stop_tone" "settled (K_note_on f)" "settled (K_note_off f)"
  "settled K_all_notes_off" "settled (K_sleep ms)" "settled K_clear" "settled K_userspace" "settled (println t)"
  by (simp_all add: settled_def println_def line_of_def)

lemma settled_fresh:
  assumes "settled kc" "fresh_line s"
  shows "fresh_line (screen_call font pr layman kc s)"
proof -
  have "call_text pr layman kc = [] \<or> last (call_text pr layman kc) = 10"
    using assms(1) lines_end by (cases kc) (auto simp: settled_def)
  then show ?thesis
    using assms(2) line_fresh [OF fresh_rest [OF assms(2)], of "call_text pr layman kc"]
    by (cases "call_text pr layman kc = []") (auto simp: screen_call_def)
qed

lemma at_start_fresh:
  assumes "at_start b cs" "rest_blank s" "b \<longrightarrow> fresh_line s"
  shows "fresh_line (fold (screen_call font pr layman) cs s)"
  using assms
proof (induction b cs arbitrary: s rule: at_start.induct)
  case (2 b t cs)
  have "(if t = [] then b else last t = 10) \<longrightarrow> fresh_line (screen_call font pr layman (K_print t) s)"
    using 2(3,4) line_fresh [of s t font] by (auto simp: screen_call_def)
  then show ?case using 2 screen_call_rest by simp
next
  case (3 b cs)
  then show ?case by (simp add: screen_call_def fresh_rest)
qed (use settled_fresh screen_call_rest in simp_all)

lemma settled_start: "\<forall>c \<in> set cs. settled c \<Longrightarrow> at_start True cs"
  by (induction True cs rule: at_start.induct) (auto simp: settled_def)

lemma settled_end: "\<forall>c \<in> set ds. settled c \<Longrightarrow> at_start b (cs @ println t # ds)"
  by (simp add: at_start_append settled_start)

section \<open>Commands end their line\<close>

lemma piano_keys_settled: "piano_keys kb lib held k bs = Ready x k' bs' cs \<Longrightarrow> \<forall>c \<in> set cs. settled c"
  by (induction kb lib held k bs arbitrary: cs rule: piano_keys.induct)
    (fastforce simp: awaits split: prod.splits option.splits key_state.splits if_splits)+

lemma organ_keys_settled: "organ_keys kb lib k bs = Ready x k' bs' cs \<Longrightarrow> \<forall>c \<in> set cs. settled c"
  by (induction kb lib k bs arbitrary: cs rule: organ_keys.induct)
    (fastforce simp: awaits split: prod.splits option.splits key_state.splits if_splits)+

lemma read_lines_start: "read_lines kb score line k bs = Ready x k' bs' cs \<Longrightarrow> at_start b cs"
  by (induction kb score line k bs arbitrary: cs b rule: read_lines.induct)
    (fastforce simp: awaits at_start_append split: prod.splits option.splits if_splits)+

lemma play_settled: "\<forall>c \<in> set (kernel_play lib events). settled c"
proof -
  have "settled c" if "c \<in> set (kernel_tick lib events t)" for c t
    using that by (auto simp: kernel_tick_eq tick_ons_def tick_offs_def split: if_splits)
  then show ?thesis by (auto simp: kernel_play_def)
qed

lemma celebrare_settled:
  assumes "celebrare_calls lib available name given = Some cs"
  shows "\<forall>c \<in> set cs. settled c"
proof -
  have cel: "celebrare lib available name given = Some (Inr cs)"
    using assms by (auto simp: celebrare_calls_def split: option.splits sum.splits)
  consider "score_source name given = None"
    | src prog where "score_source name given = Some src" "accepted src prog"
    | src where "score_source name given = Some src" "\<nexists>prog. accepted src prog" by (cases "score_source name given") blast+
  then show ?thesis
  proof cases
    case 1
    then show ?thesis using cel by (auto simp: celebrare_def)
  next
    case 2
    have "sing lib available prog = Inr cs" using celebrare_accepted [OF 2, of lib available] cel by simp
    then obtain k :: kernel_platform and played where "read_back lib available prog = Inr played"
      "cs = map K_say (score_line prog # sung_poems prog) @ played @ map K_say (kp_said k)"
      by (rule sing_calls) (rule that)
    then show ?thesis using play_settled by (auto simp: read_back_eq split: if_splits)
  next
    case 3
    from celebrare_refused [OF this cel] show ?thesis by auto
  qed
qed

lemma phrase_settled: "celebrate_phrase lib available played = Some cs \<Longrightarrow> at_start True cs"
  using settled_start [OF celebrare_settled]
  by (auto simp: celebrate_phrase_def split: sum.splits exn.splits dissonance.splits)

lemma play_tokens_settled: "play_tokens ts = Some cs \<Longrightarrow> \<forall>c \<in> set cs. settled c"
  by (induction ts arbitrary: cs rule: play_tokens.induct) (fastforce split: option.splits prod.splits)+

lemma execute_settled: "execute lib available view line = Some cs \<Longrightarrow> \<forall>c \<in> set cs. settled c"
  by (auto simp: execute_def beep_def dest: play_tokens_settled celebrare_settled
      simp del: play_tokens.simps split: list.splits if_splits)

lemma quiet_settled [simp]: "\<forall>c \<in> set (quiet poly). settled c"
  by (simp add: quiet_def)

lemma session_start:
  assumes "transcribe_session kb lib available k bs = Ready x k' bs' cs"
  shows "at_start True cs"
proof -
  obtain played k1 bs1 cs1 cs2 where
    1: "transcribe_keys kb lib available [] k bs = Ready played k1 bs1 cs1" and
    2: "(case played of None \<Rightarrow> Ready () k1 bs1 []
      | Some played \<Rightarrow> calling (quiet available @ [println []])
          (case celebrate_phrase lib available played of None \<Rightarrow> Crashed [] | Some cs \<Rightarrow> Ready () k1 bs1 cs))
      = Ready x k' bs' cs2" and
    cs: "\<exists>ps. cs = ps @ cs1 @ cs2"
    using assms unfolding transcribe_session_def awaits by fastforce
  have "at_start b (cs1 @ cs2)" for b
  proof (cases played)
    case None
    then show ?thesis using 2 transcribe_keys_abandoned [of kb lib available "[]" k bs k1 bs1 cs1] 1
      by (auto simp: at_start_append)
  next
    case (Some p)
    then obtain ds where "celebrate_phrase lib available p = Some ds" "cs2 = quiet available @ println [] # ds"
      using 2 by (auto simp: awaits split: option.splits)
    then show ?thesis by (simp add: at_start_append phrase_settled)
  qed
  then show ?thesis using cs by (auto simp: at_start_append)
qed

lemma run_line_start:
  assumes "run_line kb lib available view line k bs = Ready x k' bs' cs"
  shows "at_start True cs"
proof -
  have piano: "at_start True cs" if ready: "piano kb lib k bs = Ready x k' bs' cs"
    using ready settled_start [OF piano_keys_settled] by (auto simp: piano_def awaits)
  have organ: "at_start True cs" if ready: "organ kb lib available k bs = Ready x k' bs' cs"
    using ready settled_start [OF organ_keys_settled] by (auto simp: organ_def awaits split: if_splits)
  have given: "at_start True cs" if ready: "celebrare_typed kb lib available k bs = Ready x k' bs' cs"
  proof -
    obtain score k1 bs1 ds es where ds: "read_lines kb [] [] k bs = Ready score k1 bs1 ds"
      "celebrare_calls lib available ''-'' (Some (utf8 score)) = Some es" "\<exists>ps. cs = ps @ ds @ es"
      using ready by (fastforce simp: celebrare_typed_def read_score_def awaits split: option.splits)
    then show ?thesis using read_lines_start [OF ds(1)] settled_start [OF celebrare_settled [OF ds(2)]]
      by (auto simp: at_start_append)
  qed
  show ?thesis
    using assms piano organ given session_start settled_start [OF execute_settled]
    by (auto simp: run_line_def split: if_splits option.splits)
qed

section \<open>The line on the screen\<close>

definition printed :: "kcall list \<Rightarrow> nat list" where
  "printed cs = concat (map (\<lambda>c. case c of K_print s \<Rightarrow> s | _ \<Rightarrow> []) cs)"

lemma printed_simps [simp]:
  "printed [] = []" "printed (a @ b) = printed a @ printed b" "printed (K_print s # cs) = s @ printed cs"
  by (simp_all add: printed_def)

text \<open>Calls that edit an empty line into this one.\<close>

inductive edits :: "kcall list \<Rightarrow> nat list \<Rightarrow> bool" where
  edits_start: "edits [] []"
| edits_key: "edits es line \<Longrightarrow> \<not> is_enter key \<Longrightarrow> edit_key key line = (line', echo) \<Longrightarrow> edits (es @ echo) line'"

lemma edit_key_cases:
  assumes "edit_key key line = (line', echo)"
  obtains (same) "line' = line" "echo = []"
    | (typed_char) c where "\<not> is_control c" "line' = line @ [c]" "echo = [K_print [c]]"
    | (erased) c where "line = line' @ [c]" "echo = [K_print [8]]"
proof (cases key)
  case (Unicode c)
  consider "c = 8 \<or> c = 127" "line \<noteq> []" | "\<not> (c = 8 \<or> c = 127)" "\<not> is_control c" | "line' = line" "echo = []"
    using assms Unicode by (auto simp: edit_key_def split: if_splits)
  then show ?thesis
  proof cases
    case 1
    then have "line = line' @ [last line]" "echo = [K_print [8]]" using assms Unicode by (auto simp: edit_key_def)
    then show ?thesis by (rule erased)
  next
    case 2
    then show ?thesis using assms Unicode typed_char by (auto simp: edit_key_def)
  qed (rule same)
next
  case (Raw_key code)
  then show ?thesis using assms same by (auto simp: edit_key_def)
qed

text \<open>How long the line is after such calls, and how long it has been at most.\<close>

fun line_length :: "nat \<Rightarrow> kcall list \<Rightarrow> nat" where
  "line_length n [] = n"
| "line_length n (kc # cs) = line_length (if kc = K_print [8] then n - 1 else n + 1) cs"

fun longest :: "nat \<Rightarrow> kcall list \<Rightarrow> nat" where
  "longest n [] = n"
| "longest n (kc # cs) = max n (longest (if kc = K_print [8] then n - 1 else n + 1) cs)"

text \<open>The calls since the last prompt.\<close>

definition since_prompt :: "kcall list \<Rightarrow> kcall list" where
  "since_prompt cs = rev (takeWhile (\<lambda>kc. kc \<noteq> K_print (text_of ''> '')) (rev cs))"

lemma line_length_append: "line_length n (cs @ ds) = line_length (line_length n cs) ds"
  by (induction cs arbitrary: n) simp_all

lemma longest_append: "longest n (cs @ ds) = max (longest n cs) (longest (line_length n cs) ds)"
proof (induction cs arbitrary: n)
  case Nil
  then show ?case by (cases ds) simp_all
qed (simp add: max.assoc)

lemma longest_le: "line_length n cs \<le> longest n cs"
  by (induction cs arbitrary: n) (simp_all add: le_max_iff_disj)

lemma edits_length: "edits es line \<Longrightarrow> line_length 0 es = length line"
proof (induction rule: edits.induct)
  case (edits_key es line key line' echo)
  from edits_key.hyps(3) show ?case
    by (cases rule: edit_key_cases) (use edits_key.IH in \<open>auto simp: line_length_append is_control_def\<close>)
qed simp

lemma edits_printable: "edits es line \<Longrightarrow> \<forall>c \<in> set line. printable c"
proof (induction rule: edits.induct)
  case (edits_key es line key line' echo)
  from edits_key.hyps(3) show ?case
    by (cases rule: edit_key_cases) (use edits_key.IH in \<open>auto simp: printable_def is_control_def\<close>)
qed simp

lemma after_text:
  assumes "\<forall>c \<in> set l. printable c" "sc_col s + length l \<le> sc_width s" "blank_after s"
  shows "blank_after (fold (screen_put font) l s) \<and> sc_col (fold (screen_put font) l s) = sc_col s + length l
    \<and> sc_width (fold (screen_put font) l s) = sc_width s"
  using assms
proof (induction l arbitrary: s)
  case (Cons c l)
  let ?s = "screen_put font c s"
  have put: "?s = screen_draw (sc_col s) (sc_row s) (glyph_of font c) (s\<lparr>sc_col := sc_col s + 1\<rparr>)"
    by (rule screen_put_printable) (use Cons.prems in simp_all)
  then have "blank_after ?s" "sc_col ?s = sc_col s + 1" "sc_width ?s = sc_width s"
    using Cons.prems(3) by (auto simp: screen_draw_def blank_after_def)
  then show ?case using Cons.IH [of ?s] Cons.prems(1,2) by simp
qed simp

lemma edits_shown:
  assumes "edits es line" "sc_col s + longest 0 es \<le> sc_width s" "blank_after s"
  shows "fold (screen_put font) (printed es) s = fold (screen_put font) line s"
  using assms
proof (induction rule: edits.induct)
  case (edits_key es line key line' echo)
  have IH: "fold (screen_put font) (printed es) s = fold (screen_put font) line s"
    using edits_key by (simp add: longest_append)
  from edits_key.hyps(3) show ?case
  proof (cases rule: edit_key_cases)
    case (erased c)
    let ?s = "fold (screen_put font) line' s"
    have ok: "\<forall>x \<in> set line. printable x" by (rule edits_printable [OF edits_key.hyps(1)])
    have len: "length line \<le> longest 0 es" "longest 0 es \<le> longest 0 (es @ echo)"
      using edits_length [OF edits_key.hyps(1)] longest_le [of 0 es] by (simp_all add: longest_append)
    have "blank_after ?s \<and> sc_col ?s = sc_col s + length line' \<and> sc_width ?s = sc_width s"
      by (rule after_text) (use ok len erased edits_key.prems in auto)
    then have "fold (screen_put font) ([c] @ replicate (length [c]) 8) ?s = ?s"
      using ok len erased edits_key.prems by (intro erase_restores) auto
    then show ?thesis using IH erased by simp
  qed (use IH in simp_all)
qed simp

lemma shell_keys_prompt:
  "shell_keys kb lib available view line k bs = Pending (At_prompt line') cs \<Longrightarrow> edits es line \<Longrightarrow>
     (\<exists>before since. es @ cs = before @ since \<and> edits since line'
        \<and> (before = [] \<or> (\<exists>pre. before = pre @ [K_print (text_of ''> '')] \<and> (\<forall>b. at_start b pre))))"
proof (induction kb lib available view line k bs arbitrary: cs es rule: shell_keys.induct)
  case (1 kb lib available view line k)
  then show ?case by (intro exI [of _ "[]"] exI [of _ es]) simp
next
  case (2 kb lib available view line k b bs)
  obtain key k1 where n: "next_key kb b k = (key, k1)" by (metis surj_pair)
  consider "key = None" | c where "key = Some c" "is_enter c" | c where "key = Some c" "\<not> is_enter c" by blast
  then show ?case
  proof cases
    case 1
    then show ?thesis using 2 n by (simp add: shell_keys.simps(2))
  next
    case (2 c)
    show ?thesis
    proof (cases "run_line kb lib available view line k1 bs")
      case (Pending p ds)
      then show ?thesis using "2.prems" n 2 run_line_place [OF Pending] by (auto simp: shell_keys.simps(2) awaits)
    next
      case (Ready x k2 bs2 ds)
      then obtain fs where fs: "shell_keys kb lib available view [] k2 bs2 = Pending (At_prompt line') fs"
        "cs = (println [] # ds) @ K_print (text_of ''> '') # fs"
        using "2.prems" n 2 by (auto simp: shell_keys.simps(2) awaits)
      obtain before since where bs: "[] @ fs = before @ since" "edits since line'"
        "before = [] \<or> (\<exists>pre. before = pre @ [K_print (text_of ''> '')] \<and> (\<forall>b. at_start b pre))"
        using "2.IH"(2) [OF n [symmetric] 2 Ready fs(1) edits_start] by blast
      have start: "at_start b (es @ println [] # ds)" for b
        using run_line_start [OF Ready] by (simp add: at_start_append)
      obtain pre where pre: "(es @ println [] # ds @ [K_print (text_of ''> '')]) @ before = pre @ [K_print (text_of ''> '')]"
        "\<forall>b. at_start b pre"
      proof (cases "before = []")
        case True
        then show ?thesis using that [of "es @ println [] # ds"] start by simp
      next
        case False
        then obtain pre where "before = pre @ [K_print (text_of ''> '')]" "\<forall>b. at_start b pre" using bs(3) by blast
        then show ?thesis using that [of "es @ println [] # ds @ K_print (text_of ''> '') # pre"]
          by (simp add: at_start_append)
      qed
      have "es @ cs = (pre @ [K_print (text_of ''> '')]) @ since" using bs(1) by (simp add: fs(2) flip: pre(1))
      then show ?thesis using bs(2) pre(2) by blast
    next
      case (Crashed ds)
      then show ?thesis using "2.prems" n 2 by (auto simp: shell_keys.simps(2) awaits)
    qed
  next
    case (3 c)
    then obtain fs where fs: "shell_keys kb lib available view (fst (edit_key c line)) k1 bs = Pending (At_prompt line') fs"
      "cs = snd (edit_key c line) @ fs"
      using "2.prems" n by (auto simp: shell_keys.simps(2) awaits)
    have "edits (es @ snd (edit_key c line)) (fst (edit_key c line))"
      by (rule edits_key [OF "2.prems"(2) 3(2)]) simp
    from "2.IH"(3) [OF n [symmetric] 3 fs(1) this] show ?thesis unfolding fs(2) append_assoc .
  qed
qed

section \<open>The properties\<close>

lemma edits_prints: "edits es line \<Longrightarrow> \<forall>c \<in> set es. \<exists>ch. c = K_print [ch]"
proof (induction rule: edits.induct)
  case (edits_key es line key line' echo)
  from edits_key.hyps(3) show ?case by (cases rule: edit_key_cases) (use edits_key.IH in auto)
qed simp

lemma prints_on_screen:
  "\<forall>c \<in> set es. \<exists>ch. c = K_print [ch] \<Longrightarrow> fold (screen_call font pr layman) es s = fold (screen_put font) (printed es) s"
proof (induction es arbitrary: s)
  case (Cons c es)
  then obtain ch where "c = K_print [ch]" by auto
  then show ?case using Cons by (simp add: screen_call_def)
qed simp

lemma edits_since:
  assumes "edits since line"
  shows "since_prompt (before @ K_print (text_of ''> '') # since) = since"
proof -
  have "kc \<noteq> K_print (text_of ''> '')" if "kc \<in> set (rev since)" for kc
    using edits_prints [OF assms] that by (auto simp: text_of_def)
  then have "takeWhile (\<lambda>kc. kc \<noteq> K_print (text_of ''> '')) (rev since @ K_print (text_of ''> '') # rev before) = rev since"
    by (subst takeWhile_append2) simp_all
  then show ?thesis by (simp add: since_prompt_def)
qed

text \<open>C12: the line on the screen is the line that will run: when the shell waits at the prompt with a line, on a
  console that began on a fresh line, no print has panicked, the calls since the last prompt are the echoes of the
  keys that made the line, and every byte of the framebuffer is that of a screen with the prompt and that line alone
  on a fresh line below everything before it, whatever was typed and erased in this line and before, as long
  as the line, at its longest since the prompt, fits on its row.\<close>

theorem typed_line_is_on_screen:
  assumes "shell kb lib available view k bs = Pending (At_prompt line) cs"
    and "font_ok font" "displays c s" "fresh_line s"
  shows "\<exists>before c' s'. cs = before @ [K_print (text_of ''> '')] @ since_prompt cs \<and> edits (since_prompt cs) line
    \<and> show_calls font pr layman cs c = Some c'
    \<and> s' = fold (screen_call font pr layman) before s \<and> fresh_line s'
    \<and> (2 + longest 0 (since_prompt cs) \<le> sc_width s \<longrightarrow> displays c' (fold (screen_put font) (text_of ''> '' @ line) s'))"
proof -
  obtain ds where ds: "shell_keys kb lib available view [] k bs = Pending (At_prompt line) ds" "cs = K_print (text_of ''> '') # ds"
    using assms(1) by (auto simp: shell_def awaits)
  from shell_keys_prompt [OF ds(1) edits_start] obtain rest since where
    bs: "ds = rest @ since" "edits since line"
    "rest = [] \<or> (\<exists>pre. rest = pre @ [K_print (text_of ''> '')] \<and> (\<forall>b. at_start b pre))" by auto
  obtain before where b: "cs = before @ [K_print (text_of ''> '')] @ since" "at_start True before"
  proof (cases "rest = []")
    case True
    then show ?thesis using that [of "[]"] ds(2) bs(1) by simp
  next
    case False
    then obtain pre where "rest = pre @ [K_print (text_of ''> '')]" "\<forall>b. at_start b pre" using bs(3) by blast
    then show ?thesis using that [of "K_print (text_of ''> '') # pre"] ds(2) bs(1) by simp
  qed
  let ?s = "fold (screen_call font pr layman) before s"
  have fresh: "fresh_line ?s" using at_start_fresh [OF b(2) fresh_rest [OF assms(4)]] assms(4) by blast
  obtain c' where c': "show_calls font pr layman cs c = Some c'"
    "displays c' (fold (screen_call font pr layman) cs s)" using calls_displayed [OF assms(3,2)] by blast
  have typed: "fold (screen_call font pr layman) cs s = fold (screen_put font) (text_of ''> '' @ line) ?s"
    if room: "2 + longest 0 since \<le> sc_width s"
  proof -
    let ?p = "fold (screen_put font) (text_of ''> '') ?s"
    have w: "sc_width ?s = sc_width s" "sc_col ?s = 0" using screen_calls_width fresh by (auto simp: fresh_line_def)
    have "blank_after ?p \<and> sc_col ?p = sc_col ?s + length (text_of ''> '') \<and> sc_width ?p = sc_width ?s"
      by (rule after_text) (use w room fresh_after [OF fresh] in \<open>simp_all add: text_of_def printable_def\<close>)
    then have "fold (screen_put font) (printed since) ?p = fold (screen_put font) line ?p"
      using edits_shown [OF bs(2), of ?p font] w room by (simp add: text_of_def)
    then show ?thesis
      using prints_on_screen [OF edits_prints [OF bs(2)], of font pr layman ?p] unfolding b(1) by (simp add: screen_call_def)
  qed
  have "displays c' (fold (screen_put font) (text_of ''> '' @ line) ?s)" if "2 + longest 0 since \<le> sc_width s"
    using c'(2) unfolding typed [OF that] .
  moreover have "since_prompt cs = since" using edits_since [OF bs(2), of before] b(1) by simp
  ultimately show ?thesis using b(1) bs(2) c'(1) fresh by blast
qed

text \<open>C13: a refusal is on the screen: when \<open>celebrare\<close> refuses a score, no print panics, and every byte of the framebuffer is that of
  the screen before with the lines of the refusal: the line of the source and the message where it does not parse, or else
  the verse in which the checker found a clash, and the clash.\<close>

theorem refusal_is_on_screen:
  assumes "score_source name given = Some src" "\<nexists>prog. accepted src prog" "celebrare lib available name given = Some r"
    and "font_ok font" "displays c s"
  shows "\<exists>cs c' lines. r = Inr cs \<and> show_calls font pr layman cs c = Some c'
    \<and> displays c' (fold (screen_put font) (lines_text lines) s)
    \<and> ((\<exists>n msg. parse src = (Inl (Raise (D_Parse n msg)) :: diss exn + program)
          \<and> lines = [text_of ''dissonantia (parse, line '' @ show_num n @ text_of ''): '' @ chars msg])
      \<or> (\<exists>prog v msg. parse src = (Inr prog :: diss exn + program) \<and> v \<in> set (prog_verses prog)
          \<and> check_program prog = Some (Inl (Raise (D_Discors (ver_name v) msg)) :: diss exn + unit)
          \<and> lines = [text_of ''!!! DISSONANTIA DISCORS in versus '' @ chars (ver_name v) @ text_of '': '' @ chars msg,
              text_of ''!!! The rhyme does not unify; the score is refused unsung.'']))"
proof -
  obtain d where d: "parse src = Inl (Raise d) \<or> (\<exists>prog. parse src = (Inr prog :: diss exn + program)
      \<and> check_program prog = Some (Inl (Raise d)))" and r: "r = Inr [K_say (S_Loud d)]"
    using celebrare_refused [OF assms(1-3)] by blast
  obtain c' where c': "show_calls font pr layman [K_say (S_Loud d)] c = Some c'"
    "displays c' (fold (screen_put font) (lines_text (loud pr d)) s)"
    using calls_displayed [OF assms(5,4), of pr layman "[K_say (S_Loud d)]"] by (auto simp: screen_call_def)
  from d show ?thesis
  proof (elim disjE exE conjE)
    assume p: "parse src = (Inl (Raise d) :: diss exn + program)"
    then obtain n msg where "d = D_Parse n msg" using parse_errors by blast
    then show ?thesis using p r c' by (intro exI conjI, auto)
  next
    fix prog
    assume p: "parse src = (Inr prog :: diss exn + program)" "check_program prog = Some (Inl (Raise d))"
    then obtain v msg where "v \<in> set (prog_verses prog)" "d = D_Discors (ver_name v) msg"
      using check_verses_errors [of prog "prog_verses prog" "Raise d"] by (auto simp: check_program_def)
    then show ?thesis using p r c' by (intro exI conjI, auto)
  qed
qed

section \<open>The properties at work\<close>

definition plain_printer :: printer where
  "plain_printer = \<lparr>show_f64 = (\<lambda>_. [48]), show_val = (\<lambda>_. [86])\<rparr>"

definition wide_console :: "nat \<Rightarrow> console" where
  "wide_console n = console_init (replicate (768 * n) 7)
     \<lparr>fi_width = 16 * n, fi_height = 16, fi_stride = 16 * n, fi_bytes_per_pixel = 3, fi_pixel_format = Rgb\<rparr>"

lemma wide_displays:
  assumes "0 < n"
  shows "displays (wide_console n) (blank_screen n 1)"
proof -
  have "console_ok (wide_console n)"
    using assms by (simp add: wide_console_def console_ok_def console_init_def clear_def width_chars_def height_chars_def
        cell_size channels_def)
  then show ?thesis using console_starts_blank unfolding wide_console_def by (fastforce simp: cell_size)
qed

lemma no_font_ok: "font_ok (\<lambda>_. None)"
  by (simp add: font_ok_def)

theorem typed_line_is_on_screen_witness:
  "\<exists>cs c' s'. shell sample_kb linear_libm True sample_view () [98, 101, 101, 112, 10, 97, 98, 8] = Pending (At_prompt [97]) cs
     \<and> show_calls (\<lambda>_. None) plain_printer [] cs (wide_console 4) = Some c' \<and> fresh_line s'
     \<and> displays c' (fold (screen_put (\<lambda>_. None)) (text_of ''> '' @ [97]) s')"
proof -
  obtain before where run: "shell sample_kb linear_libm True sample_view () [98, 101, 101, 112, 10, 97, 98, 8] = Pending (At_prompt [97])
     (before @ [K_start_tone 440, K_sleep 300, K_stop_tone, K_print (text_of ''> ''), K_print [97], K_print [98], K_print [8]])"
    (is "_ = Pending _ ?cs") using sample_run by blast
  have w: "displays (wide_console 4) (blank_screen 4 1)" by (rule wide_displays) simp
  have "longest 0 (since_prompt ?cs) = 2" by (simp add: since_prompt_def text_of_def)
  then have "2 + longest 0 (since_prompt ?cs) \<le> sc_width (blank_screen 4 1)" by (simp add: blank_screen_def)
  then show ?thesis using typed_line_is_on_screen [OF run no_font_ok w fresh_blank, of plain_printer "[]"] run by blast
qed

lemma stray_mark: "parse ''?'' = (Inl (Raise (D_Parse 1 ''unexpected character'')) :: diss exn + program)"
  by code_simp

theorem refusal_is_on_screen_witness:
  "\<exists>cs c'. celebrare linear_libm True ''-'' (Some ''?'') = Some (Inr cs)
     \<and> show_calls (\<lambda>_. None) plain_printer [] cs (wide_console 80) = Some c'
     \<and> displays c' (fold (screen_put (\<lambda>_. None))
         (text_of ''dissonantia (parse, line 1): unexpected character'' @ [10]) (blank_screen 80 1))"
proof -
  have src: "score_source ''-'' (Some ''?'') = Some ''?''" by (simp add: score_source_def)
  have no: "\<nexists>prog. accepted ''?'' prog" by (simp add: accepted_def stray_mark)
  obtain r where r: "celebrare linear_libm True ''-'' (Some ''?'') = Some r"
    using src stray_mark by (simp add: celebrare_def)
  have w: "displays (wide_console 80) (blank_screen 80 1)" by (rule wide_displays) simp
  have line: "lines_text [text_of ''dissonantia (parse, line '' @ show_num 1 @ text_of ''): '' @ chars ''unexpected character'']
      = text_of ''dissonantia (parse, line 1): unexpected character'' @ [10]"
    by code_simp
  from refusal_is_on_screen [OF src no r no_font_ok w, of plain_printer "[]"] show ?thesis
    using r line by (auto simp: stray_mark)
qed
end
