(* ===== verification/Boot.thy ===== *)
theory Boot
  imports Messages Executor Sound Usermode Console
begin

text \<open>
  The kernel's entry (\<open>main.rs\<close>), with the parts of \<open>gdt.rs\<close> and \<open>memory.rs\<close> that only it calls: the
  components are set up in order, and the executor gets its two tasks.

  What the boot loader hands over is a record, and so is the machine: its ports, the font, the page that
  \<open>CR3\<close> points to, the page table of the \<open>x86_64\<close> crate, and where the linker put the two stacks. Interrupts are
  off until \<open>init_pics\<close>; the ones that come after it are those of the other theories, and are not
  interleaved with the banner and the two spawns.
\<close>

section \<open>What is given\<close>

record boot_info =
  framebuffer :: "(8 word list \<times> frame_buffer_info) option"
  physical_memory_offset :: "nat option"
  boot_regions :: "memory_region list"

record ('b, 'm, 'e) machine_parts =
  hw_io :: "'b bus"
  hw_bus :: 'b
  hw_font :: font
  hw_cr3_frame :: nat
  hw_page_table :: "nat \<Rightarrow> nat \<Rightarrow> 'm"
  hw_map_to :: "('e, 'm, frame_allocator) map_to"
  hw_fault_stack :: "64 word"
  hw_kernel_stack :: "64 word"

section \<open>Segments and stacks\<close>

record tss =
  interrupt_stack_table :: "64 word list"
  privilege_stack_table :: "64 word list"

definition gdt_tss :: "64 word \<Rightarrow> 64 word \<Rightarrow> tss" where
  "gdt_tss stack kstack =
     \<lparr>interrupt_stack_table = (replicate 7 0)[DOUBLE_FAULT_IST_INDEX := stack + 4096 * 5],
      privilege_stack_table = (replicate 3 0)[0 := privilege_stack kstack]\<rparr>"

text \<open>The tables that are loaded, and the segment registers after it.\<close>

record segments =
  sg_tss :: tss
  sg_selectors :: selectors
  sg_cs :: "16 word"
  sg_data :: "16 word list"
  sg_task :: "16 word"

definition gdt_init :: "64 word \<Rightarrow> 64 word \<Rightarrow> segments" where
  "gdt_init stack kstack =
     (let s = gdt_selectors in
      \<lparr>sg_tss = gdt_tss stack kstack, sg_selectors = s, sg_cs = code_selector s,
       sg_data = [data_selector s, data_selector s, data_selector s], sg_task = tss_selector s\<rparr>)"

section \<open>Memory\<close>

text \<open>Where the level 4 table is mapped.\<close>

definition active_level_4_table :: "nat \<Rightarrow> nat \<Rightarrow> nat" where
  "active_level_4_table cr3_frame offset = offset + cr3_frame"

definition memory_init :: "('b, 'm, 'e) machine_parts \<Rightarrow> nat \<Rightarrow> 'm" where
  "memory_init hw offset =
     hw_page_table hw (active_level_4_table (hw_cr3_frame hw) offset) offset"

text \<open>\<open>try_init_once\<close>: the first to park its memory has parked it.\<close>

definition init_global :: "'m \<times> frame_allocator \<Rightarrow> ('m \<times> frame_allocator) option \<Rightarrow> ('m \<times> frame_allocator) option" where
  "init_global mem parked = (case parked of None \<Rightarrow> Some mem | Some m \<Rightarrow> Some m)"

section \<open>The entry\<close>

text \<open>The statics of the driver before \<open>ac97::init\<close>.\<close>

definition sound_statics :: "'b \<Rightarrow> 'b sound" where
  "sound_statics b = \<lparr>so_bus = b, so_nabm_base = 0, so_refill_mask = 0, so_next_done = 0, so_irq = 0,
     so_descriptors = None, so_card = None\<rparr>"

datatype kernel_task = Shell_task | Synth_task

record ('b, 'm) kernel =
  kn_console :: console
  kn_segments :: segments
  kn_idt :: "nat \<Rightarrow> gate option"
  kn_heap :: "nat \<times> nat"
  kn_sound :: "'b sound"
  kn_masks :: "8 word \<times> 8 word"
  kn_interrupts :: bool
  kn_memory :: "('m \<times> frame_allocator) option"

datatype 'e boot_panic = No_framebuffer | No_physical_memory | Heap_failed "'e heap_error" | Port_overflow | Executor_full

text \<open>
  The kernel runs the executor, or has panicked and halted, with the message on the console when there is one.
  A panic while printing holds the console's lock: its message never gets through, and the kernel is stuck.
\<close>

datatype ('b, 'm, 'q) booted =
  Running "('b, 'm) kernel" "(kernel_task, 'q) executor"
| Halted "console option"
| Stuck

definition panic_line :: "nat list \<Rightarrow> nat list" where
  "panic_line info = line_of (text_of ''KERNEL PANIC: '' @ info)"

definition kernel_panic :: "font \<Rightarrow> nat list \<Rightarrow> console option \<Rightarrow> ('b, 'm, 'q) booted" where
  "kernel_panic font info global =
     (case print_str font (panic_line info) global of None \<Rightarrow> Stuck | Some c \<Rightarrow> Halted c)"

text \<open>What \<open>ac97::init\<close> logs when it succeeds, and its caller when it does not.\<close>

definition card_line :: "(string, unit) result \<Rightarrow> 8 word \<Rightarrow> nat list" where
  "card_line r irq_line =
     (case r of
        Inr _ \<Rightarrow> log_line ''INFO'' (text_of (''ac97: initialized (IRQ '' @ show_nat (unat irq_line) @ '')''))
      | Inl (Raise e) \<Rightarrow> log_line ''WARN'' (text_of (''ac97: not available ('' @ e @ '')''))
      | Inl exn.Panicked \<Rightarrow> [])"

definition banner :: "nat list" where
  "banner = line_of (text_of ''rust_freestanding kernel'') @ line_of (text_of ''type '' @ [39] @ text_of ''help''
     @ [39] @ text_of '' for a list of commands'') @ line_of []"

definition spawn_tasks ::
  "(nat \<Rightarrow> 'q) \<Rightarrow> (task_id \<Rightarrow> 'q \<Rightarrow> 'q option) \<Rightarrow> (kernel_task, 'q) executor option" where
  "spawn_tasks new_queue put =
     (let (shell_id, counter) = next_task_id 0 in
      case spawn put shell_id Shell_task (executor_new new_queue) of
        None \<Rightarrow> None
      | Some ex \<Rightarrow> (let (synth_id, counter) = next_task_id counter in spawn put synth_id Synth_task ex))"

definition boot_heap ::
  "('b, 'm, 'e) machine_parts \<Rightarrow> boot_info \<Rightarrow> nat \<Rightarrow> 'e heap_error + ('m \<times> frame_allocator) \<times> nat \<times> nat" where
  "boot_heap hw bi offset =
     init_heap (hw_map_to hw) allocate_frame (memory_init hw offset, frame_allocator_init (boot_regions bi))"

definition kernel_main ::
  "('b, 'm, 'e) machine_parts \<Rightarrow> ('e boot_panic \<Rightarrow> nat list) \<Rightarrow> (nat \<Rightarrow> 'q) \<Rightarrow> (task_id \<Rightarrow> 'q \<Rightarrow> 'q option) \<Rightarrow>
   boot_info \<Rightarrow> ('b, 'm, 'q) booted" where
  "kernel_main hw panic_info new_queue put bi =
     (case framebuffer bi of
        None \<Rightarrow> kernel_panic (hw_font hw) (panic_info No_framebuffer) None
      | Some (buffer, info) \<Rightarrow>
     (let c = console_init buffer info;
          segs = gdt_init (hw_fault_stack hw) (hw_kernel_stack hw);
          idt = init_idt in
      case physical_memory_offset bi of
        None \<Rightarrow> kernel_panic (hw_font hw) (panic_info No_physical_memory) (Some c)
      | Some offset \<Rightarrow>
     (case boot_heap hw bi offset of
        Inl e \<Rightarrow> kernel_panic (hw_font hw) (panic_info (Heap_failed e)) (Some c)
      | Inr ((m, a), heap) \<Rightarrow>
     (case Sound.init (hw_io hw) (sound_statics (hw_bus hw), a) of (r, s, a) \<Rightarrow>
      if r = Inl exn.Panicked then kernel_panic (hw_font hw) (panic_info Port_overflow) (Some c) else
     (case write_str (hw_font hw) (card_line r (so_irq s)) c of
        None \<Rightarrow> Stuck
      | Some c \<Rightarrow>
     (let masks = init_pics (so_irq s); mem = init_global (m, a) None in
      case write_str (hw_font hw) banner c of
        None \<Rightarrow> Stuck
      | Some c \<Rightarrow>
     (case spawn_tasks new_queue put of
        None \<Rightarrow> kernel_panic (hw_font hw) (panic_info Executor_full) (Some c)
      | Some ex \<Rightarrow>
          Running \<lparr>kn_console = c, kn_segments = segs, kn_idt = idt, kn_heap = heap, kn_sound = s, kn_masks = masks,
            kn_interrupts = True, kn_memory = mem\<rparr> ex)))))))"

section \<open>Frames\<close>

lemma run_upcoming:
  assumes "alloc_run allocate_frame n k run a = (r, a')"
  shows "\<exists>j. upcoming_frames a' = drop j (upcoming_frames a)"
  using assms
proof (induction k arbitrary: run a)
  case 0
  then have "upcoming_frames a' = drop 0 (upcoming_frames a)" by simp
  then show ?case by blast
next
  case (Suc k)
  show ?case
  proof (cases "upcoming_frames a")
    case Nil
    then obtain a1 where "allocate_frame a = (None, a1)" "upcoming_frames a1 = []" using boot.alloc_none by blast
    then have "upcoming_frames a' = drop 0 (upcoming_frames a)" using Suc.prems Nil by simp
    then show ?thesis by blast
  next
    case (Cons f fs)
    then obtain a1 where a1: "allocate_frame a = (Some f, a1)" "upcoming_frames a1 = fs" using boot.alloc_next by blast
    obtain s1 h1 where e: "extend_run run f = (s1, h1)" by (metis surj_pair)
    show ?thesis
    proof (cases "h1 = n")
      case True
      then have "upcoming_frames a' = drop 1 (upcoming_frames a)" using Suc.prems a1 e Cons by simp
      then show ?thesis by blast
    next
      case False
      then obtain j where "upcoming_frames a' = drop j fs" using Suc a1 e by fastforce
      then have "upcoming_frames a' = drop (Suc j) (upcoming_frames a)" using Cons by simp
      then show ?thesis by blast
    qed
  qed
qed

lemma pages_upcoming:
  assumes ok: "mapper_ok map_to translate upcoming_frames"
  shows "map_pages map_to allocate_frame pages (m, a) = Inr (m', a') \<Longrightarrow> \<exists>j. upcoming_frames a' = drop j (upcoming_frames a)"
proof (induction pages arbitrary: m a)
  case Nil
  then have "upcoming_frames a' = drop 0 (upcoming_frames a)" by simp
  then show ?case by blast
next
  case (Cons page pages)
  obtain f fs where u: "upcoming_frames a = f # fs"
    using Cons.prems boot.alloc_none [of a] by (cases "upcoming_frames a") auto
  obtain a1 where a1: "allocate_frame a = (Some f, a1)" "upcoming_frames a1 = fs" using boot.alloc_next [OF u] by blast
  obtain m2 a2 where m2: "map_to page f [Present, Writable] [Present, Writable] (m, a1) = Inr (m2, a2)"
    and rest: "map_pages map_to allocate_frame pages (m2, a2) = Inr (m', a')"
    using Cons.prems a1(1) by (auto split: sum.splits)
  obtain k where "upcoming_frames a2 = drop k fs" using ok m2 a1(2) unfolding mapper_ok_def by blast
  moreover obtain j where "upcoming_frames a' = drop j (upcoming_frames a2)" using Cons.IH [OF rest] by blast
  ultimately have "upcoming_frames a' = drop (Suc (j + k)) (upcoming_frames a)" using u by simp
  then show ?case by blast
qed

lemma card_upcoming:
  assumes "init_card io mixer nabm (s, a) = (r, s', a')"
  shows "(\<exists>j. upcoming_frames a' = drop j (upcoming_frames a)) \<and> so_irq s' = so_irq s"
proof (cases "in_ports nabm GLOB_CNT \<and> in_ports mixer MIXER_PCM_OUT_VOLUME")
  case False
  then have "s' = s" "upcoming_frames a' = drop 0 (upcoming_frames a)" using assms by (auto simp: init_card_def)
  then show ?thesis by metis
next
  case True
  obtain p a1 where p: "alloc_contiguous allocate_frame (1 + BUFFERS) a = (p, a1)" by (metis surj_pair)
  then have "\<exists>j. upcoming_frames a1 = drop j (upcoming_frames a)" unfolding alloc_contiguous_def by (rule run_upcoming)
  moreover have "a' = a1 \<and> so_irq s' = so_irq s"
    using assms True p by (cases p) (auto simp: init_card_def init_ring_def Let_def)
  ultimately show ?thesis by blast
qed

lemma sound_init_keeps:
  assumes "Sound.init io (s, a) = (r, s', a')"
  shows "(\<exists>j. upcoming_frames a' = drop j (upcoming_frames a)) \<and> so_irq s' \<in> {so_irq s, 9, 10, 11}"
proof -
  obtain found b where f: "find_device io VENDOR_INTEL DEVICE_82801AA (so_bus s) = (found, b)" by (metis surj_pair)
  show ?thesis
  proof (cases "a' = a \<and> so_irq s' = so_irq s")
    case True
    then have "upcoming_frames a' = drop 0 (upcoming_frames a)" by simp
    then show ?thesis using True by blast
  next
    case False
    then obtain device where d: "found = Some device" using assms f by (cases found) (auto simp: init_def)
    obtain bar0 b0 where b0: "io_bar io device 0 (enable_io_and_bus_master io device b) = (bar0, b0)" by (metis surj_pair)
    obtain mixer where m: "bar0 = Some mixer" using assms f d b0 False by (cases bar0) (auto simp: init_def)
    obtain bar1 b1 where b1: "io_bar io device 1 b0 = (bar1, b1)" by (metis surj_pair)
    obtain nabm where n: "bar1 = Some nabm" using assms f d b0 m b1 False by (cases bar1) (auto simp: init_def)
    obtain line b2 where b2: "interrupt_line io device b1 = (line, b2)" by (metis surj_pair)
    obtain irq where irq: "register_pci_sound_irq line (so_irq s) = Inr irq"
      "init_card io mixer nabm (s\<lparr>so_bus := b2, so_irq := irq\<rparr>, a) = (r, s', a')"
      using assms f d b0 m b1 n b2 False
      by (cases "register_pci_sound_irq line (so_irq s)") (auto simp: init_def split: if_splits)
    then show ?thesis using card_upcoming [OF irq(2)] sound_lines [OF irq(1)] by simp
  qed
qed

section \<open>Exceptions\<close>

text \<open>
  The three exception handlers log and then resume the program or never return. What the \<open>x86_64\<close> crate prints of the
  stack frame, of the error code and of \<open>CR2\<close> is given.
\<close>

datatype after_exception = Resumes | Loops | Sleeps

definition exception_lines :: "string \<Rightarrow> nat list list \<Rightarrow> nat list" where
  "exception_lines level ls = concat (map (log_line level) ls)"

definition breakpoint_handler :: "font \<Rightarrow> nat list \<Rightarrow> console option \<Rightarrow> (after_exception \<times> console option) option" where
  "breakpoint_handler font frame global =
     map_option (Pair Resumes) (print_str font (exception_lines ''WARN'' [text_of ''EXCEPTION: BREAKPOINT'' @ 10 # frame]) global)"

definition double_fault_handler :: "font \<Rightarrow> nat list \<Rightarrow> console option \<Rightarrow> (after_exception \<times> console option) option" where
  "double_fault_handler font frame global =
     map_option (Pair Loops) (print_str font (exception_lines ''ERROR'' [text_of ''EXCEPTION: DOUBLE FAULT'' @ 10 # frame]) global)"

definition page_fault_handler ::
  "font \<Rightarrow> nat list \<Rightarrow> nat list \<Rightarrow> nat list \<Rightarrow> console option \<Rightarrow> (after_exception \<times> console option) option" where
  "page_fault_handler font address error_code frame global =
     map_option (Pair Sleeps) (print_str font (exception_lines ''ERROR''
       [text_of ''EXCEPTION: PAGE FAULT'', text_of ''Accessed Address: '' @ address, text_of ''Error Code: '' @ error_code, frame])
       global)"

lemma page_fault_shown:
  assumes "displays c s" "font_ok font"
  shows "\<exists>c'. page_fault_handler font address error_code frame (Some c) = Some (Sleeps, Some c')
    \<and> displays c' (fold (screen_put font) (log_line ''ERROR'' frame)
         (fold (screen_put font) (log_line ''ERROR'' (text_of ''Error Code: '' @ error_code))
           (fold (screen_put font) (log_line ''ERROR'' (text_of ''Accessed Address: '' @ address))
             (fold (screen_put font) (log_line ''ERROR'' (text_of ''EXCEPTION: PAGE FAULT'')) s))))"
  using write_str_displays [OF assms, of "exception_lines ''ERROR''
    [text_of ''EXCEPTION: PAGE FAULT'', text_of ''Accessed Address: '' @ address, text_of ''Error Code: '' @ error_code, frame]"]
  by (auto simp: page_fault_handler_def print_str_def exception_lines_def)

section \<open>The card and the heap\<close>

text \<open>The frames of the card's ring, with its descriptor list.\<close>

definition card_frames :: "'b sound \<Rightarrow> nat list" where
  "card_frames s =
     (case so_card s of None \<Rightarrow> [] | Some ac \<Rightarrow> frame_run (ac_buffer_at ac - page_size) (1 + BUFFERS))"

lemma sound_init_outcome:
  assumes "Sound.init io (s, a) = (r, s', a')" "so_card s = None"
  shows "(\<exists>pre. upcoming_frames a = pre @ card_frames s' @ upcoming_frames a')
    \<and> (r = Inr () \<longleftrightarrow> so_card s' \<noteq> None) \<and> (r = Inr () \<longrightarrow> so_irq s' \<in> {9, 10, 11})"
proof (cases rule: init_cases [of io s a])
  case (fails e b irq a1)
  then have e: "r = Inl e" "so_card s' = None" using assms by auto
  obtain j where j: "upcoming_frames a' = drop j (upcoming_frames a)" using sound_init_keeps [OF assms(1)] by blast
  have "upcoming_frames a = take j (upcoming_frames a) @ card_frames s' @ upcoming_frames a'"
    using e(2) by (simp add: card_frames_def j)
  then show ?thesis using e by blast
next
  case (works nabm phys b irq a1)
  obtain pre where "upcoming_frames a = pre @ frame_run phys (1 + BUFFERS) @ upcoming_frames a1"
    using boot.alloc_run_found [of "1 + BUFFERS" 4096 None a phys a1] works(2)
    by (auto simp: alloc_contiguous_def drawn_run_def)
  moreover have "r = Inr ()" "a' = a1" "so_irq s' = irq" "card_frames s' = frame_run phys (1 + BUFFERS)" "so_card s' \<noteq> None"
    using assms(1) works(1) by (auto simp: init_ring_def Let_def card_frames_def page_size_def)
  ultimately show ?thesis using works(3) by auto
qed

text \<open>A boot that reaches the executor, in its steps.\<close>

lemma kernel_main_Running:
  assumes "kernel_main hw panic_info new_queue put bi = Running k ex"
  obtains buffer info offset m a s a' r where "framebuffer bi = Some (buffer, info)" "physical_memory_offset bi = Some offset"
    "boot_heap hw bi offset = Inr ((m, a), kn_heap k)" "Sound.init (hw_io hw) (sound_statics (hw_bus hw), a) = (r, kn_sound k, a')"
    "r \<noteq> Inl exn.Panicked" "kn_memory k = Some (m, a')"
  using assms that unfolding kernel_main_def
  by (auto simp: kernel_panic_def init_global_def Let_def split: option.splits sum.splits prod.splits if_splits)

section \<open>Every frame has one owner\<close>

text \<open>C16: every frame has one owner: after a boot and the first use of userspace, the frames of the heap's pages, of
  the sound card's ring, of the two pages of the process and those still to be handed out are all different
  frames of the memory map, and the page tables map the heap and the process to theirs.\<close>

theorem frames_have_one_owner:
  assumes "mapper_ok (hw_map_to hw) translate upcoming_frames" "distinct (usable_frames (boot_regions bi))"
    and "kernel_main hw panic_info new_queue put bi = Running k ex"
    and "ensure_mapped (hw_map_to hw) allocate_frame (False, kn_memory k) = (Inr (), mapped, mem)"
  shows "\<exists>m a heap f g. mem = Some (m, a)
    \<and> distinct (heap @ card_frames (kn_sound k) @ [f, g] @ upcoming_frames a)
    \<and> set (heap @ card_frames (kn_sound k) @ [f, g] @ upcoming_frames a) \<subseteq> set (usable_frames (boot_regions bi))
    \<and> map (translate m) heap_pages = map (\<lambda>x. Some (x, [Present, Writable])) heap
    \<and> translate m 0x40000000 = Some (f, [Present, User_accessible, Writable])
    \<and> translate m 0x40003000 = Some (g, [Present, User_accessible, Writable])"
proof -
  let ?a0 = "frame_allocator_init (boot_regions bi)"
  have a0: "upcoming_frames ?a0 = usable_frames (boot_regions bi)"
    by (simp add: upcoming_frames_def frame_allocator_init_def)
  obtain offset m1 a1 r a2 where h: "boot_heap hw bi offset = Inr ((m1, a1), kn_heap k)"
    and s: "Sound.init (hw_io hw) (sound_statics (hw_bus hw), a1) = (r, kn_sound k, a2)" and mem: "kn_memory k = Some (m1, a2)"
    using assms(3) by (rule kernel_main_Running)
  have pages: "map_pages (hw_map_to hw) allocate_frame heap_pages (memory_init hw offset, ?a0) = Inr (m1, a1)"
    using h by (auto simp: boot_heap_def init_heap_def split: sum.splits)
  have d0: "distinct (upcoming_frames ?a0)" using assms(2) a0 by simp
  obtain heap where heap: "length heap = length heap_pages" "distinct heap" "set heap \<subseteq> set (upcoming_frames ?a0)"
    "set heap \<inter> set (upcoming_frames a1) = {}" "set (upcoming_frames a1) \<subseteq> set (upcoming_frames ?a0)"
    "\<forall>i < length heap_pages. translate m1 (heap_pages ! i) = Some (heap ! i, [Present, Writable])"
    using boot.map_pages_frames [OF assms(1) pages d0 heap_pages_distinct] by blast
  obtain j where "upcoming_frames a1 = drop j (upcoming_frames ?a0)" using pages_upcoming [OF assms(1) pages] by blast
  then have d1: "distinct (upcoming_frames a1)" using d0 by simp
  obtain pre where pre: "upcoming_frames a1 = pre @ card_frames (kn_sound k) @ upcoming_frames a2"
    using sound_init_outcome [OF s] by (auto simp: sound_statics_def)
  then have d2: "distinct (upcoming_frames a2)" using d1 by simp
  have va: "containing_address (unat USER_CODE) = 0x40000000" "containing_address (unat USER_STACK) = 0x40003000"
    by (simp_all add: containing_address_def page_size_def USER_CODE_def USER_STACK_def)
  obtain m3 a3 m4 a4 where 3: "map_user_page (hw_map_to hw) allocate_frame (unat USER_CODE) True (Some (m1, a2)) = Inr (m3, a3)"
    and 4: "map_user_page (hw_map_to hw) allocate_frame (unat USER_STACK) True (Some (m3, a3)) = Inr (m4, a4)"
    and r: "mem = Some (m4, a4)"
    using assms(4) mem by (auto simp: ensure_mapped_def split: sum.splits)
  obtain f where f: "translate m3 = (translate m1)(0x40000000 \<mapsto> (f, [Present, User_accessible, Writable]))"
    "f \<in> set (upcoming_frames a2)" "f \<notin> set (upcoming_frames a3)" "set (upcoming_frames a3) \<subseteq> set (upcoming_frames a2)"
    "distinct (upcoming_frames a3)"
    using boot.user_page_mapped [OF assms(1) d2 3] va by auto
  obtain g where g: "translate m4 = (translate m3)(0x40003000 \<mapsto> (g, [Present, User_accessible, Writable]))"
    "g \<in> set (upcoming_frames a3)" "g \<notin> set (upcoming_frames a4)" "set (upcoming_frames a4) \<subseteq> set (upcoming_frames a3)"
    "distinct (upcoming_frames a4)"
    using boot.user_page_mapped [OF assms(1) f(5) 4] va by auto
  have "p \<noteq> 0x40000000 \<and> p \<noteq> 0x40003000" if "p \<in> set heap_pages" for p
    using that unfolding heap_pages_eq by (auto simp: HEAP_START_def)
  then have "map (translate m4) heap_pages = map (\<lambda>x. Some (x, [Present, Writable])) heap"
    using heap(1,6) f(1) g(1) by (intro nth_equalityI) auto
  moreover have "translate m4 0x40000000 = Some (f, [Present, User_accessible, Writable])"
    "translate m4 0x40003000 = Some (g, [Present, User_accessible, Writable])" using f(1) g(1) by simp_all
  moreover have "distinct (heap @ card_frames (kn_sound k) @ [f, g] @ upcoming_frames a4)"
    using heap(2,4) d1 f(2-4) g(2-5) unfolding pre by auto
  moreover have "set (heap @ card_frames (kn_sound k) @ [f, g] @ upcoming_frames a4) \<subseteq> set (usable_frames (boot_regions bi))"
    using heap(3,5) f(2,4) g(2,4) unfolding pre a0 by auto
  ultimately show ?thesis using r by blast
qed

section \<open>How the boot ends\<close>

text \<open>Why a boot does not come to its executor, once there is a console.\<close>

definition boot_fails :: "('b, 'm, 'e) machine_parts \<Rightarrow> boot_info \<Rightarrow> 'e boot_panic \<Rightarrow> bool" where
  "boot_fails hw bi p =
     (case physical_memory_offset bi of
        None \<Rightarrow> p = No_physical_memory
      | Some offset \<Rightarrow>
          (case boot_heap hw bi offset of
             Inl e \<Rightarrow> p = Heap_failed e
           | Inr ((m, a), heap) \<Rightarrow>
               fst (Sound.init (hw_io hw) (sound_statics (hw_bus hw), a)) = Inl exn.Panicked \<and> p = Port_overflow))"

lemma tasks_spawned:
  assumes "array_queue put pop contents 100" "contents (new_queue 100) = []"
  shows "\<exists>ex. spawn_tasks new_queue put = Some ex \<and> tasks ex = [0 \<mapsto> Shell_task, 1 \<mapsto> Synth_task]
    \<and> waker_cache ex = Map.empty \<and> contents (task_queue ex) = [0, 1]"
proof -
  obtain q1 where q1: "put 0 (new_queue 100) = Some q1" "contents q1 = [0]"
    using array_queue.push_room [OF assms(1), of "new_queue 100" 0] assms(2) by auto
  obtain q2 where "put 1 q1 = Some q2" "contents q2 = [0, 1]"
    using array_queue.push_room [OF assms(1), of q1 1] q1(2) by auto
  then show ?thesis using q1(1)
    by (simp add: spawn_tasks_def next_task_id_def spawn_def executor_new_def)
qed

lemma panic_shown:
  assumes "displays c s" "font_ok font"
  shows "\<exists>c'. kernel_panic font text (Some c) = Halted (Some c')
    \<and> displays c' (fold (screen_put font) (panic_line text) s)"
  using write_str_displays [OF assms, of "panic_line text"] by (auto simp: kernel_panic_def print_str_def)

text \<open>The shell begins on a fresh line.\<close>

lemma boot_leaves_fresh_line: "fresh_line (fold (screen_put font) (card_line r irq @ banner) (blank_screen w h))"
  using line_fresh [of "blank_screen w h" "card_line r irq @ banner"] by (simp add: fresh_rest banner_def line_of_def)

lemma kernel_main_runs:
  assumes "font_ok (hw_font hw)" "array_queue put pop contents 100" "contents (new_queue 100) = []"
    and "framebuffer bi = Some (buffer, info)" "console_ok (console_init buffer info)"
    and "physical_memory_offset bi = Some offset" "boot_heap hw bi offset = Inr ((m, a), heap)"
    and "Sound.init (hw_io hw) (sound_statics (hw_bus hw), a) = (r, s, a')" "r \<noteq> Inl exn.Panicked"
  shows "\<exists>c ex. kernel_main hw panic_info new_queue put bi
      = Running \<lparr>kn_console = c, kn_segments = gdt_init (hw_fault_stack hw) (hw_kernel_stack hw),
          kn_idt = init_idt, kn_heap = heap, kn_sound = s, kn_masks = init_pics (so_irq s), kn_interrupts = True,
          kn_memory = Some (m, a')\<rparr> ex
    \<and> displays c (fold (screen_put (hw_font hw)) (card_line r (so_irq s) @ banner)
        (blank_screen (fi_width info div CHAR_W) (fi_height info div CHAR_H)))
    \<and> tasks ex = [0 \<mapsto> Shell_task, 1 \<mapsto> Synth_task] \<and> contents (task_queue ex) = [0, 1]"
proof -
  let ?font = "hw_font hw" and ?blank = "blank_screen (fi_width info div CHAR_W) (fi_height info div CHAR_H)"
  obtain c1 where c1: "write_str ?font (card_line r (so_irq s)) (console_init buffer info) = Some c1"
    "displays c1 (fold (screen_put ?font) (card_line r (so_irq s)) ?blank)"
    using write_str_displays [OF console_starts_blank [OF assms(5)] assms(1)] by blast
  obtain c2 where c2: "write_str ?font banner c1 = Some c2"
    "displays c2 (fold (screen_put ?font) (card_line r (so_irq s) @ banner) ?blank)"
    using write_str_displays [OF c1(2) assms(1), of banner] by auto
  obtain ex where ex: "spawn_tasks new_queue put = Some ex" "tasks ex = [0 \<mapsto> Shell_task, 1 \<mapsto> Synth_task]"
    "contents (task_queue ex) = [0, 1]" using tasks_spawned [where new_queue = new_queue, OF assms(2,3)] by blast
  show ?thesis
    using assms(4,6-9) c1(1) c2 ex by (simp add: kernel_main_def init_global_def Let_def)
qed

text \<open>C17: the kernel boots: on a console of at least one character, it is never stuck in a panic while
  printing. Either it has halted with the panic's message on a blank screen, exactly when the physical memory is not
  mapped, the heap cannot be or a port of the card would overflow; or it runs the executor with the
  shell before the synthesizer, and what became of the card and the banner on the screen. Then interrupts are on, each
  unmasked line but the cascade has a gate, and the line of a card that was set up is unmasked.\<close>

theorem kernel_boots:
  assumes "font_ok (hw_font hw)" "array_queue put pop contents 100" "contents (new_queue 100) = []"
    and "framebuffer bi = Some (buffer, info)" "console_ok (console_init buffer info)"
  shows "case kernel_main hw panic_info new_queue put bi of
      Stuck \<Rightarrow> False
    | Halted global \<Rightarrow> \<exists>c p. global = Some c \<and> boot_fails hw bi p
        \<and> displays c (fold (screen_put (hw_font hw)) (panic_line (panic_info p))
             (blank_screen (fi_width info div CHAR_W) (fi_height info div CHAR_H)))
    | Running k ex \<Rightarrow> (\<forall>p. \<not> boot_fails hw bi p)
        \<and> tasks ex = [0 \<mapsto> Shell_task, 1 \<mapsto> Synth_task] \<and> contents (task_queue ex) = [0, 1]
        \<and> (\<exists>r. (r = Inr () \<longleftrightarrow> so_card (kn_sound k) \<noteq> None)
             \<and> displays (kn_console k) (fold (screen_put (hw_font hw)) (card_line r (so_irq (kn_sound k)) @ banner)
                 (blank_screen (fi_width info div CHAR_W) (fi_height info div CHAR_H))))
        \<and> kn_interrupts k
        \<and> (\<forall>n < 16. unmasked (kn_masks k) n \<and> n \<noteq> 2 \<longrightarrow> kn_idt k (PIC_1_OFFSET + n) \<noteq> None)
        \<and> (so_card (kn_sound k) \<noteq> None \<longrightarrow> unmasked (kn_masks k) (unat (so_irq (kn_sound k))))"
proof -
  let ?font = "hw_font hw" and ?c = "console_init buffer info"
  let ?blank = "blank_screen (fi_width info div CHAR_W) (fi_height info div CHAR_H)"
  let ?main = "kernel_main hw panic_info new_queue put bi"
  have shown: "displays ?c ?blank"
    using console_starts_blank [OF assms(5)] .
  have panics: ?thesis if "?main = kernel_panic ?font (panic_info p) (Some ?c)" "boot_fails hw bi p" for p
  proof -
    have "\<exists>c'. ?main = Halted (Some c') \<and> displays c' (fold (screen_put ?font) (panic_line (panic_info p)) ?blank)"
      unfolding that(1) by (rule panic_shown [OF shown assms(1)])
    then show ?thesis using that(2) by auto
  qed
  show ?thesis
  proof (cases "physical_memory_offset bi")
    case None
    then show ?thesis using panics [of No_physical_memory] assms(4) by (simp add: kernel_main_def boot_fails_def)
  next
    case (Some offset)
    show ?thesis
    proof (cases "boot_heap hw bi offset")
      case (Inl e)
      then show ?thesis using panics [of "Heap_failed e"] assms(4) Some by (simp add: kernel_main_def boot_fails_def)
    next
      case (Inr mh)
      then obtain m a heap where h: "boot_heap hw bi offset = Inr ((m, a), heap)" by (metis surj_pair)
      obtain r s a2 where i: "Sound.init (hw_io hw) (sound_statics (hw_bus hw), a) = (r, s, a2)" by (metis surj_pair)
      show ?thesis
      proof (cases "r = Inl exn.Panicked")
        case True
        then show ?thesis using panics [of Port_overflow] assms(4) Some h i by (simp add: kernel_main_def boot_fails_def)
      next
        case False
        let ?k = "\<lambda>c. \<lparr>kn_console = c, kn_segments = gdt_init (hw_fault_stack hw) (hw_kernel_stack hw),
            kn_idt = init_idt, kn_heap = heap, kn_sound = s, kn_masks = init_pics (so_irq s), kn_interrupts = True,
            kn_memory = Some (m, a2)\<rparr>"
        obtain c2 ex where run: "?main = Running (?k c2) ex"
          and shows_lines: "displays c2 (fold (screen_put ?font) (card_line r (so_irq s) @ banner) ?blank)"
          and ex: "tasks ex = [0 \<mapsto> Shell_task, 1 \<mapsto> Synth_task]" "contents (task_queue ex) = [0, 1]"
          using kernel_main_runs [where new_queue = new_queue, OF assms Some h i False] by blast
        have irq: "so_irq s \<in> {0, 9, 10, 11}" using sound_init_keeps [OF i] by (auto simp: sound_statics_def)
        have card: "r = Inr () \<longleftrightarrow> so_card s \<noteq> None" "so_card s \<noteq> None \<Longrightarrow> so_irq s \<in> {9, 10, 11}"
          using sound_init_outcome [OF i] by (auto simp: sound_statics_def)
        have "init_idt (PIC_1_OFFSET + n) \<noteq> None" if "unmasked (init_pics (so_irq s)) n" "n < 16" "n \<noteq> 2" for n
          using that lines_have_gates [OF irq] by blast
        moreover have "unmasked (init_pics (so_irq s)) (unat (so_irq s))" if "so_card s \<noteq> None"
          using card(2) [OF that] lines_let_through [OF irq, of "unat (so_irq s)"] by auto
        moreover have "\<not> boot_fails hw bi p" for p using Some h i False by (simp add: boot_fails_def)
        ultimately show ?thesis unfolding run using ex shows_lines card(1) by auto
      qed
    qed
  qed
qed

section \<open>A boot\<close>

text \<open>A machine with the card of \<open>sample_bus\<close>, a screen of two by two characters, and 32 usable frames.\<close>

definition sample_parts :: "(32 word, nat \<rightharpoonup> nat \<times> page_flag list, unit) machine_parts" where
  "sample_parts = \<lparr>hw_io = sample_bus, hw_bus = 0, hw_font = (\<lambda>_. None), hw_cr3_frame = 0x1000,
     hw_page_table = (\<lambda>_ _. Map.empty), hw_map_to = plain_map_to, hw_fault_stack = 0x5000, hw_kernel_stack = 0xA000\<rparr>"

definition sample_boot :: boot_info where
  "sample_boot =
     \<lparr>framebuffer = Some (replicate 4096 1,
        \<lparr>fi_width = 40, fi_height = 32, fi_stride = 40, fi_bytes_per_pixel = 3, fi_pixel_format = Bgr\<rparr>),
      physical_memory_offset = Some 0x10000000000,
      boot_regions = [\<lparr>region_start = 0x100000, region_end = 0x120000, region_kind = Usable\<rparr>]\<rparr>"

lemma sample_frames: "usable_frames (boot_regions sample_boot) = frame_run 0x100000 32"
proof -
  have c: "containing_address (0x100000 + 4096 * i) = 0x100000 + i * page_size" for i
    by (simp add: containing_address_def page_size_def mod_add_left_eq [symmetric])
  show ?thesis
    by (simp add: sample_boot_def usable_frames_def region_frames_def frame_run_def page_size_def del: upt_rec_numeral)
      (use c in \<open>simp add: page_size_def\<close>)
qed

lemma plain_pages:
  "length pages \<le> length (upcoming_frames a) \<Longrightarrow>
   \<exists>m' a'. map_pages plain_map_to allocate_frame pages (m, a) = Inr (m', a')
     \<and> upcoming_frames a' = drop (length pages) (upcoming_frames a)"
proof (induction pages arbitrary: m a)
  case (Cons page pages)
  then obtain f fs where u: "upcoming_frames a = f # fs" by (cases "upcoming_frames a") auto
  obtain a1 where a1: "allocate_frame a = (Some f, a1)" "upcoming_frames a1 = fs" using boot.alloc_next [OF u] by blast
  show ?case using Cons.IH [of a1] Cons.prems u a1 by (simp add: plain_map_to_def)
qed simp

lemma sample_ring:
  assumes "upcoming_frames a = frame_run t 5 @ fs"
  shows "\<exists>a'. alloc_contiguous allocate_frame (1 + BUFFERS) a = (Some t, a') \<and> upcoming_frames a' = fs"
proof -
  have u: "upcoming_frames a = t # (t + 1 * page_size) # (t + 2 * page_size) # (t + 3 * page_size) # (t + 4 * page_size) # fs"
    using assms by (simp add: frame_run_def upt_rec)
  obtain a1 where a1: "allocate_frame a = (Some t, a1)"
    "upcoming_frames a1 = (t + 1 * page_size) # (t + 2 * page_size) # (t + 3 * page_size) # (t + 4 * page_size) # fs"
    using boot.alloc_next [OF u] by blast
  obtain a2 where a2: "allocate_frame a1 = (Some (t + 1 * page_size), a2)"
    "upcoming_frames a2 = (t + 2 * page_size) # (t + 3 * page_size) # (t + 4 * page_size) # fs"
    using boot.alloc_next [OF a1(2)] by blast
  obtain a3 where a3: "allocate_frame a2 = (Some (t + 2 * page_size), a3)"
    "upcoming_frames a3 = (t + 3 * page_size) # (t + 4 * page_size) # fs" using boot.alloc_next [OF a2(2)] by blast
  obtain a4 where a4: "allocate_frame a3 = (Some (t + 3 * page_size), a4)" "upcoming_frames a4 = (t + 4 * page_size) # fs"
    using boot.alloc_next [OF a3(2)] by blast
  obtain a5 where a5: "allocate_frame a4 = (Some (t + 4 * page_size), a5)" "upcoming_frames a5 = fs"
    using boot.alloc_next [OF a4(2)] by blast
  show ?thesis
    using a1(1) a2(1) a3(1) a4(1) a5
    by (simp add: alloc_contiguous_def alloc_run_numeral extend_run_def BUFFERS_def)
qed

lemma sample_console: "console_ok (console_init (replicate 4096 1)
    \<lparr>fi_width = 40, fi_height = 32, fi_stride = 40, fi_bytes_per_pixel = 3, fi_pixel_format = Bgr\<rparr>)"
  by (simp add: console_ok_def console_init_def clear_def width_chars_def height_chars_def cell_size channels_def)

lemma sample_heap:
  "\<exists>m a heap. boot_heap sample_parts sample_boot 0x10000000000 = Inr ((m, a), heap)
    \<and> upcoming_frames a = frame_run 0x119000 7"
proof -
  let ?a = "frame_allocator_init (boot_regions sample_boot)"
  have u: "upcoming_frames ?a = frame_run 0x100000 32"
    using sample_frames by (simp add: upcoming_frames_def frame_allocator_init_def)
  have l: "length heap_pages = 25" unfolding heap_pages_eq by (simp only: length_map length_upt)
  have "drop 25 (frame_run 0x100000 32) = frame_run 0x119000 7"
    by (simp add: frame_run_def drop_map page_size_def upt_rec del: upt_rec_numeral)
  then obtain m a where "map_pages plain_map_to allocate_frame heap_pages (Map.empty, ?a) = Inr (m, a)"
    "upcoming_frames a = frame_run 0x119000 7"
    using plain_pages [of heap_pages ?a Map.empty] u l by auto
  then show ?thesis by (simp add: boot_heap_def init_heap_def sample_parts_def memory_init_def)
qed

lemma sample_boots:
  "\<exists>k ex ac m a. kernel_main sample_parts (\<lambda>_. []) (\<lambda>_. []) (list_push 100) sample_boot = Running k ex
    \<and> so_card (kn_sound k) = Some ac \<and> ac_buffer_at ac = 0x11A000
    \<and> kn_memory k = Some (m, a) \<and> upcoming_frames a = frame_run 0x11E000 2"
proof -
  obtain m a heap where h: "boot_heap sample_parts sample_boot 0x10000000000 = Inr ((m, a), heap)"
    "upcoming_frames a = frame_run 0x119000 7" using sample_heap by blast
  have "frame_run 0x119000 7 = frame_run 0x119000 5 @ frame_run 0x11E000 2"
    by (simp add: frame_run_def page_size_def upt_rec)
  then obtain a' where a': "alloc_contiguous allocate_frame (1 + BUFFERS) a = (Some 0x119000, a')"
    "upcoming_frames a' = frame_run 0x11E000 2" using sample_ring [of a "0x119000" "frame_run 0x11E000 2"] h(2) by auto
  obtain s where s: "Sound.init sample_bus (sound_statics 0, a) = (Inr (), s, a')"
    "\<exists>ac. so_card s = Some ac \<and> ac_buffer_at ac = 0x11A000"
    unfolding sample_init init_card_def Let_def case_prod_conv a'(1) option.case
    by (auto simp: sample_ports init_ring_def)
  have p: "hw_io sample_parts = sample_bus" "hw_bus sample_parts = 0" "font_ok (hw_font sample_parts)"
    by (simp_all add: sample_parts_def font_ok_def)
  have fb: "framebuffer sample_boot = Some (replicate 4096 1,
      \<lparr>fi_width = 40, fi_height = 32, fi_stride = 40, fi_bytes_per_pixel = 3, fi_pixel_format = Bgr\<rparr>)"
    "physical_memory_offset sample_boot = Some 0x10000000000" by (simp_all add: sample_boot_def)
  have ok: "Inr () \<noteq> Inl exn.Panicked" by simp
  from kernel_main_runs [where hw = sample_parts and new_queue = "\<lambda>_. []" and panic_info = "\<lambda>_. []",
      OF p(3) list_queue.array_queue_axioms refl fb(1) sample_console fb(2) h(1) s(1) [folded p(1,2)] ok]
  show ?thesis using s(2) a'(2) by auto
qed

theorem kernel_boots_witness:
  "\<exists>k ex. kernel_main sample_parts (\<lambda>_. []) (\<lambda>_. []) (list_push 100) sample_boot = Running k ex
    \<and> tasks ex = [0 \<mapsto> Shell_task, 1 \<mapsto> Synth_task] \<and> task_queue ex = [0, 1]
    \<and> so_card (kn_sound k) \<noteq> None \<and> unmasked (kn_masks k) (unat (so_irq (kn_sound k)))"
proof -
  have "font_ok (hw_font sample_parts)" by (simp add: sample_parts_def font_ok_def)
  moreover have "framebuffer sample_boot = Some (replicate 4096 1,
      \<lparr>fi_width = 40, fi_height = 32, fi_stride = 40, fi_bytes_per_pixel = 3, fi_pixel_format = Bgr\<rparr>)"
    by (simp add: sample_boot_def)
  ultimately show ?thesis
    using sample_boots
      kernel_boots [where hw = sample_parts and new_queue = "\<lambda>_. []" and panic_info = "\<lambda>_. []" and bi = sample_boot,
        OF _ list_queue.array_queue_axioms refl _ sample_console]
    by fastforce
qed

theorem frames_have_one_owner_witness:
  "\<exists>k ex m a heap f g. kernel_main sample_parts (\<lambda>_. []) (\<lambda>_. []) (list_push 100) sample_boot = Running k ex
    \<and> ensure_mapped plain_map_to allocate_frame (False, kn_memory k) = (Inr (), True, Some (m, a))
    \<and> distinct (heap @ frame_run 0x119000 5 @ [f, g]) \<and> length heap = 25
    \<and> set (heap @ frame_run 0x119000 5 @ [f, g]) \<subseteq> set (frame_run 0x100000 32)"
proof -
  obtain k ex ac m a where k: "kernel_main sample_parts (\<lambda>_. []) (\<lambda>_. []) (list_push 100) sample_boot = Running k ex"
    "so_card (kn_sound k) = Some ac" "ac_buffer_at ac = 0x11A000"
    "kn_memory k = Some (m, a)" "upcoming_frames a = frame_run 0x11E000 2" using sample_boots by blast
  have u: "upcoming_frames a = [0x11E000, 0x11F000]" using k(5) by (simp add: frame_run_def page_size_def upt_rec)
  obtain a1 where a1: "allocate_frame a = (Some 0x11E000, a1)" "upcoming_frames a1 = [0x11F000]"
    using boot.alloc_next [OF u] by blast
  obtain a2 where a2: "allocate_frame a1 = (Some 0x11F000, a2)" using boot.alloc_next [OF a1(2)] by blast
  obtain mem where e: "ensure_mapped plain_map_to allocate_frame (False, kn_memory k) = (Inr (), True, mem)"
    using a1(1) a2 k(4) by (simp add: ensure_mapped_def map_user_page_def plain_map_to_def)
  have c: "card_frames (kn_sound k) = frame_run 0x119000 5"
    using k(2,3) by (simp add: card_frames_def BUFFERS_def page_size_def)
  have d: "distinct (usable_frames (boot_regions sample_boot))"
    unfolding sample_frames by (simp add: frame_run_def distinct_map inj_on_def page_size_def del: upt_rec_numeral)
  have hw: "hw_map_to sample_parts = plain_map_to" by (simp add: sample_parts_def)
  obtain m' a' heap f g where o: "mem = Some (m', a')"
    "distinct (heap @ card_frames (kn_sound k) @ [f, g] @ upcoming_frames a')"
    "set (heap @ card_frames (kn_sound k) @ [f, g] @ upcoming_frames a') \<subseteq> set (usable_frames (boot_regions sample_boot))"
    "map m' heap_pages = map (\<lambda>x. Some (x, [Present, Writable])) heap"
    using frames_have_one_owner [OF _ d k(1), unfolded hw, OF plain_mapper_ok e] by blast
  have "length (map m' heap_pages) = length heap" unfolding o(4) by (simp only: length_map)
  moreover have "length heap_pages = 25" unfolding heap_pages_eq by (simp only: length_map length_upt)
  ultimately have "length heap = 25" by (simp only: length_map)
  moreover have "distinct (heap @ frame_run 0x119000 5 @ [f, g])" using o(2) unfolding c by (simp only: distinct_append) auto
  moreover have "set (heap @ frame_run 0x119000 5 @ [f, g]) \<subseteq> set (frame_run 0x100000 32)"
    using o(3) unfolding c sample_frames by (simp only: set_append) blast
  ultimately show ?thesis using k(1) e unfolding o(1) by blast
qed

end
