(* ===== verification/Spec2Isabelle.thy ===== *)
theory Spec2Isabelle
  imports Verse Driver Transcribe Keyboard Executor Memory Printing Check_Total Sound Console Usermode Celebrare Shell Messages Boot
begin

text \<open>
  A verification of \<open>rust_freestanding\<close>: a small x86-64 kernel that carries the interpreter of Officium, a
  language whose programs are sung, and the crates of that language, which also run on a host.

  \<^bold>\<open>The program and its parts.\<close> A score is text. The lexer and the parser (\<open>officium-parse\<close>) make it a program of
  fugues, with their pedals, overloads and verses; the static checker (\<open>officium-core/src/check.rs\<close>) refuses the programs it
  finds no typing for; the organ (\<open>officium-audio\<close>) turns a program into notes, and a played phrase back into
  a score; the machine (\<open>officium-core/src/machine.rs\<close>) runs a verse on a budget of fuel, in a tower of effects that its
  mode fixes. One effect leaves the interpreter: a verse in the Mixolydian mode commits a plan, whose commands the
  driver sends to the gravity sink. Two drivers do all of that: \<open>celebrare\<close> in the kernel and \<open>main\<close> of \<open>officium-host\<close>.
  Around the kernel's driver stand the boot, the frame allocator and the heap, the console, the devices (speaker, PCI,
  interrupt controllers, keyboard, timer, the AC97 card), a cooperative executor of two tasks (the shell and the
  synthesizer) that interrupts wake, and a process in ring 3 behind a system call gate.

  \<^bold>\<open>Theories and sources.\<close> Every theory names its files and states its correspondence at its head.

  \<^item> \<open>Prelude\<close>: Rust's \<open>Result\<close> with panics as values, \<open>?\<close>, searches, decimal printing. \<open>Float64\<close>: \<open>f64\<close>.
  \<^item> \<open>Types\<close>, \<open>Env\<close>, \<open>Builtins\<close>, \<open>Machine\<close>: \<open>types.rs\<close>, \<open>ir.rs\<close>, \<open>env.rs\<close>, \<open>builtins.rs\<close>, \<open>machine.rs\<close> of \<open>officium-core\<close>.
    \<open>Machine_Inv\<close> is the invariant of the machine, \<open>Fuel\<close> what a run in slices is, \<open>Semantics\<close> the reference interpreter and
    \<open>Adequacy\<close> the converse of its simulation; \<open>Verse\<close> has the properties of a run.
  \<^item> \<open>Unify\<close>, \<open>Check\<close>: \<open>check.rs\<close>. \<open>Typing\<close> has the declarative rules, \<open>Principal\<close> shows that inference finds every
    typing, \<open>Checked\<close> that a verse passes exactly when it has one, \<open>Check_Total\<close> when the checker returns.
  \<^item> \<open>Lexer\<close>, \<open>Parser\<close>: \<open>lexer.rs\<close>, \<open>parser.rs\<close>. \<open>Printing\<close> is a printer of which the parser is the inverse.
  \<^item> \<open>Organ\<close>, \<open>Transcribe\<close>: \<open>degree_op.rs\<close>, \<open>render.rs\<close>, \<open>transcribe.rs\<close> of \<open>officium-audio\<close>.
  \<^item> \<open>Driver\<close>: running the verses, in \<open>kernel/src/celebrare.rs\<close> and in the host's \<open>main.rs\<close>. \<open>Scores\<close>: the two scores that
    are built in. \<open>Celebrare\<close>: the whole command, \<open>play\<close>, and the host's \<open>main\<close>.
  \<^item> \<open>Wakeup\<close>: the wake-up protocol. \<open>Keyboard\<close>: \<open>task/keyboard.rs\<close>, \<open>task/timer.rs\<close> and their interrupt handlers.
    \<open>Executor\<close>: \<open>task/executor.rs\<close>, \<open>task/mod.rs\<close>.
  \<^item> \<open>Memory\<close>: \<open>memory.rs\<close>, \<open>allocator.rs\<close>. \<open>Devices\<close>: \<open>speaker.rs\<close>, \<open>pci.rs\<close>, \<open>interrupts.rs\<close>. \<open>Sound\<close>: \<open>ac97.rs\<close>.
    \<open>Console\<close>: \<open>console.rs\<close>, \<open>vga_buffer.rs\<close>. \<open>Usermode\<close>: \<open>usermode.rs\<close> and the selectors of \<open>gdt.rs\<close>.
  \<^item> \<open>Shell\<close>: \<open>task/shell.rs\<close>. \<open>Messages\<close>: the texts that the kernel prints, and the screen after the calls of a session.
    \<open>Boot\<close>: \<open>main.rs\<close>, the stacks and segments of \<open>gdt.rs\<close>, the exception handlers.

  \<^bold>\<open>How the code becomes definitions.\<close> Structures are records, enumerations datatypes, statics fields of a state that is
  passed along, and fallible code returns a sum whose left side is an error or the panic. Machine integers are words where
  they can wrap, panics where the profile of the build checks a sum that the input can overflow (the voice of a verse), and numbers where the code adds them below a bound that is stated. Loops are recursion; a recursion that
  need not end is an option (\<open>None\<close> is a call that does not return) or has fuel. What a task of the kernel does to the console,
  the speaker and the card is a list of calls (\<open>kcall\<close>), which \<open>Celebrare\<close> and \<open>Shell\<close> fold over the models of those devices. A
  future is a poll function (\<open>Executor\<close>), a step relation with interrupts between the steps (\<open>Wakeup\<close>), or a function of
  the scancodes to come (\<open>Shell\<close>).

  \<^bold>\<open>Interfaces.\<close> \<open>resumable\<close> (a paused machine and its drivers), \<open>gravity_platform\<close> (the sink), \<open>frame_source\<close> (frames, for the
  heap, the card and userspace), \<open>array_queue\<close>, \<open>task_queues\<close> and \<open>byte_queue\<close> (the queues of interrupts and tasks) and
  \<open>event_source\<close> (a future that waits for an interrupt), each with its interpretations on the definitions of the model.

  \<^bold>\<open>What is shown.\<close>

  \<^item> The language: the machine is its reference interpreter; a run never panics and ends as its mode allows; only
    a Mixolydian verse commits; a throw reaches the nearest handler of its layer.
  \<^item> The checker decides the typing rules, finds most general unifiers, returns when overloads resolve downwards (and does
    not when one resolves itself), and keeps the promise of legality, in the overloads that a verse reaches too. The parser inverts the printer, through the lexer.
  \<^item> Sound: hearing inverts rendering, a rendered verse transcribes, a score sounds as it is rendered, and the synthesizer
    and its refills are exact and never clip or lose a page.
  \<^item> The drivers: slices do not matter, a run of a verse always comes back, the sink gets the committed plan and nothing else,
    every end of \<open>celebrare\<close> is known (a refused score has no effect but a message; a score of more than 254 verses panics
    when there is a card), and the host does what the kernel does.
  \<^item> The kernel: no task sleeps on input, time or sound that has come; the executor forgets no task and is fair; the frames of
    heap, card and process are disjoint; the console shows the text; the boot ends in the executor or on its panic;
    a system call keeps the process; the shell crashes exactly when it celebrates a score that must, is silent at its prompt, and the framebuffer shows the line that it will
    run and why a score is refused; its organ sounds the keys that are held.

  \<^bold>\<open>Bounds and fuel.\<close> \<open>FUEL_SLICE\<close> (20000), \<open>MAX_SLICES\<close> (500), 4096 frames for a row of frames, 100000 reads for a reset and eight
  voices are the code's. The machine's fuel is the code's too, and the theorems on results are for some fuel or for any slice. The
  fuel of the reference interpreter is existential. The ring 3 program is run for twelve instructions or more: it leaves by \<open>SYS_EXIT\<close> with its
  twelfth. The checker has no fuel: it is a partial function, shown total on programs whose overloads resolve downwards.
  \<open>run_ready_tasks\<close> has fuel because tasks may wake each other for ever; its properties are about turns.

  \<^bold>\<open>Parameters and hypotheses.\<close> Crates and hardware are arguments: \<open>AtomicWaker\<close> (\<open>atomic_waker_ok\<close>), \<open>ArrayQueue\<close> (\<open>array_queue\<close>),
  the page mapper of \<open>x86_64\<close> (\<open>mapper_ok\<close>), \<open>font8x8\<close> (\<open>font_ok\<close>), \<open>pc_keyboard\<close>, \<open>libm\<close>, the ports (\<open>bus\<close>, with \<open>config_mechanism\<close> for PCI), what a
  compiled C function does to registers and stack (\<open>callee\<close>, with \<open>stacks_apart\<close>), the boot loader's memory map and
  framebuffer, and the file the host reads. A hypothesis states what the documentation of that code promises, and every property
  that has one has a witness in which the parameter is a concrete function. \<open>tuned\<close> says of \<open>libm\<close> what a score or a hand on the
  keys needs: that different pitches have different frequencies, which are below the sampling rate.

  \<^bold>\<open>Not modelled.\<close> The texts of the host's messages (they are values, one constructor per message), the digits of a printed
  \<open>f64\<close> and the derived \<open>Debug\<close> of values; the allocator inside the heap; interrupts between the statements of the boot after
  they are enabled; time, beyond ticks; crate roots that only re-export; the boot loader's configuration, the build script,
  the QEMU launcher and the tests.
\<close>

end
